(* ===== verification/Prelude.thy ===== *)
theory Prelude
  imports Main "HOL-Library.Word" "HOL-Library.Monad_Syntax" "HOL-Library.Sublist"
begin

text \<open>
  Shared vocabulary of the development.

  \<^item> The C outcome: an operation returns \<open>'a option\<close>.  \<open>None\<close> stands for everything
    after which the C program has no defined continuation: a failed \<^verbatim>\<open>assert\<close>, a
    dereference of \<^verbatim>\<open>NULL\<close> or of freed memory, a read or write outside an array, or a
    loop that never ends.  A theorem that an operation equals \<open>Some r\<close> therefore states
    memory safety, success of every assertion and termination at once.
  \<^item> Pointers: \<open>nat option\<close> with \<open>None\<close> for \<^verbatim>\<open>NULL\<close>; a store maps addresses to
    the live objects of one C type, so \<^verbatim>\<open>free\<close> removes the address.
  \<^item> Bytes, byte arrays and the big-endian bit string of a byte array.
  \<^item> Generic lemmas on lists, bits and words that the components share, most of them in
    the collections \<open>ptr_simps\<close> and \<open>bits_simps\<close>.
\<close>

unbundle bit_operations_syntax

named_theorems ptr_simps \<open>pointer and store simplification\<close>
named_theorems bits_simps \<open>bit strings of byte arrays\<close>

subsection \<open>Pointers, stores and assertions\<close>

type_synonym ptr = "nat option"
type_synonym 'a store = "nat \<rightharpoonup> 'a"
type_synonym byte = "8 word"
type_synonym bytes = "byte list"

abbreviation NULL :: ptr where
  "NULL \<equiv> None"

text \<open>\<^verbatim>\<open>*p\<close>: undefined for \<^verbatim>\<open>NULL\<close> and for an address that is not live.\<close>

definition deref :: "'a store \<Rightarrow> ptr \<Rightarrow> 'a option" where
  "deref s p = Option.bind p s"

lemma deref_simps [simp, ptr_simps]:
  "deref s None = None"
  "deref s (Some a) = s a"
  by (simp_all add: deref_def)

lemma deref_Some_iff [ptr_simps]: "deref s p = Some v \<longleftrightarrow> (\<exists>a. p = Some a \<and> s a = Some v)"
  by (cases p) auto

definition c_assert :: "bool \<Rightarrow> unit option" where
  "c_assert b = (if b then Some () else None)"

lemma c_assert_simps [simp]:
  "c_assert True = Some ()"
  "c_assert False = None"
  by (simp_all add: c_assert_def)

lemma c_assert_eq_Some [simp]: "c_assert b = Some u \<longleftrightarrow> b"
  by (simp add: c_assert_def)

lemma bind_c_assert [simp]: "(c_assert b \<bind> f) = (if b then f () else None)"
  by (simp add: c_assert_def)

text \<open>\<^verbatim>\<open>a[i]\<close> on an array: undefined outside its bounds.\<close>

definition c_nth :: "'a list \<Rightarrow> nat \<Rightarrow> 'a option" where
  "c_nth xs i = (if i < length xs then Some (xs ! i) else None)"

lemma c_nth_Some [simp]: "i < length xs \<Longrightarrow> c_nth xs i = Some (xs ! i)"
  by (simp add: c_nth_def)

lemma c_nth_eq_Some: "c_nth xs i = Some x \<longleftrightarrow> i < length xs \<and> xs ! i = x"
  by (auto simp: c_nth_def)

text \<open>A read of the first \<open>n\<close> elements (\<^verbatim>\<open>memcpy\<close>, \<^verbatim>\<open>memcmp\<close>).\<close>

definition c_take :: "nat \<Rightarrow> 'a list \<Rightarrow> 'a list option" where
  "c_take n xs = (if n \<le> length xs then Some (take n xs) else None)"

lemma c_take_Some [simp]: "n \<le> length xs \<Longrightarrow> c_take n xs = Some (take n xs)"
  by (simp add: c_take_def)

lemma c_take_eq_Some: "c_take n xs = Some ys \<longleftrightarrow> n \<le> length xs \<and> ys = take n xs"
  by (auto simp: c_take_def)

subsection \<open>Bit strings\<close>

text \<open>The eight bits of a byte, most significant first, and the bit string of an array.\<close>

definition byte_bits :: "byte \<Rightarrow> bool list" where
  "byte_bits b = map (\<lambda>j. bit b (7 - j)) [0..<8]"

definition bits_of :: "bytes \<Rightarrow> bool list" where
  "bits_of bs = concat (map byte_bits bs)"

lemma length_byte_bits [simp, bits_simps]: "length (byte_bits b) = 8"
  by (simp add: byte_bits_def)

lemma bits_of_simps [simp, bits_simps]:
  "bits_of [] = []"
  "bits_of (b # bs) = byte_bits b @ bits_of bs"
  by (simp_all add: bits_of_def)

lemma length_bits_of [simp, bits_simps]: "length (bits_of bs) = 8 * length bs"
  by (induction bs) auto

lemma bits_of_append [simp, bits_simps]: "bits_of (as @ bs) = bits_of as @ bits_of bs"
  by (induction as) auto

lemma nth_byte_bits [bits_simps]: "j < 8 \<Longrightarrow> byte_bits b ! j = bit b (7 - j)"
  by (simp add: byte_bits_def)

lemma nth_bits_of [bits_simps]:
  "i < 8 * length bs \<Longrightarrow> bits_of bs ! i = bit (bs ! (i div 8)) (7 - i mod 8)"
proof (induction bs arbitrary: i)
  case Nil
  then show ?case by simp
next
  case (Cons b bs)
  show ?case
  proof (cases "i < 8")
    case True
    then show ?thesis by (simp add: nth_append nth_byte_bits)
  next
    case False
    then have "i div 8 = Suc ((i - 8) div 8)" and "(i - 8) mod 8 = i mod 8"
      by (simp_all add: le_div_geq le_mod_geq)
    with False Cons show ?thesis by (simp add: nth_append)
  qed
qed

lemma byte_bits_inj [bits_simps]: "byte_bits a = byte_bits b \<longleftrightarrow> a = b"
proof
  assume eq: "byte_bits a = byte_bits b"
  show "a = b"
  proof (rule bit_word_eqI)
    fix n :: nat
    assume "n < LENGTH(8)"
    then have "7 - n < 8" and "7 - (7 - n) = n" by auto
    with eq show "bit a n = bit b n" by (metis nth_byte_bits)
  qed
qed simp

lemma take_bits_of [bits_simps]: "take (8 * n) (bits_of bs) = bits_of (take n bs)"
proof (induction bs arbitrary: n)
  case Nil
  then show ?case by simp
next
  case (Cons b bs)
  then show ?case by (cases n) simp_all
qed

lemma bits_of_inj: "length as = length bs \<Longrightarrow> bits_of as = bits_of bs \<longleftrightarrow> as = bs"
  by (induction as bs rule: list_induct2) (auto simp: byte_bits_inj)

subsection \<open>Bytes and masks\<close>

lemma and7_mod8: "(b::nat) AND 7 = b mod 8"
proof -
  have "(7::nat) = mask 3" by (simp add: mask_eq_exp_minus_1)
  then have "b AND 7 = take_bit 3 b" by (simp only: take_bit_eq_mask)
  then show ?thesis by (simp add: take_bit_eq_mod)
qed

lemma drop_bit_0x80: "k < 8 \<Longrightarrow> drop_bit k (0x80 :: byte) = 2 ^ (7 - k)"
proof -
  assume k: "k < 8"
  have p: "(0x80 :: byte) = 2 ^ 7" by simp
  have "drop_bit k (2 ^ 7 :: byte) = 2 ^ (7 - k)"
    by (rule bit_word_eqI)
       (use k in \<open>auto simp: bit_drop_bit_eq bit_exp_iff simp del: power_numeral\<close>)
  then show ?thesis unfolding p .
qed

lemma masked_byte_eq:
  fixes x y :: byte
  assumes "k < 8"
  shows "uint x AND NOT (mask (8 - k)) = uint y AND NOT (mask (8 - k)) \<longleftrightarrow>
         take k (byte_bits x) = take k (byte_bits y)"
    (is "?L = ?R")
proof -
  have "?L \<longleftrightarrow> (\<forall>n. 8 - k \<le> n \<longrightarrow> bit x n = bit y n)"
  proof
    assume eq: ?L
    show "\<forall>n. 8 - k \<le> n \<longrightarrow> bit x n = bit y n"
    proof (intro allI impI)
      fix n assume n: "8 - k \<le> n"
      have "bit (uint x AND NOT (mask (8 - k))) n = bit (uint y AND NOT (mask (8 - k))) n"
        by (simp only: eq)
      with n show "bit x n = bit y n"
        by (auto simp: bit_and_iff bit_not_iff bit_mask_iff bit_uint_iff dest: bit_imp_le_length)
    qed
  next
    assume a: "\<forall>n. 8 - k \<le> n \<longrightarrow> bit x n = bit y n"
    show ?L
      by (rule bit_eqI)
         (use a in \<open>auto simp: bit_and_iff bit_not_iff bit_mask_iff bit_uint_iff not_less\<close>)
  qed
  also have "\<dots> \<longleftrightarrow> (\<forall>j < k. bit x (7 - j) = bit y (7 - j))" (is "?A \<longleftrightarrow> ?B")
  proof
    assume ?A
    then show ?B using assms by simp
  next
    assume b: ?B
    have "bit x n = bit y n" if "8 - k \<le> n" for n
    proof (cases "n < 8")
      case True
      with that assms have "7 - n < k" "7 - (7 - n) = n" by auto
      with b show ?thesis by metis
    next
      case False
      then show ?thesis using bit_imp_le_length [of x n] bit_imp_le_length [of y n] by auto
    qed
    then show ?A by blast
  qed
  also have "\<dots> \<longleftrightarrow> ?R"
    using assms by (auto simp: list_eq_iff_nth_eq nth_byte_bits)
  finally show ?thesis .
qed

lemma bits_of_drop: "drop (8 * n) (bits_of bs) = bits_of (drop n bs)"
proof (induction bs arbitrary: n)
  case Nil
  then show ?case by simp
next
  case (Cons b bs)
  then show ?case by (cases n) simp_all
qed

lemma take_bits_of_split:
  assumes "k < 8" "0 < k" "n < length bs"
  shows "take k (drop (8 * n) (bits_of bs)) = take k (byte_bits (bs ! n))"
  using assms by (simp add: bits_of_drop Cons_nth_drop_Suc [symmetric])

lemma unat_byte_le: "unat (b :: byte) \<le> 255"
proof -
  have "unat b < 2 ^ LENGTH(8)" by (rule unsigned_less)
  then show ?thesis by simp
qed

lemma take_bits_take: "n \<le> 8 * m \<Longrightarrow> take n (bits_of (take m bs @ cs)) = take n (bits_of bs)"
  if "m \<le> length bs"
  using that by (simp add: take_bits_of [symmetric])

subsection \<open>Lists\<close>

lemma take_eq_take_le: "take n xs = take n ys \<Longrightarrow> m \<le> n \<Longrightarrow> take m xs = take m ys"
  by (metis min.absorb1 take_take)

lemma take_Suc_eq_iff:
  "n < length xs \<Longrightarrow> n < length ys \<Longrightarrow>
   take (Suc n) xs = take (Suc n) ys \<longleftrightarrow> take n xs = take n ys \<and> xs ! n = ys ! n"
  by (auto simp: take_Suc_conv_app_nth)

lemma take_add_eq_iff:
  "take (m + n) xs = take (m + n) ys \<longleftrightarrow>
   take m xs = take m ys \<and> take n (drop m xs) = take n (drop m ys)"
  if "m \<le> length xs" and "m \<le> length ys"
  using that by (simp add: take_add)

lemma prefix_conv_take: "prefix p xs \<longleftrightarrow> take (length p) xs = p"
  by (metis append_eq_conv_conj prefix_def take_is_prefix)

lemma prefix_snoc_conv:
  "prefix (p @ [b]) xs \<longleftrightarrow> prefix p xs \<and> length p < length xs \<and> xs ! length p = b"
proof
  assume "prefix (p @ [b]) xs"
  then show "prefix p xs \<and> length p < length xs \<and> xs ! length p = b"
    by (auto simp: prefix_def nth_append)
next
  assume a: "prefix p xs \<and> length p < length xs \<and> xs ! length p = b"
  then have "take (Suc (length p)) xs = p @ [b]"
    by (simp add: take_Suc_conv_app_nth prefix_conv_take)
  then show "prefix (p @ [b]) xs" by (metis take_is_prefix)
qed

text \<open>The position of the first element with a property.\<close>

fun find_index :: "('a \<Rightarrow> bool) \<Rightarrow> 'a list \<Rightarrow> nat option" where
  "find_index P [] = None"
| "find_index P (x # xs) = (if P x then Some 0 else map_option Suc (find_index P xs))"

lemma find_index_Some: "find_index P xs = Some i \<Longrightarrow> i < length xs \<and> P (xs ! i)"
  by (induction xs arbitrary: i) (auto split: if_splits)

lemma find_index_None: "find_index P xs = None \<longleftrightarrow> (\<forall>x\<in>set xs. \<not> P x)"
  by (induction xs) auto

text \<open>Words made of small numbers.\<close>

lemma unat_of_nat_small: "n < 2 ^ LENGTH('a) \<Longrightarrow> unat (of_nat n :: 'a::len word) = n"
  by (simp add: unat_of_nat take_bit_eq_mod)

end
