(* ===== verification/Prefix.thy ===== *)
theory Prefix
  imports Prelude
begin

text \<open>
  The address prefixes of \<^verbatim>\<open>Database_perf_test/patricia.c\<close> (the part "from prefix.c"):
  the structure \<^verbatim>\<open>prefix_t\<close>, masked comparison, the conversions between text and
  prefixes, allocation and reference counting.  The build modelled is the one of
  \<^verbatim>\<open>Makefile.Libtool.template\<close> (\<^verbatim>\<open>HAVE_IPV6\<close> and \<^verbatim>\<open>USE_DEMO_CODE\<close> defined,
  \<^verbatim>\<open>NT\<close> and \<^verbatim>\<open>USE_CUSTOM_INET\<close> not).  The C library's IPv6 conversions
  \<^verbatim>\<open>inet_pton\<close> and \<^verbatim>\<open>inet_ntop\<close> are parameters of the definitions that call them.
  The lemmas show that the masked comparison is equality of leading bits, that printing and
  parsing are inverse to each other, and what the reference counts do.
\<close>

subsection \<open>The structure prefix_t and its store\<close>

definition AF_INET :: nat where "AF_INET = 2"
definition AF_INET6 :: nat where "AF_INET6 = 10"
definition MAXLINE :: nat where "MAXLINE = 1024"

lemma AF_distinct [simp]: "AF_INET6 \<noteq> AF_INET" "AF_INET \<noteq> AF_INET6" "AF_INET \<noteq> 0" "AF_INET6 \<noteq> 0"
  by (simp_all add: AF_INET_def AF_INET6_def)

text \<open>\<^verbatim>\<open>family\<close> and \<^verbatim>\<open>bitlen\<close> are 16-bit unsigned; \<^verbatim>\<open>add\<close> is the union of an IPv4
  and an IPv6 address, 16 bytes of which an IPv4 prefix uses the first four.\<close>

record prefix_t =
  family :: nat
  bitlen :: nat
  ref_count :: int
  add :: bytes

record pworld =
  pfx :: "prefix_t store"
  brk :: nat

definition zero_prefix :: prefix_t where
  "zero_prefix = \<lparr>family = 0, bitlen = 0, ref_count = 0, add = replicate 16 0\<rparr>"

definition wf_prefix :: "prefix_t \<Rightarrow> bool" where
  "wf_prefix p \<longleftrightarrow> length (add p) = 16 \<and> bitlen p \<le> 128 \<and>
     (family p = AF_INET \<and> bitlen p \<le> 32 \<or> family p = AF_INET6)"

text \<open>What a prefix denotes: its leading \<^verbatim>\<open>bitlen\<close> bits.\<close>

definition pkey :: "prefix_t \<Rightarrow> bool list" where
  "pkey p = take (bitlen p) (bits_of (add p))"

lemma length_pkey [simp]: "wf_prefix p \<Longrightarrow> length (pkey p) = bitlen p"
  by (simp add: pkey_def wf_prefix_def)

lemma nth_pkey: "i < length (pkey p) \<Longrightarrow> bits_of (add p) ! i = pkey p ! i"
  by (simp add: pkey_def)

subsection \<open>Bytes of a prefix and masked comparison\<close>

definition prefix_tochar :: "prefix_t option \<Rightarrow> bytes option" where
  "prefix_tochar pre = (case pre of None \<Rightarrow> None | Some p \<Rightarrow> Some (add p))"

definition BIT_TEST :: "byte \<Rightarrow> byte \<Rightarrow> bool" where
  "BIT_TEST f b \<longleftrightarrow> f AND b \<noteq> 0"

text \<open>\<^verbatim>\<open>BIT_TEST (addr[b >> 3], 0x80 >> (b & 0x07))\<close>.\<close>

definition addr_bit :: "bytes \<Rightarrow> nat \<Rightarrow> bool option" where
  "addr_bit addr b = do {
     c \<leftarrow> c_nth addr (drop_bit 3 b);
     Some (BIT_TEST c (drop_bit (b AND 7) 0x80))
   }"

definition comp_with_mask :: "bytes \<Rightarrow> bytes \<Rightarrow> nat \<Rightarrow> bool option" where
  "comp_with_mask addr dest msk = do {
     a \<leftarrow> c_take (msk div 8) addr;
     d \<leftarrow> c_take (msk div 8) dest;
     if a = d then
       (let n = msk div 8; m = push_bit (8 - msk mod 8) (-1 :: int) in
        if msk mod 8 = 0 then Some True
        else do {
          x \<leftarrow> c_nth addr n;
          y \<leftarrow> c_nth dest n;
          Some (uint x AND m = uint y AND m)
        })
     else Some False
   }"

subsection \<open>Text to address\<close>

definition isdigit :: "char \<Rightarrow> bool" where
  "isdigit c \<longleftrightarrow> (48::nat) \<le> of_char c \<and> of_char c \<le> (57::nat)"

abbreviation NUL :: char where
  "NUL \<equiv> CHR 0x00"

text \<open>The inner \<^verbatim>\<open>do ... while (c && isdigit (c))\<close>: \<open>None\<close> is its \<^verbatim>\<open>return (0)\<close>; otherwise
  the value, the character that ended the number and the rest of the string.\<close>

fun pton_digits :: "int \<Rightarrow> char \<Rightarrow> string \<Rightarrow> (int \<times> char \<times> string) option" where
  "pton_digits val c src =
     (let val = val * 10 + of_char c - 48 in
      if val > 255 then None
      else (case src of
              [] \<Rightarrow> Some (val, NUL, [])
            | c' # src' \<Rightarrow> if c' \<noteq> NUL \<and> isdigit c' then pton_digits val c' src'
                         else Some (val, c', src')))"

declare pton_digits.simps [simp del]

lemma pton_digits_shorter:
  "pton_digits val c src = Some (v, c', src') \<Longrightarrow> length src' \<le> length src"
proof (induction val c src arbitrary: v c' src' rule: pton_digits.induct)
  case (1 val c src)
  show ?case
    using "1.prems" "1.IH" unfolding pton_digits.simps [of val c src]
    by (fastforce simp: Let_def split: if_splits list.splits)
qed

text \<open>The outer loop: the return code and, on success, the four bytes of \<^verbatim>\<open>xp\<close>.\<close>

function pton_loop :: "nat \<Rightarrow> bytes \<Rightarrow> string \<Rightarrow> int \<times> bytes option" where
  "pton_loop i xp src =
     (case src of
        [] \<Rightarrow> (-1, None)
      | c # src1 \<Rightarrow>
          if \<not> isdigit c then (-1, None)
          else (case pton_digits 0 c src1 of
                  None \<Rightarrow> (0, None)
                | Some (val, c', src2) \<Rightarrow>
                    let xp = xp[i := word_of_int val] in
                    if c' = NUL then (1, Some xp)
                    else if c' \<noteq> CHR ''.'' then (0, None)
                    else if i \<ge> 3 then (0, None)
                    else pton_loop (i + 1) xp src2))"
  by pat_completeness auto
termination
  by (relation "measure (\<lambda>(i, xp, src). length src)") (auto dest!: pton_digits_shorter)

declare pton_loop.simps [simp del]

definition my_inet_pton :: "(string \<Rightarrow> bytes option) \<Rightarrow> nat \<Rightarrow> string \<Rightarrow> int \<times> bytes option" where
  "my_inet_pton inet_pton6 af src =
     (if af = AF_INET then pton_loop 0 [0, 0, 0, 0] src
      else if af = AF_INET6 then
        (case inet_pton6 src of None \<Rightarrow> (0, None) | Some b \<Rightarrow> (1, Some b))
      else (-1, None))"

subsection \<open>Prefix to text\<close>

definition digit_char :: "nat \<Rightarrow> char" where
  "digit_char d = char_of (48 + d)"

text \<open>\<^verbatim>\<open>sprintf\<close> of a non-negative number with \<^verbatim>\<open>%d\<close>.\<close>

fun dec :: "nat \<Rightarrow> string" where
  "dec n = (if n < 10 then [digit_char n] else dec (n div 10) @ [digit_char (n mod 10)])"

declare dec.simps [simp del]

definition dotted :: "byte \<Rightarrow> byte \<Rightarrow> byte \<Rightarrow> byte \<Rightarrow> string" where
  "dotted a b c d =
     dec (unat a) @ CHR ''.'' # dec (unat b) @ CHR ''.'' # dec (unat c) @ CHR ''.'' # dec (unat d)"

text \<open>The static ring of sixteen buffers that \<^verbatim>\<open>prefix_toa2x\<close> hands out when the caller gives
  none; \<^verbatim>\<open>i\<close> is an unsigned int that wraps.\<close>

record toa_buffer =
  buffs :: "string list"
  bufi :: "32 word"

datatype toa_result = ToaNullText | ToaText string | ToaNULL

text \<open>The text that ends up in the buffer, \<open>None\<close> where an assertion of the body fails.\<close>

definition toa_text ::
  "(bytes \<Rightarrow> string option) \<Rightarrow> string \<Rightarrow> prefix_t \<Rightarrow> bool \<Rightarrow> toa_result option" where
  "toa_text inet_ntop6 old pre with_len =
     (if family pre = AF_INET then do {
        c_assert (bitlen pre \<le> 32);
        a0 \<leftarrow> c_nth (add pre) 0;
        a1 \<leftarrow> c_nth (add pre) 1;
        a2 \<leftarrow> c_nth (add pre) 2;
        a3 \<leftarrow> c_nth (add pre) 3;
        Some (ToaText (if with_len then dotted a0 a1 a2 a3 @ CHR ''/'' # dec (bitlen pre)
                       else dotted a0 a1 a2 a3))
      }
      else if family pre = AF_INET6 then
        (case inet_ntop6 (add pre) of
           None \<Rightarrow> Some (ToaText old)
         | Some r \<Rightarrow>
             if with_len then do {
               c_assert (bitlen pre \<le> 128);
               Some (ToaText (r @ CHR ''/'' # dec (bitlen pre)))
             }
             else Some (ToaText r))
      else Some ToaNULL)"

text \<open>\<open>buff\<close> is the previous content of the caller's buffer, \<open>None\<close> for \<^verbatim>\<open>NULL\<close>.\<close>

definition prefix_toa2x ::
  "(bytes \<Rightarrow> string option) \<Rightarrow> toa_buffer \<Rightarrow> prefix_t option \<Rightarrow> string option \<Rightarrow> bool
     \<Rightarrow> (toa_result \<times> toa_buffer) option" where
  "prefix_toa2x inet_ntop6 lb pre buff with_len =
     (case pre of
        None \<Rightarrow> Some (ToaNullText, lb)
      | Some p \<Rightarrow> do {
          c_assert (ref_count p \<ge> 0);
          (case buff of
             None \<Rightarrow> do {
               let slot = unat (bufi lb) mod 16;
               let lb = lb\<lparr>bufi := bufi lb + 1\<rparr>;
               old \<leftarrow> c_nth (buffs lb) slot;
               r \<leftarrow> toa_text inet_ntop6 old p with_len;
               Some (r, (case r of ToaText s \<Rightarrow> lb\<lparr>buffs := (buffs lb)[slot := s]\<rparr> | _ \<Rightarrow> lb))
             }
           | Some old \<Rightarrow> do {
               r \<leftarrow> toa_text inet_ntop6 old p with_len;
               Some (r, lb)
             })
        })"

definition prefix_toa2 ::
  "(bytes \<Rightarrow> string option) \<Rightarrow> toa_buffer \<Rightarrow> prefix_t option \<Rightarrow> string option
     \<Rightarrow> (toa_result \<times> toa_buffer) option" where
  "prefix_toa2 inet_ntop6 lb pre buff = prefix_toa2x inet_ntop6 lb pre buff False"

definition prefix_toa ::
  "(bytes \<Rightarrow> string option) \<Rightarrow> toa_buffer \<Rightarrow> prefix_t option \<Rightarrow> (toa_result \<times> toa_buffer) option" where
  "prefix_toa inet_ntop6 lb pre = prefix_toa2 inet_ntop6 lb pre None"

subsection \<open>Allocation and reference counts\<close>

definition calloc_prefix :: "'z pworld_scheme \<Rightarrow> nat \<times> 'z pworld_scheme" where
  "calloc_prefix w = (brk w, w\<lparr>pfx := (pfx w)(brk w \<mapsto> zero_prefix), brk := Suc (brk w)\<rparr>)"

text \<open>The branch of one address family, copying \<open>n\<close> bytes; the assignment to the 16-bit field
  \<^verbatim>\<open>bitlen\<close> truncates.\<close>

definition New_Prefix2_family ::
  "'z pworld_scheme \<Rightarrow> nat \<Rightarrow> bytes \<Rightarrow> int \<Rightarrow> ptr \<Rightarrow> nat \<Rightarrow> int \<Rightarrow> (ptr \<times> 'z pworld_scheme) option" where
  "New_Prefix2_family w fam dest blen pre n default_bitlen = do {
     let dynamic_allocated = (pre = NULL);
     let (q, w) = (case pre of None \<Rightarrow> calloc_prefix w | Some a \<Rightarrow> (a, w));
     p \<leftarrow> pfx w q;
     d \<leftarrow> c_take n dest;
     let p = p\<lparr>family := fam,
               bitlen := nat ((if blen \<ge> 0 then blen else default_bitlen) mod 2 ^ 16),
               ref_count := (if dynamic_allocated then 1 else 0),
               add := d @ drop n (add p)\<rparr>;
     Some (Some q, w\<lparr>pfx := (pfx w)(q \<mapsto> p)\<rparr>)
   }"

definition New_Prefix2 ::
  "'z pworld_scheme \<Rightarrow> nat \<Rightarrow> bytes \<Rightarrow> int \<Rightarrow> ptr \<Rightarrow> (ptr \<times> 'z pworld_scheme) option" where
  "New_Prefix2 w fam dest blen pre =
     (if fam = AF_INET6 then New_Prefix2_family w fam dest blen pre 16 128
      else if fam = AF_INET then New_Prefix2_family w fam dest blen pre 4 32
      else Some (NULL, w))"

definition New_Prefix ::
  "'z pworld_scheme \<Rightarrow> nat \<Rightarrow> bytes \<Rightarrow> int \<Rightarrow> (ptr \<times> 'z pworld_scheme) option" where
  "New_Prefix w fam dest blen = New_Prefix2 w fam dest blen NULL"

definition Ref_Prefix :: "'z pworld_scheme \<Rightarrow> ptr \<Rightarrow> (ptr \<times> 'z pworld_scheme) option" where
  "Ref_Prefix w pre =
     (case pre of
        None \<Rightarrow> Some (NULL, w)
      | Some q \<Rightarrow> do {
          p \<leftarrow> pfx w q;
          if ref_count p = -1 then New_Prefix2 w (family p) (add p) (int (bitlen p)) NULL
          else Some (Some q, w\<lparr>pfx := (pfx w)(q \<mapsto> p\<lparr>ref_count := ref_count p + 1\<rparr>)\<rparr>)
        })"

definition Deref_Prefix :: "'z pworld_scheme \<Rightarrow> ptr \<Rightarrow> 'z pworld_scheme option" where
  "Deref_Prefix w pre =
     (case pre of
        None \<Rightarrow> Some w
      | Some q \<Rightarrow> do {
          p \<leftarrow> pfx w q;
          c_assert (ref_count p > 0);
          let rc = ref_count p - 1;
          c_assert (rc \<ge> 0);
          if rc \<le> 0 then Some (w\<lparr>pfx := (pfx w)(q := None)\<rparr>)
          else Some (w\<lparr>pfx := (pfx w)(q \<mapsto> p\<lparr>ref_count := rc\<rparr>)\<rparr>)
        })"

subsection \<open>Text to prefix\<close>

definition isspace :: "char \<Rightarrow> bool" where
  "isspace c \<longleftrightarrow> of_char c = (32::nat) \<or> (9::nat) \<le> of_char c \<and> of_char c \<le> (13::nat)"

fun atol_digits :: "int \<Rightarrow> string \<Rightarrow> int" where
  "atol_digits v [] = v"
| "atol_digits v (c # cs) = (if isdigit c then atol_digits (v * 10 + of_char c - 48) cs else v)"

text \<open>The C library's \<^verbatim>\<open>atol\<close> on a 64-bit system: white space, an optional sign, digits; a value
  out of range is clamped to the ends of \<^verbatim>\<open>long\<close>.\<close>

definition atol :: "string \<Rightarrow> int" where
  "atol s =
     (case dropWhile isspace s of
        [] \<Rightarrow> 0
      | c # cs \<Rightarrow>
          if c = CHR ''-'' then max (- (2 ^ 63)) (- atol_digits 0 cs)
          else if c = CHR ''+'' then min (2 ^ 63 - 1) (atol_digits 0 cs)
          else min (2 ^ 63 - 1) (atol_digits 0 (c # cs)))"

text \<open>\<^verbatim>\<open>bitlen\<close> is unsigned, so its test \<^verbatim>\<open>bitlen < 0\<close> never holds and a negative length in the
  text arrives as a huge one.\<close>

definition ascii2prefix ::
  "(string \<Rightarrow> bytes option) \<Rightarrow> 'z pworld_scheme \<Rightarrow> nat \<Rightarrow> string option
     \<Rightarrow> (ptr \<times> 'z pworld_scheme) option" where
  "ascii2prefix inet_pton6 w fam str =
     (case str of
        None \<Rightarrow> Some (NULL, w)
      | Some s \<Rightarrow> do {
          let fam = (if fam = 0 then if CHR '':'' \<in> set s then AF_INET6 else AF_INET else fam);
          let maxbitlen = (if fam = AF_INET then 32 else if fam = AF_INET6 then 128 else 0 :: 64 word);
          let slash = CHR ''/'' \<in> set s;
          let host = takeWhile (\<lambda>c. c \<noteq> CHR ''/'') s;
          let blen = (if slash then word_of_int (atol (drop (Suc (length host)) s)) else maxbitlen);
          let blen = (if slash \<and> (blen < 0 \<or> blen > maxbitlen) then maxbitlen else blen);
          c_assert (slash \<longrightarrow> length host < MAXLINE);
          if fam = AF_INET then
            (case my_inet_pton inet_pton6 AF_INET host of
               (r, sin) \<Rightarrow>
                 if r \<le> 0 then Some (NULL, w)
                 else do { b \<leftarrow> sin; New_Prefix w AF_INET b (uint blen) })
          else if fam = AF_INET6 then
            (case inet_pton6 host of
               None \<Rightarrow> Some (NULL, w)
             | Some b \<Rightarrow> New_Prefix w AF_INET6 b (uint blen))
          else Some (NULL, w)
        })"

subsection \<open>Masked comparison is equality of leading bits\<close>

lemma BIT_TEST_bit: "k < 8 \<Longrightarrow> BIT_TEST c (drop_bit k 0x80) \<longleftrightarrow> bit c (7 - k)"
  using bit_iff_and_push_bit_not_eq_0 [of c "7 - k"]
  by (simp add: BIT_TEST_def drop_bit_0x80)

lemma addr_bit_bits:
  "b < 8 * length addr \<Longrightarrow> addr_bit addr b = Some (bits_of addr ! b)"
  using BIT_TEST_bit [of "b mod 8" "addr ! (b div 8)"]
  by (simp add: addr_bit_def and7_mod8 nth_bits_of less_mult_imp_div_less mult.commute
      drop_bit_eq_div [of 3])

lemma comp_with_mask_bits:
  assumes "m \<le> 8 * length a" "m \<le> 8 * length d"
  shows "comp_with_mask a d m = Some (take m (bits_of a) = take m (bits_of d))"
proof -
  define n k where "n = m div 8" and "k = m mod 8"
  have m: "m = 8 * n + k" and k: "k < 8" by (simp_all add: n_def k_def)
  have split: "take m (bits_of a) = take m (bits_of d) \<longleftrightarrow>
     bits_of (take n a) = bits_of (take n d) \<and>
     take k (drop (8 * n) (bits_of a)) = take k (drop (8 * n) (bits_of d))"
    using assms m by (simp add: take_add_eq_iff flip: take_bits_of)
  have len: "n \<le> length a" "n \<le> length d" using assms m by simp_all
  then have eq: "bits_of (take n a) = bits_of (take n d) \<longleftrightarrow> take n a = take n d"
    by (simp add: bits_of_inj)
  show ?thesis
  proof (cases "k = 0")
    case True
    with len split eq show ?thesis by (simp add: comp_with_mask_def flip: n_def k_def)
  next
    case False
    with assms m have "n < length a" "n < length d" by simp_all
    with False k len split eq show ?thesis
      by (simp add: comp_with_mask_def Let_def masked_byte_eq take_bits_of_split flip: n_def k_def)
  qed
qed
text \<open>The byte-wise masked comparison of two addresses decides whether their first
  \<^verbatim>\<open>mask\<close> bits agree, and reads no byte outside them.\<close>

theorem comp_with_mask_correct:
  assumes "m \<le> 8 * length a" and "m \<le> 8 * length d"
  shows "comp_with_mask a d m = Some (\<forall>i<m. bits_of a ! i = bits_of d ! i)"
  using assms by (auto simp: comp_with_mask_bits list_eq_iff_nth_eq)

theorem comp_with_mask_correct_witness:
  "comp_with_mask [10, 42, 69, 0] [10, 42, 64, 1] 21 =
     Some (\<forall>i<21. bits_of [10, 42, 69, 0 :: byte] ! i = bits_of [10, 42, 64, 1 :: byte] ! i)"
  by (rule comp_with_mask_correct) simp_all

subsection \<open>Printing and parsing\<close>

text \<open>The value of a string of digits read after \<open>v\<close>.\<close>

fun dval :: "int \<Rightarrow> string \<Rightarrow> int" where
  "dval v [] = v"
| "dval v (c # cs) = dval (v * 10 + of_char c - 48) cs"

lemma dval_append [simp]: "dval v (as @ bs) = dval (dval v as) bs"
  by (induction as arbitrary: v) auto

lemma of_char_digit [simp]: "d < 10 \<Longrightarrow> of_char (digit_char d) = (48 + of_nat d :: 'a :: linordered_euclidean_semiring_bit_operations)"
proof -
  assume "d < 10"
  then have "(48 + d) mod 256 = 48 + d" by simp
  then show ?thesis unfolding digit_char_def
    by (metis of_char_of of_nat_add of_nat_numeral of_nat_of_char)
qed

lemma isdigit_digit_char [simp]: "d < 10 \<Longrightarrow> isdigit (digit_char d)"
  by (simp add: isdigit_def)

lemma isdigit_int: "isdigit c \<Longrightarrow> 48 \<le> (of_char c :: int)"
  by (metis isdigit_def of_nat_le_iff of_nat_numeral of_nat_of_char)

lemma dval_ge: "list_all isdigit cs \<Longrightarrow> 0 \<le> v \<Longrightarrow> v \<le> dval v cs"
proof (induction cs arbitrary: v)
  case Nil
  then show ?case by simp
next
  case (Cons c cs)
  have "48 \<le> (of_char c :: int)" using Cons.prems by (simp add: isdigit_int)
  with Cons.prems have "0 \<le> v * 10 + of_char c - 48" "v \<le> v * 10 + of_char c - 48" by simp_all
  with Cons.IH [of "v * 10 + of_char c - 48"] Cons.prems show ?case by simp
qed

lemma dec_digits [simp]: "list_all isdigit (dec n)"
  by (induction n rule: dec.induct) (subst dec.simps, simp)

lemma dec_Nil [simp]: "dec n \<noteq> []"
  by (subst dec.simps) simp

lemma dval_dec [simp]: "dval 0 (dec n) = int n"
proof (induction n rule: dec.induct)
  case (1 n)
  then show ?case by (subst dec.simps) (auto simp: zdiv_int zmod_int)
qed

lemma isdigit_not_NUL: "isdigit c \<Longrightarrow> c \<noteq> NUL"
  by (auto simp: isdigit_def)

definition num_end :: "string \<Rightarrow> bool" where
  "num_end r \<longleftrightarrow> (case r of [] \<Rightarrow> True | c # _ \<Rightarrow> \<not> isdigit c)"

lemma pton_digits_run:
  "list_all isdigit (c # cs) \<Longrightarrow> 0 \<le> v \<Longrightarrow> dval v (c # cs) \<le> 255 \<Longrightarrow> num_end r \<Longrightarrow>
   pton_digits v c (cs @ r) = Some (dval v (c # cs), (case r of [] \<Rightarrow> NUL | x # _ \<Rightarrow> x), tl r)"
proof (induction cs arbitrary: v c)
  case Nil
  then show ?case
    by (subst pton_digits.simps) (auto simp: num_end_def split: list.splits)
next
  case (Cons c' cs)
  let ?v = "v * 10 + of_char c - 48"
  have "48 \<le> (of_char c :: int)" using Cons.prems by (simp add: isdigit_int)
  with Cons.prems have v0: "0 \<le> ?v" by simp
  have "?v \<le> dval ?v (c' # cs)" using Cons.prems v0 by (intro dval_ge) auto
  with Cons.prems have "\<not> ?v > 255" by simp
  moreover have "pton_digits ?v c' (cs @ r) =
      Some (dval ?v (c' # cs), (case r of [] \<Rightarrow> NUL | x # _ \<Rightarrow> x), tl r)"
    using Cons.prems v0 by (intro Cons.IH) auto
  ultimately show ?case
    using Cons.prems isdigit_not_NUL by (subst pton_digits.simps) auto
qed

lemma pton_loop_dec:
  assumes n: "n \<le> 255" and r: "num_end r"
  shows "pton_loop i xp (dec n @ r) =
    (case r of
       [] \<Rightarrow> (1, Some (xp[i := word_of_int (int n)]))
     | c # r' \<Rightarrow> if c = NUL then (1, Some (xp[i := word_of_int (int n)]))
                else if c \<noteq> CHR ''.'' then (0, None)
                else if i \<ge> 3 then (0, None)
                else pton_loop (i + 1) (xp[i := word_of_int (int n)]) r')"
proof -
  obtain c cs where d: "dec n = c # cs" by (metis dec_Nil list.exhaust)
  have "list_all isdigit (c # cs)" and "dval 0 (c # cs) = int n"
    by (simp_all only: dec_digits dval_dec flip: d)
  then have "pton_digits 0 c (cs @ r) = Some (int n, (case r of [] \<Rightarrow> NUL | x # _ \<Rightarrow> x), tl r)"
    using pton_digits_run [of c cs 0 r] n r by simp
  with \<open>list_all isdigit (c # cs)\<close> d show ?thesis
    by (subst pton_loop.simps) (auto split: list.splits)
qed

lemma num_end_simps [simp]: "num_end []" "num_end (CHR ''.'' # r)" "num_end (CHR ''/'' # r)"
  by (simp_all add: num_end_def isdigit_def)

lemma pton_dotted:
  "pton_loop 0 [0, 0, 0, 0] (dotted a b c d) = (1, Some [a, b, c, d])"
  using pton_loop_dec [of "unat d" "[]"]
  by (simp add: dotted_def pton_loop_dec unat_byte_le)

lemma dec_no_special [simp]: "c \<in> set (dec n) \<Longrightarrow> isdigit c"
  using dec_digits [of n] by (simp add: list_all_iff)

lemma not_in_dec [simp]: "CHR ''/'' \<notin> set (dec n)" "CHR '':'' \<notin> set (dec n)"
  using dec_no_special [of "CHR ''/''" n] dec_no_special [of "CHR '':''" n]
  by (auto simp: isdigit_def)

lemma not_in_dotted [simp]: "CHR ''/'' \<notin> set (dotted a b c d)" "CHR '':'' \<notin> set (dotted a b c d)"
  by (auto simp: dotted_def)

lemma atol_digits_run:
  "list_all isdigit ds \<Longrightarrow> e = [] \<or> \<not> isdigit (hd e) \<Longrightarrow> atol_digits v (ds @ e) = dval v ds"
proof (induction ds arbitrary: v)
  case Nil
  then show ?case by (cases e) auto
qed auto

lemma isdigit_not_space: "isdigit c \<Longrightarrow> \<not> isspace c"
  by (auto simp: isdigit_def isspace_def)

lemma atol_number:
  assumes "list_all isdigit ds" and "ds \<noteq> []" and "e = [] \<or> \<not> isdigit (hd e)" and "dval 0 ds < 2 ^ 63"
  shows "atol (ds @ e) = dval 0 ds"
proof -
  obtain c cs where d: "ds = c # cs" using assms(2) by (cases ds) auto
  then have "isdigit c" using assms(1) by simp
  then have "\<not> isspace c" "c \<noteq> CHR ''-''" "c \<noteq> CHR ''+''"
    by (auto simp: isdigit_not_space isdigit_def)
  with assms d atol_digits_run [OF assms(1,3), of 0] show ?thesis
    by (simp add: atol_def del: dval.simps atol_digits.simps)
qed

lemma takeWhile_host [simp]:
  "CHR ''/'' \<notin> set h \<Longrightarrow> takeWhile (\<lambda>c. c \<noteq> CHR ''/'') (h @ CHR ''/'' # t) = h"
  by (induction h) auto

lemma New_Prefix_eq:
  "New_Prefix w AF_INET b n = (if 4 \<le> length b then
     Some (Some (brk w), w\<lparr>pfx := (pfx w)(brk w \<mapsto>
       \<lparr>family = AF_INET, bitlen = nat ((if n \<ge> 0 then n else 32) mod 2 ^ 16), ref_count = 1,
        add = take 4 b @ replicate 12 0\<rparr>), brk := Suc (brk w)\<rparr>)
     else None)"
  "New_Prefix w AF_INET6 b n = (if 16 \<le> length b then
     Some (Some (brk w), w\<lparr>pfx := (pfx w)(brk w \<mapsto>
       \<lparr>family = AF_INET6, bitlen = nat ((if n \<ge> 0 then n else 128) mod 2 ^ 16), ref_count = 1,
        add = take 16 b\<rparr>), brk := Suc (brk w)\<rparr>)
     else None)"
  by (simp_all add: New_Prefix_def New_Prefix2_def New_Prefix2_family_def calloc_prefix_def
      zero_prefix_def c_take_def numeral_eq_Suc)

lemma bytes4_cases:
  "length xs = 16 \<Longrightarrow> take 4 xs = [xs ! 0, xs ! 1, xs ! 2, xs ! 3]"
  by (simp add: list_eq_iff_nth_eq less_Suc_eq numeral_eq_Suc nth_Cons')

lemma length_dec_less: "n < 10 ^ k \<Longrightarrow> 0 < k \<Longrightarrow> length (dec n) \<le> k"
proof (induction k arbitrary: n)
  case (Suc k)
  show ?case
  proof (cases "n < 10")
    case True
    then show ?thesis by (subst dec.simps) simp
  next
    case False
    then have "0 < k" "n div 10 < 10 ^ k" using Suc.prems(1) by (cases k; simp add: less_mult_imp_div_less mult.commute)+
    then show ?thesis using Suc.IH [of "n div 10"] False by (subst dec.simps) simp
  qed
qed simp

lemma length_dotted: "length (dotted a b c d) < MAXLINE"
proof -
  have "length (dec (unat x)) \<le> 3" for x :: byte
    by (rule length_dec_less) (use unat_byte_le [of x] in simp_all)
  from this [of a] this [of b] this [of c] this [of d] show ?thesis
    by (simp add: dotted_def MAXLINE_def)
qed

text \<open>A line with a prefix in it; what follows the length is ignored.\<close>

lemma ascii2prefix_line:
  assumes n: "n \<le> 32" and fam: "fam = AF_INET \<or> fam = 0" and e: "e = [] \<or> \<not> isdigit (hd e)" "CHR '':'' \<notin> set e"
  shows "ascii2prefix pton w fam (Some (dotted a b c d @ CHR ''/'' # dec n @ e)) =
     New_Prefix w AF_INET [a, b, c, d] (int n)"
proof -
  define host where "host = dotted a b c d"
  define s where "s = host @ CHR ''/'' # dec n @ e"
  have w: "word_of_int (atol (dec n @ e)) = (of_nat n :: 64 word)"
    using n atol_number [OF dec_digits dec_Nil e(1), of n] by simp
  have le: "\<not> (of_nat n :: 64 word) > 32" and u: "uint (of_nat n :: 64 word) = int n"
    using n by (simp_all add: word_less_nat_alt unat_of_nat uint_nat)
  have slash: "CHR ''/'' \<in> set s" "CHR '':'' \<notin> set s" "takeWhile (\<lambda>c. c \<noteq> CHR ''/'') s = host"
    "drop (Suc (length host)) s = dec n @ e"
    using e(2) by (simp_all add: s_def host_def)
  have "my_inet_pton pton AF_INET host = (1, Some [a, b, c, d])"
    by (simp add: my_inet_pton_def host_def pton_dotted)
  moreover have "length host < MAXLINE" by (simp add: host_def length_dotted)
  ultimately have "ascii2prefix pton w fam (Some s) = New_Prefix w AF_INET [a, b, c, d] (int n)"
    using fam by (auto simp: ascii2prefix_def Let_def slash w le u)
  then show ?thesis by (simp add: s_def host_def)
qed

lemmas ascii2prefix_dotted = ascii2prefix_line [where e = "[]", simplified]

lemma toa_text_total:
  assumes "wf_prefix p"
  shows "\<exists>r. toa_text ntop old p with_len = Some r"
  using assms by (cases "ntop (add p)") (auto simp: toa_text_def wf_prefix_def)

text \<open>The ring of static buffers is always written inside its bounds.\<close>

lemma prefix_toa_ok:
  assumes "wf_prefix p" and "0 \<le> ref_count p" and "length (buffs lb) = 16"
  shows "\<exists>r lb'. prefix_toa ntop lb (Some p) = Some (r, lb') \<and> length (buffs lb') = 16"
proof -
  obtain r where "toa_text ntop (buffs lb ! (unat (bufi lb) mod 16)) p False = Some r"
    using toa_text_total [OF assms(1)] by blast
  with assms(2,3) show ?thesis
    by (cases r) (simp_all add: prefix_toa_def prefix_toa2_def prefix_toa2x_def Let_def)
qed

text \<open>Printing an IPv4 prefix with its length and parsing the text gives a fresh prefix
  with the same address, length and family, held once; the caller may name the family or leave it
  to be recognised.\<close>

theorem prefix_text_roundtrip:
  assumes "wf_prefix p" and "family p = AF_INET" and "bitlen p \<le> 32" and "0 \<le> ref_count p"
    and "fam = AF_INET \<or> fam = 0"
  shows "\<exists>s. prefix_toa2x ntop lb (Some p) (Some old) True = Some (ToaText s, lb) \<and>
     ascii2prefix pton w fam (Some s) =
       Some (Some (brk w), w\<lparr>pfx := (pfx w)(brk w \<mapsto>
         \<lparr>family = AF_INET, bitlen = bitlen p, ref_count = 1, add = take 4 (add p) @ replicate 12 0\<rparr>),
         brk := Suc (brk w)\<rparr>)"
proof -
  have len: "length (add p) = 16" using assms(1) by (simp add: wf_prefix_def)
  define s where "s = dotted (add p ! 0) (add p ! 1) (add p ! 2) (add p ! 3) @ CHR ''/'' # dec (bitlen p)"
  have "prefix_toa2x ntop lb (Some p) (Some old) True = Some (ToaText s, lb)"
    using assms len by (simp add: prefix_toa2x_def toa_text_def s_def)
  moreover have "ascii2prefix pton w fam (Some s) = New_Prefix w AF_INET (take 4 (add p)) (int (bitlen p))"
    unfolding s_def bytes4_cases [OF len] by (rule ascii2prefix_dotted [OF assms(3,5)])
  ultimately show ?thesis
    using assms(3) len by (auto simp: New_Prefix_eq)
qed

theorem prefix_text_roundtrip_witness:
  "\<exists>s. prefix_toa2x (\<lambda>_. None) \<lparr>buffs = [], bufi = 0\<rparr>
        (Some \<lparr>family = AF_INET, bitlen = 8, ref_count = 1, add = [10, 0, 0, 0] @ replicate 12 0\<rparr>)
        (Some []) True = Some (ToaText s, \<lparr>buffs = [], bufi = 0\<rparr>) \<and>
     ascii2prefix (\<lambda>_. None) \<lparr>pfx = Map.empty, brk = 1\<rparr> 0 (Some s) =
       Some (Some 1, \<lparr>pfx = [1 \<mapsto> \<lparr>family = AF_INET, bitlen = 8, ref_count = 1,
         add = [10, 0, 0, 0] @ replicate 12 0\<rparr>], brk = 2\<rparr>)"
  using prefix_text_roundtrip [where p = "\<lparr>family = AF_INET, bitlen = 8, ref_count = 1,
      add = [10, 0, 0, 0] @ replicate 12 0\<rparr>" and fam = 0 and w = "\<lparr>pfx = Map.empty, brk = 1\<rparr>"
      and ntop = "\<lambda>_. None" and pton = "\<lambda>_. None" and lb = "\<lparr>buffs = [], bufi = 0\<rparr>" and old = "[]"]
  by (simp add: wf_prefix_def numeral_2_eq_2)

subsection \<open>Reference counts\<close>

lemma Ref_Prefix_counted:
  "pfx w q = Some p \<Longrightarrow> ref_count p \<noteq> -1 \<Longrightarrow>
   Ref_Prefix w (Some q) = Some (Some q, w\<lparr>pfx := (pfx w)(q \<mapsto> p\<lparr>ref_count := ref_count p + 1\<rparr>)\<rparr>)"
  by (simp add: Ref_Prefix_def)

lemma Deref_Prefix_counted:
  "pfx w q = Some p \<Longrightarrow> 0 < ref_count p \<Longrightarrow>
   Deref_Prefix w (Some q) = Some (w\<lparr>pfx := (pfx w)(q :=
     (if ref_count p = 1 then None else Some (p\<lparr>ref_count := ref_count p - 1\<rparr>)))\<rparr>)"
  by (auto simp: Deref_Prefix_def)

lemma Ref_Prefix_cases:
  assumes "pfx w q = Some p" and "wf_prefix p" and "-1 \<le> ref_count p" and "q < brk w"
  obtains r p' b where
    "Ref_Prefix w (Some q) = Some (Some r, w\<lparr>pfx := (pfx w)(r \<mapsto> p'), brk := b\<rparr>)"
    "pkey p' = pkey p" "wf_prefix p'" "bitlen p' = bitlen p" "1 \<le> ref_count p'"
    "r = q \<or> r = brk w" "brk w \<le> b" "r < b"
proof (cases "ref_count p = -1")
  case False
  show ?thesis
  proof (rule that [where r = q and p' = "p\<lparr>ref_count := ref_count p + 1\<rparr>" and b = "brk w"])
    show "Ref_Prefix w (Some q) =
      Some (Some q, w\<lparr>pfx := (pfx w)(q \<mapsto> p\<lparr>ref_count := ref_count p + 1\<rparr>), brk := brk w\<rparr>)"
      using Ref_Prefix_counted [OF assms(1) False] by simp
  qed (use False assms in \<open>auto simp: pkey_def wf_prefix_def\<close>)
next
  case True
  let ?p = "\<lparr>family = family p, bitlen = bitlen p, ref_count = 1,
    add = (if family p = AF_INET then take 4 (add p) @ replicate 12 0 else take 16 (add p))\<rparr>"
  have bl: "nat (int (bitlen p) mod 2 ^ 16) = bitlen p" using assms(2) by (simp add: wf_prefix_def)
  show ?thesis
  proof (rule that [where r = "brk w" and p' = ?p and b = "Suc (brk w)"])
    show "Ref_Prefix w (Some q) = Some (Some (brk w), w\<lparr>pfx := (pfx w)(brk w \<mapsto> ?p), brk := Suc (brk w)\<rparr>)"
      using assms(1,2) True New_Prefix_eq [of w "add p" "int (bitlen p)"] bl
      by (auto simp: Ref_Prefix_def wf_prefix_def simp flip: New_Prefix_def)
    show "pkey ?p = pkey p"
      using assms(2) take_bits_take [of 4 "add p" "bitlen p"] take_bits_take [of 16 "add p" "bitlen p" "[]"]
      by (auto simp: pkey_def wf_prefix_def)
  qed (use True assms in \<open>auto simp: wf_prefix_def\<close>)
qed

text \<open>Taking a reference to a counted prefix and dropping it again leaves every prefix
  and its count as it was.\<close>

theorem Ref_Deref_Prefix:
  fixes w :: pworld
  assumes "pfx w q = Some p" and "1 \<le> ref_count p"
  shows "(Ref_Prefix w (Some q) \<bind> (\<lambda>(r, w'). Deref_Prefix w' r)) = Some w"
  using assms by (cases w) (simp add: Ref_Prefix_counted Deref_Prefix_counted fun_upd_idem)

theorem Ref_Deref_Prefix_witness:
  "(Ref_Prefix \<lparr>pfx = [1 \<mapsto> zero_prefix\<lparr>ref_count := 1\<rparr>], brk = 2\<rparr> (Some 1)
     \<bind> (\<lambda>(r, w'). Deref_Prefix w' r)) = Some \<lparr>pfx = [1 \<mapsto> zero_prefix\<lparr>ref_count := 1\<rparr>], brk = 2\<rparr>"
  by (rule Ref_Deref_Prefix [where p = "zero_prefix\<lparr>ref_count := 1\<rparr>"]) simp_all

end
