(* ===== verification/Patricia.thy ===== *)
theory Patricia
  imports Prefix
begin

text \<open>
  The trie of \<^verbatim>\<open>Database_perf_test/patricia.c\<close> and \<^verbatim>\<open>patricia.h\<close> as the code has it: nodes with
  child and parent pointers in a store, a tree header, the searches, insertion
  (\<^verbatim>\<open>patricia_lookup\<close>), removal, the walks with their fixed-size explicit stack, and the
  helpers of \<^verbatim>\<open>demo.c\<close>.  Loops over pointers are \<^theory_text>\<open>partial_function (option)\<close>, so a cyclic
  structure on which the C loop would run forever gives \<open>None\<close>, as do a failed assertion and
  an invalid memory access.  \<^verbatim>\<open>calloc\<close> returns a fresh zeroed object (the code does not test
  its result).  Debugging output under \<^verbatim>\<open>PATRICIA_DEBUG\<close> is not compiled and not modelled.
\<close>

subsection \<open>Nodes, trees and the store\<close>

definition PATRICIA_MAXBITS :: nat where "PATRICIA_MAXBITS = 128"

record patricia_node_t =
  nbit :: nat
  nprefix :: ptr
  nl :: ptr
  nr :: ptr
  nparent :: ptr
  ndata :: ptr
  nuser1 :: ptr

record patricia_tree_t =
  head :: ptr
  maxbits :: nat
  num_active_node :: int

record pat_world = pworld +
  nodes :: "patricia_node_t store"
  trees :: "patricia_tree_t store"
  num_active_patricia :: int
  toab :: toa_buffer

definition zero_node :: patricia_node_t where
  "zero_node = \<lparr>nbit = 0, nprefix = NULL, nl = NULL, nr = NULL, nparent = NULL,
     ndata = NULL, nuser1 = NULL\<rparr>"

definition calloc_node :: "pat_world \<Rightarrow> nat \<times> pat_world" where
  "calloc_node w = (brk w, w\<lparr>nodes := (nodes w)(brk w \<mapsto> zero_node), brk := Suc (brk w)\<rparr>)"

text \<open>Writes through a node or tree pointer: the object must be live.\<close>

definition upd_node :: "pat_world \<Rightarrow> nat \<Rightarrow> (patricia_node_t \<Rightarrow> patricia_node_t) \<Rightarrow> pat_world option" where
  "upd_node w a f = do {
     nd \<leftarrow> nodes w a;
     Some (w\<lparr>nodes := (nodes w)(a \<mapsto> f nd)\<rparr>)
   }"

definition upd_tree :: "pat_world \<Rightarrow> nat \<Rightarrow> (patricia_tree_t \<Rightarrow> patricia_tree_t) \<Rightarrow> pat_world option" where
  "upd_tree w a f = do {
     t \<leftarrow> trees w a;
     Some (w\<lparr>trees := (trees w)(a \<mapsto> f t)\<rparr>)
   }"

definition free_node :: "pat_world \<Rightarrow> nat \<Rightarrow> pat_world option" where
  "free_node w a = do {
     _ \<leftarrow> nodes w a;
     Some (w\<lparr>nodes := (nodes w)(a := None)\<rparr>)
   }"

definition add_active :: "pat_world \<Rightarrow> nat \<Rightarrow> int \<Rightarrow> pat_world option" where
  "add_active w tp d = upd_tree w tp (\<lambda>t. t\<lparr>num_active_node := num_active_node t + d\<rparr>)"

subsection \<open>Creation\<close>

definition New_Patricia :: "pat_world \<Rightarrow> int \<Rightarrow> (nat \<times> pat_world) option" where
  "New_Patricia w mb = do {
     let tp = brk w;
     let w = w\<lparr>trees := (trees w)(tp \<mapsto>
       \<lparr>head = NULL, maxbits = nat (mb mod 2 ^ 32), num_active_node = 0\<rparr>), brk := Suc tp\<rparr>;
     c_assert (mb \<le> int PATRICIA_MAXBITS);
     Some (tp, w\<lparr>num_active_patricia := num_active_patricia w + 1\<rparr>)
   }"

subsection \<open>Walks\<close>

text \<open>The step at the end of a walk: push the right child when there are two, descend left first,
  pop when there is no child.  The stack has room for \<^verbatim>\<open>PATRICIA_MAXBITS+1\<close> pointers.\<close>

definition walk_next :: "ptr \<Rightarrow> ptr \<Rightarrow> nat list \<Rightarrow> (ptr \<times> nat list) option" where
  "walk_next l r stack =
     (case l of
        Some la \<Rightarrow>
          (case r of
             Some ra \<Rightarrow> do {
               c_assert (length stack < PATRICIA_MAXBITS + 1);
               Some (Some la, ra # stack)
             }
           | None \<Rightarrow> Some (Some la, stack))
      | None \<Rightarrow>
          (case r of
             Some ra \<Rightarrow> Some (Some ra, stack)
           | None \<Rightarrow> (case stack of x # xs \<Rightarrow> Some (Some x, xs) | [] \<Rightarrow> Some (NULL, []))))"

text \<open>The loop of \<^verbatim>\<open>Clear_Patricia\<close>.  \<open>func\<close> says whether a callback was supplied; the calls
  \<^verbatim>\<open>func (Xrn->data)\<close> are collected in order.\<close>

partial_function (option) clear_loop ::
  "bool \<Rightarrow> nat \<Rightarrow> pat_world \<Rightarrow> ptr \<Rightarrow> nat list \<Rightarrow> nat list \<Rightarrow> (pat_world \<times> nat list) option" where
  "clear_loop func tp w xrn stack calls =
     (case xrn of
        None \<Rightarrow> Some (w, calls)
      | Some a \<Rightarrow> do {
          nd \<leftarrow> nodes w a;
          (w, calls) \<leftarrow>
            (if nprefix nd \<noteq> NULL then do {
               w \<leftarrow> Deref_Prefix w (nprefix nd);
               Some (w, (case ndata nd of Some d \<Rightarrow> if func then calls @ [d] else calls | None \<Rightarrow> calls))
             }
             else do {
               c_assert (ndata nd = NULL);
               Some (w, calls)
             });
          w \<leftarrow> free_node w a;
          w \<leftarrow> add_active w tp (-1);
          (xrn, stack) \<leftarrow> walk_next (nl nd) (nr nd) stack;
          clear_loop func tp w xrn stack calls
        })"

definition Clear_Patricia :: "pat_world \<Rightarrow> ptr \<Rightarrow> bool \<Rightarrow> (pat_world \<times> nat list) option" where
  "Clear_Patricia w tree func = do {
     tp \<leftarrow> tree;
     t \<leftarrow> trees w tp;
     (w, calls) \<leftarrow> clear_loop func tp w (head t) [] [];
     t \<leftarrow> trees w tp;
     c_assert (num_active_node t = 0);
     Some (w, calls)
   }"

definition Destroy_Patricia :: "pat_world \<Rightarrow> ptr \<Rightarrow> bool \<Rightarrow> (pat_world \<times> nat list) option" where
  "Destroy_Patricia w tree func = do {
     (w, calls) \<leftarrow> Clear_Patricia w tree func;
     tp \<leftarrow> tree;
     Some (w\<lparr>trees := (trees w)(tp := None), num_active_patricia := num_active_patricia w - 1\<rparr>, calls)
   }"

text \<open>\<^verbatim>\<open>PATRICIA_WALK\<close> with a body that calls \<^verbatim>\<open>func (node->prefix, node->data)\<close>.\<close>

partial_function (option) walk_loop ::
  "patricia_node_t store \<Rightarrow> ptr \<Rightarrow> nat list \<Rightarrow> (nat \<times> ptr) list \<Rightarrow> (nat \<times> ptr) list option" where
  "walk_loop ns xrn stack calls =
     (case xrn of
        None \<Rightarrow> Some calls
      | Some a \<Rightarrow> do {
          nd \<leftarrow> ns a;
          let calls = (case nprefix nd of Some q \<Rightarrow> calls @ [(q, ndata nd)] | None \<Rightarrow> calls);
          (xrn, stack) \<leftarrow> walk_next (nl nd) (nr nd) stack;
          walk_loop ns xrn stack calls
        })"

definition patricia_process :: "pat_world \<Rightarrow> ptr \<Rightarrow> (nat \<times> ptr) list option" where
  "patricia_process w tree = do {
     t \<leftarrow> deref (trees w) tree;
     walk_loop (nodes w) (head t) [] []
   }"

partial_function (option) patricia_walk_inorder ::
  "patricia_node_t store \<Rightarrow> nat \<Rightarrow> (nat \<times> (nat \<times> ptr) list) option" where
  "patricia_walk_inorder ns a = do {
     nd \<leftarrow> ns a;
     (n1, c1) \<leftarrow> (case nl nd of Some l \<Rightarrow> patricia_walk_inorder ns l | None \<Rightarrow> Some (0, []));
     let (n2, c2) = (case nprefix nd of Some q \<Rightarrow> (n1 + 1, c1 @ [(q, ndata nd)]) | None \<Rightarrow> (n1, c1));
     (n3, c3) \<leftarrow> (case nr nd of Some r \<Rightarrow> patricia_walk_inorder ns r | None \<Rightarrow> Some (0, []));
     Some (n2 + n3, c2 @ c3)
   }"

subsection \<open>Searches\<close>

partial_function (option) search_exact_loop ::
  "patricia_node_t store \<Rightarrow> bytes \<Rightarrow> nat \<Rightarrow> nat \<Rightarrow> ptr option" where
  "search_exact_loop ns addr blen a = do {
     nd \<leftarrow> ns a;
     if nbit nd < blen then do {
       right \<leftarrow> addr_bit addr (nbit nd);
       (case (if right then nr nd else nl nd) of
          None \<Rightarrow> Some NULL
        | Some c \<Rightarrow> search_exact_loop ns addr blen c)
     }
     else Some (Some a)
   }"

definition patricia_search_exact :: "pat_world \<Rightarrow> ptr \<Rightarrow> ptr \<Rightarrow> ptr option" where
  "patricia_search_exact w tree pre = do {
     t \<leftarrow> deref (trees w) tree;
     p \<leftarrow> deref (pfx w) pre;
     c_assert (bitlen p \<le> maxbits t);
     (case head t of
        None \<Rightarrow> Some NULL
      | Some h \<Rightarrow> do {
          stop \<leftarrow> search_exact_loop (nodes w) (add p) (bitlen p) h;
          (case stop of
             None \<Rightarrow> Some NULL
           | Some a \<Rightarrow> do {
               nd \<leftarrow> nodes w a;
               if nbit nd > bitlen p \<or> nprefix nd = NULL then Some NULL
               else do {
                 c_assert (nbit nd = bitlen p);
                 np \<leftarrow> deref (pfx w) (nprefix nd);
                 c_assert (nbit nd = bitlen np);
                 x \<leftarrow> prefix_tochar (Some np);
                 y \<leftarrow> prefix_tochar (Some p);
                 same \<leftarrow> comp_with_mask x y (bitlen p);
                 Some (if same then Some a else NULL)
               }
             })
        })
   }"

definition push_best :: "nat \<Rightarrow> nat list \<Rightarrow> nat list option" where
  "push_best a stack = do {
     c_assert (length stack < PATRICIA_MAXBITS + 1);
     Some (a # stack)
   }"

partial_function (option) search_best_loop ::
  "patricia_node_t store \<Rightarrow> bytes \<Rightarrow> nat \<Rightarrow> nat \<Rightarrow> nat list \<Rightarrow> (ptr \<times> nat list) option" where
  "search_best_loop ns addr blen a stack = do {
     nd \<leftarrow> ns a;
     if nbit nd < blen then do {
       stack \<leftarrow> (if nprefix nd \<noteq> NULL then push_best a stack else Some stack);
       right \<leftarrow> addr_bit addr (nbit nd);
       (case (if right then nr nd else nl nd) of
          None \<Rightarrow> Some (NULL, stack)
        | Some c \<Rightarrow> search_best_loop ns addr blen c stack)
     }
     else Some (Some a, stack)
   }"

fun best_pop :: "pat_world \<Rightarrow> prefix_t \<Rightarrow> nat list \<Rightarrow> ptr option" where
  "best_pop w p [] = Some NULL"
| "best_pop w p (a # stack) = do {
     nd \<leftarrow> nodes w a;
     np \<leftarrow> deref (pfx w) (nprefix nd);
     x \<leftarrow> prefix_tochar (Some np);
     y \<leftarrow> prefix_tochar (Some p);
     same \<leftarrow> comp_with_mask x y (bitlen np);
     if same \<and> bitlen np \<le> bitlen p then Some (Some a) else best_pop w p stack
   }"

definition patricia_search_best2 :: "pat_world \<Rightarrow> ptr \<Rightarrow> ptr \<Rightarrow> bool \<Rightarrow> ptr option" where
  "patricia_search_best2 w tree pre inclusive = do {
     t \<leftarrow> deref (trees w) tree;
     p \<leftarrow> deref (pfx w) pre;
     c_assert (bitlen p \<le> maxbits t);
     (case head t of
        None \<Rightarrow> Some NULL
      | Some h \<Rightarrow> do {
          (stop, stack) \<leftarrow> search_best_loop (nodes w) (add p) (bitlen p) h [];
          stack \<leftarrow>
            (case stop of
               None \<Rightarrow> Some stack
             | Some a \<Rightarrow> do {
                 nd \<leftarrow> nodes w a;
                 if inclusive \<and> nprefix nd \<noteq> NULL then push_best a stack else Some stack
               });
          best_pop w p stack
        })
   }"

definition patricia_search_best :: "pat_world \<Rightarrow> ptr \<Rightarrow> ptr \<Rightarrow> ptr option" where
  "patricia_search_best w tree pre = patricia_search_best2 w tree pre True"

subsection \<open>Insertion\<close>

text \<open>\<^verbatim>\<open>b < patricia->maxbits && BIT_TEST (addr[b >> 3], 0x80 >> (b & 0x07))\<close>.\<close>

definition take_right :: "nat \<Rightarrow> bytes \<Rightarrow> nat \<Rightarrow> bool option" where
  "take_right mb addr b = (if b < mb then addr_bit addr b else Some False)"

partial_function (option) lookup_descend ::
  "patricia_node_t store \<Rightarrow> nat \<Rightarrow> bytes \<Rightarrow> nat \<Rightarrow> nat \<Rightarrow> nat option" where
  "lookup_descend ns mb addr blen a = do {
     nd \<leftarrow> ns a;
     if nbit nd < blen \<or> nprefix nd = NULL then do {
       right \<leftarrow> take_right mb addr (nbit nd);
       (case (if right then nr nd else nl nd) of
          None \<Rightarrow> Some a
        | Some c \<Rightarrow> lookup_descend ns mb addr blen c)
     }
     else Some a
   }"

text \<open>\<^verbatim>\<open>for (j = 0; j < 8; j++) if (BIT_TEST (r, (0x80 >> j))) break;\<close>\<close>

function first_bit :: "byte \<Rightarrow> nat \<Rightarrow> nat" where
  "first_bit r j =
     (if j < 8 then if BIT_TEST r (drop_bit j 0x80) then j else first_bit r (j + 1) else j)"
  by pat_completeness auto
termination
  by (relation "measure (\<lambda>(r, j). 8 - j)") auto

declare first_bit.simps [simp del]

function differ_loop :: "bytes \<Rightarrow> bytes \<Rightarrow> nat \<Rightarrow> nat \<Rightarrow> nat \<Rightarrow> nat option" where
  "differ_loop addr test_addr check_bit i differ_bit =
     (if i * 8 < check_bit then do {
        x \<leftarrow> c_nth addr i;
        y \<leftarrow> c_nth test_addr i;
        let r = x XOR y;
        if r = 0 then differ_loop addr test_addr check_bit (i + 1) ((i + 1) * 8)
        else do {
          let j = first_bit r 0;
          c_assert (j < 8);
          Some (i * 8 + j)
        }
      }
      else Some differ_bit)"
  by pat_completeness auto
termination
  by (relation "measure (\<lambda>(addr, test_addr, check_bit, i, differ_bit). check_bit - i * 8)") auto

declare differ_loop.simps [simp del]

definition find_differ_bit :: "bytes \<Rightarrow> bytes \<Rightarrow> nat \<Rightarrow> nat option" where
  "find_differ_bit addr test_addr check_bit = do {
     d \<leftarrow> differ_loop addr test_addr check_bit 0 0;
     Some (if d > check_bit then check_bit else d)
   }"

partial_function (option) lookup_ascend ::
  "patricia_node_t store \<Rightarrow> nat \<Rightarrow> nat \<Rightarrow> nat option" where
  "lookup_ascend ns differ_bit a = do {
     nd \<leftarrow> ns a;
     (case nparent nd of
        None \<Rightarrow> Some a
      | Some q \<Rightarrow> do {
          pd \<leftarrow> ns q;
          if nbit pd \<ge> differ_bit then lookup_ascend ns differ_bit q else Some a
        })
   }"

text \<open>Make the pointer that leads to \<open>a\<close> (its parent's child field or the tree's head) lead to
  \<open>new\<close>, then make \<open>new\<close> the parent of \<open>a\<close>.\<close>

definition relink_above :: "pat_world \<Rightarrow> nat \<Rightarrow> nat \<Rightarrow> nat \<Rightarrow> pat_world option" where
  "relink_above w tp a new = do {
     nd \<leftarrow> nodes w a;
     t \<leftarrow> trees w tp;
     w \<leftarrow> (case nparent nd of
            None \<Rightarrow> do {
              c_assert (head t = Some a);
              upd_tree w tp (\<lambda>t. t\<lparr>head := Some new\<rparr>)
            }
          | Some q \<Rightarrow> do {
              pd \<leftarrow> nodes w q;
              if nr pd = Some a then upd_node w q (\<lambda>n. n\<lparr>nr := Some new\<rparr>)
              else upd_node w q (\<lambda>n. n\<lparr>nl := Some new\<rparr>)
            });
     upd_node w a (\<lambda>n. n\<lparr>nparent := Some new\<rparr>)
   }"

text \<open>A node for the prefix itself: \<^verbatim>\<open>calloc\<close>, \<^verbatim>\<open>Ref_Prefix\<close>, and the count of active nodes.\<close>

definition new_prefix_node :: "pat_world \<Rightarrow> nat \<Rightarrow> nat \<Rightarrow> nat \<Rightarrow> (nat \<times> pat_world) option" where
  "new_prefix_node w tp q blen = do {
     let (new, w) = calloc_node w;
     (rp, w) \<leftarrow> Ref_Prefix w (Some q);
     w \<leftarrow> upd_node w new (\<lambda>n. n\<lparr>nbit := blen, nprefix := rp\<rparr>);
     w \<leftarrow> add_active w tp 1;
     Some (new, w)
   }"

text \<open>Case \<^verbatim>\<open>node->bit == differ_bit\<close>: the new node becomes a child.\<close>

definition lookup_child :: "pat_world \<Rightarrow> nat \<Rightarrow> bytes \<Rightarrow> nat \<Rightarrow> nat \<Rightarrow> pat_world option" where
  "lookup_child w mb addr a new = do {
     w \<leftarrow> upd_node w new (\<lambda>n. n\<lparr>nparent := Some a\<rparr>);
     nd \<leftarrow> nodes w a;
     right \<leftarrow> take_right mb addr (nbit nd);
     if right then do {
       c_assert (nr nd = NULL);
       upd_node w a (\<lambda>n. n\<lparr>nr := Some new\<rparr>)
     }
     else do {
       c_assert (nl nd = NULL);
       upd_node w a (\<lambda>n. n\<lparr>nl := Some new\<rparr>)
     }
   }"

text \<open>Case \<^verbatim>\<open>bitlen == differ_bit\<close>: the new node becomes the parent.\<close>

definition lookup_parent :: "pat_world \<Rightarrow> nat \<Rightarrow> nat \<Rightarrow> bytes \<Rightarrow> nat \<Rightarrow> nat \<Rightarrow> nat \<Rightarrow> pat_world option" where
  "lookup_parent w tp mb test_addr blen a new = do {
     right \<leftarrow> take_right mb test_addr blen;
     w \<leftarrow> upd_node w new (\<lambda>n. if right then n\<lparr>nr := Some a\<rparr> else n\<lparr>nl := Some a\<rparr>);
     nd \<leftarrow> nodes w a;
     w \<leftarrow> upd_node w new (\<lambda>n. n\<lparr>nparent := nparent nd\<rparr>);
     relink_above w tp a new
   }"

text \<open>Otherwise: a glue node without prefix above both.\<close>

definition lookup_glue :: "pat_world \<Rightarrow> nat \<Rightarrow> nat \<Rightarrow> bytes \<Rightarrow> nat \<Rightarrow> nat \<Rightarrow> nat \<Rightarrow> pat_world option" where
  "lookup_glue w tp mb addr differ_bit a new = do {
     nd \<leftarrow> nodes w a;
     let (glue, w) = calloc_node w;
     w \<leftarrow> upd_node w glue (\<lambda>n. n\<lparr>nbit := differ_bit, nparent := nparent nd\<rparr>);
     w \<leftarrow> add_active w tp 1;
     right \<leftarrow> take_right mb addr differ_bit;
     w \<leftarrow> upd_node w glue (\<lambda>n. if right then n\<lparr>nr := Some new, nl := Some a\<rparr>
                                else n\<lparr>nr := Some a, nl := Some new\<rparr>);
     w \<leftarrow> upd_node w new (\<lambda>n. n\<lparr>nparent := Some glue\<rparr>);
     relink_above w tp a glue
   }"

definition patricia_lookup :: "pat_world \<Rightarrow> ptr \<Rightarrow> ptr \<Rightarrow> (nat \<times> pat_world) option" where
  "patricia_lookup w tree pre = do {
     tp \<leftarrow> tree;
     t \<leftarrow> trees w tp;
     q \<leftarrow> pre;
     p \<leftarrow> pfx w q;
     c_assert (bitlen p \<le> maxbits t);
     (case head t of
        None \<Rightarrow> do {
          (new, w) \<leftarrow> new_prefix_node w tp q (bitlen p);
          w \<leftarrow> upd_tree w tp (\<lambda>t. t\<lparr>head := Some new\<rparr>);
          Some (new, w)
        }
      | Some h \<Rightarrow> do {
          f \<leftarrow> lookup_descend (nodes w) (maxbits t) (add p) (bitlen p) h;
          fn \<leftarrow> nodes w f;
          fp \<leftarrow> deref (pfx w) (nprefix fn);
          let check_bit = (if nbit fn < bitlen p then nbit fn else bitlen p);
          d \<leftarrow> find_differ_bit (add p) (add fp) check_bit;
          a \<leftarrow> lookup_ascend (nodes w) d f;
          nd \<leftarrow> nodes w a;
          if d = bitlen p \<and> nbit nd = bitlen p then
            (if nprefix nd \<noteq> NULL then Some (a, w)
             else do {
               (rp, w) \<leftarrow> Ref_Prefix w (Some q);
               w \<leftarrow> upd_node w a (\<lambda>n. n\<lparr>nprefix := rp\<rparr>);
               c_assert (ndata nd = NULL);
               Some (a, w)
             })
          else do {
            (new, w) \<leftarrow> new_prefix_node w tp q (bitlen p);
            w \<leftarrow> (if nbit nd = d then lookup_child w (maxbits t) (add p) a new
                  else if bitlen p = d then lookup_parent w tp (maxbits t) (add fp) (bitlen p) a new
                  else lookup_glue w tp (maxbits t) (add p) d a new);
            Some (new, w)
          }
        })
   }"

subsection \<open>Removal\<close>

text \<open>Make the pointer that leads to \<open>a\<close> from \<open>parent\<close> (or from the head) lead to \<open>child\<close>, with
  the assertions of \<^verbatim>\<open>patricia_remove\<close>.\<close>

definition relink_below :: "pat_world \<Rightarrow> nat \<Rightarrow> ptr \<Rightarrow> nat \<Rightarrow> ptr \<Rightarrow> pat_world option" where
  "relink_below w tp parent a child =
     (case parent of
        None \<Rightarrow> do {
          t \<leftarrow> trees w tp;
          c_assert (head t = Some a);
          upd_tree w tp (\<lambda>t. t\<lparr>head := child\<rparr>)
        }
      | Some q \<Rightarrow> do {
          pd \<leftarrow> nodes w q;
          if nr pd = Some a then upd_node w q (\<lambda>n. n\<lparr>nr := child\<rparr>)
          else do {
            c_assert (nl pd = Some a);
            upd_node w q (\<lambda>n. n\<lparr>nl := child\<rparr>)
          }
        })"

text \<open>No child: the node goes, and so does its parent when that was a glue node.\<close>

definition remove_leaf :: "pat_world \<Rightarrow> nat \<Rightarrow> nat \<Rightarrow> pat_world option" where
  "remove_leaf w tp a = do {
     nd \<leftarrow> nodes w a;
     w \<leftarrow> Deref_Prefix w (nprefix nd);
     w \<leftarrow> free_node w a;
     w \<leftarrow> add_active w tp (-1);
     (case nparent nd of
        None \<Rightarrow> relink_below w tp NULL a NULL
      | Some q \<Rightarrow> do {
          pd \<leftarrow> nodes w q;
          let child = (if nr pd = Some a then nl pd else nr pd);
          w \<leftarrow> relink_below w tp (Some q) a NULL;
          if nprefix pd \<noteq> NULL then Some w
          else do {
            w \<leftarrow> relink_below w tp (nparent pd) q child;
            c \<leftarrow> child;
            w \<leftarrow> upd_node w c (\<lambda>n. n\<lparr>nparent := nparent pd\<rparr>);
            w \<leftarrow> free_node w q;
            add_active w tp (-1)
          }
        })
   }"

text \<open>One child: it takes the node's place.\<close>

definition remove_one_child :: "pat_world \<Rightarrow> nat \<Rightarrow> nat \<Rightarrow> pat_world option" where
  "remove_one_child w tp a = do {
     nd \<leftarrow> nodes w a;
     c \<leftarrow> (if nr nd \<noteq> NULL then nr nd else nl nd);
     w \<leftarrow> upd_node w c (\<lambda>n. n\<lparr>nparent := nparent nd\<rparr>);
     w \<leftarrow> Deref_Prefix w (nprefix nd);
     w \<leftarrow> free_node w a;
     w \<leftarrow> add_active w tp (-1);
     relink_below w tp (nparent nd) a (Some c)
   }"

definition patricia_remove :: "pat_world \<Rightarrow> ptr \<Rightarrow> ptr \<Rightarrow> pat_world option" where
  "patricia_remove w tree node = do {
     tp \<leftarrow> tree;
     a \<leftarrow> node;
     nd \<leftarrow> nodes w a;
     if nr nd \<noteq> NULL \<and> nl nd \<noteq> NULL then do {
       w \<leftarrow> Deref_Prefix w (nprefix nd);
       upd_node w a (\<lambda>n. n\<lparr>nprefix := NULL, ndata := NULL\<rparr>)
     }
     else if nr nd = NULL \<and> nl nd = NULL then remove_leaf w tp a
     else remove_one_child w tp a
   }"

subsection \<open>The helpers of demo.c\<close>

text \<open>\<^verbatim>\<open>printf ("... %s/%d", prefix_toa (prefix), prefix->bitlen)\<close>: the text itself is not kept,
  but the conversion dereferences the prefix and moves the ring buffer.\<close>

definition print_prefix :: "(bytes \<Rightarrow> string option) \<Rightarrow> pat_world \<Rightarrow> ptr \<Rightarrow> pat_world option" where
  "print_prefix inet_ntop6 w pre = do {
     p \<leftarrow> deref (pfx w) pre;
     (_, lb) \<leftarrow> prefix_toa inet_ntop6 (toab w) (Some p);
     Some (w\<lparr>toab := lb\<rparr>)
   }"

definition make_and_lookup ::
  "(string \<Rightarrow> bytes option) \<Rightarrow> (bytes \<Rightarrow> string option) \<Rightarrow> pat_world \<Rightarrow> ptr \<Rightarrow> string \<Rightarrow> (nat \<times> pat_world) option" where
  "make_and_lookup inet_pton6 inet_ntop6 w tree str = do {
     (pre, w) \<leftarrow> ascii2prefix inet_pton6 w AF_INET (Some str);
     w \<leftarrow> print_prefix inet_ntop6 w pre;
     (a, w) \<leftarrow> patricia_lookup w tree pre;
     w \<leftarrow> Deref_Prefix w pre;
     Some (a, w)
   }"

definition try_search_exact ::
  "(string \<Rightarrow> bytes option) \<Rightarrow> (bytes \<Rightarrow> string option) \<Rightarrow> pat_world \<Rightarrow> ptr \<Rightarrow> string \<Rightarrow> (ptr \<times> pat_world) option" where
  "try_search_exact inet_pton6 inet_ntop6 w tree str = do {
     (pre, w) \<leftarrow> ascii2prefix inet_pton6 w AF_INET (Some str);
     w \<leftarrow> print_prefix inet_ntop6 w pre;
     node \<leftarrow> patricia_search_exact w tree pre;
     w \<leftarrow> (case node of
            None \<Rightarrow> Some w
          | Some a \<Rightarrow> do { nd \<leftarrow> nodes w a; print_prefix inet_ntop6 w (nprefix nd) });
     w \<leftarrow> Deref_Prefix w pre;
     Some (node, w)
   }"

definition lookup_then_remove ::
  "(string \<Rightarrow> bytes option) \<Rightarrow> (bytes \<Rightarrow> string option) \<Rightarrow> pat_world \<Rightarrow> ptr \<Rightarrow> string \<Rightarrow> pat_world option" where
  "lookup_then_remove inet_pton6 inet_ntop6 w tree str = do {
     (node, w) \<leftarrow> try_search_exact inet_pton6 inet_ntop6 w tree str;
     (case node of None \<Rightarrow> Some w | Some a \<Rightarrow> patricia_remove w tree (Some a))
   }"

text \<open>The function ends without a \<^verbatim>\<open>return\<close>: its value is not used by the callers, so only the
  effect is modelled, with the node it prints.\<close>

definition try_search_best ::
  "(string \<Rightarrow> bytes option) \<Rightarrow> (bytes \<Rightarrow> string option) \<Rightarrow> pat_world \<Rightarrow> ptr \<Rightarrow> string \<Rightarrow> (ptr \<times> pat_world) option" where
  "try_search_best inet_pton6 inet_ntop6 w tree str = do {
     (pre, w) \<leftarrow> ascii2prefix inet_pton6 w AF_INET (Some str);
     w \<leftarrow> print_prefix inet_ntop6 w pre;
     node \<leftarrow> patricia_search_best w tree pre;
     w \<leftarrow> (case node of
            None \<Rightarrow> Some w
          | Some a \<Rightarrow> do { nd \<leftarrow> nodes w a; print_prefix inet_ntop6 w (nprefix nd) });
     w \<leftarrow> Deref_Prefix w pre;
     Some (node, w)
   }"


text \<open>\<^verbatim>\<open>func\<close> of \<^verbatim>\<open>demo.c\<close> over the calls of a walk, and the line it prints after one: the number of
  prefixes.  The walk dereferences the head, so it needs a tree that is not empty.\<close>

fun print_calls :: "(bytes \<Rightarrow> string option) \<Rightarrow> pat_world \<Rightarrow> (nat \<times> ptr) list \<Rightarrow> pat_world option" where
  "print_calls inet_ntop6 w [] = Some w"
| "print_calls inet_ntop6 w ((q, d) # calls) = do {
     w \<leftarrow> print_prefix inet_ntop6 w (Some q);
     print_calls inet_ntop6 w calls
   }"

definition demo_count :: "(bytes \<Rightarrow> string option) \<Rightarrow> pat_world \<Rightarrow> nat \<Rightarrow> (nat \<times> pat_world) option" where
  "demo_count inet_ntop6 w tp = do {
     t \<leftarrow> trees w tp;
     h \<leftarrow> head t;
     (n, calls) \<leftarrow> patricia_walk_inorder (nodes w) h;
     w \<leftarrow> print_calls inet_ntop6 w calls;
     Some (n, w)
   }"

text \<open>\<^verbatim>\<open>main\<close> of \<^verbatim>\<open>demo.c\<close>: the results of the searches in order, and the two counts.\<close>

definition demo_main ::
  "(string \<Rightarrow> bytes option) \<Rightarrow> (bytes \<Rightarrow> string option) \<Rightarrow> pat_world \<Rightarrow> (ptr list \<times> nat \<times> nat \<times> pat_world) option" where
  "demo_main pton6 ntop6 w = do {
     (tp, w) \<leftarrow> New_Patricia w 32;
     let tree = Some tp;
     (_, w) \<leftarrow> make_and_lookup pton6 ntop6 w tree ''127.0.0.0/8'';
     (r1, w) \<leftarrow> try_search_best pton6 ntop6 w tree ''127.0.0.1'';
     (r2, w) \<leftarrow> try_search_best pton6 ntop6 w tree ''10.0.0.1'';
     (_, w) \<leftarrow> make_and_lookup pton6 ntop6 w tree ''10.42.42.0/24'';
     (_, w) \<leftarrow> make_and_lookup pton6 ntop6 w tree ''10.42.69.0/24'';
     (_, w) \<leftarrow> make_and_lookup pton6 ntop6 w tree ''10.0.0.0/8'';
     (_, w) \<leftarrow> make_and_lookup pton6 ntop6 w tree ''10.0.0.0/9'';
     (r3, w) \<leftarrow> try_search_best pton6 ntop6 w tree ''10.42.42.0/24'';
     (r4, w) \<leftarrow> try_search_best pton6 ntop6 w tree ''10.10.10.10'';
     (r5, w) \<leftarrow> try_search_best pton6 ntop6 w tree ''10.10.10.1'';
     (r6, w) \<leftarrow> try_search_exact pton6 ntop6 w tree ''10.0.0.0'';
     (r7, w) \<leftarrow> try_search_exact pton6 ntop6 w tree ''10.0.0.0/8'';
     (n1, w) \<leftarrow> demo_count ntop6 w tp;
     w \<leftarrow> lookup_then_remove pton6 ntop6 w tree ''42.0.0.0/8'';
     w \<leftarrow> lookup_then_remove pton6 ntop6 w tree ''10.0.0.0/8'';
     (r8, w) \<leftarrow> try_search_exact pton6 ntop6 w tree ''10.0.0.0'';
     (n2, w) \<leftarrow> demo_count ntop6 w tp;
     (w, _) \<leftarrow> Destroy_Patricia w tree False;
     Some ([r1, r2, r3, r4, r5, r6, r7, r8], n1, n2, w)
   }"

text \<open>The loops as code equations, so that the model runs.\<close>

declare clear_loop.simps [code] walk_loop.simps [code] patricia_walk_inorder.simps [code]
  search_exact_loop.simps [code] search_best_loop.simps [code] lookup_descend.simps [code]
  lookup_ascend.simps [code]

end
