(* ===== verification/PatriciaTree.thy ===== *)
theory PatriciaTree
  imports Patricia
begin

text \<open>
  The abstract side of the trie: the shape of the linked structure as a datatype that keeps the
  address of each node, the bit string each node stands for (a ghost for nodes without prefix), and
  zippers for the places the loops of the code move to.  \<open>rep\<close> relates a store to a tree,
  \<open>wft\<close> is the well-formedness invariant of the trie.  The searches, insertion and removal are
  given on trees here; the theories that follow show that the pointer code implements them.
\<close>

subsection \<open>Trees, their addresses and their representation\<close>

record ninfo =
  ikey :: "bool list"
  ipre :: ptr
  idata :: ptr
  iuser :: ptr

datatype ptree = Tip | Nd ptree nat ninfo ptree

fun root :: "ptree \<Rightarrow> ptr" where
  "root Tip = NULL"
| "root (Nd l a i r) = Some a"

fun addrs :: "ptree \<Rightarrow> nat list" where
  "addrs Tip = []"
| "addrs (Nd l a i r) = a # addrs l @ addrs r"

fun infos :: "ptree \<Rightarrow> (nat \<times> ninfo) list" where
  "infos Tip = []"
| "infos (Nd l a i r) = (a, i) # infos l @ infos r"

lemma map_fst_infos [simp]: "map fst (infos t) = addrs t"
  by (induction t) auto

lemma fst_infos_addrs: "(a, i) \<in> set (infos t) \<Longrightarrow> a \<in> set (addrs t)"
  by (metis fst_conv image_eqI map_fst_infos set_map)

lemma length_infos: "length (infos t) = length (addrs t)"
  by (metis length_map map_fst_infos)

lemma root_eq_None [simp]: "root t = None \<longleftrightarrow> t = Tip"
  by (cases t) auto

lemma root_in_addrs: "root t = Some a \<Longrightarrow> a \<in> set (addrs t)"
  by (cases t) auto

definition node_of :: "ninfo \<Rightarrow> ptr \<Rightarrow> ptr \<Rightarrow> ptr \<Rightarrow> patricia_node_t" where
  "node_of i lp rp par = \<lparr>nbit = length (ikey i), nprefix = ipre i, nl = lp, nr = rp,
     nparent = par, ndata = idata i, nuser1 = iuser i\<rparr>"

lemma node_of_sel [simp]:
  "nbit (node_of i lp rp par) = length (ikey i)"
  "nprefix (node_of i lp rp par) = ipre i"
  "nl (node_of i lp rp par) = lp"
  "nr (node_of i lp rp par) = rp"
  "nparent (node_of i lp rp par) = par"
  "ndata (node_of i lp rp par) = idata i"
  by (simp_all add: node_of_def)

lemma node_of_upd [simp]:
  "(node_of i lp rp par)\<lparr>nl := x\<rparr> = node_of i x rp par"
  "(node_of i lp rp par)\<lparr>nr := x\<rparr> = node_of i lp x par"
  "(node_of i lp rp par)\<lparr>nparent := x\<rparr> = node_of i lp rp x"
  "(node_of i lp rp par)\<lparr>nprefix := x\<rparr> = node_of (i\<lparr>ipre := x\<rparr>) lp rp par"
  "(node_of i lp rp par)\<lparr>ndata := x\<rparr> = node_of (i\<lparr>idata := x\<rparr>) lp rp par"
  by (simp_all add: node_of_def)

fun rep :: "patricia_node_t store \<Rightarrow> ptr \<Rightarrow> ptree \<Rightarrow> bool" where
  "rep ns par Tip \<longleftrightarrow> True"
| "rep ns par (Nd l a i r) \<longleftrightarrow>
     ns a = Some (node_of i (root l) (root r) par) \<and> rep ns (Some a) l \<and> rep ns (Some a) r"

lemma rep_upd_other [simp]: "a \<notin> set (addrs t) \<Longrightarrow> rep (ns(a := x)) par t = rep ns par t"
  by (induction t arbitrary: par) auto

lemma rep_live: "rep ns par t \<Longrightarrow> a \<in> set (addrs t) \<Longrightarrow> \<exists>nd. ns a = Some nd"
  by (induction t arbitrary: par) auto

lemma rep_reparent:
  "rep ns par (Nd l a i r) \<Longrightarrow> a \<notin> set (addrs l) \<Longrightarrow> a \<notin> set (addrs r) \<Longrightarrow>
   rep (ns(a \<mapsto> node_of i (root l) (root r) par')) par' (Nd l a i r)"
  by simp

subsection \<open>Zippers\<close>

datatype frame = FL nat ninfo ptree | FR ptree nat ninfo

fun faddr :: "frame \<Rightarrow> nat" where
  "faddr (FL a i r) = a"
| "faddr (FR l a i) = a"

fun finfo :: "frame \<Rightarrow> ninfo" where
  "finfo (FL a i r) = i"
| "finfo (FR l a i) = i"

fun fside :: "frame \<Rightarrow> bool" where
  "fside (FL a i r) = False"
| "fside (FR l a i) = True"

fun fsib :: "frame \<Rightarrow> ptree" where
  "fsib (FL a i r) = r"
| "fsib (FR l a i) = l"

fun plug1 :: "ptree \<Rightarrow> frame \<Rightarrow> ptree" where
  "plug1 t (FL a i r) = Nd t a i r"
| "plug1 t (FR l a i) = Nd l a i t"

fun plug :: "ptree \<Rightarrow> frame list \<Rightarrow> ptree" where
  "plug t [] = t"
| "plug t (f # fs) = plug (plug1 t f) fs"

fun par_of :: "frame list \<Rightarrow> ptr" where
  "par_of [] = NULL"
| "par_of (f # fs) = Some (faddr f)"

fun frame_node :: "frame \<Rightarrow> ptr \<Rightarrow> ptr \<Rightarrow> patricia_node_t" where
  "frame_node (FL a i r) hole par = node_of i hole (root r) par"
| "frame_node (FR l a i) hole par = node_of i (root l) hole par"

lemma frame_node_sel [simp]:
  "nbit (frame_node f h par) = length (ikey (finfo f))"
  "nparent (frame_node f h par) = par"
  "nprefix (frame_node f h par) = ipre (finfo f)"
  by (cases f; simp)+

fun repc :: "patricia_node_t store \<Rightarrow> ptr \<Rightarrow> frame list \<Rightarrow> bool" where
  "repc ns hole [] \<longleftrightarrow> True"
| "repc ns hole (f # fs) \<longleftrightarrow>
     ns (faddr f) = Some (frame_node f hole (par_of fs)) \<and> rep ns (Some (faddr f)) (fsib f) \<and>
     repc ns (Some (faddr f)) fs"

fun caddrs :: "frame list \<Rightarrow> nat list" where
  "caddrs [] = []"
| "caddrs (f # fs) = faddr f # addrs (fsib f) @ caddrs fs"

lemma repc_upd_other [simp]: "a \<notin> set (caddrs fs) \<Longrightarrow> repc (ns(a := x)) hole fs = repc ns hole fs"
  by (induction fs arbitrary: hole) auto

lemma rep_plug: "rep ns NULL (plug t fs) \<longleftrightarrow> rep ns (par_of fs) t \<and> repc ns (root t) fs"
proof (induction fs arbitrary: t)
  case Nil
  then show ?case by simp
next
  case (Cons f fs)
  then show ?case by (cases f) auto
qed

lemma addrs_plug: "set (addrs (plug t fs)) = set (addrs t) \<union> set (caddrs fs)"
proof (induction fs arbitrary: t)
  case Nil
  then show ?case by simp
next
  case (Cons f fs)
  then show ?case by (cases f) auto
qed

lemma length_addrs_plug: "length (addrs (plug t fs)) = length (addrs t) + length (caddrs fs)"
proof (induction fs arbitrary: t)
  case Nil
  then show ?case by simp
next
  case (Cons f fs)
  then show ?case by (cases f) auto
qed

lemma distinct_plug:
  "distinct (addrs (plug t fs)) \<longleftrightarrow>
   distinct (addrs t) \<and> distinct (caddrs fs) \<and> set (addrs t) \<inter> set (caddrs fs) = {}"
proof (induction fs arbitrary: t)
  case Nil
  then show ?case by simp
next
  case (Cons f fs)
  then show ?case by (cases f) auto
qed

lemma plug1_not_Tip [simp]: "plug1 t f \<noteq> Tip" "Tip \<noteq> plug1 t f"
  by (cases f; simp)+

lemma plug_not_Tip [simp]: "t \<noteq> Tip \<Longrightarrow> plug t fs \<noteq> Tip"
proof (induction fs arbitrary: t)
  case Nil
  then show ?case by simp
next
  case (Cons f fs)
  then show ?case by (cases f) auto
qed

text \<open>The pointer at the head of the tree, seen from a hole.\<close>

fun root_of :: "ptr \<Rightarrow> frame list \<Rightarrow> ptr" where
  "root_of hole [] = hole"
| "root_of hole (f # fs) = root_of (Some (faddr f)) fs"

lemma root_plug: "root (plug t fs) = root_of (root t) fs"
proof (induction fs arbitrary: t)
  case Nil
  then show ?case by simp
next
  case (Cons f fs)
  then show ?case by (cases f) auto
qed

lemma root_of_Cons_indep: "root_of p (f # fs) = root_of q (f # fs)"
  by simp

subsection \<open>The entries of a tree\<close>

text \<open>The nodes that carry a prefix, with the bit string each stands for.\<close>

definition entries :: "ptree \<Rightarrow> (bool list \<times> nat) set" where
  "entries t = {(ikey i, a) | a i. (a, i) \<in> set (infos t) \<and> ipre i \<noteq> NULL}"

lemma entries_simps [simp]:
  "entries Tip = {}"
  "entries (Nd l a i r) = (if ipre i = NULL then {} else {(ikey i, a)}) \<union> entries l \<union> entries r"
  by (auto simp: entries_def)

lemma infos_plug: "set (infos (plug t fs)) = set (infos t) \<union> set (infos (plug Tip fs))"
proof (induction fs arbitrary: t)
  case Nil
  then show ?case by simp
next
  case (Cons f fs)
  have "set (infos (plug (plug1 t f) fs)) = set (infos (plug1 t f)) \<union> set (infos (plug Tip fs))"
    and "set (infos (plug (plug1 Tip f) fs)) = set (infos (plug1 Tip f)) \<union> set (infos (plug Tip fs))"
    by (rule Cons.IH)+
  then show ?case by (cases f) auto
qed

lemma infos_unique: "distinct (addrs t) \<Longrightarrow> (a, i) \<in> set (infos t) \<Longrightarrow> (a, j) \<in> set (infos t) \<Longrightarrow> i = j"
  using eq_key_imp_eq_value [of "infos t" a i j] by simp

text \<open>The nodes other than the one at the focus.\<close>

lemma infos_minus:
  assumes "distinct (addrs (plug (Nd l a i r) gs))"
  shows "{(b, j) \<in> set (infos (plug (Nd l a i r) gs)). b \<noteq> a} =
    set (infos l) \<union> set (infos r) \<union> set (infos (plug Tip gs))"
proof -
  have "a \<notin> set (addrs l)" "a \<notin> set (addrs r)" "a \<notin> set (addrs (plug Tip gs))"
    using assms by (auto simp: distinct_plug addrs_plug)
  then show ?thesis
    using infos_plug [of "Nd l a i r" gs] fst_infos_addrs [of a] by fastforce
qed

lemma entries_plug: "entries (plug t fs) = entries t \<union> entries (plug Tip fs)"
  using infos_plug [of t fs] by (auto simp: entries_def)

subsection \<open>Well-formed trees\<close>

text \<open>Every key below a node extends the node's key by the bit of the side it is on; keys are at
  most \<open>m\<close> bits; a node without prefix has two children and no data.\<close>

fun wft :: "nat \<Rightarrow> bool list \<Rightarrow> ptree \<Rightarrow> bool" where
  "wft m k Tip \<longleftrightarrow> True"
| "wft m k (Nd l a i r) \<longleftrightarrow>
     prefix k (ikey i) \<and> length (ikey i) \<le> m \<and>
     (ipre i = NULL \<longrightarrow> l \<noteq> Tip \<and> r \<noteq> Tip \<and> idata i = NULL) \<and>
     wft m (ikey i @ [False]) l \<and> wft m (ikey i @ [True]) r"

fun hole_key :: "frame list \<Rightarrow> bool list" where
  "hole_key [] = []"
| "hole_key (f # fs) = ikey (finfo f) @ [fside f]"

fun wfc :: "nat \<Rightarrow> frame list \<Rightarrow> bool" where
  "wfc m [] \<longleftrightarrow> True"
| "wfc m (f # fs) \<longleftrightarrow>
     prefix (hole_key fs) (ikey (finfo f)) \<and> length (ikey (finfo f)) \<le> m \<and>
     (ipre (finfo f) = NULL \<longrightarrow> fsib f \<noteq> Tip \<and> idata (finfo f) = NULL) \<and>
     wft m (ikey (finfo f) @ [\<not> fside f]) (fsib f) \<and> wfc m fs"

lemma wft_plug:
  "t \<noteq> Tip \<Longrightarrow> wft m [] (plug t fs) \<longleftrightarrow> wft m (hole_key fs) t \<and> wfc m fs"
proof (induction fs arbitrary: t)
  case Nil
  then show ?case by simp
next
  case (Cons f fs)
  from Cons.IH [OF plug1_not_Tip(1) [of t f]] Cons.prems show ?case by (cases f) auto
qed

lemma wft_weaken: "wft m k t \<Longrightarrow> prefix k' k \<Longrightarrow> wft m k' t"
  by (cases t) (auto intro: prefix_order.trans)

lemma wft_key: "wft m k t \<Longrightarrow> (a, i) \<in> set (infos t) \<Longrightarrow> prefix k (ikey i) \<and> length (ikey i) \<le> m"
proof (induction t arbitrary: k)
  case Tip
  then show ?case by simp
next
  case (Nd l b j r)
  from Nd.prems consider "(a, i) = (b, j)" | "(a, i) \<in> set (infos l)" | "(a, i) \<in> set (infos r)"
    by auto
  then show ?case
  proof cases
    case 1
    with Nd.prems show ?thesis by simp
  next
    case 2
    with Nd.prems have "prefix (ikey j @ [False]) (ikey i) \<and> length (ikey i) \<le> m"
      by (intro Nd.IH(1)) simp_all
    with Nd.prems show ?thesis by (auto dest: append_prefixD intro: prefix_order.trans)
  next
    case 3
    with Nd.prems have "prefix (ikey j @ [True]) (ikey i) \<and> length (ikey i) \<le> m"
      by (intro Nd.IH(2)) simp_all
    with Nd.prems show ?thesis by (auto dest: append_prefixD intro: prefix_order.trans)
  qed
qed

lemma wft_entry: "wft m k t \<Longrightarrow> (x, a) \<in> entries t \<Longrightarrow> prefix k x \<and> length x \<le> m"
  by (auto simp: entries_def dest: wft_key)

lemma wft_side:
  assumes "wft m k (Nd l c h r)"
  shows "(y, x) \<in> set (infos l) \<Longrightarrow> prefix (ikey h @ [False]) (ikey x)"
    and "(y, x) \<in> set (infos r) \<Longrightarrow> prefix (ikey h @ [True]) (ikey x)"
  using assms wft_key [of m "ikey h @ [False]" l y x] wft_key [of m "ikey h @ [True]" r y x] by auto

lemma wft_key_inj:
  "wft m k t \<Longrightarrow> (a, i) \<in> set (infos t) \<Longrightarrow> (b, j) \<in> set (infos t) \<Longrightarrow> ikey i = ikey j \<Longrightarrow>
   (a, i) = (b, j)"
proof (induction t arbitrary: k)
  case Tip
  then show ?case by simp
next
  case (Nd l c h r)
  have hl: "length (ikey h) < length (ikey y) \<and> \<not> ikey y ! length (ikey h)" if "(x, y) \<in> set (infos l)" for x y
    using wft_side(1) [OF Nd.prems(1) that] by (simp add: prefix_snoc_conv)
  have hr: "length (ikey h) < length (ikey y) \<and> ikey y ! length (ikey h)" if "(x, y) \<in> set (infos r)" for x y
    using wft_side(2) [OF Nd.prems(1) that] by (simp add: prefix_snoc_conv)
  have wl: "wft m (ikey h @ [False]) l" and wr: "wft m (ikey h @ [True]) r" using Nd.prems(1) by simp_all
  from Nd.prems(2,3) have "(a, i) = (c, h) \<or> (a, i) \<in> set (infos l) \<or> (a, i) \<in> set (infos r)"
    and "(b, j) = (c, h) \<or> (b, j) \<in> set (infos l) \<or> (b, j) \<in> set (infos r)" by auto
  then show ?case
    using Nd.prems(4) hl hr Nd.IH(1) [OF wl] Nd.IH(2) [OF wr] by (metis Pair_inject less_irrefl)
qed

lemma entry_unique: "wft m k t \<Longrightarrow> (x, a) \<in> entries t \<Longrightarrow> (x, b) \<in> entries t \<Longrightarrow> a = b"
  unfolding entries_def using wft_key_inj [of m k t] by fastforce

text \<open>A tree below a node whose glue children exist is not at the bottom of the address.\<close>

lemma wft_child_shorter:
  "wft m k (Nd l a i r) \<Longrightarrow> l \<noteq> Tip \<or> r \<noteq> Tip \<Longrightarrow> length (ikey i) < m"
  by (cases l; cases r) (auto dest!: prefix_length_le)

subsection \<open>Exact search on trees\<close>

fun find_t :: "bool list \<Rightarrow> ptree \<Rightarrow> ptr" where
  "find_t k Tip = NULL"
| "find_t k (Nd l a i r) =
     (if length (ikey i) < length k then find_t k (if k ! length (ikey i) then r else l)
      else if ikey i = k \<and> ipre i \<noteq> NULL then Some a else NULL)"

lemma entry_side:
  assumes "wft m k (Nd l a i r)" and "(x, b) \<in> entries (Nd l a i r)" and "prefix x y"
    and "length (ikey i) < length y" and "x \<noteq> ikey i"
  shows "(x, b) \<in> entries (if y ! length (ikey i) then r else l)"
proof -
  have in_side: "y ! length (ikey i) = s" if "prefix (ikey i @ [s]) x" for s
    using that assms(3) by (metis prefix_order.trans prefix_snoc_conv)
  show ?thesis
    using assms(1,2,5) in_side wft_entry [of m "ikey i @ [False]" l x b] wft_entry [of m "ikey i @ [True]" r x b]
    by (auto split: if_splits)
qed

lemma find_t_correct: "wft m k0 t \<Longrightarrow> find_t k t = Some a \<longleftrightarrow> (k, a) \<in> entries t"
proof (induction t arbitrary: k0)
  case Tip
  then show ?case by simp
next
  case (Nd l b i r)
  show ?case
  proof (cases "length (ikey i) < length k")
    case True
    then have ne: "k \<noteq> ikey i" by auto
    have "(k, a) \<in> entries (Nd l b i r) \<Longrightarrow> (k, a) \<in> entries (if k ! length (ikey i) then r else l)"
      by (rule entry_side [OF Nd.prems _ _ True ne]) simp_all
    moreover have "find_t k (if k ! length (ikey i) then r else l) = Some a \<longleftrightarrow>
        (k, a) \<in> entries (if k ! length (ikey i) then r else l)"
      using Nd.IH(1) [of "ikey i @ [False]"] Nd.IH(2) [of "ikey i @ [True]"] Nd.prems by simp
    ultimately show ?thesis using True by (auto split: if_splits)
  next
    case False
    have "(k, a) \<notin> entries l" "(k, a) \<notin> entries r"
      using False Nd.prems wft_entry [of m _ l k a] wft_entry [of m _ r k a]
      by (fastforce dest: prefix_length_le)+
    with False show ?thesis by auto
  qed
qed

end
