(* ===== verification/PatriciaSearch.thy ===== *)
theory PatriciaSearch
  imports PatriciaTree
begin

text \<open>
  The invariant \<open>pat_inv\<close> of the trie and the two searches.  \<open>pat_inv w tp t\<close> says that the store
  holds, from the header at \<open>tp\<close>, exactly the linked structure \<open>t\<close>: parent and child pointers
  agree, no node is shared, the counter of active nodes is right, each node with a prefix points to a
  live, counted prefix whose bits are the node's key, and keys are arranged as in a Patricia trie.
  Exact search finds the node of a key; best search returns the longest stored prefix of a key;
  neither reads invalid memory, fails an assertion, overflows its stack, or runs forever.
\<close>

subsection \<open>The invariant\<close>

definition pre_ok :: "prefix_t store \<Rightarrow> ninfo \<Rightarrow> bool" where
  "pre_ok P i \<longleftrightarrow> (case ipre i of None \<Rightarrow> True | Some q \<Rightarrow>
     (case P q of None \<Rightarrow> False
      | Some p \<Rightarrow> wf_prefix p \<and> pkey p = ikey i \<and> 1 \<le> ref_count p))"

fun pfx_ok :: "prefix_t store \<Rightarrow> ptree \<Rightarrow> bool" where
  "pfx_ok P Tip \<longleftrightarrow> True"
| "pfx_ok P (Nd l a i r) \<longleftrightarrow> pre_ok P i \<and> pfx_ok P l \<and> pfx_ok P r"

lemma pfx_ok_iff: "pfx_ok P t \<longleftrightarrow> (\<forall>(a, i) \<in> set (infos t). pre_ok P i)"
  by (induction t) auto

lemma pfx_okD: "pfx_ok P t \<Longrightarrow> (a, i) \<in> set (infos t) \<Longrightarrow> pre_ok P i"
  by (auto simp: pfx_ok_iff)

lemma pre_okE:
  assumes "pre_ok P i" and "ipre i = Some q"
  obtains p where "P q = Some p" "wf_prefix p" "pkey p = ikey i" "1 \<le> ref_count p"
  using assms by (auto simp: pre_ok_def split: option.splits)

definition pat_inv :: "pat_world \<Rightarrow> nat \<Rightarrow> ptree \<Rightarrow> bool" where
  "pat_inv w tp t \<longleftrightarrow>
     (case trees w tp of None \<Rightarrow> False
      | Some tr \<Rightarrow> head tr = root t \<and> maxbits tr \<le> PATRICIA_MAXBITS \<and>
          num_active_node tr = int (length (addrs t)) \<and> wft (maxbits tr) [] t) \<and>
     rep (nodes w) NULL t \<and> distinct (addrs t) \<and> pfx_ok (pfx w) t \<and>
     (\<forall>a. brk w \<le> a \<longrightarrow> nodes w a = None \<and> trees w a = None \<and> pfx w a = None)"

text \<open>The largest key length the tree at \<open>tp\<close> accepts.\<close>

definition tree_maxbits :: "pat_world \<Rightarrow> nat \<Rightarrow> nat" where
  "tree_maxbits w tp = (case trees w tp of None \<Rightarrow> 0 | Some tr \<Rightarrow> maxbits tr)"

text \<open>A prefix a caller may pass: live, well formed, not longer than the tree allows, and counted
  (or static, marked by a count of \<open>-1\<close>).\<close>

definition arg_ok :: "pat_world \<Rightarrow> nat \<Rightarrow> nat \<Rightarrow> bool list \<Rightarrow> bool" where
  "arg_ok w tp q k \<longleftrightarrow> (case pfx w q of None \<Rightarrow> False
     | Some p \<Rightarrow> wf_prefix p \<and> -1 \<le> ref_count p \<and> bitlen p \<le> tree_maxbits w tp \<and> pkey p = k)"

lemma pat_invE:
  assumes "pat_inv w tp t"
  obtains tr where "trees w tp = Some tr" "head tr = root t" "maxbits tr \<le> 128"
    "num_active_node tr = int (length (addrs t))" "wft (maxbits tr) [] t"
    "rep (nodes w) NULL t" "distinct (addrs t)" "pfx_ok (pfx w) t" "tree_maxbits w tp = maxbits tr"
  using assms by (auto simp: pat_inv_def PATRICIA_MAXBITS_def tree_maxbits_def split: option.splits)

lemma pat_inv_fresh:
  "pat_inv w tp t \<Longrightarrow> brk w \<le> a \<Longrightarrow> nodes w a = None \<and> trees w a = None \<and> pfx w a = None"
  by (simp add: pat_inv_def)

lemma arg_okE:
  assumes "arg_ok w tp q k"
  obtains p where "pfx w q = Some p" "wf_prefix p" "-1 \<le> ref_count p" "bitlen p \<le> tree_maxbits w tp"
    "pkey p = k" "length k = bitlen p" "length (add p) = 16" "bitlen p \<le> 128"
  using assms by (auto simp: arg_ok_def wf_prefix_def split: option.splits)

lemma addr_bit_key:
  "wf_prefix p \<Longrightarrow> i < bitlen p \<Longrightarrow> addr_bit (add p) i = Some (pkey p ! i)"
  by (auto simp: wf_prefix_def addr_bit_bits pkey_def)

lemma comp_with_mask_key:
  assumes "wf_prefix x" and "wf_prefix y" and "bitlen x \<le> bitlen y"
  shows "comp_with_mask (add x) (add y) (bitlen x) = Some (prefix (pkey x) (pkey y))"
proof -
  have "bitlen x \<le> 128" "length (add x) = 16" "length (add y) = 16" "bitlen y \<le> 128"
    using assms by (auto simp: wf_prefix_def)
  with assms(3) show ?thesis
    by (simp add: comp_with_mask_bits prefix_conv_take pkey_def min_def eq_commute)
qed

lemma comp_with_mask_total:
  "wf_prefix x \<Longrightarrow> wf_prefix y \<Longrightarrow> \<exists>b. comp_with_mask (add x) (add y) (bitlen x) = Some b"
  by (auto simp: wf_prefix_def comp_with_mask_bits)

subsection \<open>Exact search\<close>

text \<open>The subtree at which the descent of both searches stops.\<close>

fun stop_t :: "bool list \<Rightarrow> ptree \<Rightarrow> ptree" where
  "stop_t k Tip = Tip"
| "stop_t k (Nd l a i r) =
     (if length (ikey i) < length k then stop_t k (if k ! length (ikey i) then r else l)
      else Nd l a i r)"

lemma find_stop:
  "find_t k t = (case stop_t k t of Tip \<Rightarrow> NULL
     | Nd l a i r \<Rightarrow> if ikey i = k \<and> ipre i \<noteq> NULL then Some a else NULL)"
  by (induction t) auto

lemma stop_props:
  "stop_t k t = Nd l a i r \<Longrightarrow> rep ns par t \<Longrightarrow>
   length k \<le> length (ikey i) \<and> (a, i) \<in> set (infos t) \<and>
   (\<exists>par'. ns a = Some (node_of i (root l) (root r) par'))"
proof (induction t arbitrary: par)
  case Tip
  then show ?case by simp
next
  case (Nd l' a' i' r')
  then show ?case by (auto split: if_splits)
qed

lemma search_exact_loop_stop:
  "rep ns par t \<Longrightarrow> wf_prefix p \<Longrightarrow> root t = Some a \<Longrightarrow>
   search_exact_loop ns (add p) (bitlen p) a = Some (root (stop_t (pkey p) t))"
proof (induction t arbitrary: par a)
  case Tip
  then show ?case by simp
next
  case (Nd l b i r)
  then have [simp]: "a = b" by simp
  let ?c = "if pkey p ! length (ikey i) then r else l"
  have IH: "search_exact_loop ns (add p) (bitlen p) c = Some (root (stop_t (pkey p) ?c))"
    if "root ?c = Some c" for c
    using Nd.IH [of "Some b" c] Nd.prems that by (auto split: if_splits)
  show ?case
  proof (cases "length (ikey i) < bitlen p")
    case True
    with Nd.prems IH show ?thesis
      by (subst search_exact_loop.simps) (auto simp: addr_bit_key split: option.splits)
  next
    case False
    with Nd.prems show ?thesis by (subst search_exact_loop.simps) auto
  qed
qed

lemma search_exact_find:
  assumes inv: "pat_inv w tp t" and arg: "arg_ok w tp q k"
  shows "patricia_search_exact w (Some tp) (Some q) = Some (find_t k t)"
proof -
  from inv obtain tr where tr: "trees w tp = Some tr" "head tr = root t" "rep (nodes w) NULL t"
    "pfx_ok (pfx w) t" "tree_maxbits w tp = maxbits tr" by (rule pat_invE)
  from arg obtain p where p: "pfx w q = Some p" "wf_prefix p" "bitlen p \<le> tree_maxbits w tp"
    "pkey p = k" "length k = bitlen p" by (rule arg_okE)
  show ?thesis
  proof (cases "root t")
    case None
    with tr p show ?thesis by (simp add: patricia_search_exact_def)
  next
    case (Some h)
    have loop: "search_exact_loop (nodes w) (add p) (bitlen p) h = Some (root (stop_t k t))"
      using search_exact_loop_stop [OF tr(3) p(2) Some] p(4) by simp
    show ?thesis
    proof (cases "stop_t k t")
      case Tip
      with Some tr p loop show ?thesis by (simp add: patricia_search_exact_def find_stop)
    next
      case (Nd l a i r)
      from stop_props [OF Nd tr(3)] obtain par where
        nd: "nodes w a = Some (node_of i (root l) (root r) par)" "(a, i) \<in> set (infos t)"
        and le: "length k \<le> length (ikey i)" by auto
      from pfx_okD [OF tr(4) nd(2)] have ok: "pre_ok (pfx w) i" .
      show ?thesis
      proof (cases "length (ikey i) > bitlen p \<or> ipre i = NULL")
        case True
        with Some tr p loop Nd nd show ?thesis by (auto simp: patricia_search_exact_def find_stop)
      next
        case False
        with le p(5) have eq: "length (ikey i) = bitlen p" and "ipre i \<noteq> NULL" by auto
        then obtain r' where r': "ipre i = Some r'" by auto
        from pre_okE [OF ok this] obtain np where
          np: "pfx w r' = Some np" "wf_prefix np" "pkey np = ikey i" by metis
        then have len: "bitlen np = bitlen p" using eq by (metis length_pkey)
        with comp_with_mask_key [OF np(2) p(2)] np(3) p(4,5) eq
        have "comp_with_mask (add np) (add p) (bitlen p) = Some (ikey i = k)"
          by (auto simp: prefix_conv_take)
        with Some tr p loop Nd nd eq np r' len show ?thesis
          by (simp add: patricia_search_exact_def find_stop prefix_tochar_def)
      qed
    qed
  qed
qed


subsection \<open>Best search\<close>

text \<open>The entries the descent passes, from the top, and the one it stops at.\<close>

fun path_t :: "bool list \<Rightarrow> ptree \<Rightarrow> (bool list \<times> nat) list" where
  "path_t k Tip = []"
| "path_t k (Nd l a i r) =
     (if length (ikey i) < length k
      then (if ipre i = NULL then [] else [(ikey i, a)]) @ path_t k (if k ! length (ikey i) then r else l)
      else [])"

definition stop_entry :: "bool list \<Rightarrow> ptree \<Rightarrow> (bool list \<times> nat) list" where
  "stop_entry k t = (case stop_t k t of Tip \<Rightarrow> []
     | Nd l a i r \<Rightarrow> if ipre i = NULL then [] else [(ikey i, a)])"

lemma stop_entry_simps [simp]:
  "stop_entry k Tip = []"
  "stop_entry k (Nd l a i r) =
     (if length (ikey i) < length k then stop_entry k (if k ! length (ikey i) then r else l)
      else if ipre i = NULL then [] else [(ikey i, a)])"
  by (simp_all add: stop_entry_def)

lemma path_entries: "set (path_t k t) \<union> set (stop_entry k t) \<subseteq> entries t"
  by (induction t) auto

lemma path_length: "wft m k0 t \<Longrightarrow> length (path_t k t) \<le> length k - length k0"
proof (induction t arbitrary: k0)
  case Tip
  then show ?case by simp
next
  case (Nd l a i r)
  let ?c = "if k ! length (ikey i) then r else l"
  have "length (path_t k ?c) \<le> length k - Suc (length (ikey i))"
    using Nd.IH(1) [of "ikey i @ [False]"] Nd.IH(2) [of "ikey i @ [True]"] Nd.prems by auto
  moreover have "length k0 \<le> length (ikey i)" using Nd.prems by (auto dest: prefix_length_le)
  ultimately show ?case by auto
qed

lemma path_short: "(x, a) \<in> set (path_t k t) \<Longrightarrow> length x < length k"
  by (induction t) (auto split: if_splits)

lemma stop_long: "(x, a) \<in> set (stop_entry k t) \<Longrightarrow> length k \<le> length x"
  by (induction t) (auto split: if_splits)

lemma path_sorted:
  "wft m k0 t \<Longrightarrow> sorted_wrt (\<lambda>x y. length (fst x) < length (fst y)) (path_t k t)"
proof (induction t arbitrary: k0)
  case Tip
  then show ?case by simp
next
  case (Nd l a i r)
  let ?c = "if k ! length (ikey i) then r else l"
  have wc: "wft m (ikey i @ [k ! length (ikey i)]) ?c" using Nd.prems by simp
  then have "sorted_wrt (\<lambda>x y. length (fst x) < length (fst y)) (path_t k ?c)"
    using Nd.IH by (cases "k ! length (ikey i)") auto
  moreover have "length (ikey i) < length (fst e)" if "e \<in> set (path_t k ?c)" for e
  proof -
    have "(fst e, snd e) \<in> entries ?c" using path_entries [of k ?c] that by auto
    from wft_entry [OF wc this] show ?thesis by (auto dest: prefix_length_le)
  qed
  ultimately show ?case by auto
qed

text \<open>Every entry that covers the key is met.\<close>

lemma path_complete:
  assumes "wft m k0 t" and "(x, b) \<in> entries t" and "prefix x k"
  shows "(x, b) \<in> set (path_t k t) \<union> set (stop_entry k t)"
  using assms
proof (induction t arbitrary: k0)
  case Tip
  then show ?case by simp
next
  case (Nd l a i r)
  let ?c = "if k ! length (ikey i) then r else l"
  show ?case
  proof (cases "x = ikey i")
    case True
    then have "\<not> prefix (ikey i @ [s]) x" for s by auto
    then have "b = a" and "ipre i \<noteq> NULL"
      using Nd.prems(1,2) True wft_entry [of m "ikey i @ [False]" l x b] wft_entry [of m "ikey i @ [True]" r x b]
      by (auto split: if_splits)
    with True show ?thesis by auto
  next
    case False
    have "length (ikey i) \<le> length x"
      using wft_entry [of m "ikey i" "Nd l a i r" x b] Nd.prems(1,2) by (auto dest: prefix_length_le)
    moreover have "prefix (ikey i) x"
      using wft_entry [of m "ikey i" "Nd l a i r" x b] Nd.prems(1,2) by auto
    ultimately have lt: "length (ikey i) < length x"
      using False by (metis le_neq_implies_less prefix_conv_take take_all_iff order_refl)
    with Nd.prems(3) have ltk: "length (ikey i) < length k" by (auto dest: prefix_length_le)
    have "(x, b) \<in> entries ?c" by (rule entry_side [OF Nd.prems(1,2,3) ltk False])
    then have "(x, b) \<in> set (path_t k ?c) \<union> set (stop_entry k ?c)"
      using Nd.IH Nd.prems(1,3) by (cases "k ! length (ikey i)") auto
    with ltk show ?thesis by auto
  qed
qed

lemma search_best_loop_path:
  "rep ns par t \<Longrightarrow> wf_prefix p \<Longrightarrow> root t = Some a \<Longrightarrow>
   length stack + length (path_t (pkey p) t) \<le> PATRICIA_MAXBITS + 1 \<Longrightarrow>
   search_best_loop ns (add p) (bitlen p) a stack =
     Some (root (stop_t (pkey p) t), rev (map snd (path_t (pkey p) t)) @ stack)"
proof (induction t arbitrary: par a stack)
  case Tip
  then show ?case by simp
next
  case (Nd l b i r)
  then have [simp]: "a = b" by simp
  let ?c = "if pkey p ! length (ikey i) then r else l"
  have IH: "search_best_loop ns (add p) (bitlen p) c st =
      Some (root (stop_t (pkey p) ?c), rev (map snd (path_t (pkey p) ?c)) @ st)"
    if "root ?c = Some c" and "length st + length (path_t (pkey p) ?c) \<le> PATRICIA_MAXBITS + 1" for c st
    using Nd.IH [of "Some b" c st] Nd.prems that by (auto split: if_splits)
  show ?case
  proof (cases "length (ikey i) < bitlen p")
    case True
    with Nd.prems IH show ?thesis
      by (subst search_best_loop.simps)
         (cases "root ?c"; auto simp: addr_bit_key push_best_def split: if_splits)
  next
    case False
    with Nd.prems show ?thesis by (subst search_best_loop.simps) auto
  qed
qed

definition best_of :: "bool list \<Rightarrow> (bool list \<times> nat) list \<Rightarrow> ptr" where
  "best_of k xs = map_option snd (List.find (\<lambda>e. prefix (fst e) k) (rev xs))"

lemma best_pop_find:
  assumes "wf_prefix p" and "pfx_ok (pfx w) t" and "rep (nodes w) par t" and "set es \<subseteq> entries t"
  shows "best_pop w p (map snd es) = Some (map_option snd (List.find (\<lambda>e. prefix (fst e) (pkey p)) es))"
  using assms(4)
proof (induction es)
  case Nil
  then show ?case by simp
next
  case (Cons e es)
  obtain x a where e: "e = (x, a)" by force
  with Cons.prems obtain i where i: "(a, i) \<in> set (infos t)" "ipre i \<noteq> NULL" "x = ikey i"
    by (auto simp: entries_def)
  then obtain q where q: "ipre i = Some q" by auto
  have "\<exists>nd. nodes w a = Some nd \<and> nprefix nd = ipre i"
    using assms(3) i(1) by (induction t arbitrary: par) auto
  then obtain nd where nd: "nodes w a = Some nd" "nprefix nd = Some q" using q by auto
  from pre_okE [OF pfx_okD [OF assms(2) i(1)] q] obtain np where
    np: "pfx w q = Some np" "wf_prefix np" "pkey np = ikey i" by metis
  obtain b where b: "comp_with_mask (add np) (add p) (bitlen np) = Some b"
    using comp_with_mask_total [OF np(2) assms(1)] by blast
  have "b \<and> bitlen np \<le> bitlen p \<longleftrightarrow> prefix x (pkey p)"
  proof (cases "bitlen np \<le> bitlen p")
    case True
    with comp_with_mask_key [OF np(2) assms(1) True] b np(3) i(3) show ?thesis by simp
  next
    case False
    then show ?thesis using np i(3) assms(1) by (metis length_pkey prefix_length_le)
  qed
  with Cons e nd np b show ?case by (auto simp: prefix_tochar_def)
qed

lemma search_best_of:
  assumes inv: "pat_inv w tp t" and arg: "arg_ok w tp q k"
  shows "patricia_search_best2 w (Some tp) (Some q) incl =
    Some (best_of k (path_t k t @ (if incl then stop_entry k t else [])))"
proof -
  from inv obtain tr where tr: "trees w tp = Some tr" "head tr = root t" "rep (nodes w) NULL t"
    "pfx_ok (pfx w) t" "tree_maxbits w tp = maxbits tr" "wft (maxbits tr) [] t" by (rule pat_invE)
  from arg obtain p where p: "pfx w q = Some p" "wf_prefix p" "bitlen p \<le> tree_maxbits w tp"
    "pkey p = k" "length k = bitlen p" "bitlen p \<le> 128" by (rule arg_okE)
  let ?es = "path_t k t @ (if incl then stop_entry k t else [])"
  have pop: "best_pop w p (rev (map snd ?es)) = Some (best_of k ?es)"
    using best_pop_find [OF p(2) tr(4,3), of "rev ?es"] path_entries [of k t] p(4)
    by (auto simp: best_of_def rev_map)
  have short: "length (path_t k t) \<le> PATRICIA_MAXBITS"
    using path_length [OF tr(6), of k] p(5,6) by (simp add: PATRICIA_MAXBITS_def)
  show ?thesis
  proof (cases "root t")
    case None
    with tr p show ?thesis by (simp add: patricia_search_best2_def best_of_def)
  next
    case (Some h)
    have loop: "search_best_loop (nodes w) (add p) (bitlen p) h [] =
        Some (root (stop_t k t), rev (map snd (path_t k t)))"
      using search_best_loop_path [OF tr(3) p(2) Some, of "[]"] p(4) short by simp
    show ?thesis
    proof (cases "stop_t k t")
      case Tip
      with Some tr p loop pop show ?thesis
        by (cases incl) (simp_all add: patricia_search_best2_def stop_entry_def)
    next
      case (Nd l a i r)
      from stop_props [OF Nd tr(3)] obtain par where
        nd: "nodes w a = Some (node_of i (root l) (root r) par)" by auto
      from Some tr p loop Nd nd pop short show ?thesis
        by (cases incl) (auto simp: patricia_search_best2_def stop_entry_def push_best_def)
    qed
  qed
qed

lemma find_rev_longest:
  "sorted_wrt (\<lambda>x y. length (fst x) < length (fst y)) xs \<Longrightarrow> List.find P (rev xs) = Some e \<Longrightarrow>
   e \<in> set xs \<and> P e \<and> (\<forall>e' \<in> set xs. P e' \<longrightarrow> length (fst e') \<le> length (fst e))"
proof (induction xs rule: rev_induct)
  case Nil
  then show ?case by simp
next
  case (snoc x xs)
  then show ?case by (auto simp: sorted_wrt_append split: if_splits)
qed

text \<open>The entries that may answer a best search: all stored prefixes of the key, the key itself only
  when the search is inclusive.\<close>

definition covers :: "bool \<Rightarrow> bool list \<Rightarrow> bool list \<Rightarrow> bool" where
  "covers incl x k \<longleftrightarrow> (if incl then prefix x k else strict_prefix x k)"

lemma best_of_longest:
  assumes "wft m [] t"
  shows "case best_of k (path_t k t @ (if incl then stop_entry k t else [])) of
      None \<Rightarrow> \<forall>(x, a) \<in> entries t. \<not> covers incl x k
    | Some a \<Rightarrow> \<exists>x. (x, a) \<in> entries t \<and> covers incl x k \<and>
        (\<forall>(y, b) \<in> entries t. covers incl y k \<longrightarrow> length y \<le> length x)"
proof -
  let ?es = "path_t k t @ (if incl then stop_entry k t else [])"
  have stop1: "sorted_wrt R (stop_entry k t)" for R by (simp add: stop_entry_def split: ptree.splits)
  have sorted: "sorted_wrt (\<lambda>x y. length (fst x) < length (fst y)) ?es"
    using path_sorted [OF assms, of k] stop1 path_short [of _ _ k t] stop_long [of _ _ k t]
    by (fastforce simp: sorted_wrt_append)
  have mem: "(x, a) \<in> set ?es \<and> prefix x k \<longleftrightarrow> (x, a) \<in> entries t \<and> covers incl x k" for x a
  proof
    assume "(x, a) \<in> set ?es \<and> prefix x k"
    then show "(x, a) \<in> entries t \<and> covers incl x k"
      using path_entries [of k t] path_short [of x a k t]
      by (auto simp: covers_def strict_prefix_def split: if_splits)
  next
    assume a: "(x, a) \<in> entries t \<and> covers incl x k"
    then have "prefix x k" by (auto simp: covers_def split: if_splits)
    moreover have "length x < length k" if "\<not> incl"
      using a that by (auto simp: covers_def intro: prefix_length_less)
    ultimately show "(x, a) \<in> set ?es \<and> prefix x k"
      using a path_complete [OF assms, of x a k] stop_long [of x a k t] by (cases incl) auto
  qed
  show ?thesis
  proof (cases "List.find (\<lambda>e. prefix (fst e) k) (rev ?es)")
    case None
    then have "\<not> prefix x k" if "(x, a) \<in> set ?es" for x a
      using that by (force simp: find_None_iff)
    then have "\<forall>(x, a) \<in> entries t. \<not> covers incl x k" using mem by blast
    moreover have "best_of k ?es = None" by (simp only: best_of_def None option.map)
    ultimately show ?thesis by (simp only: option.case)
  next
    case (Some e)
    obtain x a where e: "e = (x, a)" by force
    have f: "(x, a) \<in> set ?es \<and> prefix x k"
      "\<And>y b. (y, b) \<in> set ?es \<Longrightarrow> prefix y k \<Longrightarrow> length y \<le> length x"
      using find_rev_longest [OF sorted Some] unfolding e by (simp, fastforce)
    from f(1) have xa: "(x, a) \<in> entries t \<and> covers incl x k" by (simp only: mem)
    have "length y \<le> length x" if "(y, b) \<in> entries t" "covers incl y k" for y b
      using f(2) [of y b] mem [of y b] that by blast
    with xa have "\<exists>x. (x, a) \<in> entries t \<and> covers incl x k \<and>
        (\<forall>(y, b) \<in> entries t. covers incl y k \<longrightarrow> length y \<le> length x)" by blast
    moreover have "best_of k ?es = Some a" by (simp only: best_of_def Some e option.map snd_conv)
    ultimately show ?thesis by (simp only: option.case)
  qed
qed

end
