(* ===== verification/PatriciaInsert.thy ===== *)
theory PatriciaInsert
  imports PatriciaSearch
begin

text \<open>
  Insertion: \<^verbatim>\<open>patricia_lookup\<close>.  The descent and the climb of the code are zipper movements on the
  tree; the bit at which the address leaves the tree is the length of the longest common prefix of
  the new key and the key at the bottom of the descent; each of the four ways to attach the new node
  keeps the invariant and adds one entry.
\<close>

subsection \<open>The first differing bit\<close>

lemma first_bit_spec:
  "j \<le> 8 \<Longrightarrow> first_bit r j \<le> 8 \<and> (\<forall>i. j \<le> i \<and> i < first_bit r j \<longrightarrow> \<not> bit r (7 - i)) \<and>
   (first_bit r j < 8 \<longrightarrow> bit r (7 - first_bit r j))"
proof (induction r j rule: first_bit.induct)
  case (1 r j)
  show ?case
  proof (cases "j < 8 \<and> \<not> BIT_TEST r (drop_bit j 0x80)")
    case True
    then have "\<not> bit r (7 - j)" using BIT_TEST_bit [of j r] by blast
    moreover have "first_bit r j = first_bit r (Suc j)" using True by (subst first_bit.simps) simp
    moreover have "first_bit r (Suc j) \<le> 8 \<and>
        (\<forall>i. Suc j \<le> i \<and> i < first_bit r (Suc j) \<longrightarrow> \<not> bit r (7 - i)) \<and>
        (first_bit r (Suc j) < 8 \<longrightarrow> bit r (7 - first_bit r (Suc j)))"
      using "1.IH" True by simp
    ultimately show ?thesis by (metis Suc_leI le_neq_implies_less)
  next
    case False
    then have "first_bit r j = j" by (subst first_bit.simps) auto
    moreover have "bit r (7 - j)" if "j < 8" using BIT_TEST_bit [of j r] False that by blast
    ultimately show ?thesis using "1.prems" by auto
  qed
qed

lemma first_bit_xor:
  fixes x y :: byte
  assumes "x \<noteq> y"
  obtains j where "first_bit (x XOR y) 0 = j" "j < 8" "byte_bits x ! j \<noteq> byte_bits y ! j"
    "\<And>i. i < j \<Longrightarrow> byte_bits x ! i = byte_bits y ! i"
proof -
  let ?j = "first_bit (x XOR y) 0"
  have spec: "?j \<le> 8" "i < ?j \<Longrightarrow> \<not> bit (x XOR y) (7 - i)" "?j < 8 \<Longrightarrow> bit (x XOR y) (7 - ?j)" for i
    using first_bit_spec [of 0 "x XOR y"] by auto
  have eq: "byte_bits x ! i = byte_bits y ! i" if "i < ?j" for i
    using spec(1) spec(2) [OF that] that by (auto simp: nth_byte_bits bit_xor_iff)
  moreover have "?j \<noteq> 8"
  proof
    assume "?j = 8"
    with eq have "byte_bits x = byte_bits y" by (simp add: list_eq_iff_nth_eq)
    with assms show False by (simp add: byte_bits_inj)
  qed
  ultimately show ?thesis
    using spec(1,3) that [of ?j] by (auto simp: nth_byte_bits bit_xor_iff le_neq_implies_less)
qed

lemma byte_xor_eq_0 [simp]: "(x :: byte) XOR y = 0 \<longleftrightarrow> x = y"
  by (auto simp: bit_eq_iff bit_xor_iff)

lemma nth_bits_of_byte: "i < length bs \<Longrightarrow> j < 8 \<Longrightarrow> bits_of bs ! (8 * i + j) = byte_bits (bs ! i) ! j"
  by (simp add: nth_bits_of nth_byte_bits)

lemma all_less_mult8_Suc:
  fixes b :: nat
  assumes "\<And>b. b < 8 * i \<Longrightarrow> P b" and "\<And>j. j < n \<Longrightarrow> P (8 * i + j)" and "b < 8 * i + n"
  shows "P b"
  using assms(1) [of b] assms(2) [of "b - 8 * i"] assms(3) by (cases "b < 8 * i") auto

lemma differ_loop_spec:
  assumes "c \<le> 8 * length A" and "c \<le> 8 * length T" and "\<And>b. b < 8 * i \<Longrightarrow> bits_of A ! b = bits_of T ! b"
    and "d0 = 8 * i"
  shows "\<exists>d. differ_loop A T c i d0 = Some d \<and> (\<forall>b<d. bits_of A ! b = bits_of T ! b) \<and>
     (d < c \<longrightarrow> bits_of A ! d \<noteq> bits_of T ! d)"
  using assms
proof (induction A T c i d0 rule: differ_loop.induct)
  case (1 A T c i d0)
  show ?case
  proof (cases "i * 8 < c")
    case False
    with 1 show ?thesis by (subst differ_loop.simps) auto
  next
    case True
    with 1 have i: "i < length A" "i < length T" by auto
    show ?thesis
    proof (cases "A ! i = T ! i")
      case eq: True
      have "bits_of A ! b = bits_of T ! b" if "b < 8 * i + 8" for b
        by (rule all_less_mult8_Suc [OF _ _ that]) (use "1.prems"(3) i eq in \<open>simp_all add: nth_bits_of_byte\<close>)
      moreover have "differ_loop A T c i d0 = differ_loop A T c (i + 1) ((i + 1) * 8)"
        using True i eq by (subst differ_loop.simps) (simp add: Let_def)
      ultimately show ?thesis
        using "1.IH" [OF True, of "A ! i" "T ! i" "A ! i XOR T ! i"] "1.prems"(1,2) i eq
        by (simp add: algebra_simps)
    next
      case ne: False
      obtain j where j: "first_bit (A ! i XOR T ! i) 0 = j" "j < 8"
        "byte_bits (A ! i) ! j \<noteq> byte_bits (T ! i) ! j"
        "\<And>k. k < j \<Longrightarrow> byte_bits (A ! i) ! k = byte_bits (T ! i) ! k"
        using first_bit_xor [OF ne] by metis
      have "bits_of A ! b = bits_of T ! b" if "b < 8 * i + j" for b
        by (rule all_less_mult8_Suc [OF _ _ that]) (use "1.prems"(3) i j in \<open>simp_all add: nth_bits_of_byte\<close>)
      moreover have "differ_loop A T c i d0 = Some (8 * i + j)"
        using True i ne j(1,2) by (subst differ_loop.simps) (simp add: Let_def)
      moreover have "bits_of A ! (8 * i + j) \<noteq> bits_of T ! (8 * i + j)"
        using i j by (simp add: nth_bits_of_byte)
      ultimately show ?thesis by auto
    qed
  qed
qed

text \<open>For two keys: the length of their longest common prefix.\<close>

lemma find_differ_bit_lcp:
  assumes "wf_prefix p" and "wf_prefix fp"
  obtains d where "find_differ_bit (add p) (add fp) (min (bitlen fp) (bitlen p)) = Some d"
    "d \<le> bitlen p" "d \<le> bitlen fp" "take d (pkey p) = take d (pkey fp)"
    "d < bitlen p \<Longrightarrow> d < bitlen fp \<Longrightarrow> pkey p ! d \<noteq> pkey fp ! d"
proof -
  let ?c = "min (bitlen fp) (bitlen p)"
  have len: "bitlen p \<le> 8 * length (add p)" "bitlen fp \<le> 8 * length (add fp)"
    using assms by (auto simp: wf_prefix_def)
  then have c: "?c \<le> 8 * length (add p)" "?c \<le> 8 * length (add fp)" by auto
  obtain d where d: "differ_loop (add p) (add fp) ?c 0 0 = Some d"
    "\<forall>b<d. bits_of (add p) ! b = bits_of (add fp) ! b"
    "d < ?c \<longrightarrow> bits_of (add p) ! d \<noteq> bits_of (add fp) ! d"
    using differ_loop_spec [OF c, of 0 0] by auto
  have "take (min d ?c) (pkey p) = take (min d ?c) (pkey fp)"
    using d(2) len by (auto simp: list_eq_iff_nth_eq pkey_def)
  moreover have "find_differ_bit (add p) (add fp) ?c = Some (min d ?c)"
    unfolding find_differ_bit_def d(1) by (auto simp: min_def)
  ultimately show ?thesis
    using that [of "min d ?c"] d(3) len by (auto simp: pkey_def min_def split: if_splits)
qed


subsection \<open>Descent and climb as zipper movements\<close>

fun descend_t :: "nat \<Rightarrow> bool list \<Rightarrow> nat \<Rightarrow> ptree \<Rightarrow> frame list \<Rightarrow> ptree \<times> frame list" where
  "descend_t m B n Tip fs = (Tip, fs)"
| "descend_t m B n (Nd l a i r) fs =
     (if length (ikey i) < n \<or> ipre i = NULL then
        if length (ikey i) < m \<and> B ! length (ikey i) then
          if r = Tip then (Nd l a i r, fs) else descend_t m B n r (FR l a i # fs)
        else if l = Tip then (Nd l a i r, fs) else descend_t m B n l (FL a i r # fs)
      else (Nd l a i r, fs))"

fun ascend_t :: "nat \<Rightarrow> ptree \<Rightarrow> frame list \<Rightarrow> ptree \<times> frame list" where
  "ascend_t d t [] = (t, [])"
| "ascend_t d t (f # fs) =
     (if length (ikey (finfo f)) \<ge> d then ascend_t d (plug1 t f) fs else (t, f # fs))"

lemma take_right_bit:
  "m \<le> 128 \<Longrightarrow> length A = 16 \<Longrightarrow> take_right m A b = Some (b < m \<and> bits_of A ! b)"
  by (simp add: take_right_def addr_bit_bits)

lemma lookup_descend_t:
  assumes "m \<le> 128" and "length A = 16"
  shows "rep ns par t \<Longrightarrow> root t = Some a \<Longrightarrow> descend_t m (bits_of A) n t fs = (s, gs) \<Longrightarrow>
    lookup_descend ns m A n a = root s"
proof (induction t arbitrary: par a fs)
  case Tip
  then show ?case by simp
next
  case (Nd l b i r)
  show ?case
    using Nd.prems Nd.IH(1) [of "Some b"] Nd.IH(2) [of "Some b"]
    by (subst lookup_descend.simps)
       (auto simp: take_right_bit [OF assms] split: if_splits option.splits)
qed

lemma lookup_ascend_t:
  "rep ns (par_of fs) t \<Longrightarrow> repc ns (root t) fs \<Longrightarrow> root t = Some a \<Longrightarrow>
   ascend_t d t fs = (s, gs) \<Longrightarrow> lookup_ascend ns d a = root s"
proof (induction fs arbitrary: t a)
  case Nil
  then show ?case by (cases t) (auto simp: lookup_ascend.simps)
next
  case (Cons f fs)
  obtain l i r where t: "t = Nd l a i r" using Cons.prems(3) by (cases t) auto
  have "rep ns (par_of fs) (plug1 t f)" "repc ns (root (plug1 t f)) fs" "root (plug1 t f) = Some (faddr f)"
    using Cons.prems by (cases f; auto)+
  from Cons.IH [OF this] Cons.prems t show ?case
    by (subst lookup_ascend.simps) (auto split: if_splits)
qed

lemma descend_plug: "descend_t m B n t fs = (s, gs) \<Longrightarrow> plug s gs = plug t fs"
proof (induction t arbitrary: fs)
  case Tip
  then show ?case by auto
next
  case (Nd l a i r)
  then show ?case by (fastforce split: if_splits)
qed

lemma ascend_plug: "ascend_t d t fs = (s, gs) \<Longrightarrow> plug s gs = plug t fs"
  by (induction fs arbitrary: t) (auto split: if_splits)

text \<open>Where the descent ends: at a node with a prefix; when its key is shorter than the new one the
  child to go to is missing; each step went to the side the address names.\<close>

definition stops :: "nat \<Rightarrow> bool list \<Rightarrow> nat \<Rightarrow> ptree \<Rightarrow> bool" where
  "stops m B n s \<longleftrightarrow> (\<exists>l a i r. s = Nd l a i r \<and> ipre i \<noteq> NULL \<and>
     (length (ikey i) < n \<longrightarrow> (if length (ikey i) < m \<and> B ! length (ikey i) then r else l) = Tip))"

lemma stops_Nd: "stops m B n (Nd l a i r) \<longleftrightarrow> ipre i \<noteq> NULL \<and>
     (length (ikey i) < n \<longrightarrow> (if length (ikey i) < m \<and> B ! length (ikey i) then r else l) = Tip)"
  by (simp add: stops_def)

lemma descend_stop:
  "t \<noteq> Tip \<Longrightarrow> wft m k t \<Longrightarrow> descend_t m B n t fs = (s, gs) \<Longrightarrow> stops m B n s"
proof (induction t arbitrary: k fs)
  case Tip
  then show ?case by simp
next
  case (Nd l a i r)
  from Nd.prems(2) have w: "wft m (ikey i @ [False]) l" "wft m (ikey i @ [True]) r"
    and glue: "ipre i = NULL \<longrightarrow> l \<noteq> Tip \<and> r \<noteq> Tip" by simp_all
  from Nd.prems(3) glue Nd.IH(1) [OF _ w(1)] Nd.IH(2) [OF _ w(2)] show ?case
    by (auto simp: stops_Nd split: if_splits)
qed

lemma descend_sides:
  "wft m k t \<Longrightarrow> descend_t m B n t fs = (s, gs) \<Longrightarrow>
   (\<forall>f \<in> set fs. fside f = B ! length (ikey (finfo f))) \<Longrightarrow>
   \<forall>f \<in> set gs. fside f = B ! length (ikey (finfo f))"
proof (induction t arbitrary: k fs)
  case Tip
  then show ?case by auto
next
  case (Nd l a i r)
  have "length (ikey i) < m" if "l \<noteq> Tip \<or> r \<noteq> Tip"
    using wft_child_shorter [OF Nd.prems(1) that] .
  with Nd.prems Nd.IH(1) [of "ikey i @ [False]" "FL a i r # fs"] Nd.IH(2) [of "ikey i @ [True]" "FR l a i # fs"]
  show ?case by (auto split: if_splits)
qed

text \<open>Where the climb ends: below a node with a shorter key; it either stayed, or the node it
  reached is one it came through.\<close>

lemma ascend_stop:
  "ascend_t d t fs = (s, gs) \<Longrightarrow>
   (gs = [] \<or> length (ikey (finfo (hd gs))) < d) \<and>
   (s = t \<or> (\<exists>f \<in> set fs. \<exists>u. s = plug1 u f \<and> d \<le> length (ikey (finfo f)) \<and>
      set (infos t) \<subseteq> set (infos u)))"
proof (induction fs arbitrary: t)
  case Nil
  then show ?case by simp
next
  case (Cons f fs)
  show ?case
  proof (cases "d \<le> length (ikey (finfo f))")
    case True
    have "set (infos t) \<subseteq> set (infos (plug1 t f))" by (cases f) auto
    moreover have "(gs = [] \<or> length (ikey (finfo (hd gs))) < d) \<and> (s = plug1 t f \<or>
        (\<exists>g \<in> set fs. \<exists>u. s = plug1 u g \<and> d \<le> length (ikey (finfo g)) \<and>
        set (infos (plug1 t f)) \<subseteq> set (infos u)))"
      using Cons.IH [of "plug1 t f"] Cons.prems True by simp
    ultimately show ?thesis using True by (auto dest: order_trans)
  next
    case False
    with Cons.prems show ?thesis by auto
  qed
qed


text \<open>The place where a key of \<open>n\<close> bits has to be attached: the climb ends at a subtree whose keys
  all agree with the new key on exactly \<open>d\<close> bits.\<close>

lemma prefix_take_le: "prefix p xs \<Longrightarrow> length p \<le> d \<Longrightarrow> prefix p (take d xs)"
  by (auto simp: prefix_def)

lemma lookup_place:
  assumes wf: "wft m [] t" "t \<noteq> Tip" and desc: "descend_t m B n t [] = (Nd fl fa fi fr, fs)"
    and n: "n \<le> m" "n \<le> length B"
    and d: "d \<le> n" "d \<le> length (ikey fi)" "take d B = take d (ikey fi)"
      "d < n \<Longrightarrow> d < length (ikey fi) \<Longrightarrow> B ! d \<noteq> ikey fi ! d"
    and asc: "ascend_t d (Nd fl fa fi fr) fs = (s, gs)"
  obtains sl sa si sr where "s = Nd sl sa si sr" "plug s gs = t" "prefix (hole_key gs) (take d B)"
    "d \<le> length (ikey si)" "prefix (ikey si) (ikey fi)" "wft m (hole_key gs) s" "wfc m gs"
    "length (ikey si) = d \<Longrightarrow> d < n \<Longrightarrow> (if B ! d then sr else sl) = Tip"
proof -
  let ?f = "Nd fl fa fi fr"
  have pl: "plug s gs = t" using ascend_plug [OF asc] descend_plug [OF desc] by simp
  have halt: "gs = [] \<or> length (ikey (finfo (hd gs))) < d"
    and came: "s = ?f \<or> (\<exists>f \<in> set fs. \<exists>u. s = plug1 u f \<and> d \<le> length (ikey (finfo f)) \<and>
      set (infos ?f) \<subseteq> set (infos u))"
    using ascend_stop [OF asc] by auto
  have "s \<noteq> Tip" using came by auto
  then obtain sl sa si sr where s: "s = Nd sl sa si sr" by (cases s) auto
  have ws: "wft m (hole_key gs) s" "wfc m gs"
    using wft_plug [OF \<open>s \<noteq> Tip\<close>, of m gs] wf pl by auto
  have plug1_infos: "set (infos u) \<subseteq> set (infos (plug1 u f))" for u f by (cases f) auto
  have fin: "(fa, fi) \<in> set (infos s)"
    using came plug1_infos by fastforce
  have "prefix (hole_key gs) (ikey fi)" using wft_key [OF ws(1) fin] by simp
  moreover have "length (hole_key gs) \<le> d" using halt by (cases gs) auto
  ultimately have hole: "prefix (hole_key gs) (take d B)" by (simp add: d(3) prefix_take_le)
  have "wft m (ikey si) s" using ws(1) s by simp
  then have si: "prefix (ikey si) (ikey fi)" using wft_key fin by blast
  have dsi: "d \<le> length (ikey si)"
  proof (cases "s = ?f")
    case True
    then show ?thesis using d(2) s by simp
  next
    case False
    then obtain f u where "s = plug1 u f" "d \<le> length (ikey (finfo f))" using came by auto
    then show ?thesis using s by (cases f) auto
  qed
  have side: "(if B ! d then sr else sl) = Tip" if eq: "length (ikey si) = d" and lt: "d < n"
  proof (cases "s = ?f")
    case True
    with descend_stop [OF wf(2,1) desc] s eq lt n show ?thesis by (auto simp: stops_Nd)
  next
    case False
    then obtain f u where f: "f \<in> set fs" "s = plug1 u f" "set (infos ?f) \<subseteq> set (infos u)"
      using came by auto
    have "fside f = B ! d"
      using descend_sides [OF wf(1) desc] f s eq by (cases f) auto
    moreover have "wft m (ikey si @ [fside f]) u" using ws(1) f(2) s by (cases f) auto
    ultimately have "prefix (ikey si @ [B ! d]) (ikey fi)"
      using wft_key [of m "ikey si @ [B ! d]" u fa fi] f(3) by auto
    with d(4) eq lt have False by (simp add: prefix_snoc_conv)
    then show ?thesis ..
  qed
  show ?thesis by (rule that [OF s pl hole dsi si ws side])
qed

subsection \<open>Relinking\<close>

text \<open>The frame above a subtree, seen as a condition on the store and the header.\<close>

definition ctx_ok :: "pat_world \<Rightarrow> nat \<Rightarrow> ptr \<Rightarrow> frame list \<Rightarrow> bool" where
  "ctx_ok w tp hole gs \<longleftrightarrow> repc (nodes w) hole gs \<and>
     (case trees w tp of None \<Rightarrow> False | Some tr \<Rightarrow> head tr = root_of hole gs)"

lemma ctx_okE:
  assumes "ctx_ok w tp hole gs"
  obtains tr where "trees w tp = Some tr" "head tr = root_of hole gs" "repc (nodes w) hole gs"
  using assms by (auto simp: ctx_ok_def split: option.splits)

text \<open>The world in which the pointer at the hole is \<open>c\<close>.\<close>

definition link :: "pat_world \<Rightarrow> nat \<Rightarrow> frame list \<Rightarrow> ptr \<Rightarrow> pat_world" where
  "link w tp gs c = (case gs of
     [] \<Rightarrow> w\<lparr>trees := (trees w)(tp \<mapsto> (the (trees w tp))\<lparr>head := c\<rparr>)\<rparr>
   | f # fs \<Rightarrow> w\<lparr>nodes := (nodes w)(faddr f \<mapsto> frame_node f c (par_of fs))\<rparr>)"

lemma link_sel [simp]:
  "pfx (link w tp gs c) = pfx w"
  "brk (link w tp gs c) = brk w"
  "num_active_patricia (link w tp gs c) = num_active_patricia w"
  "toab (link w tp gs c) = toab w"
  by (simp_all add: link_def split: list.splits)

lemma link_nodes_other [simp]: "x \<notin> set (caddrs gs) \<Longrightarrow> nodes (link w tp gs c) x = nodes w x"
  by (auto simp: link_def split: list.splits)

lemma link_trees: "trees w tp = Some tr \<Longrightarrow> head tr = root_of h gs \<Longrightarrow>
   trees (link w tp gs c) = (trees w)(tp \<mapsto> tr\<lparr>head := root_of c gs\<rparr>)"
  by (auto simp: link_def fun_upd_idem split: list.splits)

lemma link_trees_other: "x \<noteq> tp \<Longrightarrow> trees (link w tp gs c) x = trees w x"
  by (simp add: link_def split: list.splits)

lemma rep_cong: "(\<And>x. x \<in> set (addrs t) \<Longrightarrow> ns' x = ns x) \<Longrightarrow> rep ns' par t = rep ns par t"
  by (induction t arbitrary: par) auto

lemma repc_cong: "(\<And>x. x \<in> set (caddrs gs) \<Longrightarrow> ns' x = ns x) \<Longrightarrow> repc ns' h gs = repc ns h gs"
proof (induction gs arbitrary: h)
  case Nil
  then show ?case by simp
next
  case (Cons f gs)
  have "rep ns' (Some (faddr f)) (fsib f) = rep ns (Some (faddr f)) (fsib f)"
    using Cons.prems by (intro rep_cong) simp
  with Cons show ?case by simp
qed

lemma link_rep [simp]:
  "set (addrs t) \<inter> set (caddrs gs) = {} \<Longrightarrow> rep (nodes (link w tp gs c)) par t = rep (nodes w) par t"
  by (rule rep_cong, rule link_nodes_other) auto

lemma repc_live: "repc ns h gs \<Longrightarrow> x \<in> set (caddrs gs) \<Longrightarrow> ns x \<noteq> None"
  by (induction gs arbitrary: h) (auto dest: rep_live)

lemma link_fresh: "repc (nodes w) h gs \<Longrightarrow> nodes w x = None \<Longrightarrow> nodes (link w tp gs c) x = None"
  using repc_live [of "nodes w" h gs x] link_nodes_other [of x gs w tp c] by metis

lemma link_repc:
  assumes "repc (nodes w) h gs" and "distinct (caddrs gs)"
  shows "repc (nodes (link w tp gs c)) c gs"
  using assms by (cases gs) (auto simp: link_def)

lemma relink_below_link:
  assumes ctx: "ctx_ok w tp (Some a) gs" and a: "a \<notin> set (caddrs gs)"
  shows "relink_below w tp (par_of gs) a c = Some (link w tp gs c)"
proof (cases gs)
  case Nil
  with ctx show ?thesis by (auto simp: relink_below_def upd_tree_def link_def elim!: ctx_okE)
next
  case (Cons f fs)
  from ctx Cons have f: "nodes w (faddr f) = Some (frame_node f (Some a) (par_of fs))"
    by (auto elim: ctx_okE)
  have "root (fsib f) \<noteq> Some a" using a root_in_addrs Cons by fastforce
  with f Cons show ?thesis by (cases f) (auto simp: relink_below_def upd_node_def link_def)
qed

lemma relink_above_link:
  assumes ctx: "ctx_ok w tp (Some a) gs" and a: "a \<notin> set (caddrs gs)"
    and nd: "nodes w a = Some nd" "nparent nd = par_of gs"
  shows "relink_above w tp a new =
    Some ((link w tp gs (Some new))\<lparr>nodes :=
      (nodes (link w tp gs (Some new)))(a \<mapsto> nd\<lparr>nparent := Some new\<rparr>)\<rparr>)"
proof (cases gs)
  case Nil
  with ctx nd show ?thesis
    by (auto simp: relink_above_def upd_tree_def upd_node_def link_def elim!: ctx_okE)
next
  case (Cons f fs)
  from ctx Cons obtain tr where f: "nodes w (faddr f) = Some (frame_node f (Some a) (par_of fs))"
    and tr: "trees w tp = Some tr" by (auto elim: ctx_okE)
  have "root (fsib f) \<noteq> Some a" using a root_in_addrs Cons by fastforce
  with f tr Cons nd a show ?thesis
    by (cases f) (auto simp: relink_above_def upd_node_def link_def)
qed


subsection \<open>Reassembling the invariant\<close>

text \<open>Entries with all their fields.\<close>

definition pinfos :: "ptree \<Rightarrow> (nat \<times> ninfo) set" where
  "pinfos t = {(a, i) \<in> set (infos t). ipre i \<noteq> NULL}"

lemma pinfos_simps [simp]:
  "pinfos Tip = {}"
  "pinfos (Nd l a i r) = (if ipre i = NULL then {} else {(a, i)}) \<union> pinfos l \<union> pinfos r"
  by (auto simp: pinfos_def)

lemma entries_pinfos: "entries t = (\<lambda>(a, i). (ikey i, a)) ` pinfos t"
  by (force simp: entries_def pinfos_def)

lemma pinfos_plug: "pinfos (plug t fs) = pinfos t \<union> pinfos (plug Tip fs)"
  using infos_plug [of t fs] by (auto simp: pinfos_def)

lemma pfx_ok_plug: "pfx_ok P (plug t gs) \<longleftrightarrow> pfx_ok P t \<and> pfx_ok P (plug Tip gs)"
  using infos_plug [of t gs] by (auto simp: pfx_ok_iff)

text \<open>A prefix of the same key may replace another, or take a fresh address.\<close>

definition pfx_extends :: "prefix_t store \<Rightarrow> prefix_t store \<Rightarrow> bool" where
  "pfx_extends P P' \<longleftrightarrow> (\<forall>q p. P q = Some p \<and> wf_prefix p \<and> 1 \<le> ref_count p \<longrightarrow>
     (\<exists>p'. P' q = Some p' \<and> wf_prefix p' \<and> pkey p' = pkey p \<and> 1 \<le> ref_count p'))"

lemma pre_ok_extends: "pfx_extends P P' \<Longrightarrow> pre_ok P i \<Longrightarrow> pre_ok P' i"
  unfolding pre_ok_def pfx_extends_def by (fastforce split: option.splits)

lemma pfx_ok_extends: "pfx_extends P P' \<Longrightarrow> pfx_ok P t \<Longrightarrow> pfx_ok P' t"
  by (induction t) (auto intro: pre_ok_extends)

lemma pat_inv_plugI:
  assumes "trees w tp = Some tr" and "head tr = root_of (root s) gs" and "maxbits tr \<le> 128"
    and "num_active_node tr = int (length (addrs s) + length (caddrs gs))"
    and "s \<noteq> Tip" and "wft (maxbits tr) (hole_key gs) s" and "wfc (maxbits tr) gs"
    and "rep (nodes w) (par_of gs) s" and "repc (nodes w) (root s) gs"
    and "distinct (addrs s)" and "distinct (caddrs gs)" and "set (addrs s) \<inter> set (caddrs gs) = {}"
    and "pfx_ok (pfx w) (plug s gs)"
    and "\<And>a. brk w \<le> a \<Longrightarrow> nodes w a = None \<and> trees w a = None \<and> pfx w a = None"
  shows "pat_inv w tp (plug s gs)"
  using assms unfolding pat_inv_def
  by (simp add: root_plug wft_plug rep_plug length_addrs_plug distinct_plug PATRICIA_MAXBITS_def)

lemma pat_inv_plugE:
  assumes "pat_inv w tp (plug s gs)" and "s \<noteq> Tip"
  obtains tr where "trees w tp = Some tr" "head tr = root_of (root s) gs" "maxbits tr \<le> 128"
    "num_active_node tr = int (length (addrs s) + length (caddrs gs))"
    "wft (maxbits tr) (hole_key gs) s" "wfc (maxbits tr) gs"
    "rep (nodes w) (par_of gs) s" "repc (nodes w) (root s) gs"
    "distinct (addrs s)" "distinct (caddrs gs)" "set (addrs s) \<inter> set (caddrs gs) = {}"
    "pfx_ok (pfx w) s" "pfx_ok (pfx w) (plug Tip gs)" "tree_maxbits w tp = maxbits tr"
    "ctx_ok w tp (root s) gs"
  using assms
  by (elim pat_invE)
     (simp add: root_plug wft_plug rep_plug length_addrs_plug distinct_plug pfx_ok_plug [of _ s] ctx_ok_def)

subsection \<open>The new node\<close>

definition new_info :: "bool list \<Rightarrow> nat \<Rightarrow> ninfo" where
  "new_info k r = \<lparr>ikey = k, ipre = Some r, idata = NULL, iuser = NULL\<rparr>"

lemma new_info_sel [simp]: "ikey (new_info k r) = k" "ipre (new_info k r) = Some r" "idata (new_info k r) = NULL"
  by (simp_all add: new_info_def)

text \<open>What \<^verbatim>\<open>Ref_Prefix\<close> does to the store of prefixes, as far as the trie relies on it.\<close>

definition refd :: "pat_world \<Rightarrow> nat \<Rightarrow> bool list \<Rightarrow> nat \<Rightarrow> prefix_t store \<Rightarrow> bool" where
  "refd w q k r P \<longleftrightarrow> pfx_extends (pfx w) P \<and> (r = q \<or> pfx w r = None) \<and> (\<forall>x. x \<noteq> r \<longrightarrow> P x = pfx w x) \<and>
     (case P r of None \<Rightarrow> False | Some p' \<Rightarrow> wf_prefix p' \<and> pkey p' = k \<and> 1 \<le> ref_count p') \<and>
     (\<forall>p. pfx w q = Some p \<and> ref_count p \<noteq> -1 \<longrightarrow>
        r = q \<and> P = (pfx w)(q \<mapsto> p\<lparr>ref_count := ref_count p + 1\<rparr>))"

lemma Ref_Prefix_refd:
  assumes arg: "arg_ok w tp q k" and q: "q < brk w"
    and v: "pfx v = pfx w" "brk w \<le> brk v" and free: "\<And>a. brk v \<le> a \<Longrightarrow> pfx w a = None"
  obtains r P b where "Ref_Prefix v (Some q) = Some (Some r, v\<lparr>pfx := P, brk := b\<rparr>)"
    "refd w q k r P" "brk v \<le> b" "\<And>a. b \<le> a \<Longrightarrow> P a = None"
proof -
  from arg obtain p where p: "pfx w q = Some p" "wf_prefix p" "-1 \<le> ref_count p" "pkey p = k"
    by (rule arg_okE)
  from v p q have "pfx v q = Some p" "q < brk v" by auto
  from Ref_Prefix_cases [OF this(1) p(2,3) this(2)] obtain r p' b where
    r: "Ref_Prefix v (Some q) = Some (Some r, v\<lparr>pfx := (pfx v)(r \<mapsto> p'), brk := b\<rparr>)"
      "pkey p' = pkey p" "wf_prefix p'" "1 \<le> ref_count p'" "r = q \<or> r = brk v" "brk v \<le> b" "r < b"
    by metis
  have "r = q \<or> pfx w r = None" using r(5) free by auto
  moreover have "pfx_extends (pfx w) ((pfx w)(r \<mapsto> p'))"
    using calculation r p by (auto simp: pfx_extends_def)
  moreover have "r = q \<and> (pfx w)(r \<mapsto> p') = (pfx w)(q \<mapsto> p\<lparr>ref_count := ref_count p + 1\<rparr>)"
    if "ref_count p \<noteq> -1"
  proof -
    have "Ref_Prefix v (Some q) = Some (Some q, v\<lparr>pfx := (pfx v)(q \<mapsto> p\<lparr>ref_count := ref_count p + 1\<rparr>)\<rparr>)"
      using Ref_Prefix_counted [of v q p] v p that by simp
    with r(1) have "r = q" "(pfx v)(r \<mapsto> p') = (pfx v)(q \<mapsto> p\<lparr>ref_count := ref_count p + 1\<rparr>)"
      by (auto dest: arg_cong [where f = pfx])
    with v show ?thesis by simp
  qed
  ultimately have "refd w q k r ((pfx w)(r \<mapsto> p'))" using r p by (auto simp: refd_def)
  moreover have "((pfx w)(r \<mapsto> p')) a = None" if "b \<le> a" for a using that r(6,7) free by auto
  ultimately show ?thesis using that r(1,6) v(1) by metis
qed

lemma new_prefix_node_refd:
  assumes inv: "pat_inv w tp t" and arg: "arg_ok w tp q k" and tr: "trees w tp = Some tr"
  obtains r P b where
    "new_prefix_node w tp q (length k) = Some (brk w, w\<lparr>pfx := P, brk := b,
       nodes := (nodes w)(brk w \<mapsto> node_of (new_info k r) NULL NULL NULL),
       trees := (trees w)(tp \<mapsto> tr\<lparr>num_active_node := num_active_node tr + 1\<rparr>)\<rparr>)"
    "refd w q k r P" "Suc (brk w) \<le> b" "\<forall>a\<ge>b. P a = None"
proof -
  let ?v = "w\<lparr>nodes := (nodes w)(brk w \<mapsto> zero_node), brk := Suc (brk w)\<rparr>"
  have q: "q < brk w" using arg pat_inv_fresh [OF inv, of q] by (force elim: arg_okE)
  obtain r P b where R: "Ref_Prefix ?v (Some q) = Some (Some r, ?v\<lparr>pfx := P, brk := b\<rparr>)"
    "refd w q k r P" "brk ?v \<le> b" "\<And>a. b \<le> a \<Longrightarrow> P a = None"
    by (rule Ref_Prefix_refd [OF arg q, of ?v]) (use pat_inv_fresh [OF inv] in auto)
  have "new_prefix_node w tp q (length k) = Some (brk w, w\<lparr>pfx := P, brk := b,
       nodes := (nodes w)(brk w \<mapsto> node_of (new_info k r) NULL NULL NULL),
       trees := (trees w)(tp \<mapsto> tr\<lparr>num_active_node := num_active_node tr + 1\<rparr>)\<rparr>)"
    using R(1) tr by (simp add: new_prefix_node_def calloc_node_def upd_node_def upd_tree_def
        add_active_def zero_node_def node_of_def new_info_def)
  with R show ?thesis using that by auto
qed


text \<open>A node for the entry \<open>i\<close> is allocated at \<open>new\<close> and counted, but not linked yet.\<close>

definition pending :: "pat_world \<Rightarrow> nat \<Rightarrow> nat \<Rightarrow> ptree \<Rightarrow> frame list \<Rightarrow> nat \<Rightarrow> ninfo \<Rightarrow> bool" where
  "pending w tp m s gs new i \<longleftrightarrow>
     (\<exists>tr. trees w tp = Some tr \<and> head tr = root_of (root s) gs \<and> maxbits tr = m \<and> m \<le> 128 \<and>
       num_active_node tr = int (length (addrs s) + length (caddrs gs)) + 1) \<and>
     s \<noteq> Tip \<and> wft m (hole_key gs) s \<and> wfc m gs \<and>
     rep (nodes w) (par_of gs) s \<and> repc (nodes w) (root s) gs \<and>
     distinct (addrs s) \<and> distinct (caddrs gs) \<and> set (addrs s) \<inter> set (caddrs gs) = {} \<and>
     nodes w new = Some (node_of i NULL NULL NULL) \<and> new \<notin> set (addrs s) \<and> new \<notin> set (caddrs gs) \<and>
     new < brk w \<and> ipre i \<noteq> NULL \<and> length (ikey i) \<le> m \<and>
     pfx_ok (pfx w) s \<and> pfx_ok (pfx w) (plug Tip gs) \<and> pre_ok (pfx w) i \<and>
     (\<forall>a. brk w \<le> a \<longrightarrow> nodes w a = None \<and> trees w a = None \<and> pfx w a = None)"

lemma pendingE:
  assumes "pending w tp m s gs new i"
  obtains tr where "trees w tp = Some tr" "head tr = root_of (root s) gs" "maxbits tr = m" "m \<le> 128"
    "num_active_node tr = int (length (addrs s) + length (caddrs gs)) + 1" "tp < brk w"
proof -
  from assms obtain tr where tr: "trees w tp = Some tr" "head tr = root_of (root s) gs" "maxbits tr = m"
    "m \<le> 128" "num_active_node tr = int (length (addrs s) + length (caddrs gs)) + 1"
    by (auto simp: pending_def)
  moreover have "tp < brk w" using assms tr(1) by (auto simp: pending_def not_le [symmetric])
  ultimately show ?thesis using that by blast
qed

lemma attach_child:
  assumes pend: "pending w tp m (Nd sl a si sr) gs new i"
    and key: "prefix (ikey si @ [b]) (ikey i)" and bit: "take_right m A (length (ikey si)) = Some b"
    and tip: "(if b then sr else sl) = Tip"
  shows "\<exists>w'. lookup_child w m A a new = Some w' \<and> pfx w' = pfx w \<and> tree_maxbits w' tp = m \<and>
    pat_inv w' tp (plug (if b then Nd sl a si (Nd Tip new i Tip) else Nd (Nd Tip new i Tip) a si sr) gs)"
proof -
  from pend obtain tr where tr: "trees w tp = Some tr" "head tr = root_of (Some a) gs" "maxbits tr = m"
    "m \<le> 128" "num_active_node tr = int (length (addrs (Nd sl a si sr)) + length (caddrs gs)) + 1"
    by (auto elim: pendingE)
  let ?leaf = "Nd Tip new i Tip"
  let ?s = "if b then Nd sl a si ?leaf else Nd ?leaf a si sr"
  let ?ns = "(nodes w)(new \<mapsto> node_of i NULL NULL (Some a),
    a \<mapsto> node_of si (if b then root sl else Some new) (if b then Some new else root sr) (par_of gs))"
  have "lookup_child w m A a new = Some (w\<lparr>nodes := ?ns\<rparr>)"
    using pend bit tip by (cases b) (auto simp: pending_def lookup_child_def upd_node_def)
  moreover have "pat_inv (w\<lparr>nodes := ?ns\<rparr>) tp (plug ?s gs)"
  proof (rule pat_inv_plugI)
    show "pfx_ok (pfx (w\<lparr>nodes := ?ns\<rparr>)) (plug ?s gs)"
      using pend pfx_ok_plug [of "pfx w" ?s gs] by (auto simp: pending_def)
    show "rep (nodes (w\<lparr>nodes := ?ns\<rparr>)) (par_of gs) ?s" using pend tip by (cases b) (auto simp: pending_def)
    show "wft (maxbits tr) (hole_key gs) ?s" using pend tip key tr(3) by (cases b) (auto simp: pending_def)
  qed (use pend tr tip in \<open>cases b; auto simp: pending_def\<close>)+
  moreover have "tree_maxbits (w\<lparr>nodes := ?ns\<rparr>) tp = m" using tr by (simp add: tree_maxbits_def)
  ultimately show ?thesis by fastforce
qed

lemma attach_parent:
  assumes pend: "pending w tp m (Nd sl a si sr) gs new i"
    and key: "prefix (hole_key gs) (ikey i)" "prefix (ikey i @ [b]) (ikey si)"
    and bit: "take_right m A (length (ikey i)) = Some b"
  shows "\<exists>w'. lookup_parent w tp m A (length (ikey i)) a new = Some w' \<and> pfx w' = pfx w \<and> tree_maxbits w' tp = m \<and>
    pat_inv w' tp (plug (if b then Nd Tip new i (Nd sl a si sr) else Nd (Nd sl a si sr) new i Tip) gs)"
proof -
  from pend obtain tr where tr: "trees w tp = Some tr" "head tr = root_of (Some a) gs" "maxbits tr = m"
    "m \<le> 128" "num_active_node tr = int (length (addrs (Nd sl a si sr)) + length (caddrs gs)) + 1" "tp < brk w"
    by (auto elim: pendingE)
  let ?t = "Nd sl a si sr"
  let ?s = "if b then Nd Tip new i ?t else Nd ?t new i Tip"
  let ?nn = "node_of i (if b then NULL else Some a) (if b then Some a else NULL) (par_of gs)"
  let ?v = "w\<lparr>nodes := (nodes w)(new \<mapsto> ?nn)\<rparr>"
  let ?l = "link ?v tp gs (Some new)"
  let ?nd = "node_of si (root sl) (root sr) (par_of gs)"
  let ?w = "?l\<lparr>nodes := (nodes ?l)(a \<mapsto> ?nd\<lparr>nparent := Some new\<rparr>)\<rparr>"
  have nd: "nodes w a = Some ?nd" "a \<noteq> new" "a \<notin> set (caddrs gs)" using pend by (auto simp: pending_def)
  have ctx: "ctx_ok ?v tp (Some a) gs" using pend tr by (auto simp: pending_def ctx_ok_def)
  have "relink_above ?v tp a new = Some ?w" by (rule relink_above_link [OF ctx]) (use nd in auto)
  then have "lookup_parent w tp m A (length (ikey i)) a new = Some ?w"
    using pend bit nd by (auto simp: pending_def lookup_parent_def upd_node_def)
  moreover have trees: "trees ?w = (trees w)(tp \<mapsto> tr\<lparr>head := root_of (Some new) gs\<rparr>)"
    using link_trees [of ?v tp tr "Some a" gs] tr by simp
  then have "tree_maxbits ?w tp = m" using tr by (simp add: tree_maxbits_def)
  moreover have "pat_inv ?w tp (plug ?s gs)"
  proof (rule pat_inv_plugI)
    from trees show "trees ?w tp = Some (tr\<lparr>head := root_of (Some new) gs\<rparr>)" by simp
    show "repc (nodes ?w) (root ?s) gs"
      using link_repc [of ?v "Some a" gs tp "Some new"] ctx pend nd by (auto simp: pending_def elim: ctx_okE)
    show "pfx_ok (pfx ?w) (plug ?s gs)"
      using pend pfx_ok_plug [of "pfx w" ?s gs] by (auto simp: pending_def)
    have sub: "rep (nodes ?w) (Some new) ?t"
      using pend nd by (simp add: pending_def Int_Un_distrib2)
    then show "rep (nodes ?w) (par_of gs) ?s" using pend nd by (auto simp: pending_def)
    show "wft (maxbits (tr\<lparr>head := root_of (Some new) gs\<rparr>)) (hole_key gs) ?s"
      using pend key tr(3) by (auto simp: pending_def)
    show "nodes ?w x = None \<and> trees ?w x = None \<and> pfx ?w x = None" if "brk ?w \<le> x" for x
    proof -
      have "x \<noteq> new" "x \<noteq> a" "x \<noteq> tp" "nodes w x = None" "trees w x = None" "pfx w x = None"
        using pend that tr(6) nd(1) by (auto simp: pending_def)
      with link_fresh [of ?v "Some a" gs x tp "Some new"] ctx trees show ?thesis by (auto elim: ctx_okE)
    qed
  qed (use pend tr in \<open>auto simp: pending_def\<close>)
  ultimately show ?thesis by fastforce
qed


lemma attach_glue:
  assumes pend: "pending w tp m (Nd sl a si sr) gs new i"
    and key: "prefix (hole_key gs) g" "prefix (g @ [b]) (ikey i)" "prefix (g @ [\<not> b]) (ikey si)"
    and bit: "take_right m A (length g) = Some b"
  shows "\<exists>w'. lookup_glue w tp m A (length g) a new = Some w' \<and> pfx w' = pfx w \<and> tree_maxbits w' tp = m \<and>
    pat_inv w' tp (plug
      (if b then Nd (Nd sl a si sr) (brk w) \<lparr>ikey = g, ipre = NULL, idata = NULL, iuser = NULL\<rparr> (Nd Tip new i Tip)
       else Nd (Nd Tip new i Tip) (brk w) \<lparr>ikey = g, ipre = NULL, idata = NULL, iuser = NULL\<rparr> (Nd sl a si sr)) gs)"
proof -
  from pend obtain tr where tr: "trees w tp = Some tr" "head tr = root_of (Some a) gs" "maxbits tr = m"
    "m \<le> 128" "num_active_node tr = int (length (addrs (Nd sl a si sr)) + length (caddrs gs)) + 1" "tp < brk w"
    by (auto elim: pendingE)
  let ?t = "Nd sl a si sr" and ?leaf = "Nd Tip new i Tip" and ?glue = "brk w"
  define gi where "gi = \<lparr>ikey = g, ipre = NULL, idata = NULL, iuser = NULL\<rparr>"
  then have gi: "ikey gi = g" "ipre gi = NULL" "idata gi = NULL" by simp_all
  let ?s = "if b then Nd ?t ?glue gi ?leaf else Nd ?leaf ?glue gi ?t"
  define gn where "gn = node_of gi (if b then Some a else Some new) (if b then Some new else Some a) (par_of gs)"
  define tr' where "tr' = tr\<lparr>num_active_node := num_active_node tr + 1\<rparr>"
  define v where "v = w\<lparr>brk := Suc ?glue, trees := (trees w)(tp \<mapsto> tr'),
      nodes := (nodes w)(?glue \<mapsto> gn, new \<mapsto> node_of i NULL NULL (Some ?glue))\<rparr>"
  let ?l = "link v tp gs (Some ?glue)"
  let ?nd = "node_of si (root sl) (root sr) (par_of gs)"
  let ?w = "?l\<lparr>nodes := (nodes ?l)(a \<mapsto> ?nd\<lparr>nparent := Some ?glue\<rparr>)\<rparr>"
  have fresh: "nodes w ?glue = None" "trees w ?glue = None" "?glue \<noteq> new" "?glue \<noteq> a" "?glue \<noteq> tp"
    and nd: "nodes w a = Some ?nd" "a \<noteq> new" "a \<notin> set (caddrs gs)"
    using pend tr(1) by (auto simp: pending_def)
  have out: "?glue \<notin> set (caddrs gs)" "?glue \<notin> set (addrs ?t)"
    using pend fresh(1) repc_live [of "nodes w" "Some a" gs ?glue] rep_live [of "nodes w" "par_of gs" ?t ?glue]
    by (auto simp: pending_def)
  have ctx: "ctx_ok v tp (Some a) gs" using pend tr out by (auto simp: v_def tr'_def pending_def ctx_ok_def)
  have "relink_above v tp a ?glue = Some ?w"
    by (rule relink_above_link [OF ctx]) (use nd fresh in \<open>auto simp: v_def\<close>)
  moreover have "nodes w new = Some (node_of i NULL NULL NULL)" using pend by (simp add: pending_def)
  then have "lookup_glue w tp m A (length g) a new = relink_above v tp a ?glue"
    using bit nd fresh tr(1)
    by (cases b) (simp_all add: lookup_glue_def upd_node_def calloc_node_def add_active_def upd_tree_def
        zero_node_def v_def tr'_def gn_def gi_def node_of_def)
  ultimately have "lookup_glue w tp m A (length g) a new = Some ?w" by simp
  moreover have trees: "trees ?w = (trees w)(tp \<mapsto> tr'\<lparr>head := root_of (Some ?glue) gs\<rparr>)"
    using link_trees [of v tp tr' "Some a" gs] tr by (simp add: v_def tr'_def)
  then have "tree_maxbits ?w tp = m" using tr by (simp add: tree_maxbits_def tr'_def)
  moreover have "pat_inv ?w tp (plug ?s gs)"
  proof (rule pat_inv_plugI)
    from trees show "trees ?w tp = Some (tr'\<lparr>head := root_of (Some ?glue) gs\<rparr>)" by simp
    show "repc (nodes ?w) (root ?s) gs"
      using link_repc [of v "Some a" gs tp "Some ?glue"] ctx pend nd by (auto simp: pending_def elim: ctx_okE)
    show "pfx_ok (pfx ?w) (plug ?s gs)"
      using pend pfx_ok_plug [of "pfx w" ?s gs] gi by (auto simp: pending_def v_def pre_ok_def)
    have "rep (nodes ?w) (Some ?glue) ?t" "rep (nodes ?w) (Some ?glue) ?leaf" "nodes ?w ?glue = Some gn"
      using pend nd out fresh by (simp_all add: pending_def Int_Un_distrib2 v_def)
    then show "rep (nodes ?w) (par_of gs) ?s" by (cases b) (simp_all add: gn_def)
    show "wft (maxbits (tr'\<lparr>head := root_of (Some ?glue) gs\<rparr>)) (hole_key gs) ?s"
      using pend key tr(3) gi prefix_length_le [OF key(2)] by (cases b) (auto simp: pending_def tr'_def)
    show "nodes ?w x = None \<and> trees ?w x = None \<and> pfx ?w x = None" if "brk ?w \<le> x" for x
    proof -
      have "x \<noteq> new" "x \<noteq> a" "x \<noteq> tp" "x \<noteq> ?glue" "nodes w x = None" "trees w x = None" "pfx w x = None"
        using pend that tr(6) nd(1) by (auto simp: pending_def v_def)
      with link_fresh [of v "Some a" gs x tp "Some ?glue"] ctx trees show ?thesis
        by (auto simp: v_def elim: ctx_okE)
    qed
  qed (use pend tr out fresh in \<open>auto simp: pending_def tr'_def\<close>)
  ultimately show ?thesis by (fastforce simp: gi_def v_def)
qed


subsection \<open>patricia_lookup\<close>

text \<open>The effect of a lookup on the tree: either the key is there and nothing changes, or exactly
  one entry is added, with no data, and the prefix is referenced once more.\<close>

definition inserted ::
  "pat_world \<Rightarrow> nat \<Rightarrow> bool list \<Rightarrow> ptree \<Rightarrow> nat \<Rightarrow> pat_world \<Rightarrow> ptree \<Rightarrow> bool" where
  "inserted w q k t a w' t' \<longleftrightarrow>
     t' = t \<and> w' = w \<and> (k, a) \<in> entries t \<or>
     (\<forall>b. (k, b) \<notin> entries t) \<and>
     (\<exists>i r. pinfos t' = insert (a, i) (pinfos t) \<and> ikey i = k \<and> ipre i = Some r \<and> idata i = NULL \<and>
        refd w q k r (pfx w'))"

lemma insertedI_new:
  assumes "pat_inv w' tp t'" and "pinfos t' = insert (a, new_info k r) (pinfos t)"
    and "a \<notin> set (addrs t)" and "refd w q k r (pfx w')"
  shows "inserted w q k t a w' t'"
proof -
  from assms(1) obtain m where "wft m [] t'" by (auto elim: pat_invE)
  then have "b = a" if "(k, b) \<in> entries t" for b
    using that assms(2) entry_unique [of m "[]" t' k b a] by (force simp: entries_pinfos)
  then have "\<forall>b. (k, b) \<notin> entries t" using assms(3) fst_infos_addrs by (force simp: entries_def)
  with assms(2,4) show ?thesis
    unfolding inserted_def by (intro disjI2 conjI exI [of _ "new_info k r"] exI [of _ r]) simp_all
qed

lemma inserted_entries: "inserted w q k t a w' t' \<Longrightarrow> entries t' = insert (k, a) (entries t)"
  by (auto simp: inserted_def entries_pinfos)

lemma refd_pre_ok: "refd w q k r P \<Longrightarrow> pre_ok P (new_info k r)"
  by (simp add: refd_def pre_ok_def split: option.splits)

lemma pending_new_prefix_node:
  assumes inv: "pat_inv w tp (plug s gs)" and s: "s \<noteq> Tip" and arg: "arg_ok w tp q k"
  obtains r w1 where "new_prefix_node w tp q (length k) = Some (brk w, w1)" "refd w q k r (pfx w1)"
    "pending w1 tp (tree_maxbits w tp) s gs (brk w) (new_info k r)"
proof -
  from inv s obtain tr where tr: "trees w tp = Some tr" "head tr = root_of (root s) gs" "maxbits tr \<le> 128"
    "num_active_node tr = int (length (addrs s) + length (caddrs gs))"
    "wft (maxbits tr) (hole_key gs) s" "wfc (maxbits tr) gs"
    "rep (nodes w) (par_of gs) s" "repc (nodes w) (root s) gs"
    "distinct (addrs s)" "distinct (caddrs gs)" "set (addrs s) \<inter> set (caddrs gs) = {}"
    "pfx_ok (pfx w) s" "pfx_ok (pfx w) (plug Tip gs)" "tree_maxbits w tp = maxbits tr"
    by (rule pat_inv_plugE)
  obtain r P b where N: "new_prefix_node w tp q (length k) = Some (brk w, w\<lparr>pfx := P, brk := b,
       nodes := (nodes w)(brk w \<mapsto> node_of (new_info k r) NULL NULL NULL),
       trees := (trees w)(tp \<mapsto> tr\<lparr>num_active_node := num_active_node tr + 1\<rparr>)\<rparr>)"
    "refd w q k r P" "Suc (brk w) \<le> b" "\<forall>a\<ge>b. P a = None"
    by (rule new_prefix_node_refd [OF inv arg tr(1)])
  let ?w = "w\<lparr>pfx := P, brk := b, nodes := (nodes w)(brk w \<mapsto> node_of (new_info k r) NULL NULL NULL),
       trees := (trees w)(tp \<mapsto> tr\<lparr>num_active_node := num_active_node tr + 1\<rparr>)\<rparr>"
  have new: "brk w \<notin> set (addrs s)" "brk w \<notin> set (caddrs gs)" "tp < brk w"
    using pat_inv_fresh [OF inv] tr(1) rep_live [OF tr(7), of "brk w"] repc_live [OF tr(8), of "brk w"]
    by (auto simp: not_le [symmetric])
  have "length k \<le> maxbits tr" using arg tr(14) by (auto elim: arg_okE)
  moreover have "pfx_extends (pfx w) P" using N(2) by (simp add: refd_def)
  ultimately have "pending ?w tp (maxbits tr) s gs (brk w) (new_info k r)"
    using tr new N(3,4) s pat_inv_fresh [OF inv] refd_pre_ok [OF N(2)] by (simp add: pending_def pfx_ok_extends)
  with N(1,2) tr(14) show ?thesis using that [of ?w r] by simp
qed


text \<open>The search part of the lookup: the key \<open>k\<close> leaves the tree after \<open>d\<close> bits of the key \<open>F\<close>
  found at the bottom, at a subtree with key of at least \<open>d\<close> bits below nodes with fewer.\<close>

definition placed :: "bool list \<Rightarrow> nat \<Rightarrow> bool list \<Rightarrow> ptree \<Rightarrow> ninfo \<Rightarrow> ptree \<Rightarrow> frame list \<Rightarrow> bool" where
  "placed k d F sl si sr gs \<longleftrightarrow> d \<le> length k \<and> d \<le> length F \<and> take d k = take d F \<and>
     (d < length k \<and> d < length F \<longrightarrow> k ! d \<noteq> F ! d) \<and>
     prefix (hole_key gs) (take d k) \<and> d \<le> length (ikey si) \<and> prefix (ikey si) F \<and>
     (length (ikey si) = d \<and> d < length k \<longrightarrow> (if k ! d then sr else sl) = Tip)"

lemma placed_key:
  assumes "placed k d F sl si sr gs"
  shows "d \<le> length k" and "d \<le> length (ikey si)" and "take d (ikey si) = take d k"
  using assms by (auto simp: placed_def prefix_def)

lemma lookup_finds:
  assumes inv: "pat_inv w tp t" and arg: "arg_ok w tp q k" and h: "root t = Some h"
  obtains p f fl fi fr fp d sl a si sr gs where
    "pfx w q = Some p" "pkey p = k" "bitlen p = length k" "length (add p) = 16" "wf_prefix fp"
    "lookup_descend (nodes w) (tree_maxbits w tp) (add p) (length k) h = Some f"
    "\<exists>par. nodes w f = Some (node_of fi (root fl) (root fr) par)" "deref (pfx w) (ipre fi) = Some fp"
    "find_differ_bit (add p) (add fp) (min (length (ikey fi)) (length k)) = Some d"
    "pkey fp = ikey fi" "lookup_ascend (nodes w) d f = Some a" "t = plug (Nd sl a si sr) gs"
    "placed k d (ikey fi) sl si sr gs"
proof -
  from inv obtain tr where tr: "trees w tp = Some tr" "maxbits tr \<le> 128" "wft (maxbits tr) [] t"
    "rep (nodes w) NULL t" "pfx_ok (pfx w) t" "tree_maxbits w tp = maxbits tr" by (rule pat_invE)
  from arg obtain p where p: "pfx w q = Some p" "wf_prefix p" "bitlen p \<le> maxbits tr" "pkey p = k"
    "length k = bitlen p" "length (add p) = 16" "bitlen p \<le> 128" using tr(6) by (auto elim: arg_okE)
  define B where "B = bits_of (add p)"
  have kB: "k = take (bitlen p) B" using p(4) by (simp add: B_def pkey_def)
  obtain s fs where desc: "descend_t (maxbits tr) B (bitlen p) t [] = (s, fs)" by force
  have "t \<noteq> Tip" using h by auto
  obtain fl f fi fr where s: "s = Nd fl f fi fr" "ipre fi \<noteq> NULL"
    using descend_stop [OF \<open>t \<noteq> Tip\<close> tr(3) desc] by (auto simp: stops_def)
  have f: "lookup_descend (nodes w) (maxbits tr) (add p) (bitlen p) h = Some f"
    using lookup_descend_t [OF tr(2) p(6) tr(4) h desc [unfolded B_def]] s by simp
  have pl: "plug s fs = t" using descend_plug [OF desc] by simp
  then have repf: "rep (nodes w) (par_of fs) s" "repc (nodes w) (root s) fs"
    using tr(4) rep_plug [of "nodes w" s fs] by simp_all
  have "(f, fi) \<in> set (infos t)" using infos_plug [of s fs] s pl by auto
  then obtain fp where fp: "deref (pfx w) (ipre fi) = Some fp" "wf_prefix fp" "pkey fp = ikey fi"
    using pfx_okD [OF tr(5)] s(2) by (fastforce elim: pre_okE)
  then have lenf: "bitlen fp = length (ikey fi)" by (metis length_pkey)
  obtain d where d: "find_differ_bit (add p) (add fp) (min (bitlen fp) (bitlen p)) = Some d"
    "d \<le> bitlen p" "d \<le> bitlen fp" "take d k = take d (ikey fi)"
    "d < bitlen p \<Longrightarrow> d < bitlen fp \<Longrightarrow> k ! d \<noteq> ikey fi ! d"
    using find_differ_bit_lcp [OF p(2) fp(2)] p(4) fp(3) by metis
  have dB: "take d B = take d k" "d < bitlen p \<Longrightarrow> B ! d = k ! d" using d(2) by (simp_all add: kB min_def)
  obtain u gs where asc: "ascend_t d s fs = (u, gs)" by force
  have "bitlen p \<le> length B" using p(6,7) by (simp add: B_def)
  from lookup_place [OF tr(3) \<open>t \<noteq> Tip\<close> desc [unfolded s(1)] p(3) this d(2) _ _ _ asc [unfolded s(1)]]
  obtain sl a si sr where u: "u = Nd sl a si sr" "plug u gs = t" "prefix (hole_key gs) (take d k)"
    "d \<le> length (ikey si)" "prefix (ikey si) (ikey fi)"
    "length (ikey si) = d \<Longrightarrow> d < bitlen p \<Longrightarrow> (if k ! d then sr else sl) = Tip"
    using d lenf dB by metis
  have asc': "lookup_ascend (nodes w) d f = Some a"
    using lookup_ascend_t [OF repf _ asc] s u by simp
  have nf: "\<exists>par. nodes w f = Some (node_of fi (root fl) (root fr) par)" using repf s by auto
  have "placed k d (ikey fi) sl si sr gs"
    using d lenf p(5) u unfolding placed_def by auto
  then show ?thesis
    using that [of p fp f fi fl fr d a sl si sr gs] p f nf fp d(1) lenf tr(6) u(1,2) asc' by simp
qed

lemma lookup_empty:
  assumes inv: "pat_inv w tp Tip" and arg: "arg_ok w tp q k"
  shows "\<exists>a w' t'. patricia_lookup w (Some tp) (Some q) = Some (a, w') \<and> pat_inv w' tp t' \<and>
    tree_maxbits w' tp = tree_maxbits w tp \<and> inserted w q k Tip a w' t'"
proof -
  from inv obtain tr where tr: "trees w tp = Some tr" "head tr = NULL" "maxbits tr \<le> 128"
    "num_active_node tr = 0" "tree_maxbits w tp = maxbits tr" by (auto elim: pat_invE)
  from arg obtain p where p: "pfx w q = Some p" "bitlen p \<le> maxbits tr" "length k = bitlen p"
    using tr(5) by (auto elim: arg_okE)
  obtain r P b where N: "new_prefix_node w tp q (length k) = Some (brk w, w\<lparr>pfx := P, brk := b,
       nodes := (nodes w)(brk w \<mapsto> node_of (new_info k r) NULL NULL NULL),
       trees := (trees w)(tp \<mapsto> tr\<lparr>num_active_node := num_active_node tr + 1\<rparr>)\<rparr>)"
    "refd w q k r P" "Suc (brk w) \<le> b" "\<forall>a\<ge>b. P a = None"
    by (rule new_prefix_node_refd [OF inv arg tr(1)])
  let ?w = "w\<lparr>pfx := P, brk := b, nodes := (nodes w)(brk w \<mapsto> node_of (new_info k r) NULL NULL NULL),
       trees := (trees w)(tp \<mapsto> tr\<lparr>num_active_node := 1, head := Some (brk w)\<rparr>)\<rparr>"
  let ?t = "Nd Tip (brk w) (new_info k r) Tip"
  have L: "patricia_lookup w (Some tp) (Some q) = Some (brk w, ?w)"
    using tr p N(1) by (simp add: patricia_lookup_def upd_tree_def)
  have "tp < brk w" using pat_inv_fresh [OF inv, of tp] tr(1) by (auto simp: not_le [symmetric])
  then have I: "pat_inv ?w tp (plug ?t [])"
    using N tr p(2,3) pat_inv_fresh [OF inv] refd_pre_ok [OF N(2)]
    by (intro pat_inv_plugI [of _ _ "tr\<lparr>num_active_node := 1, head := Some (brk w)\<rparr>"]) auto
  then have "inserted w q k Tip (brk w) ?w (plug ?t [])"
    by (rule insertedI_new [where r = r]) (use N(2) in auto)
  with L I tr show ?thesis by (fastforce simp: tree_maxbits_def)
qed

text \<open>A glue node on the way becomes the entry's node.\<close>

lemma lookup_promote:
  assumes inv: "pat_inv w tp (plug (Nd sl a si sr) gs)" and arg: "arg_ok w tp q k"
    and si: "ikey si = k" "ipre si = NULL"
  shows "\<exists>w' t'. (do { (rp, w) \<leftarrow> Ref_Prefix w (Some q); w \<leftarrow> upd_node w a (\<lambda>n. n\<lparr>nprefix := rp\<rparr>);
       c_assert (idata si = NULL); Some (a, w) }) = Some (a, w') \<and> pat_inv w' tp t' \<and>
     tree_maxbits w' tp = tree_maxbits w tp \<and> inserted w q k (plug (Nd sl a si sr) gs) a w' t'"
proof -
  let ?t = "plug (Nd sl a si sr) gs"
  from inv obtain tr where tr: "trees w tp = Some tr" "head tr = root_of (Some a) gs" "maxbits tr \<le> 128"
    "num_active_node tr = int (length (addrs (Nd sl a si sr)) + length (caddrs gs))"
    "wft (maxbits tr) (hole_key gs) (Nd sl a si sr)" "wfc (maxbits tr) gs"
    "rep (nodes w) (par_of gs) (Nd sl a si sr)" "repc (nodes w) (Some a) gs"
    "distinct (addrs (Nd sl a si sr))" "distinct (caddrs gs)"
    "set (addrs (Nd sl a si sr)) \<inter> set (caddrs gs) = {}"
    "pfx_ok (pfx w) (Nd sl a si sr)" "pfx_ok (pfx w) (plug Tip gs)"
    by (rule pat_inv_plugE) simp_all
  have q: "q < brk w" using arg pat_inv_fresh [OF inv, of q] by (force elim: arg_okE)
  obtain r P b where R: "Ref_Prefix w (Some q) = Some (Some r, w\<lparr>pfx := P, brk := b\<rparr>)"
    "refd w q k r P" "brk w \<le> b" "\<forall>x\<ge>b. P x = None"
    by (rule Ref_Prefix_refd [OF arg q, of w]) (use pat_inv_fresh [OF inv] in auto)
  let ?i = "si\<lparr>ipre := Some r\<rparr>"
  let ?w = "w\<lparr>pfx := P, brk := b, nodes := (nodes w)(a \<mapsto> node_of ?i (root sl) (root sr) (par_of gs))\<rparr>"
  let ?t' = "plug (Nd sl a ?i sr) gs"
  have ext: "pfx_extends (pfx w) P" using R(2) by (simp add: refd_def)
  have ok: "pre_ok P ?i" using refd_pre_ok [OF R(2)] si by (simp add: pre_ok_def split: option.splits)
  have I: "pat_inv ?w tp ?t'"
  proof (rule pat_inv_plugI)
    show "pfx_ok (pfx ?w) ?t'"
      using pfx_ok_plug [of P "Nd sl a ?i sr" gs] ok tr(12,13) ext by (simp add: pfx_ok_extends)
  qed (use tr R(3,4) pat_inv_fresh [OF inv] in auto)
  have "(k, x) \<notin> entries ?t" for x
  proof
    assume "(k, x) \<in> entries ?t"
    then obtain j where j: "(x, j) \<in> set (infos ?t)" "ikey j = k" "ipre j \<noteq> NULL"
      by (auto simp: entries_def)
    from inv obtain m where "wft m [] ?t" by (auto elim: pat_invE)
    moreover have "(a, si) \<in> set (infos ?t)" using infos_plug [of "Nd sl a si sr" gs] by auto
    ultimately have "j = si" using wft_key_inj j(1,2) si(1) by blast
    with j(3) si(2) show False by simp
  qed
  moreover have "pinfos ?t' = insert (a, ?i) (pinfos ?t)"
    using pinfos_plug [of "Nd sl a ?i sr" gs] pinfos_plug [of "Nd sl a si sr" gs] si(2) by auto
  moreover have "idata si = NULL" using tr(5) si(2) by simp
  ultimately have "inserted w q k ?t a ?w ?t'" using R(2) si(1) unfolding inserted_def
    by (intro disjI2 conjI exI [of _ ?i] exI [of _ r]) simp_all
  moreover have "tree_maxbits ?w tp = tree_maxbits w tp" by (simp add: tree_maxbits_def)
  ultimately show ?thesis
    using I R(1) \<open>idata si = NULL\<close> tr(7)
    by (intro exI [of _ ?w] exI [of _ ?t']) (simp add: upd_node_def)
qed

text \<open>The three ways to attach a pending node all give a tree with one more entry.\<close>

definition attached ::
  "pat_world \<Rightarrow> nat \<Rightarrow> nat \<Rightarrow> ptree \<Rightarrow> frame list \<Rightarrow> nat \<Rightarrow> ninfo \<Rightarrow> pat_world option \<Rightarrow> bool" where
  "attached w1 tp m s gs new i X \<longleftrightarrow> (\<exists>w' s'. X = Some w' \<and> pfx w' = pfx w1 \<and> tree_maxbits w' tp = m \<and>
     pat_inv w' tp (plug s' gs) \<and> pinfos s' = insert (new, i) (pinfos s))"

lemma attached_inserted:
  assumes "attached w1 tp m s gs new (new_info k r) X" and "new \<notin> set (addrs (plug s gs))"
    and "refd w q k r (pfx w1)"
  obtains w' t' where "X = Some w'" "pat_inv w' tp t'" "tree_maxbits w' tp = m"
    "inserted w q k (plug s gs) new w' t'"
proof -
  from assms(1) obtain w' s' where w': "X = Some w'" "pfx w' = pfx w1" "tree_maxbits w' tp = m"
    "pat_inv w' tp (plug s' gs)" "pinfos s' = insert (new, new_info k r) (pinfos s)"
    by (auto simp: attached_def)
  have "pinfos (plug s' gs) = insert (new, new_info k r) (pinfos (plug s gs))"
    using w'(5) pinfos_plug [of s' gs] pinfos_plug [of s gs] by simp
  from insertedI_new [OF w'(4) this assms(2), of w q] assms(3) w' show ?thesis
    by (intro that [of w' "plug s' gs"]) auto
qed

lemma place_child:
  assumes pl: "placed k d F sl si sr gs" and pend: "pending w1 tp m (Nd sl a si sr) gs new (new_info k r)"
    and bit: "take_right m A d = Some (k ! d)" and len: "length (ikey si) = d" "d < length k"
  shows "attached w1 tp m (Nd sl a si sr) gs new (new_info k r) (lookup_child w1 m A a new)"
proof -
  have key: "prefix (ikey si @ [k ! d]) k"
    using placed_key [OF pl] len by (simp add: prefix_conv_take take_Suc_conv_app_nth)
  have tip: "(if k ! d then sr else sl) = Tip" using pl len by (simp add: placed_def)
  let ?leaf = "Nd Tip new (new_info k r) Tip"
  let ?s = "if k ! d then Nd sl a si ?leaf else Nd ?leaf a si sr"
  have "pinfos ?s = insert (new, new_info k r) (pinfos (Nd sl a si sr))" using tip by auto
  with attach_child [OF pend _ _ tip, of A] key bit len show ?thesis
    unfolding attached_def by fastforce
qed

lemma place_parent:
  assumes pl: "placed k d F sl si sr gs" and pend: "pending w1 tp m (Nd sl a si sr) gs new (new_info k r)"
    and fp: "wf_prefix fp" "pkey fp = F" and len: "length k = d" "d < length (ikey si)"
  shows "attached w1 tp m (Nd sl a si sr) gs new (new_info k r) (lookup_parent w1 tp m (add fp) d a new)"
proof -
  have bits: "ikey si ! d = F ! d" "d < length F" "F ! d = bits_of (add fp) ! d"
    using pl fp len nth_pkey [of d fp] by (auto simp: placed_def prefix_def nth_append)
  have key: "prefix (k @ [ikey si ! d]) (ikey si)"
    using placed_key [OF pl] len by (simp add: prefix_conv_take take_Suc_conv_app_nth)
  have "d < m" "m \<le> 128" "length (add fp) = 16"
    using pend len fp by (auto simp: pending_def wf_prefix_def)
  then have bit: "take_right m (add fp) (length k) = Some (ikey si ! d)"
    using bits len by (simp add: take_right_bit)
  have hole: "prefix (hole_key gs) k" using pl len by (auto simp: placed_def)
  let ?t = "Nd sl a si sr" and ?i = "new_info k r"
  let ?s = "if ikey si ! d then Nd Tip new ?i ?t else Nd ?t new ?i Tip"
  have "pinfos ?s = insert (new, ?i) (pinfos ?t)" by auto
  with attach_parent [OF pend, of "ikey si ! d" "add fp"] hole key bit len show ?thesis
    unfolding attached_def by fastforce
qed

lemma place_glue:
  assumes pl: "placed k d F sl si sr gs" and pend: "pending w1 tp m (Nd sl a si sr) gs new (new_info k r)"
    and bit: "take_right m A d = Some (k ! d)" and len: "d < length k" "d < length (ikey si)"
  shows "attached w1 tp m (Nd sl a si sr) gs new (new_info k r) (lookup_glue w1 tp m A d a new)"
proof -
  let ?g = "\<lparr>ikey = take d k, ipre = NULL, idata = NULL, iuser = NULL\<rparr>"
  let ?t = "Nd sl a si sr" and ?leaf = "Nd Tip new (new_info k r) Tip"
  let ?s = "if k ! d then Nd ?t (brk w1) ?g ?leaf else Nd ?leaf (brk w1) ?g ?t"
  have "ikey si ! d = (\<not> k ! d)" using pl len by (auto simp: placed_def prefix_def nth_append)
  then have "prefix (take d k @ [k ! d]) k" "prefix (take d k @ [\<not> k ! d]) (ikey si)"
    using placed_key [OF pl] len by (simp_all add: prefix_conv_take take_Suc_conv_app_nth)
  moreover have "prefix (hole_key gs) (take d k)" "length (take d k) = d"
    using pl len by (auto simp: placed_def)
  moreover have "pinfos ?s = insert (new, new_info k r) (pinfos ?t)" by auto
  ultimately show ?thesis
    using attach_glue [OF pend, of "take d k" "k ! d" A] bit unfolding attached_def by fastforce
qed

lemma lookup_inserts:
  assumes inv: "pat_inv w tp t" and arg: "arg_ok w tp q k"
  shows "\<exists>a w' t'. patricia_lookup w (Some tp) (Some q) = Some (a, w') \<and> pat_inv w' tp t' \<and>
    tree_maxbits w' tp = tree_maxbits w tp \<and> inserted w q k t a w' t'"
proof (cases "root t")
  case None
  with lookup_empty assms show ?thesis by simp
next
  case (Some h)
  obtain p f fl fi fr fp d sl a si sr gs where F:
    "pfx w q = Some p" "pkey p = k" "bitlen p = length k" "length (add p) = 16" "wf_prefix fp"
    "lookup_descend (nodes w) (tree_maxbits w tp) (add p) (length k) h = Some f"
    "\<exists>par. nodes w f = Some (node_of fi (root fl) (root fr) par)" "deref (pfx w) (ipre fi) = Some fp"
    "find_differ_bit (add p) (add fp) (min (length (ikey fi)) (length k)) = Some d"
    "pkey fp = ikey fi" "lookup_ascend (nodes w) d f = Some a" "t = plug (Nd sl a si sr) gs"
    "placed k d (ikey fi) sl si sr gs"
    by (rule lookup_finds [OF inv arg Some])
  let ?s = "Nd sl a si sr" and ?m = "tree_maxbits w tp"
  note inv' = inv [unfolded F(12)]
  have nd: "nodes w a = Some (node_of si (root sl) (root sr) (par_of gs))" and m: "?m \<le> 128"
    using inv' by (auto elim!: pat_inv_plugE)
  obtain tr where tr: "trees w tp = Some tr" "head tr = Some h" "maxbits tr = ?m"
    using inv Some by (auto elim: pat_invE)
  have klen: "length k \<le> ?m" using arg by (auto elim: arg_okE)
  obtain par where nf: "nodes w f = Some (node_of fi (root fl) (root fr) par)" using F(7) by blast
  have cb: "(if length (ikey fi) < length k then length (ikey fi) else length k) =
      min (length (ikey fi)) (length k)" by simp
  have look: "patricia_lookup w (Some tp) (Some q) =
    (if d = length k \<and> length (ikey si) = length k then
       if ipre si \<noteq> NULL then Some (a, w)
       else do { (rp, w) \<leftarrow> Ref_Prefix w (Some q); w \<leftarrow> upd_node w a (\<lambda>n. n\<lparr>nprefix := rp\<rparr>);
                 c_assert (idata si = NULL); Some (a, w) }
     else do {
       (new, w1) \<leftarrow> new_prefix_node w tp q (length k);
       w2 \<leftarrow> (if length (ikey si) = d then lookup_child w1 ?m (add p) a new
              else if length k = d then lookup_parent w1 tp ?m (add fp) (length k) a new
              else lookup_glue w1 tp ?m (add p) d a new);
       Some (new, w2) })"
    by (simp add: patricia_lookup_def Let_def cb tr F(1,3,6,8,9,11) nf nd klen cong: if_cong split del: if_split)
  show ?thesis
  proof (cases "d = length k \<and> length (ikey si) = length k")
    case True
    then have "ikey si = k" using placed_key(3) [OF F(13)] by simp
    show ?thesis
    proof (cases "ipre si")
      case None
      with True look have "patricia_lookup w (Some tp) (Some q) = (do { (rp, w) \<leftarrow> Ref_Prefix w (Some q);
          w \<leftarrow> upd_node w a (\<lambda>n. n\<lparr>nprefix := rp\<rparr>); c_assert (idata si = NULL); Some (a, w) })" by simp
      with lookup_promote [OF inv' arg \<open>ikey si = k\<close> None] show ?thesis
        unfolding F(12) by metis
    next
      case Some
      then have "(k, a) \<in> entries t" using entries_plug [of ?s gs] \<open>ikey si = k\<close> F(12) by simp
      with True Some inv show ?thesis by (auto simp: look inserted_def)
    qed
  next
    case False
    obtain r w1 where N: "new_prefix_node w tp q (length k) = Some (brk w, w1)" "refd w q k r (pfx w1)"
      "pending w1 tp ?m ?s gs (brk w) (new_info k r)"
      by (rule pending_new_prefix_node [OF inv' _ arg]) simp
    have out: "brk w \<notin> set (addrs (plug ?s gs))"
      using inv' pat_inv_fresh [OF inv, of "brk w"] by (auto elim!: pat_invE dest: rep_live)
    have bit: "d < length k \<Longrightarrow> take_right ?m (add p) d = Some (k ! d)"
      using klen take_right_bit [OF m F(4)] F(2) nth_pkey [of d p] by auto
    let ?X = "if length (ikey si) = d then lookup_child w1 ?m (add p) a (brk w)
              else if length k = d then lookup_parent w1 tp ?m (add fp) (length k) a (brk w)
              else lookup_glue w1 tp ?m (add p) d a (brk w)"
    have "attached w1 tp ?m ?s gs (brk w) (new_info k r) ?X"
      using False placed_key(1,2) [OF F(13)] place_child [OF F(13) N(3) bit]
        place_parent [OF F(13) N(3) F(5,10)] place_glue [OF F(13) N(3) bit]
      by (auto simp: le_less)
    from attached_inserted [OF this out N(2)] obtain w' t' where "?X = Some w'" "pat_inv w' tp t'"
      "tree_maxbits w' tp = ?m" "inserted w q k t (brk w) w' t'" unfolding F(12) .
    with look False N(1) show ?thesis by auto
  qed
qed

end
