(* ===== verification/PatriciaRemove.thy ===== *)
theory PatriciaRemove
  imports PatriciaInsert
begin

text \<open>
  Removal: \<^verbatim>\<open>patricia_remove\<close> of a node that carries a prefix takes exactly that entry out of the
  tree, drops one reference to its prefix, frees the node and a glue node it leaves with one child,
  and keeps the invariant.
\<close>

subsection \<open>Locating a node and dropping its prefix\<close>

lemma zipper_at:
  "(a, i) \<in> set (infos t) \<Longrightarrow> \<exists>l r gs. plug t fs = plug (Nd l a i r) (gs @ fs)"
proof (induction t arbitrary: fs)
  case Tip
  then show ?case by simp
next
  case (Nd l b j r)
  from Nd.prems consider "(a, i) = (b, j)" | "(a, i) \<in> set (infos l)" | "(a, i) \<in> set (infos r)"
    by auto
  then show ?case
  proof cases
    case 1
    then show ?thesis by (intro exI [of _ l] exI [of _ r] exI [of _ "[]"]) simp
  next
    case 2
    from Nd.IH(1) [OF this, of "FL b j r # fs"] obtain l' r' gs where
      "plug (Nd l b j r) fs = plug (Nd l' a i r') (gs @ FL b j r # fs)" by auto
    then show ?thesis by (intro exI [of _ l'] exI [of _ r'] exI [of _ "gs @ [FL b j r]"]) simp
  next
    case 3
    from Nd.IH(2) [OF this, of "FR l b j # fs"] obtain l' r' gs where
      "plug (Nd l b j r) fs = plug (Nd l' a i r') (gs @ FR l b j # fs)" by auto
    then show ?thesis by (intro exI [of _ l'] exI [of _ r'] exI [of _ "gs @ [FR l b j]"]) simp
  qed
qed

text \<open>The prefixes after one reference to \<open>q\<close> is gone.\<close>

definition unref :: "prefix_t store \<Rightarrow> nat \<Rightarrow> prefix_t store" where
  "unref P q = P(q := (case P q of None \<Rightarrow> None
     | Some p \<Rightarrow> if ref_count p = 1 then None else Some (p\<lparr>ref_count := ref_count p - 1\<rparr>)))"

definition others_ok :: "prefix_t store \<Rightarrow> nat \<Rightarrow> ptree \<Rightarrow> bool" where
  "others_ok P a t \<longleftrightarrow> (\<forall>(b, j) \<in> set (infos t). b \<noteq> a \<longrightarrow> pre_ok P j)"

lemma drop_ref:
  assumes inv: "pat_inv w tp t" and i: "(a, i) \<in> set (infos t)" "ipre i = Some q"
  shows "\<And>v :: pat_world. pfx v = pfx w \<Longrightarrow> Deref_Prefix v (Some q) = Some (v\<lparr>pfx := unref (pfx w) q\<rparr>)"
    and "others_ok (unref (pfx w) q) a t"
    and "\<And>x. brk w \<le> x \<Longrightarrow> unref (pfx w) q x = None"
proof -
  from inv obtain m where wf: "wft m [] t" and ok: "pfx_ok (pfx w) t" by (auto elim: pat_invE)
  from pre_okE [OF pfx_okD [OF ok i(1)] i(2)] obtain p where
    p: "pfx w q = Some p" "pkey p = ikey i" "1 \<le> ref_count p" by metis
  show "Deref_Prefix v (Some q) = Some (v\<lparr>pfx := unref (pfx w) q\<rparr>)" if "pfx v = pfx w" for v :: pat_world
    using Deref_Prefix_counted [of v q p] p that by (simp add: unref_def)
  have "ipre j \<noteq> Some q" if "(b, j) \<in> set (infos t)" "b \<noteq> a" for b j
  proof
    assume "ipre j = Some q"
    from pre_okE [OF pfx_okD [OF ok that(1)] this] p have "ikey j = ikey i" by (metis option.inject)
    with wft_key_inj [OF wf that(1) i(1)] that(2) show False by simp
  qed
  then have "pre_ok (unref (pfx w) q) j" if "(b, j) \<in> set (infos t)" "b \<noteq> a" for b j
    using that pfx_okD [OF ok that(1)] by (auto simp: pre_ok_def unref_def split: option.splits)
  then show "others_ok (unref (pfx w) q) a t" by (auto simp: others_ok_def)
  show "unref (pfx w) q x = None" if "brk w \<le> x" for x
    using pat_inv_fresh [OF inv that] p by (auto simp: unref_def)
qed

lemma pfx_ok_sub:
  assumes "others_ok P a t" and "set (infos t') \<subseteq> {(b, j) \<in> set (infos t). b \<noteq> a} \<union> {(b, j). ipre j = NULL}"
  shows "pfx_ok P t'"
  using assms unfolding pfx_ok_iff others_ok_def by (fastforce simp: pre_ok_def)

definition removed ::
  "pat_world \<Rightarrow> nat \<Rightarrow> ptree \<Rightarrow> nat \<Rightarrow> ninfo \<Rightarrow> pat_world \<Rightarrow> ptree \<Rightarrow> bool" where
  "removed w tp t a i w' t' \<longleftrightarrow> pat_inv w' tp t' \<and> tree_maxbits w' tp = tree_maxbits w tp \<and>
     pinfos t' = pinfos t - {(a, i)} \<and> pfx w' = unref (pfx w) (the (ipre i))"

lemma removed_entries:
  assumes "removed w tp t a i w' t'" and "pat_inv w tp t" and "(a, i) \<in> pinfos t"
  shows "entries t' = entries t - {(ikey i, a)}"
proof -
  have "distinct (addrs t)" using assms(2) by (auto elim: pat_invE)
  from infos_unique [OF this] assms(3) have uniq: "j = i" if "(a, j) \<in> pinfos t" for j
    using that by (auto simp: pinfos_def)
  have "entries t' = (\<lambda>(a, i). (ikey i, a)) ` (pinfos t - {(a, i)})"
    using assms(1) by (simp add: entries_pinfos removed_def)
  also have "\<dots> = entries t - {(ikey i, a)}"
    unfolding entries_pinfos using uniq by (auto simp: image_iff)
  finally show ?thesis .
qed

lemma pinfos_minus:
  assumes "distinct (addrs (plug (Nd l a i r) gs))"
  shows "pinfos (plug (Nd l a i r) gs) - {(a, i)} = pinfos l \<union> pinfos r \<union> pinfos (plug Tip gs)"
proof -
  have "a \<notin> set (addrs l)" "a \<notin> set (addrs r)" "a \<notin> set (addrs (plug Tip gs))"
    using assms by (auto simp: distinct_plug addrs_plug)
  then show ?thesis
    using pinfos_plug [of "Nd l a i r" gs] fst_infos_addrs [of a i] by (fastforce simp: pinfos_def)
qed

text \<open>What is left to show once the code of a case has run: the new tree \<open>plug s' gs'\<close> is stored and
  has all the nodes but the removed one (and glue nodes).\<close>

lemma removedI:
  assumes inv: "pat_inv w tp (plug (Nd l a i r) gs)" and i: "ipre i = Some q"
    and t': "set (infos t') \<subseteq> set (infos l) \<union> set (infos r) \<union> set (infos (plug Tip gs)) \<union> {(b, j). ipre j = NULL}"
      "pinfos t' = pinfos l \<union> pinfos r \<union> pinfos (plug Tip gs)"
    and w': "pfx w' = unref (pfx w) q" "tree_maxbits w' tp = tree_maxbits w tp"
      "pfx_ok (pfx w') t' \<Longrightarrow> pat_inv w' tp t'"
  shows "removed w tp (plug (Nd l a i r) gs) a i w' t'"
proof -
  have dist: "distinct (addrs (plug (Nd l a i r) gs))" using inv by (auto elim: pat_invE)
  have ai: "(a, i) \<in> set (infos (plug (Nd l a i r) gs))" using infos_plug [of "Nd l a i r" gs] by auto
  have "pfx_ok (pfx w') t'"
    unfolding w'(1) by (rule pfx_ok_sub [OF drop_ref(2) [OF inv ai i]]) (use t'(1) infos_minus [OF dist] in blast)
  with w' t'(2) pinfos_minus [OF dist] i show ?thesis by (simp add: removed_def)
qed

subsection \<open>The three cases\<close>

text \<open>A node with two children stays as a glue node.\<close>

lemma remove_two_children:
  assumes inv: "pat_inv w tp (plug (Nd l a i r) gs)" and i: "ipre i = Some q" and ch: "l \<noteq> Tip" "r \<noteq> Tip"
  shows "\<exists>w' t'. patricia_remove w (Some tp) (Some a) = Some w' \<and>
    removed w tp (plug (Nd l a i r) gs) a i w' t'"
proof -
  let ?s = "Nd l a i r" let ?t = "plug ?s gs"
  let ?i = "i\<lparr>ipre := NULL, idata := NULL\<rparr>" let ?s' = "Nd l a ?i r"
  from inv obtain tr where tr: "trees w tp = Some tr" "head tr = root_of (root ?s) gs" "maxbits tr \<le> 128"
    "num_active_node tr = int (length (addrs ?s) + length (caddrs gs))"
    "wft (maxbits tr) (hole_key gs) ?s" "wfc (maxbits tr) gs"
    "rep (nodes w) (par_of gs) ?s" "repc (nodes w) (root ?s) gs"
    "distinct (addrs ?s)" "distinct (caddrs gs)" "set (addrs ?s) \<inter> set (caddrs gs) = {}"
    by (rule pat_inv_plugE) simp_all
  have ai: "(a, i) \<in> set (infos ?t)" using infos_plug [of ?s gs] by auto
  note D = drop_ref [OF inv ai i]
  let ?w = "w\<lparr>pfx := unref (pfx w) q, nodes := (nodes w)(a \<mapsto> node_of ?i (root l) (root r) (par_of gs))\<rparr>"
  have "patricia_remove w (Some tp) (Some a) = Some ?w"
    using tr(7) ch D(1) i by (auto simp: patricia_remove_def upd_node_def)
  moreover have "removed w tp ?t a i ?w (plug ?s' gs)"
  proof (rule removedI [OF inv i])
    show "pat_inv ?w tp (plug ?s' gs)" if "pfx_ok (pfx ?w) (plug ?s' gs)"
      by (rule pat_inv_plugI) (use tr ch D(3) pat_inv_fresh [OF inv] that in auto)
    show "set (infos (plug ?s' gs)) \<subseteq>
        set (infos l) \<union> set (infos r) \<union> set (infos (plug Tip gs)) \<union> {(b, j). ipre j = NULL}"
      using infos_plug [of ?s' gs] by auto
  qed (use pinfos_plug [of ?s' gs] in \<open>auto simp: tree_maxbits_def\<close>)
  ultimately show ?thesis by blast
qed

text \<open>A node with one child is replaced by it.\<close>

lemma remove_with_child:
  assumes inv: "pat_inv w tp (plug (Nd l a i r) gs)" and i: "ipre i = Some q"
    and ch: "(l = Tip \<and> c = r \<or> r = Tip \<and> c = l)" "c = Nd cl ca ci cr"
  shows "\<exists>w' t'. patricia_remove w (Some tp) (Some a) = Some w' \<and>
    removed w tp (plug (Nd l a i r) gs) a i w' t'"
proof -
  let ?s = "Nd l a i r" let ?t = "plug ?s gs"
  from inv obtain tr where tr: "trees w tp = Some tr" "head tr = root_of (root ?s) gs" "maxbits tr \<le> 128"
    "num_active_node tr = int (length (addrs ?s) + length (caddrs gs))"
    "wft (maxbits tr) (hole_key gs) ?s" "wfc (maxbits tr) gs"
    "rep (nodes w) (par_of gs) ?s" "repc (nodes w) (root ?s) gs"
    "distinct (addrs ?s)" "distinct (caddrs gs)" "set (addrs ?s) \<inter> set (caddrs gs) = {}"
    by (rule pat_inv_plugE) simp_all
  have ai: "(a, i) \<in> set (infos ?t)" using infos_plug [of ?s gs] by auto
  note D = drop_ref [OF inv ai i]
  have c: "nodes w ca = Some (node_of ci (root cl) (root cr) (Some a))" "ca \<noteq> a" "ca \<notin> set (caddrs gs)"
    "rep (nodes w) (Some ca) cl" "rep (nodes w) (Some ca) cr" "distinct (addrs c)"
    "a \<notin> set (addrs c)" "set (addrs c) \<inter> set (caddrs gs) = {}" "a \<notin> set (caddrs gs)"
    "length (addrs ?s) = Suc (length (addrs c))"
    using tr(7,9,11) ch by auto
  have wc: "wft (maxbits tr) (hole_key gs) c"
    using tr(5) ch wft_weaken [of "maxbits tr" _ c "hole_key gs"] by (auto intro: prefix_order.trans)
  define tr' where "tr' = tr\<lparr>num_active_node := num_active_node tr - 1\<rparr>"
  define v where "v = w\<lparr>pfx := unref (pfx w) q,
    nodes := ((nodes w)(ca \<mapsto> node_of ci (root cl) (root cr) (par_of gs)))(a := None),
    trees := (trees w)(tp \<mapsto> tr')\<rparr>"
  let ?w = "link v tp gs (Some ca)"
  have ctx: "ctx_ok v tp (Some a) gs" using tr c by (simp add: ctx_ok_def v_def tr'_def)
  have "relink_below v tp (par_of gs) a (Some ca) = Some ?w"
    by (rule relink_below_link [OF ctx c(9)])
  moreover have "patricia_remove w (Some tp) (Some a) = relink_below v tp (par_of gs) a (Some ca)"
    using tr(1,7) ch D(1) i c(1,2)
    by (auto simp: patricia_remove_def remove_one_child_def upd_node_def free_node_def add_active_def
        upd_tree_def v_def tr'_def)
  moreover have "removed w tp ?t a i ?w (plug c gs)"
  proof (rule removedI [OF inv i])
    have trees: "trees ?w = (trees w)(tp \<mapsto> tr'\<lparr>head := root_of (Some ca) gs\<rparr>)"
      using link_trees [of v tp tr' "Some a" gs] tr by (simp add: v_def tr'_def)
    then show "tree_maxbits ?w tp = tree_maxbits w tp" using tr(1) by (simp add: tree_maxbits_def tr'_def)
    show "pat_inv ?w tp (plug c gs)" if ok: "pfx_ok (pfx ?w) (plug c gs)"
    proof (rule pat_inv_plugI)
      show "trees ?w tp = Some (tr'\<lparr>head := root_of (Some ca) gs\<rparr>)" using trees by simp
      show "rep (nodes ?w) (par_of gs) c" using c ch(2) by (auto simp: v_def Int_Un_distrib2)
      show "repc (nodes ?w) (root c) gs"
        using link_repc [of v "Some a" gs tp "Some ca"] ctx tr(10) ch(2) by (auto elim: ctx_okE)
      show "nodes ?w x = None \<and> trees ?w x = None \<and> pfx ?w x = None" if "brk ?w \<le> x" for x
      proof -
        have fr: "brk w \<le> x" "x \<noteq> tp" "x \<noteq> ca" "nodes v x = None" "trees w x = None"
          using that pat_inv_fresh [OF inv, of x] tr(1) c(1) by (auto simp: v_def)
        have "nodes ?w x = None" using ctx fr(4) by (auto elim!: ctx_okE intro: link_fresh)
        with fr D(3) trees show ?thesis by (simp add: v_def)
      qed
    qed (use tr(3,4,6,10) c(6,8,10) ch(2) wc ok in \<open>simp_all add: tr'_def\<close>)
    show "set (infos (plug c gs)) \<subseteq>
        set (infos l) \<union> set (infos r) \<union> set (infos (plug Tip gs)) \<union> {(b, j). ipre j = NULL}"
      using infos_plug [of c gs] ch(1) by auto
    have "pinfos c = pinfos l \<union> pinfos r" using ch(1) by auto
    with pinfos_plug [of c gs] show "pinfos (plug c gs) = pinfos l \<union> pinfos r \<union> pinfos (plug Tip gs)"
      by (simp only:)
  qed (simp add: v_def)
  ultimately show ?thesis by auto
qed


text \<open>A leaf: the root alone, the child of a node with prefix, or the child of a glue node.\<close>

lemma remove_leaf_root:
  assumes inv: "pat_inv w tp (Nd Tip a i Tip)" and i: "ipre i = Some q"
  shows "\<exists>w' t'. patricia_remove w (Some tp) (Some a) = Some w' \<and> removed w tp (Nd Tip a i Tip) a i w' t'"
proof -
  from inv obtain tr where tr: "trees w tp = Some tr" "head tr = Some a" "maxbits tr \<le> 128"
    "num_active_node tr = 1" "nodes w a = Some (node_of i NULL NULL NULL)" by (auto elim: pat_invE)
  note D = drop_ref [OF inv _ i, of a]
  let ?w = "w\<lparr>pfx := unref (pfx w) q, nodes := (nodes w)(a := None),
     trees := (trees w)(tp \<mapsto> tr\<lparr>num_active_node := 0, head := NULL\<rparr>)\<rparr>"
  have "patricia_remove w (Some tp) (Some a) = Some ?w"
    using tr D(1) i
    by (simp add: patricia_remove_def remove_leaf_def free_node_def add_active_def upd_tree_def relink_below_def)
  moreover have "pat_inv ?w tp Tip"
    using tr D(3) pat_inv_fresh [OF inv] by (auto simp: pat_inv_def PATRICIA_MAXBITS_def)
  ultimately show ?thesis
    using i tr by (intro exI [of _ ?w] exI [of _ Tip]) (simp add: removed_def tree_maxbits_def)
qed

lemma remove_leaf_below_prefix:
  assumes inv: "pat_inv w tp (plug (Nd Tip a i Tip) (f # gs))" and i: "ipre i = Some q"
    and f: "ipre (finfo f) \<noteq> NULL"
  shows "\<exists>w' t'. patricia_remove w (Some tp) (Some a) = Some w' \<and>
    removed w tp (plug (Nd Tip a i Tip) (f # gs)) a i w' t'"
proof -
  let ?s = "Nd Tip a i Tip" let ?gs = "f # gs" let ?t = "plug ?s ?gs"
  from inv obtain tr where tr: "trees w tp = Some tr" "head tr = root_of (root ?s) ?gs" "maxbits tr \<le> 128"
    "num_active_node tr = int (length (addrs ?s) + length (caddrs ?gs))"
    "wft (maxbits tr) (hole_key ?gs) ?s" "wfc (maxbits tr) ?gs"
    "rep (nodes w) (par_of ?gs) ?s" "repc (nodes w) (root ?s) ?gs"
    "distinct (addrs ?s)" "distinct (caddrs ?gs)" "set (addrs ?s) \<inter> set (caddrs ?gs) = {}"
    by (rule pat_inv_plugE) simp_all
  have ai: "(a, i) \<in> set (infos ?t)" using infos_plug [of ?s ?gs] by auto
  note D = drop_ref [OF inv ai i]
  define tr' where "tr' = tr\<lparr>num_active_node := num_active_node tr - 1\<rparr>"
  define v where "v = w\<lparr>pfx := unref (pfx w) q, nodes := (nodes w)(a := None), trees := (trees w)(tp \<mapsto> tr')\<rparr>"
  let ?w = "link v tp ?gs NULL"
  have out: "a \<notin> set (caddrs ?gs)" using tr(11) by auto
  have ctx: "ctx_ok v tp (Some a) ?gs" using tr out by (simp add: ctx_ok_def v_def tr'_def)
  have "relink_below v tp (Some (faddr f)) a NULL = Some ?w"
    using relink_below_link [OF ctx out] by simp
  moreover have "nodes w (faddr f) = Some (frame_node f (Some a) (par_of gs))" "faddr f \<noteq> a"
    using tr(8) out by auto
  ultimately have "patricia_remove w (Some tp) (Some a) = Some ?w"
    using tr(1,7) D(1) i f
    by (auto simp: patricia_remove_def remove_leaf_def free_node_def add_active_def upd_tree_def
        v_def [symmetric] tr'_def [symmetric] simp del: frame_node.simps)
  moreover have "removed w tp ?t a i ?w (plug (plug1 Tip f) gs)"
  proof (rule removedI [OF inv i])
    have trees: "trees ?w = (trees w)(tp \<mapsto> tr')"
      by (simp add: link_def v_def)
    then show "tree_maxbits ?w tp = tree_maxbits w tp" using tr(1) by (simp add: tree_maxbits_def tr'_def)
    show "pat_inv ?w tp (plug (plug1 Tip f) gs)" if ok: "pfx_ok (pfx ?w) (plug (plug1 Tip f) gs)"
    proof (rule pat_inv_plugI)
      show "trees ?w tp = Some tr'" using trees by simp
      have "repc (nodes ?w) NULL ?gs"
        using link_repc [of v "Some a" ?gs tp NULL] ctx tr(10) by (auto elim: ctx_okE)
      then show "rep (nodes ?w) (par_of gs) (plug1 Tip f)" "repc (nodes ?w) (root (plug1 Tip f)) gs"
        by (cases f; simp)+
      show "nodes ?w x = None \<and> trees ?w x = None \<and> pfx ?w x = None" if "brk ?w \<le> x" for x
      proof -
        have fr: "brk w \<le> x" "x \<noteq> tp" "nodes v x = None" "trees w x = None"
          using that pat_inv_fresh [OF inv, of x] tr(1) by (auto simp: v_def)
        have "nodes ?w x = None" using ctx fr(3) by (auto elim!: ctx_okE intro: link_fresh)
        with fr D(3) trees show ?thesis by (simp add: v_def)
      qed
      show "wft (maxbits tr') (hole_key gs) (plug1 Tip f)" using tr(6) f by (cases f) (auto simp: tr'_def)
    qed (use tr ok in \<open>cases f; auto simp: tr'_def\<close>)+
    show "set (infos (plug (plug1 Tip f) gs)) \<subseteq>
        set (infos Tip) \<union> set (infos Tip) \<union> set (infos (plug Tip ?gs)) \<union> {(b, j). ipre j = NULL}" by simp
  qed (auto simp: v_def)
  ultimately show ?thesis by auto
qed


lemma remove_leaf_below_glue:
  assumes inv: "pat_inv w tp (plug (Nd Tip a i Tip) (f # gs))" and i: "ipre i = Some q"
    and f: "ipre (finfo f) = NULL"
  shows "\<exists>w' t'. patricia_remove w (Some tp) (Some a) = Some w' \<and>
    removed w tp (plug (Nd Tip a i Tip) (f # gs)) a i w' t'"
proof -
  let ?s = "Nd Tip a i Tip" let ?gs = "f # gs" let ?t = "plug ?s ?gs"
  from inv obtain tr where tr: "trees w tp = Some tr" "head tr = root_of (root ?s) ?gs" "maxbits tr \<le> 128"
    "num_active_node tr = int (length (addrs ?s) + length (caddrs ?gs))"
    "wft (maxbits tr) (hole_key ?gs) ?s" "wfc (maxbits tr) ?gs"
    "rep (nodes w) (par_of ?gs) ?s" "repc (nodes w) (root ?s) ?gs"
    "distinct (addrs ?s)" "distinct (caddrs ?gs)" "set (addrs ?s) \<inter> set (caddrs ?gs) = {}"
    by (rule pat_inv_plugE) simp_all
  have ai: "(a, i) \<in> set (infos ?t)" using infos_plug [of ?s ?gs] by auto
  note D = drop_ref [OF inv ai i]
  obtain cl c ci cr where sib: "fsib f = Nd cl c ci cr" using tr(6) f by (cases "fsib f") auto
  let ?q = "faddr f"
  have F: "nodes w ?q = Some (frame_node f (Some a) (par_of gs))" "?q \<noteq> a" "c \<noteq> a" "c \<noteq> ?q"
    "nodes w c = Some (node_of ci (root cl) (root cr) (Some ?q))" "repc (nodes w) (Some ?q) gs"
    "a \<notin> set (caddrs gs)" "?q \<notin> set (caddrs gs)" "c \<notin> set (caddrs gs)" "set (addrs (fsib f)) \<inter> set (caddrs gs) = {}"
    "rep (nodes w) (Some c) cl" "rep (nodes w) (Some c) cr" "distinct (addrs (fsib f))" "distinct (caddrs gs)"
    "a \<notin> set (addrs (fsib f))" "?q \<notin> set (addrs (fsib f))"
    using tr(8,10,11) sib by auto
  have wc: "wft (maxbits tr) (hole_key gs) (fsib f)"
    using tr(6) wft_weaken [of "maxbits tr" _ "fsib f" "hole_key gs"] by (auto intro: prefix_order.trans)
  define tr' where "tr' = tr\<lparr>num_active_node := num_active_node tr - 1\<rparr>"
  define v where "v = w\<lparr>pfx := unref (pfx w) q, nodes := (nodes w)(a := None), trees := (trees w)(tp \<mapsto> tr')\<rparr>"
  define u where "u = link v tp ?gs NULL"
  define x where "x = link u tp gs (Some c)"
  define tr2 where "tr2 = tr\<lparr>head := root_of (Some c) gs, num_active_node := num_active_node tr - 2\<rparr>"
  let ?w = "x\<lparr>nodes := ((nodes x)(c \<mapsto> node_of ci (root cl) (root cr) (par_of gs)))(?q := None),
    trees := (trees x)(tp \<mapsto> tr2)\<rparr>"
  have ctx: "ctx_ok v tp (Some a) ?gs" using tr(1,2,8) F(2,7,15) by (simp add: ctx_ok_def v_def tr'_def)
  then have R1: "relink_below v tp (Some ?q) a NULL = Some u"
    using relink_below_link [OF ctx, of NULL] tr(11) by (simp add: u_def)
  have u: "nodes u = (nodes v)(?q \<mapsto> frame_node f NULL (par_of gs))" "trees u = trees v"
    "pfx u = pfx v" "brk u = brk v" by (simp_all add: u_def link_def)
  have ctx2: "ctx_ok u tp (Some ?q) gs"
    using tr(1,2) F(6-8) by (simp add: ctx_ok_def u v_def tr'_def)
  then have R2: "relink_below u tp (par_of gs) ?q (Some c) = Some x"
    using F(8) by (simp add: x_def relink_below_link)
  have xt: "trees x = (trees w)(tp \<mapsto> tr'\<lparr>head := root_of (Some c) gs\<rparr>)"
    using link_trees [of u tp tr' "Some ?q" gs "Some c"] tr(1,2) by (simp add: x_def u v_def tr'_def)
  have xn: "nodes x y = nodes u y" if "y \<notin> set (caddrs gs)" for y using that by (simp add: x_def)
  have child: "(if nr (frame_node f (Some a) p) = Some a then nl (frame_node f (Some a) p)
      else nr (frame_node f (Some a) p)) = Some c" for p
    using sib F(3) by (cases f) auto
  have "patricia_remove w (Some tp) (Some a) =
      (do { pd \<leftarrow> nodes v ?q;
            let child = (if nr pd = Some a then nl pd else nr pd);
            w \<leftarrow> relink_below v tp (Some ?q) a NULL;
            if nprefix pd \<noteq> NULL then Some w
            else do {
              w \<leftarrow> relink_below w tp (nparent pd) ?q child;
              c \<leftarrow> child;
              w \<leftarrow> upd_node w c (\<lambda>n. n\<lparr>nparent := nparent pd\<rparr>);
              w \<leftarrow> free_node w ?q;
              add_active w tp (-1) } })"
    using tr(1,7) D(1) i
    by (simp add: patricia_remove_def remove_leaf_def free_node_def [of _ a] add_active_def [of _ tp "-1"]
        upd_tree_def v_def tr'_def)
  also have "\<dots> = (do { w \<leftarrow> upd_node x c (\<lambda>n. n\<lparr>nparent := par_of gs\<rparr>); w \<leftarrow> free_node w ?q; add_active w tp (-1) })"
    using F(1,2) f R1 R2 child by (simp add: v_def [THEN arg_cong [where f = nodes]] Let_def del: frame_node.simps)
  also have "\<dots> = Some ?w"
    using F(4,5) xt xn [of c] xn [of ?q] F(3,8,9)
    by (simp add: upd_node_def free_node_def add_active_def upd_tree_def u v_def [THEN arg_cong [where f = nodes]]
        tr'_def tr2_def)
  finally have "patricia_remove w (Some tp) (Some a) = Some ?w" .
  moreover have "removed w tp ?t a i ?w (plug (fsib f) gs)"
  proof (rule removedI [OF inv i])
    show "pat_inv ?w tp (plug (fsib f) gs)" if ok: "pfx_ok (pfx ?w) (plug (fsib f) gs)"
    proof (rule pat_inv_plugI)
      show "trees ?w tp = Some tr2" by simp
      show "rep (nodes ?w) (par_of gs) (fsib f)"
        using F sib by (auto simp: x_def u v_def Int_Un_distrib2)
      show "repc (nodes ?w) (root (fsib f)) gs"
        using link_repc [of u "Some ?q" gs tp "Some c"] ctx2 F(8,9,14) sib by (auto simp: x_def elim: ctx_okE)
      show "nodes ?w y = None \<and> trees ?w y = None \<and> pfx ?w y = None" if "brk ?w \<le> y" for y
      proof -
        have fr: "brk w \<le> y" using that by (simp add: x_def u v_def)
        with pat_inv_fresh [OF inv this] tr(1) F(1,5) have ne: "y \<noteq> tp" "y \<noteq> c" "y \<noteq> ?q" "nodes u y = None" "trees w y = None"
          by (auto simp: u v_def)
        have "nodes x y = None" unfolding x_def using ctx2 ne(4) by (auto elim!: ctx_okE intro: link_fresh)
        with fr D(3) ne xt show ?thesis by (simp add: x_def u v_def)
      qed
    qed (use tr(3,4,6) F(10,13,14) wc sib ok in \<open>auto simp: tr2_def\<close>)
    show "set (infos (plug (fsib f) gs)) \<subseteq>
        set (infos Tip) \<union> set (infos Tip) \<union> set (infos (plug Tip ?gs)) \<union> {(b, j). ipre j = NULL}"
      using infos_plug [of "fsib f" gs] infos_plug [of "plug1 Tip f" gs] by (cases f) auto
    show "pinfos (plug (fsib f) gs) = pinfos Tip \<union> pinfos Tip \<union> pinfos (plug Tip ?gs)"
      using pinfos_plug [of "fsib f" gs] pinfos_plug [of "plug1 Tip f" gs] f by (cases f) auto
  qed (use tr(1) in \<open>simp_all add: x_def u v_def tree_maxbits_def tr2_def\<close>)
  ultimately show ?thesis by auto
qed

subsection \<open>patricia_remove\<close>

lemma remove_removes:
  assumes inv: "pat_inv w tp t" and ai: "(a, i) \<in> pinfos t"
  shows "\<exists>w' t'. patricia_remove w (Some tp) (Some a) = Some w' \<and> removed w tp t a i w' t'"
proof -
  from ai obtain q where q: "ipre i = Some q" and "(a, i) \<in> set (infos t)" by (auto simp: pinfos_def)
  from zipper_at [OF this(2), of "[]"] obtain l r gs where t: "t = plug (Nd l a i r) gs" by auto
  note inv' = inv [unfolded t]
  consider "l \<noteq> Tip" "r \<noteq> Tip" | cl ca ci cr where "l = Tip" "r = Nd cl ca ci cr"
    | cl ca ci cr where "l = Nd cl ca ci cr" "r = Tip" | "l = Tip" "r = Tip" "gs = []"
    | f fs where "l = Tip" "r = Tip" "gs = f # fs"
    by (metis neq_Nil_conv ptree.exhaust)
  then show ?thesis
  proof cases
    case 1
    then show ?thesis unfolding t by (rule remove_two_children [OF inv' q])
  next
    case 2
    then show ?thesis unfolding t by (intro remove_with_child [OF inv' q, of r]) simp_all
  next
    case 3
    then show ?thesis unfolding t by (intro remove_with_child [OF inv' q, of l]) simp_all
  next
    case 4
    then show ?thesis using remove_leaf_root [of w tp a i q] inv' q t by simp
  next
    case (5 f fs)
    then show ?thesis
      using remove_leaf_below_prefix [of w tp a i f fs q] remove_leaf_below_glue [of w tp a i f fs q] inv' q t
      by (cases "ipre (finfo f) = NULL") simp_all
  qed
qed

end
