(* ===== verification/PatriciaWalk.thy ===== *)
theory PatriciaWalk
  imports PatriciaRemove
begin

text \<open>
  The walks over a trie.  \<^verbatim>\<open>PATRICIA_WALK\<close> (in \<^verbatim>\<open>patricia_process\<close> and \<^verbatim>\<open>Clear_Patricia\<close>) keeps the right
  children it still has to visit on a stack of \<^verbatim>\<open>PATRICIA_MAXBITS+1\<close> entries; the stack never
  overflows because keys get longer on the way down.  \<^verbatim>\<open>patricia_process\<close> calls its function once per
  stored prefix, in the order of the bit strings; \<^verbatim>\<open>patricia_walk_inorder\<close> returns the number of
  prefixes; \<^verbatim>\<open>Clear_Patricia\<close> frees every node and drops every prefix reference, but leaves the
  header's pointer to the freed root in place.
\<close>

subsection \<open>Stack use\<close>

fun need :: "ptree \<Rightarrow> nat" where
  "need Tip = 0"
| "need (Nd l a i r) = (if l \<noteq> Tip \<and> r \<noteq> Tip then max (Suc (need l)) (need r) else max (need l) (need r))"

lemma need_bound: "wft m k t \<Longrightarrow> need t \<le> m - length k"
proof (induction t arbitrary: k)
  case Tip
  then show ?case by simp
next
  case (Nd l a i r)
  have "need l \<le> m - Suc (length (ikey i))" "need r \<le> m - Suc (length (ikey i))"
    using Nd.IH(1) [of "ikey i @ [False]"] Nd.IH(2) [of "ikey i @ [True]"] Nd.prems by auto
  moreover have "length k \<le> length (ikey i)" using Nd.prems by (auto dest: prefix_length_le)
  moreover have "length (ikey i) < m" if "l \<noteq> Tip \<and> r \<noteq> Tip"
    using wft_child_shorter [OF Nd.prems] that by blast
  ultimately show ?case by auto
qed

subsection \<open>patricia_process and patricia_walk_inorder\<close>

fun visits :: "ptree \<Rightarrow> (bool list \<times> nat \<times> ptr) list" where
  "visits Tip = []"
| "visits (Nd l a i r) =
     (case ipre i of None \<Rightarrow> [] | Some q \<Rightarrow> [(ikey i, q, idata i)]) @ visits l @ visits r"

fun in_visits :: "ptree \<Rightarrow> (bool list \<times> nat \<times> ptr) list" where
  "in_visits Tip = []"
| "in_visits (Nd l a i r) =
     in_visits l @ (case ipre i of None \<Rightarrow> [] | Some q \<Rightarrow> [(ikey i, q, idata i)]) @ in_visits r"

definition resume_walk ::
  "patricia_node_t store \<Rightarrow> nat list \<Rightarrow> (nat \<times> ptr) list \<Rightarrow> (nat \<times> ptr) list option" where
  "resume_walk ns stack calls = (case stack of [] \<Rightarrow> Some calls | x # xs \<Rightarrow> walk_loop ns (Some x) xs calls)"

lemma walk_loop_visits:
  "rep ns par t \<Longrightarrow> t \<noteq> Tip \<Longrightarrow> length stack + need t \<le> PATRICIA_MAXBITS + 1 \<Longrightarrow>
   walk_loop ns (root t) stack calls = resume_walk ns stack (calls @ map snd (visits t))"
proof (induction t arbitrary: par stack calls)
  case Tip
  then show ?case by simp
next
  case (Nd l a i r)
  let ?c = "case ipre i of None \<Rightarrow> calls | Some q \<Rightarrow> calls @ [(q, idata i)]"
  have c: "?c = calls @ map snd (case ipre i of None \<Rightarrow> [] | Some q \<Rightarrow> [(ikey i, q, idata i)])"
    by (simp split: option.splits)
  have step: "walk_loop ns (Some a) stack calls =
      (case walk_next (root l) (root r) stack of None \<Rightarrow> None | Some (x, st) \<Rightarrow> walk_loop ns x st ?c)"
    using Nd.prems by (subst walk_loop.simps) (auto simp: Let_def split: option.splits prod.splits)
  have fin: "walk_loop ns None [] cs = Some cs" for cs by (subst walk_loop.simps) simp
  have L: "walk_loop ns (root l) st cs = resume_walk ns st (cs @ map snd (visits l))"
    if "l \<noteq> Tip" "length st + need l \<le> PATRICIA_MAXBITS + 1" for st cs
    using Nd.IH(1) [of "Some a"] Nd.prems that by simp
  have R: "walk_loop ns (root r) st cs = resume_walk ns st (cs @ map snd (visits r))"
    if "r \<noteq> Tip" "length st + need r \<le> PATRICIA_MAXBITS + 1" for st cs
    using Nd.IH(2) [of "Some a"] Nd.prems that by simp
  show ?case
  proof (cases "root l"; cases "root r")
    assume lr: "root l = None" "root r = None"
    then show ?thesis using step c fin by (cases stack) (auto simp: walk_next_def resume_walk_def)
  next
    fix y assume lr: "root l = None" "root r = Some y"
    then have "r \<noteq> Tip" by auto
    with lr R [of stack ?c] Nd.prems(3) step c show ?thesis by (simp add: walk_next_def)
  next
    fix x assume lr: "root l = Some x" "root r = None"
    then have "l \<noteq> Tip" by auto
    with lr L [of stack ?c] Nd.prems(3) step c show ?thesis by (simp add: walk_next_def)
  next
    fix x y assume lr: "root l = Some x" "root r = Some y"
    then have ne: "l \<noteq> Tip" "r \<noteq> Tip" by auto
    with Nd.prems(3) have b: "length (y # stack) + need l \<le> PATRICIA_MAXBITS + 1"
      "length stack + need r \<le> PATRICIA_MAXBITS + 1" by auto
    from L [OF ne(1) b(1), of ?c] R [OF ne(2) b(2)] lr step c b show ?thesis
      by (cases stack) (simp_all add: walk_next_def resume_walk_def)
  qed
qed

lemma process_visits:
  assumes inv: "pat_inv w tp t"
  shows "patricia_process w (Some tp) = Some (map snd (visits t))"
proof -
  from inv obtain tr where tr: "trees w tp = Some tr" "head tr = root t" "maxbits tr \<le> 128"
    "wft (maxbits tr) [] t" "rep (nodes w) NULL t" by (rule pat_invE)
  have "need t \<le> PATRICIA_MAXBITS" using need_bound [OF tr(4)] tr(3) by (simp add: PATRICIA_MAXBITS_def)
  with walk_loop_visits [OF tr(5), of "[]" "[]"] tr show ?thesis
    by (cases "t = Tip") (auto simp: patricia_process_def resume_walk_def walk_loop.simps)
qed

lemma inorder_visits:
  "rep ns par t \<Longrightarrow> root t = Some a \<Longrightarrow>
   patricia_walk_inorder ns a = Some (length (in_visits t), map snd (in_visits t))"
proof (induction t arbitrary: par a)
  case Tip
  then show ?case by simp
next
  case (Nd l b i r)
  have "(case root l of Some x \<Rightarrow> patricia_walk_inorder ns x | None \<Rightarrow> Some (0, [])) =
      Some (length (in_visits l), map snd (in_visits l))"
    using Nd.IH(1) [of "Some b"] Nd.prems by (cases l) auto
  moreover have "(case root r of Some x \<Rightarrow> patricia_walk_inorder ns x | None \<Rightarrow> Some (0, [])) =
      Some (length (in_visits r), map snd (in_visits r))"
    using Nd.IH(2) [of "Some b"] Nd.prems by (cases r) auto
  ultimately show ?case
    using Nd.prems by (subst patricia_walk_inorder.simps) (auto split: option.splits)
qed

text \<open>Both orders visit each entry once.\<close>

lemma set_visits: "set (visits t) = (\<lambda>(a, i). (ikey i, the (ipre i), idata i)) ` pinfos t"
  by (induction t) (auto split: option.splits)

lemma set_in_visits: "set (in_visits t) = set (visits t)"
  by (induction t) (auto split: option.splits)

lemma length_in_visits: "length (in_visits t) = length (visits t)"
  by (induction t) (auto split: option.splits)

lemma visits_key: "wft m k t \<Longrightarrow> e \<in> set (visits t) \<Longrightarrow> prefix k (fst e)"
  using wft_key [of m k t] by (fastforce simp: set_visits pinfos_def)

abbreviation bits_less :: "bool list \<Rightarrow> bool list \<Rightarrow> bool" where
  "bits_less x y \<equiv> (x, y) \<in> lexord {(False, True)}"

lemma bits_less_prefix: "prefix (x @ [b]) y \<Longrightarrow> bits_less x y"
  by (auto simp: prefix_def lexord_def)

lemma bits_less_sides: "prefix (x @ [False]) y \<Longrightarrow> prefix (x @ [True]) z \<Longrightarrow> bits_less y z"
  by (auto simp: prefix_def lexord_append_leftI)

lemma visits_sorted: "wft m k t \<Longrightarrow> sorted_wrt (\<lambda>x y. bits_less (fst x) (fst y)) (visits t)"
proof (induction t arbitrary: k)
  case Tip
  then show ?case by simp
next
  case (Nd l a i r)
  from Nd.prems have wl: "wft m (ikey i @ [False]) l" and wr: "wft m (ikey i @ [True]) r" by simp_all
  have "bits_less (ikey i) (fst e)" if "e \<in> set (visits l) \<union> set (visits r)" for e
    using that visits_key [OF wl, of e] visits_key [OF wr, of e] by (auto intro: bits_less_prefix)
  moreover have "bits_less (fst x) (fst y)" if "x \<in> set (visits l)" "y \<in> set (visits r)" for x y
    using that visits_key [OF wl, of x] visits_key [OF wr, of y] by (auto intro: bits_less_sides)
  ultimately show ?case
    using Nd.IH(1) [OF wl] Nd.IH(2) [OF wr] by (auto simp: sorted_wrt_append split: option.splits)
qed


subsection \<open>Clear_Patricia and Destroy_Patricia\<close>

text \<open>The prefixes a tree holds, the data handed to the callback, and the world without the tree's
  nodes and references.\<close>

fun pres :: "ptree \<Rightarrow> nat list" where
  "pres Tip = []"
| "pres (Nd l a i r) = (case ipre i of None \<Rightarrow> [] | Some q \<Rightarrow> [q]) @ pres l @ pres r"

fun datas :: "ptree \<Rightarrow> nat list" where
  "datas Tip = []"
| "datas (Nd l a i r) =
     (case ipre i of None \<Rightarrow> [] | Some q \<Rightarrow> (case idata i of None \<Rightarrow> [] | Some d \<Rightarrow> [d])) @ datas l @ datas r"

fun glue_ok :: "ptree \<Rightarrow> bool" where
  "glue_ok Tip \<longleftrightarrow> True"
| "glue_ok (Nd l a i r) \<longleftrightarrow> (ipre i = NULL \<longrightarrow> idata i = NULL) \<and> glue_ok l \<and> glue_ok r"

lemma wft_glue_ok: "wft m k t \<Longrightarrow> glue_ok t"
  by (induction t arbitrary: k) auto

definition cleared :: "pat_world \<Rightarrow> nat \<Rightarrow> ptree \<Rightarrow> pat_world" where
  "cleared w tp t = w\<lparr>pfx := fold (\<lambda>q P. unref P q) (pres t) (pfx w),
     nodes := (\<lambda>x. if x \<in> set (addrs t) then None else nodes w x),
     trees := (case trees w tp of None \<Rightarrow> trees w
       | Some tr \<Rightarrow> (trees w)(tp \<mapsto> tr\<lparr>num_active_node := num_active_node tr - int (length (addrs t))\<rparr>))\<rparr>"

definition clearable :: "pat_world \<Rightarrow> nat \<Rightarrow> ptr \<Rightarrow> ptree \<Rightarrow> bool" where
  "clearable w tp par t \<longleftrightarrow> rep (nodes w) par t \<and> distinct (addrs t) \<and> distinct (pres t) \<and> glue_ok t \<and>
     (\<forall>q \<in> set (pres t). case pfx w q of None \<Rightarrow> False | Some p \<Rightarrow> 1 \<le> ref_count p) \<and> trees w tp \<noteq> None"

lemma fold_unref_other: "q \<notin> set qs \<Longrightarrow> fold (\<lambda>q P. unref P q) qs P q = P q"
  by (induction qs arbitrary: P) (auto simp: unref_def)

definition resume_clear ::
  "bool \<Rightarrow> nat \<Rightarrow> pat_world \<Rightarrow> nat list \<Rightarrow> nat list \<Rightarrow> (pat_world \<times> nat list) option" where
  "resume_clear func tp w stack calls =
     (case stack of [] \<Rightarrow> Some (w, calls) | x # xs \<Rightarrow> clear_loop func tp w (Some x) xs calls)"

text \<open>What one pass of the loop body does to the node it is at.\<close>

definition clear_one :: "pat_world \<Rightarrow> nat \<Rightarrow> nat \<Rightarrow> ninfo \<Rightarrow> pat_world" where
  "clear_one w tp a i = cleared w tp (Nd Tip a i Tip)"

lemma clear_one_eq:
  "trees w tp = Some tr \<Longrightarrow> clear_one w tp a i =
     w\<lparr>pfx := (case ipre i of None \<Rightarrow> pfx w | Some q \<Rightarrow> unref (pfx w) q), nodes := (nodes w)(a := None),
       trees := (trees w)(tp \<mapsto> tr\<lparr>num_active_node := num_active_node tr - 1\<rparr>)\<rparr>"
  by (simp add: clear_one_def cleared_def fun_upd_def split: option.splits)

lemma clear_loop_step:
  assumes "clearable w tp par (Nd l a i r)"
  shows "clear_loop func tp w (Some a) stack calls =
    (case walk_next (root l) (root r) stack of None \<Rightarrow> None
     | Some (x, st) \<Rightarrow> clear_loop func tp (clear_one w tp a i) x st
         (calls @ (if func then datas (Nd Tip a i Tip) else [])))"
proof -
  from assms obtain tr where tr: "trees w tp = Some tr"
    "nodes w a = Some (node_of i (root l) (root r) par)" by (auto simp: clearable_def)
  show ?thesis
  proof (cases "ipre i")
    case None
    with assms tr show ?thesis
      by (subst clear_loop.simps)
         (auto simp: clearable_def free_node_def add_active_def upd_tree_def clear_one_eq [OF tr(1)]
           split: option.splits prod.splits)
  next
    case (Some q)
    with assms obtain p where p: "pfx w q = Some p" "1 \<le> ref_count p"
      by (auto simp: clearable_def split: option.splits)
    then have D: "Deref_Prefix w (Some q) = Some (w\<lparr>pfx := unref (pfx w) q\<rparr>)"
      using Deref_Prefix_counted [OF p(1)] by (simp add: unref_def)
    from Some assms tr show ?thesis
      by (subst clear_loop.simps)
         (auto simp: D clearable_def free_node_def add_active_def upd_tree_def clear_one_eq [OF tr(1)]
           split: option.splits prod.splits)
  qed
qed


lemma cleared_sel [simp]:
  "pfx (cleared w tp t) = fold (\<lambda>q P. unref P q) (pres t) (pfx w)"
  "nodes (cleared w tp t) = (\<lambda>x. if x \<in> set (addrs t) then None else nodes w x)"
  "brk (cleared w tp t) = brk w"
  by (simp_all add: cleared_def)

lemma cleared_Tip: "cleared w tp Tip = w"
  by (cases "trees w tp") (simp_all add: cleared_def fun_upd_idem)

lemma cleared_Nd: "cleared w tp (Nd l a i r) = cleared (cleared (clear_one w tp a i) tp l) tp r"
  by (cases "trees w tp") (auto simp: cleared_def clear_one_def fun_eq_iff algebra_simps split: option.splits)

lemma clearable_after:
  assumes "clearable w tp par u" and "set (addrs t) \<inter> set (addrs u) = {}" and "set (pres t) \<inter> set (pres u) = {}"
  shows "clearable (cleared w tp t) tp par u"
proof -
  have "rep (nodes (cleared w tp t)) par u"
  proof (subst rep_cong [of u _ "nodes w"])
    show "nodes (cleared w tp t) x = nodes w x" if "x \<in> set (addrs u)" for x
      using that assms(2) by auto
  qed (use assms(1) in \<open>simp add: clearable_def\<close>)
  moreover have "pfx (cleared w tp t) q = pfx w q" if "q \<in> set (pres u)" for q
    using assms(3) that by (auto intro: fold_unref_other)
  moreover have "trees (cleared w tp t) tp \<noteq> None"
    using assms(1) by (auto simp: clearable_def cleared_def)
  ultimately show ?thesis using assms(1) by (simp add: clearable_def)
qed

lemma clearable_sub:
  assumes "clearable w tp par (Nd l a i r)"
  shows "clearable (clear_one w tp a i) tp (Some a) l"
    and "clearable (cleared (clear_one w tp a i) tp l) tp (Some a) r"
proof -
  have lr: "clearable w tp (Some a) l" "clearable w tp (Some a) r"
    using assms by (auto simp: clearable_def)
  show "clearable (clear_one w tp a i) tp (Some a) l" unfolding clear_one_def
    by (rule clearable_after [OF lr(1)]) (use assms in \<open>auto simp: clearable_def split: option.splits\<close>)
  have "clearable (clear_one w tp a i) tp (Some a) r" unfolding clear_one_def
    by (rule clearable_after [OF lr(2)]) (use assms in \<open>auto simp: clearable_def split: option.splits\<close>)
  then show "clearable (cleared (clear_one w tp a i) tp l) tp (Some a) r"
    by (rule clearable_after) (use assms in \<open>auto simp: clearable_def split: option.splits\<close>)
qed

lemma clear_loop_cleared:
  "clearable w tp par t \<Longrightarrow> t \<noteq> Tip \<Longrightarrow> length stack + need t \<le> PATRICIA_MAXBITS + 1 \<Longrightarrow>
   clear_loop func tp w (root t) stack calls =
     resume_clear func tp (cleared w tp t) stack (calls @ (if func then datas t else []))"
proof (induction t arbitrary: w par stack calls)
  case Tip
  then show ?case by simp
next
  case (Nd l a i r)
  let ?d = "\<lambda>t. if func then datas t else []" and ?w = "clear_one w tp a i"
  note step = clear_loop_step [OF Nd.prems(1), of func stack calls]
  have d: "?d (Nd l a i r) = ?d (Nd Tip a i Tip) @ ?d l @ ?d r" by simp
  have fin: "clear_loop func tp v None [] cs = Some (v, cs)" for v cs by (subst clear_loop.simps) simp
  have L: "clear_loop func tp ?w (root l) st cs = resume_clear func tp (cleared ?w tp l) st (cs @ ?d l)"
    if "l \<noteq> Tip" "length st + need l \<le> PATRICIA_MAXBITS + 1" for st cs
    using Nd.IH(1) [OF clearable_sub(1) [OF Nd.prems(1)] that] .
  have R: "clear_loop func tp (cleared ?w tp l) (root r) st cs =
      resume_clear func tp (cleared w tp (Nd l a i r)) st (cs @ ?d r)"
    if "r \<noteq> Tip" "length st + need r \<le> PATRICIA_MAXBITS + 1" for st cs
    using Nd.IH(2) [OF clearable_sub(2) [OF Nd.prems(1)] that] by (simp only: cleared_Nd)
  show ?case
  proof (cases "l = Tip"; cases "r = Tip")
    assume lr: "l = Tip" "r = Tip"
    then show ?thesis using step fin
      by (cases stack) (simp_all add: walk_next_def resume_clear_def cleared_Nd cleared_Tip)
  next
    assume lr: "l = Tip" "r \<noteq> Tip"
    then obtain y where "root r = Some y" by (cases r) auto
    with lr R [of stack] Nd.prems(3) step show ?thesis by (simp add: walk_next_def cleared_Tip)
  next
    assume lr: "l \<noteq> Tip" "r = Tip"
    then obtain x where "root l = Some x" by (cases l) auto
    with lr L [of stack] Nd.prems(3) step show ?thesis by (simp add: walk_next_def cleared_Nd cleared_Tip)
  next
    assume ne: "l \<noteq> Tip" "r \<noteq> Tip"
    then obtain x y where xy: "root l = Some x" "root r = Some y" by (metis not_None_eq root_eq_None)
    from ne Nd.prems(3) have b: "length (y # stack) + need l \<le> PATRICIA_MAXBITS + 1"
      "length stack + need r \<le> PATRICIA_MAXBITS + 1" by auto
    from L [OF ne(1) b(1)] R [OF ne(2) b(2)] xy step b d show ?thesis
      by (simp add: walk_next_def resume_clear_def [of _ _ _ "y # stack"])
  qed
qed

lemma pres_pinfos: "set (pres t) = (\<lambda>(a, i). the (ipre i)) ` pinfos t"
  by (induction t) (auto split: option.splits)

lemma distinct_pres: "wft m k t \<Longrightarrow> pfx_ok P t \<Longrightarrow> distinct (pres t)"
proof (induction t arbitrary: k)
  case Tip
  then show ?case by simp
next
  case (Nd l a i r)
  have key: "\<exists>p. P q = Some p \<and> prefix k' (pkey p)"
    if "q \<in> set (pres t)" "wft m k' t" "pfx_ok P t" for q t k'
  proof -
    from that(1) obtain b j where j: "(b, j) \<in> set (infos t)" "ipre j = Some q"
      by (auto simp: pres_pinfos pinfos_def)
    have "pre_ok P j" using pfx_okD [OF that(3) j(1)] .
    then obtain p where "P q = Some p" "pkey p = ikey j" using j(2) by (auto elim: pre_okE)
    with wft_key [OF that(2) j(1)] show ?thesis by simp
  qed
  have w: "wft m (ikey i @ [False]) l" "wft m (ikey i @ [True]) r" "pfx_ok P l" "pfx_ok P r"
    using Nd.prems by simp_all
  have "set (pres l) \<inter> set (pres r) = {}"
    using key [OF _ w(1,3)] key [OF _ w(2,4)] by (fastforce simp: prefix_snoc_conv)
  moreover have "q \<notin> set (pres l)" "q \<notin> set (pres r)" if "ipre i = Some q" for q
    using key [OF _ w(1,3), of q] key [OF _ w(2,4), of q] that Nd.prems(2)
    by (auto simp: pre_ok_def prefix_snoc_conv)
  ultimately show ?case using Nd.IH w by (auto split: option.splits)
qed

lemma pat_inv_clearable: "pat_inv w tp t \<Longrightarrow> clearable w tp NULL t"
  by (elim pat_invE)
     (auto simp: clearable_def distinct_pres wft_glue_ok pres_pinfos pinfos_def pre_ok_def
        dest!: pfx_okD split: option.splits)

lemma Clear_cleared:
  assumes inv: "pat_inv w tp t"
  shows "Clear_Patricia w (Some tp) func = Some (cleared w tp t, if func then datas t else [])"
proof -
  from inv obtain tr where tr: "trees w tp = Some tr" "head tr = root t" "maxbits tr \<le> 128"
    "wft (maxbits tr) [] t" "num_active_node tr = int (length (addrs t))" by (rule pat_invE)
  have "need t \<le> PATRICIA_MAXBITS" using need_bound [OF tr(4)] tr(3) by (simp add: PATRICIA_MAXBITS_def)
  then have "clear_loop func tp w (root t) [] [] = Some (cleared w tp t, if func then datas t else [])"
    using clear_loop_cleared [OF pat_inv_clearable [OF inv], of "[]" func "[]"]
    by (cases "t = Tip") (auto simp: resume_clear_def clear_loop.simps cleared_Tip)
  moreover have "trees (cleared w tp t) tp = Some (tr\<lparr>num_active_node := 0\<rparr>)"
    using tr by (simp add: cleared_def)
  ultimately show ?thesis using tr by (simp add: Clear_Patricia_def)
qed

end
