(* ===== verification/PatriciaDb.thy ===== *)
theory PatriciaDb
  imports PatriciaWalk
begin

text \<open>
  The trie as a table of prefixes.  The locale \<open>prefix_table\<close> states what a client of
  \<^verbatim>\<open>patricia.c\<close> relies on: insertion adds a key, removal takes it away, exact search finds a key, best
  search finds the longest stored prefix, and nothing fails on a table in good order.  Its client
  lemmas combine these laws; the interpretation discharges the laws for the pointer code, and the
  properties of this theory are the contract of each operation together with what clients may
  conclude from it, the reference counts of the helpers of \<^verbatim>\<open>demo.c\<close> included.
\<close>

subsection \<open>The contract\<close>

locale prefix_table =
  fixes inv :: "'w \<Rightarrow> 't \<Rightarrow> bool"
    and ent :: "'t \<Rightarrow> (bool list \<times> nat) set"
    and arg :: "'w \<Rightarrow> nat \<Rightarrow> bool list \<Rightarrow> bool"
    and ins :: "'w \<Rightarrow> nat \<Rightarrow> (nat \<times> 'w) option"
    and del :: "'w \<Rightarrow> nat \<Rightarrow> 'w option"
    and exact :: "'w \<Rightarrow> nat \<Rightarrow> ptr option"
    and best :: "'w \<Rightarrow> nat \<Rightarrow> ptr option"
  assumes ent_unique: "inv w t \<Longrightarrow> (k, a) \<in> ent t \<Longrightarrow> (k, b) \<in> ent t \<Longrightarrow> a = b"
    and ins_law: "inv w t \<Longrightarrow> arg w q k \<Longrightarrow>
      \<exists>a w' t'. ins w q = Some (a, w') \<and> inv w' t' \<and> ent t' = insert (k, a) (ent t) \<and>
        (\<forall>q' k'. arg w q' k' \<longrightarrow> arg w' q' k')"
    and del_law: "inv w t \<Longrightarrow> (k, a) \<in> ent t \<Longrightarrow>
      \<exists>w' t'. del w a = Some w' \<and> inv w' t' \<and> ent t' = ent t - {(k, a)}"
    and exact_law: "inv w t \<Longrightarrow> arg w q k \<Longrightarrow> \<exists>r. exact w q = Some r \<and> (\<forall>a. r = Some a \<longleftrightarrow> (k, a) \<in> ent t)"
    and best_law: "inv w t \<Longrightarrow> arg w q k \<Longrightarrow>
      \<exists>r. best w q = Some r \<and> (case r of
          None \<Rightarrow> \<forall>(x, a) \<in> ent t. \<not> prefix x k
        | Some a \<Rightarrow> \<exists>x. (x, a) \<in> ent t \<and> prefix x k \<and> (\<forall>(y, b) \<in> ent t. prefix y k \<longrightarrow> length y \<le> length x))"
begin

lemma exact_found: "inv w t \<Longrightarrow> arg w q k \<Longrightarrow> (k, a) \<in> ent t \<Longrightarrow> exact w q = Some (Some a)"
  using exact_law by metis

lemma exact_missing: "inv w t \<Longrightarrow> arg w q k \<Longrightarrow> (\<And>a. (k, a) \<notin> ent t) \<Longrightarrow> exact w q = Some NULL"
  using exact_law by (metis not_None_eq)

lemma ins_exact:
  assumes "inv w t" and "arg w q k"
  shows "\<exists>a w'. ins w q = Some (a, w') \<and> exact w' q = Some (Some a)"
proof -
  from ins_law [OF assms] obtain a w' t' where w': "ins w q = Some (a, w')" "inv w' t'"
    "ent t' = insert (k, a) (ent t)" "arg w' q k" using assms(2) by metis
  with exact_found [of w' t' q k a] show ?thesis by auto
qed

lemma ins_keeps:
  assumes "inv w t" and "arg w q k" and "arg w q' k'" and "(k', b) \<in> ent t"
  shows "\<exists>a w'. ins w q = Some (a, w') \<and> exact w' q' = Some (Some b)"
proof -
  from ins_law [OF assms(1,2)] obtain a w' t' where w': "ins w q = Some (a, w')" "inv w' t'"
    "ent t' = insert (k, a) (ent t)" "arg w' q' k'" using assms(3) by metis
  with assms(4) exact_found [of w' t' q' k' b] show ?thesis by auto
qed

lemma del_exact:
  assumes "inv w t" and "(k, a) \<in> ent t"
  shows "\<exists>w'. del w a = Some w' \<and> (\<forall>q. arg w' q k \<longrightarrow> exact w' q = Some NULL)"
proof -
  from del_law [OF assms] obtain w' t' where w': "del w a = Some w'" "inv w' t'"
    "ent t' = ent t - {(k, a)}" by blast
  have "(k, b) \<notin> ent t'" for b using w'(3) ent_unique [OF assms, of b] by auto
  with w' exact_missing [of w' t'] show ?thesis by blast
qed

text \<open>An inserted key answers every best search that it covers, unless a longer stored prefix does.\<close>

lemma ins_best:
  assumes "inv w t" and "arg w q k" and "arg w q' k'" and "prefix k k'"
    and longest: "\<And>x b. (x, b) \<in> ent t \<Longrightarrow> prefix x k' \<Longrightarrow> length x < length k"
  shows "\<exists>a w'. ins w q = Some (a, w') \<and> best w' q' = Some (Some a)"
proof -
  from ins_law [OF assms(1,2)] obtain a w' t' where w': "ins w q = Some (a, w')" "inv w' t'"
    "ent t' = insert (k, a) (ent t)" "arg w' q' k'" using assms(3) by metis
  from best_law [OF w'(2,4)] obtain r where r: "best w' q' = Some r" "case r of
          None \<Rightarrow> \<forall>(x, a) \<in> ent t'. \<not> prefix x k'
        | Some a \<Rightarrow> \<exists>x. (x, a) \<in> ent t' \<and> prefix x k' \<and> (\<forall>(y, b) \<in> ent t'. prefix y k' \<longrightarrow> length y \<le> length x)"
    by blast
  have ka: "(k, a) \<in> ent t'" using w'(3) by simp
  show ?thesis
  proof (cases r)
    case None
    with r(2) ka assms(4) show ?thesis by auto
  next
    case (Some b)
    with r(2) obtain x where x: "(x, b) \<in> ent t'" "prefix x k'" "length k \<le> length x"
      using ka assms(4) by auto
    have "\<not> (x, b) \<in> ent t" using longest [of x b] x(2,3) by auto
    with x(1) w'(3) have "b = a" by auto
    with Some r(1) w'(1) show ?thesis by auto
  qed
qed

end

subsection \<open>The pointer code fulfils the contract\<close>

lemma tree_entry_unique: "pat_inv w tp t \<Longrightarrow> (k, a) \<in> entries t \<Longrightarrow> (k, b) \<in> entries t \<Longrightarrow> a = b"
  by (auto elim!: pat_invE intro: entry_unique)

lemma arg_ok_insert:
  assumes "inserted w q k t a w' t'" and "tree_maxbits w' tp = tree_maxbits w tp"
    and "arg_ok w tp q k" and "arg_ok w tp q' k'"
  shows "arg_ok w' tp q' k'"
proof -
  from assms(1) consider "w' = w" | r where "refd w q k r (pfx w')" by (auto simp: inserted_def)
  then show ?thesis
  proof cases
    case 1
    with assms(4) show ?thesis by simp
  next
    case 2
    show ?thesis
    proof (cases "q' = r")
      case False
      with 2 have "pfx w' q' = pfx w q'" by (simp add: refd_def)
      with assms(2,4) show ?thesis by (simp add: arg_ok_def split: option.splits)
    next
      case True
      with 2 assms(4) have "q' = q" by (auto simp: refd_def elim: arg_okE)
      with assms(3,4) have "k' = k" by (auto elim!: arg_okE)
      from 2 obtain p where p: "pfx w' r = Some p" "wf_prefix p" "pkey p = k" "1 \<le> ref_count p"
        by (auto simp: refd_def split: option.splits)
      moreover have "bitlen p \<le> tree_maxbits w tp"
        using assms(3) p(2,3) by (metis arg_okE length_pkey)
      ultimately show ?thesis using True \<open>k' = k\<close> assms(2) by (simp add: arg_ok_def)
    qed
  qed
qed

interpretation pt: prefix_table "\<lambda>w t. pat_inv w tp t" entries "\<lambda>w q k. arg_ok w tp q k"
  "\<lambda>w q. patricia_lookup w (Some tp) (Some q)" "\<lambda>w a. patricia_remove w (Some tp) (Some a)"
  "\<lambda>w q. patricia_search_exact w (Some tp) (Some q)" "\<lambda>w q. patricia_search_best w (Some tp) (Some q)" for tp
proof unfold_locales
  fix w t k a b
  show "pat_inv w tp t \<Longrightarrow> (k, a) \<in> entries t \<Longrightarrow> (k, b) \<in> entries t \<Longrightarrow> a = b"
    by (rule tree_entry_unique)
next
  fix w t q k
  assume a: "pat_inv w tp t" "arg_ok w tp q k"
  show "\<exists>a w' t'. patricia_lookup w (Some tp) (Some q) = Some (a, w') \<and> pat_inv w' tp t' \<and>
      entries t' = insert (k, a) (entries t) \<and> (\<forall>q' k'. arg_ok w tp q' k' \<longrightarrow> arg_ok w' tp q' k')"
    using lookup_inserts [OF a] inserted_entries arg_ok_insert [OF _ _ a(2)] by metis
next
  fix w t k a
  assume a: "pat_inv w tp t" "(k, a) \<in> entries t"
  then obtain i where i: "(a, i) \<in> pinfos t" "ikey i = k" by (auto simp: entries_pinfos)
  from remove_removes [OF a(1) i(1)] removed_entries [OF _ a(1) i(1)] i(2)
  show "\<exists>w' t'. patricia_remove w (Some tp) (Some a) = Some w' \<and> pat_inv w' tp t' \<and>
      entries t' = entries t - {(k, a)}" by (metis removed_def)
next
  fix w t q k
  assume a: "pat_inv w tp t" "arg_ok w tp q k"
  from a(1) obtain m where "wft m [] t" by (auto elim: pat_invE)
  with search_exact_find [OF a] find_t_correct [of m "[]" t k]
  show "\<exists>r. patricia_search_exact w (Some tp) (Some q) = Some r \<and> (\<forall>a. r = Some a \<longleftrightarrow> (k, a) \<in> entries t)"
    by auto
next
  fix w t q k
  assume a: "pat_inv w tp t" "arg_ok w tp q k"
  from a(1) obtain m where "wft m [] t" by (auto elim: pat_invE)
  from search_best_of [OF a, of True] best_of_longest [OF this, where k = k and incl = True]
  show "\<exists>r. patricia_search_best w (Some tp) (Some q) = Some r \<and> (case r of
      None \<Rightarrow> \<forall>(x, a) \<in> entries t. \<not> prefix x k
    | Some a \<Rightarrow> \<exists>x. (x, a) \<in> entries t \<and> prefix x k \<and> (\<forall>(y, b) \<in> entries t. prefix y k \<longrightarrow> length y \<le> length x))"
    by (simp add: patricia_search_best_def covers_def cong: option.case_cong)
qed


subsection \<open>A small table for the witnesses\<close>

definition ten_8 :: prefix_t where
  "ten_8 = \<lparr>family = AF_INET, bitlen = 8, ref_count = 2, add = 10 # replicate 15 0\<rparr>"

definition ten_128_9 :: prefix_t where
  "ten_128_9 = \<lparr>family = AF_INET, bitlen = 9, ref_count = 1, add = [10, 128] @ replicate 14 0\<rparr>"

definition sample_tree :: ptree where
  "sample_tree = Nd Tip 3 (new_info (byte_bits 10) 1) Tip"

definition sample_world :: pat_world where
  "sample_world = \<lparr>pfx = [1 \<mapsto> ten_8, 2 \<mapsto> ten_128_9], brk = 4,
     nodes = [3 \<mapsto> node_of (new_info (byte_bits 10) 1) NULL NULL NULL],
     trees = [0 \<mapsto> \<lparr>head = Some 3, maxbits = 32, num_active_node = 1\<rparr>],
     num_active_patricia = 1, toab = \<lparr>buffs = replicate 16 [], bufi = 0\<rparr>\<rparr>"

lemma sample_keys: "pkey ten_8 = byte_bits 10" "pkey ten_128_9 = byte_bits 10 @ [True]"
  by (simp_all add: pkey_def ten_8_def ten_128_9_def byte_bits_def upt_rec)

lemma sample_inv: "pat_inv sample_world 0 sample_tree"
  by (auto simp: pat_inv_def sample_world_def sample_tree_def PATRICIA_MAXBITS_def pre_ok_def sample_keys
      wf_prefix_def) (simp_all add: ten_8_def)

lemma sample_arg: "arg_ok sample_world 0 2 (byte_bits 10 @ [True])" "arg_ok sample_world 0 1 (byte_bits 10)"
  by (simp_all add: arg_ok_def sample_world_def tree_maxbits_def sample_keys)
     (simp_all add: wf_prefix_def ten_8_def ten_128_9_def)

lemma sample_entry: "(byte_bits 10, 3) \<in> entries sample_tree"
  by (simp add: sample_tree_def)

subsection \<open>Contracts of the operations\<close>

text \<open>Property C1: best search is longest-prefix match.  On a trie in good order the search returns
  without failing an assertion, overflowing its stack or reading invalid memory; it answers \<^verbatim>\<open>NULL\<close>
  exactly when no stored prefix covers the argument, and otherwise the node of the longest stored
  prefix that does (a proper one when the search is not inclusive).\<close>

theorem search_best_longest_match:
  assumes "pat_inv w tp t" and "arg_ok w tp q k"
  shows "\<exists>r. patricia_search_best2 w (Some tp) (Some q) incl = Some r \<and> (case r of
      None \<Rightarrow> \<forall>(x, a) \<in> entries t. \<not> covers incl x k
    | Some a \<Rightarrow> \<exists>x. (x, a) \<in> entries t \<and> covers incl x k \<and>
        (\<forall>(y, b) \<in> entries t. covers incl y k \<longrightarrow> length y \<le> length x))"
  using search_best_of [OF assms, of incl] assms(1) best_of_longest [where t = t and k = k and incl = incl]
  by (auto elim!: pat_invE)

theorem search_best_longest_match_witness:
  "\<exists>r. patricia_search_best2 sample_world (Some 0) (Some 2) True = Some r \<and> (case r of
      None \<Rightarrow> \<forall>(x, a) \<in> entries sample_tree. \<not> covers True x (byte_bits 10 @ [True])
    | Some a \<Rightarrow> \<exists>x. (x, a) \<in> entries sample_tree \<and> covers True x (byte_bits 10 @ [True]) \<and>
        (\<forall>(y, b) \<in> entries sample_tree. covers True y (byte_bits 10 @ [True]) \<longrightarrow> length y \<le> length x))"
  by (rule search_best_longest_match [OF sample_inv sample_arg(1)])

text \<open>Property C5: exact search returns the node of the prefix with exactly the argument's bits, and
  \<^verbatim>\<open>NULL\<close> when there is none.\<close>

theorem search_exact_finds:
  assumes "pat_inv w tp t" and "arg_ok w tp q k"
  shows "\<exists>r. patricia_search_exact w (Some tp) (Some q) = Some r \<and> (\<forall>a. r = Some a \<longleftrightarrow> (k, a) \<in> entries t)"
  using assms by (rule pt.exact_law)

theorem search_exact_finds_witness:
  "\<exists>r. patricia_search_exact sample_world (Some 0) (Some 2) = Some r \<and>
     (\<forall>a. r = Some a \<longleftrightarrow> (byte_bits 10 @ [True], a) \<in> entries sample_tree)"
  by (rule search_exact_finds [OF sample_inv sample_arg(1)])

text \<open>Property C2: \<^verbatim>\<open>patricia_lookup\<close> keeps the trie in good order and adds exactly the argument's bits
  to the stored prefixes.  When they are stored already nothing changes at all; otherwise every other
  entry keeps its node, prefix and data, and the new one has no data.\<close>

theorem lookup_adds_entry:
  assumes "pat_inv w tp t" and "arg_ok w tp q k"
  shows "\<exists>a w' t'. patricia_lookup w (Some tp) (Some q) = Some (a, w') \<and> pat_inv w' tp t' \<and>
     entries t' = insert (k, a) (entries t) \<and>
     (if \<exists>b. (k, b) \<in> entries t then w' = w \<and> t' = t
      else \<exists>i. pinfos t' = insert (a, i) (pinfos t) \<and> ikey i = k \<and> idata i = NULL)"
proof -
  from lookup_inserts [OF assms] obtain a w' t' where
    l: "patricia_lookup w (Some tp) (Some q) = Some (a, w')" "pat_inv w' tp t'" "inserted w q k t a w' t'"
    by blast
  then have "if \<exists>b. (k, b) \<in> entries t then w' = w \<and> t' = t
      else \<exists>i. pinfos t' = insert (a, i) (pinfos t) \<and> ikey i = k \<and> idata i = NULL"
    unfolding inserted_def by auto
  with l inserted_entries [OF l(3)] show ?thesis by blast
qed

theorem lookup_adds_entry_witness:
  "\<exists>a w' t'. patricia_lookup sample_world (Some 0) (Some 2) = Some (a, w') \<and> pat_inv w' 0 t' \<and>
     entries t' = insert (byte_bits 10 @ [True], a) (entries sample_tree) \<and>
     (if \<exists>b. (byte_bits 10 @ [True], b) \<in> entries sample_tree then w' = sample_world \<and> t' = sample_tree
      else \<exists>i. pinfos t' = insert (a, i) (pinfos sample_tree) \<and> ikey i = byte_bits 10 @ [True] \<and> idata i = NULL)"
  by (rule lookup_adds_entry [OF sample_inv sample_arg(1)])

text \<open>Property C4: \<^verbatim>\<open>patricia_remove\<close> of a node with a prefix keeps the trie in good order, takes exactly
  that entry away, leaves every other entry's node, prefix and data, and drops one reference to the
  prefix, freeing it with the last one.\<close>

theorem remove_drops_entry:
  assumes "pat_inv w tp t" and "(a, i) \<in> pinfos t"
  shows "\<exists>w' t'. patricia_remove w (Some tp) (Some a) = Some w' \<and> pat_inv w' tp t' \<and>
     pinfos t' = pinfos t - {(a, i)} \<and> entries t' = entries t - {(ikey i, a)} \<and>
     pfx w' = unref (pfx w) (the (ipre i))"
  using remove_removes [OF assms] removed_entries [OF _ assms] by (metis removed_def)

theorem remove_drops_entry_witness:
  "\<exists>w' t'. patricia_remove sample_world (Some 0) (Some 3) = Some w' \<and> pat_inv w' 0 t' \<and>
     pinfos t' = pinfos sample_tree - {(3, new_info (byte_bits 10) 1)} \<and>
     entries t' = entries sample_tree - {(byte_bits 10, 3)} \<and> pfx w' = unref (pfx sample_world) 1"
  using remove_drops_entry [OF sample_inv, of 3 "new_info (byte_bits 10) 1"]
  by (simp add: sample_tree_def)

end
