(* ===== verification/PatriciaUse.thy ===== *)
theory PatriciaUse
  imports PatriciaDb
begin

text \<open>
  How the trie is used: sequences of operations, the walks, the life cycle of a tree
  (\<^verbatim>\<open>New_Patricia\<close>, \<^verbatim>\<open>Clear_Patricia\<close>, \<^verbatim>\<open>Destroy_Patricia\<close>), and the helper \<^verbatim>\<open>make_and_lookup\<close>,
  which parses a prefix, stores it and gives up its own reference.
\<close>

subsection \<open>Sequences of operations\<close>

text \<open>A prefix that has been looked up is found by the next exact search for it, at the
  node the lookup returned.\<close>

theorem lookup_then_search:
  assumes "pat_inv w tp t" and "arg_ok w tp q k"
  shows "\<exists>a w'. patricia_lookup w (Some tp) (Some q) = Some (a, w') \<and>
     patricia_search_exact w' (Some tp) (Some q) = Some (Some a)"
  using assms by (rule pt.ins_exact)

theorem lookup_then_search_witness:
  "\<exists>a w'. patricia_lookup sample_world (Some 0) (Some 2) = Some (a, w') \<and>
     patricia_search_exact w' (Some 0) (Some 2) = Some (Some a)"
  by (rule lookup_then_search [OF sample_inv sample_arg(1)])

text \<open>After a prefix is inserted, a best search for any address it covers returns its
  node, provided no stored prefix of the address is at least as long.\<close>

theorem lookup_then_best:
  assumes "pat_inv w tp t" and "arg_ok w tp q k" and "arg_ok w tp q' k'" and "prefix k k'"
    and "\<And>x b. (x, b) \<in> entries t \<Longrightarrow> prefix x k' \<Longrightarrow> length x < length k"
  shows "\<exists>a w'. patricia_lookup w (Some tp) (Some q) = Some (a, w') \<and>
     patricia_search_best w' (Some tp) (Some q') = Some (Some a)"
  using assms by (rule pt.ins_best)

theorem lookup_then_best_witness:
  "\<exists>a w'. patricia_lookup sample_world (Some 0) (Some 2) = Some (a, w') \<and>
     patricia_search_best w' (Some 0) (Some 2) = Some (Some a)"
  by (rule lookup_then_best [OF sample_inv sample_arg(1) sample_arg(1)]) (simp_all add: sample_tree_def)

text \<open>After a node is removed, an exact search for its prefix finds nothing.\<close>

theorem remove_then_search:
  assumes "pat_inv w tp t" and "(k, a) \<in> entries t"
  shows "\<exists>w'. patricia_remove w (Some tp) (Some a) = Some w' \<and>
     (\<forall>q. arg_ok w' tp q k \<longrightarrow> patricia_search_exact w' (Some tp) (Some q) = Some NULL)"
  using assms by (rule pt.del_exact)

theorem remove_then_search_witness:
  "\<exists>w'. patricia_remove sample_world (Some 0) (Some 3) = Some w' \<and>
     (\<forall>q. arg_ok w' 0 q (byte_bits 10) \<longrightarrow> patricia_search_exact w' (Some 0) (Some q) = Some NULL)"
  by (rule remove_then_search [OF sample_inv sample_entry])

subsection \<open>Walks\<close>

lemma card_entries_visits:
  assumes "wft m [] t" and "distinct (addrs t)"
  shows "card (entries t) = length (visits t)" and "distinct (map fst (visits t))"
proof -
  have irr: "\<not> bits_less x x" for x by (simp add: lexord_irreflexive)
  have "sorted_wrt bits_less (map fst (visits t))" using visits_sorted [OF assms(1)] by (simp add: sorted_wrt_map)
  then show d: "distinct (map fst (visits t))"
    unfolding sorted_wrt_iff_nth_less distinct_conv_nth using irr by (metis linorder_neqE_nat)
  have "inj_on fst (entries t)" using entry_unique [OF assms(1)] by (auto simp: inj_on_def)
  then have "card (entries t) = card (fst ` entries t)" by (simp add: card_image)
  also have "fst ` entries t = set (map fst (visits t))"
    by (simp add: set_visits entries_pinfos image_image case_prod_beta)
  also have "card \<dots> = length (visits t)" using distinct_card [OF d] by simp
  finally show "card (entries t) = length (visits t)" .
qed

text \<open>Property C40: \<^verbatim>\<open>patricia_process\<close> calls its function exactly once for every stored prefix, with the
  prefix and the data of its node, in increasing order of the bit strings (a prefix before the longer
  ones it covers); its stack of 129 pointers never overflows.\<close>

theorem process_visits_in_order:
  assumes "pat_inv w tp t"
  shows "\<exists>vs. patricia_process w (Some tp) = Some (map snd vs) \<and>
     set vs = (\<lambda>(a, i). (ikey i, the (ipre i), idata i)) ` pinfos t \<and>
     sorted_wrt (\<lambda>x y. bits_less (fst x) (fst y)) vs \<and> length vs = card (entries t)"
  using assms process_visits [OF assms] visits_sorted [of _ "[]" t] card_entries_visits(1) [of _ t] set_visits [of t]
  by (intro exI [of _ "visits t"]) (auto elim!: pat_invE)

theorem process_visits_in_order_witness:
  "\<exists>vs. patricia_process sample_world (Some 0) = Some (map snd vs) \<and>
     set vs = (\<lambda>(a, i). (ikey i, the (ipre i), idata i)) ` pinfos sample_tree \<and>
     sorted_wrt (\<lambda>x y. bits_less (fst x) (fst y)) vs \<and> length vs = card (entries sample_tree)"
  by (rule process_visits_in_order [OF sample_inv])

text \<open>The recursive in-order walk from the root returns the number of stored prefixes and
  calls its function once for each.\<close>

theorem walk_inorder_counts:
  assumes "pat_inv w tp t" and "root t = Some h"
  shows "\<exists>vs. patricia_walk_inorder (nodes w) h = Some (card (entries t), map snd vs) \<and>
     length vs = card (entries t) \<and> set vs = (\<lambda>(a, i). (ikey i, the (ipre i), idata i)) ` pinfos t"
proof -
  from assms(1) obtain m where "wft m [] t" "rep (nodes w) NULL t" "distinct (addrs t)" by (auto elim: pat_invE)
  with inorder_visits [OF _ assms(2)] card_entries_visits(1) [of m t] show ?thesis
    by (intro exI [of _ "in_visits t"]) (simp add: length_in_visits set_in_visits set_visits)
qed

theorem walk_inorder_counts_witness:
  "\<exists>vs. patricia_walk_inorder (nodes sample_world) 3 = Some (card (entries sample_tree), map snd vs) \<and>
     length vs = card (entries sample_tree) \<and>
     set vs = (\<lambda>(a, i). (ikey i, the (ipre i), idata i)) ` pinfos sample_tree"
  by (rule walk_inorder_counts [OF sample_inv]) (simp add: sample_tree_def)

subsection \<open>Life cycle of a tree\<close>

text \<open>A new tree is an empty trie in good order for every key length up to 128, and a
  larger length fails the assertion.\<close>

theorem New_Patricia_empty:
  assumes "\<And>a. brk w \<le> a \<Longrightarrow> nodes w a = None \<and> trees w a = None \<and> pfx w a = None" and "0 \<le> mb"
  shows "case New_Patricia w mb of
      None \<Rightarrow> mb > 128
    | Some (tp, w') \<Rightarrow> mb \<le> 128 \<and> pat_inv w' tp Tip \<and> tree_maxbits w' tp = nat mb \<and>
        num_active_patricia w' = num_active_patricia w + 1"
proof (cases "mb \<le> 128")
  case True
  with assms have "mb mod 2 ^ 32 = mb" by (intro mod_pos_pos_trivial) auto
  with True assms show ?thesis
    by (simp add: New_Patricia_def Let_def PATRICIA_MAXBITS_def pat_inv_def tree_maxbits_def)
next
  case False
  then show ?thesis by (simp add: New_Patricia_def PATRICIA_MAXBITS_def)
qed

theorem New_Patricia_empty_witness:
  "case New_Patricia sample_world 32 of
      None \<Rightarrow> (32 :: int) > 128
    | Some (tp, w') \<Rightarrow> (32 :: int) \<le> 128 \<and> pat_inv w' tp Tip \<and> tree_maxbits w' tp = nat 32 \<and>
        num_active_patricia w' = num_active_patricia sample_world + 1"
  by (rule New_Patricia_empty) (use pat_inv_fresh [OF sample_inv] in auto)

lemma fold_unref:
  "distinct qs \<Longrightarrow> fold (\<lambda>q P. unref P q) qs P q = (if q \<in> set qs then unref P q q else P q)"
proof (induction qs arbitrary: P)
  case Nil
  then show ?case by simp
next
  case (Cons x qs)
  then show ?case by (auto simp: fold_unref_other unref_def)
qed

text \<open>Property C28: \<^verbatim>\<open>Clear_Patricia\<close> frees every node of the tree and no other, drops exactly one
  reference to each stored prefix, hands every entry's data to the callback once, and leaves a count
  of zero active nodes.\<close>

theorem Clear_Patricia_frees:
  assumes "pat_inv w tp t"
  shows "\<exists>w'. Clear_Patricia w (Some tp) func = Some (w', if func then datas t else []) \<and>
     (\<forall>a. nodes w' a = (if a \<in> set (addrs t) then None else nodes w a)) \<and>
     (\<forall>q. pfx w' q = (if \<exists>(a, i) \<in> pinfos t. ipre i = Some q then unref (pfx w) q q else pfx w q)) \<and>
     map_option num_active_node (trees w' tp) = Some 0"
proof -
  from assms obtain tr where tr: "trees w tp = Some tr" "num_active_node tr = int (length (addrs t))"
    "wft (maxbits tr) [] t" "pfx_ok (pfx w) t" by (auto elim: pat_invE)
  have "q \<in> set (pres t) \<longleftrightarrow> (\<exists>(a, i) \<in> pinfos t. ipre i = Some q)" for q
    by (force simp: pres_pinfos pinfos_def)
  with tr fold_unref [OF distinct_pres [OF tr(3,4)]] Clear_cleared [OF assms, of func] show ?thesis
    by (intro exI [of _ "cleared w tp t"]) (simp add: cleared_def)
qed

theorem Clear_Patricia_frees_witness:
  "\<exists>w'. Clear_Patricia sample_world (Some 0) True = Some (w', if True then datas sample_tree else []) \<and>
     (\<forall>a. nodes w' a = (if a \<in> set (addrs sample_tree) then None else nodes sample_world a)) \<and>
     (\<forall>q. pfx w' q = (if \<exists>(a, i) \<in> pinfos sample_tree. ipre i = Some q then unref (pfx sample_world) q q
                       else pfx sample_world q)) \<and>
     map_option num_active_node (trees w' 0) = Some 0"
  by (rule Clear_Patricia_frees [OF sample_inv])

text \<open>A tree that held anything is not usable after \<^verbatim>\<open>Clear_Patricia\<close>: the header still
  points to the freed root, and the next walk reads freed memory.\<close>

theorem Clear_Patricia_dangling_head:
  assumes "pat_inv w tp t" and "t \<noteq> Tip"
  shows "\<exists>w' calls. Clear_Patricia w (Some tp) func = Some (w', calls) \<and>
     map_option head (trees w' tp) = Some (root t) \<and> patricia_process w' (Some tp) = None"
proof -
  from assms obtain tr a where tr: "trees w tp = Some tr" "head tr = root t" "root t = Some a"
    by (cases t) (auto elim: pat_invE)
  then have "trees (cleared w tp t) tp = Some (tr\<lparr>num_active_node := num_active_node tr - int (length (addrs t))\<rparr>)"
    "nodes (cleared w tp t) a = None"
    using root_in_addrs [OF tr(3)] by (simp_all add: cleared_def)
  with tr Clear_cleared [OF assms(1), of func] show ?thesis
    by (auto simp: patricia_process_def walk_loop.simps [of _ "Some a"])
qed

theorem Clear_Patricia_dangling_head_witness:
  "\<exists>w' calls. Clear_Patricia sample_world (Some 0) False = Some (w', calls) \<and>
     map_option head (trees w' 0) = Some (root sample_tree) \<and> patricia_process w' (Some 0) = None"
  by (rule Clear_Patricia_dangling_head [OF sample_inv]) (simp add: sample_tree_def)

text \<open>\<^verbatim>\<open>Destroy_Patricia\<close> leaves no node of the tree and no header, and one active tree
  less.\<close>

theorem Destroy_Patricia_frees:
  assumes "pat_inv w tp t"
  shows "\<exists>w'. Destroy_Patricia w (Some tp) func = Some (w', if func then datas t else []) \<and>
     trees w' tp = None \<and> (\<forall>a \<in> set (addrs t). nodes w' a = None) \<and>
     num_active_patricia w' = num_active_patricia w - 1"
  using Clear_cleared [OF assms, of func] by (simp add: Destroy_Patricia_def) (simp add: cleared_def)

theorem Destroy_Patricia_frees_witness:
  "\<exists>w'. Destroy_Patricia sample_world (Some 0) True = Some (w', if True then datas sample_tree else []) \<and>
     trees w' 0 = None \<and> (\<forall>a \<in> set (addrs sample_tree). nodes w' a = None) \<and>
     num_active_patricia w' = num_active_patricia sample_world - 1"
  by (rule Destroy_Patricia_frees [OF sample_inv])


subsection \<open>make_and_lookup\<close>

lemma pat_inv_toab: "pat_inv (w\<lparr>toab := lb\<rparr>) tp t = pat_inv w tp t"
  by (simp add: pat_inv_def)

lemma arg_ok_toab: "arg_ok (w\<lparr>toab := lb\<rparr>) tp q k = arg_ok w tp q k"
  by (simp add: arg_ok_def tree_maxbits_def cong: option.case_cong)

lemma print_prefix_ok:
  assumes "pfx w q = Some p" and "wf_prefix p" and "0 \<le> ref_count p" and "length (buffs (toab w)) = 16"
  shows "\<exists>lb. print_prefix ntop w (Some q) = Some (w\<lparr>toab := lb\<rparr>) \<and> length (buffs lb) = 16"
  using prefix_toa_ok [OF assms(2,3,4), of ntop] assms(1) by (auto simp: print_prefix_def)

text \<open>The prefix that the text \<^verbatim>\<open>a.b.c.d/n\<close> denotes.\<close>

definition route :: "byte \<Rightarrow> byte \<Rightarrow> byte \<Rightarrow> byte \<Rightarrow> nat \<Rightarrow> prefix_t" where
  "route a b c d n = \<lparr>family = AF_INET, bitlen = n, ref_count = 1, add = [a, b, c, d] @ replicate 12 0\<rparr>"

lemma route_sel [simp]: "bitlen (route a b c d n) = n" "ref_count (route a b c d n) = 1"
  by (simp_all add: route_def)

lemma wf_route: "n \<le> 32 \<Longrightarrow> wf_prefix (route a b c d n)"
  by (simp add: route_def wf_prefix_def)

lemma pat_inv_new_prefix:
  assumes "pat_inv w tp t"
  shows "pat_inv (w\<lparr>pfx := (pfx w)(brk w \<mapsto> p), brk := Suc (brk w)\<rparr>) tp t"
proof -
  have "pfx w (brk w) = None" using pat_inv_fresh [OF assms] by simp
  then have "pfx_extends (pfx w) ((pfx w)(brk w \<mapsto> p))" by (auto simp: pfx_extends_def)
  then show ?thesis using assms by (auto simp: pat_inv_def intro: pfx_ok_extends)
qed

lemma pat_inv_drop_extra:
  assumes inv: "pat_inv w tp t" and q: "pfx w q = Some p" "1 \<le> ref_count p"
    and held: "ref_count p = 1 \<Longrightarrow> \<forall>(a, i) \<in> pinfos t. ipre i \<noteq> Some q"
  shows "Deref_Prefix w (Some q) = Some (w\<lparr>pfx := unref (pfx w) q\<rparr>)" and "pat_inv (w\<lparr>pfx := unref (pfx w) q\<rparr>) tp t"
proof -
  have "pre_ok (unref (pfx w) q) i" if "(a, i) \<in> set (infos t)" for a i
  proof -
    have "pre_ok (pfx w) i" using inv that by (auto elim!: pat_invE dest: pfx_okD)
    moreover have "ref_count p \<noteq> 1" if "ipre i = Some q" using held that \<open>(a, i) \<in> _\<close> by (auto simp: pinfos_def)
    ultimately show ?thesis
      using q by (auto simp: pre_ok_def unref_def wf_prefix_def pkey_def split: option.splits)
  qed
  then have "pfx_ok (unref (pfx w) q) t" by (auto simp: pfx_ok_iff)
  moreover have "unref (pfx w) q x = None" if "pfx w x = None" for x using that by (auto simp: unref_def)
  ultimately show "pat_inv (w\<lparr>pfx := unref (pfx w) q\<rparr>) tp t" using inv by (simp add: pat_inv_def)
  show "Deref_Prefix w (Some q) = Some (w\<lparr>pfx := unref (pfx w) q\<rparr>)"
    using Deref_Prefix_counted [OF q(1)] q by (simp add: unref_def)
qed

text \<open>A prefix made by the caller is looked up and released: one that was stored already leaves no object
  behind, and a new one is held once, by the trie.\<close>

lemma lookup_own_prefix:
  assumes inv: "pat_inv w tp t" and n: "n \<le> 32" "n \<le> tree_maxbits w tp" and p: "p = route a b c d n" and k: "k = pkey p"
    and w2: "w2 = w\<lparr>pfx := (pfx w)(brk w \<mapsto> p), brk := Suc (brk w), toab := lb\<rparr>"
  shows "\<exists>x w1 w' t'. patricia_lookup w2 (Some tp) (Some (brk w)) = Some (x, w1) \<and> Deref_Prefix w1 (Some (brk w)) = Some w' \<and>
     pat_inv w' tp t' \<and> tree_maxbits w' tp = tree_maxbits w tp \<and> entries t' = insert (k, x) (entries t) \<and>
     pfx w' = (if \<exists>y. (k, y) \<in> entries t then pfx w else (pfx w)(brk w \<mapsto> p))"
proof -
  let ?q = "brk w"
  have free: "pfx w ?q = None" using pat_inv_fresh [OF inv] by simp
  have inv2: "pat_inv w2 tp t" using pat_inv_new_prefix [OF inv] unfolding w2 by (simp only: pat_inv_toab)
  have m2: "tree_maxbits w2 tp = tree_maxbits w tp" unfolding w2 by (simp add: tree_maxbits_def)
  have arg: "arg_ok w2 tp ?q k" using wf_route n p k m2 by (simp add: arg_ok_def w2)
  from lookup_inserts [OF inv2 arg] obtain x w' t' where
    l: "patricia_lookup w2 (Some tp) (Some ?q) = Some (x, w')" "pat_inv w' tp t'" "inserted w2 ?q k t x w' t'"
      "tree_maxbits w' tp = tree_maxbits w tp" unfolding m2 by blast
  have nothold: "\<forall>(y, i) \<in> pinfos t. ipre i \<noteq> Some ?q"
    using inv free by (fastforce simp: pinfos_def elim!: pat_invE dest: pfx_okD elim: pre_okE)
  show ?thesis
  proof (cases "\<exists>y. (k, y) \<in> entries t")
    case True
    with l(3) have same: "w' = w2" "t' = t" by (auto simp: inserted_def)
    have "unref (pfx w2) ?q = pfx w" using free p by (auto simp: unref_def w2 fun_upd_idem)
    with pat_inv_drop_extra [OF inv2, of ?q p] nothold p have
      "Deref_Prefix w' (Some ?q) = Some (w2\<lparr>pfx := pfx w\<rparr>)" "pat_inv (w2\<lparr>pfx := pfx w\<rparr>) tp t" using same by (simp_all add: w2)
    with l same True inserted_entries [OF l(3)] m2 show ?thesis by (fastforce simp: tree_maxbits_def)
  next
    case False
    with l(3) have pw: "pfx w' = (pfx w)(?q \<mapsto> p\<lparr>ref_count := 2\<rparr>)" using p by (auto simp: inserted_def refd_def w2)
    then have "unref (pfx w') ?q = (pfx w)(?q \<mapsto> p)" using p by (auto simp: unref_def route_def)
    with pat_inv_drop_extra [OF l(2), of ?q "p\<lparr>ref_count := 2\<rparr>"] pw have
      "Deref_Prefix w' (Some ?q) = Some (w'\<lparr>pfx := (pfx w)(?q \<mapsto> p)\<rparr>)" "pat_inv (w'\<lparr>pfx := (pfx w)(?q \<mapsto> p)\<rparr>) tp t'" by simp_all
    with l False inserted_entries [OF l(3)] show ?thesis by (fastforce simp: tree_maxbits_def)
  qed
qed

text \<open>\<^verbatim>\<open>make_and_lookup\<close> of a text \<^verbatim>\<open>a.b.c.d/n\<close> stores that prefix in the trie and gives
  up its own reference: a prefix that was stored already leaves no new object behind, and a new one is
  held exactly once, by the trie.\<close>

theorem make_and_lookup_stores:
  assumes inv: "pat_inv w tp t" and n: "n \<le> 32" "n \<le> tree_maxbits w tp" and buf: "length (buffs (toab w)) = 16"
    and p: "p = route a b c d n" and k: "k = pkey p"
  shows "\<exists>x w' t'. make_and_lookup pton ntop w (Some tp) (dotted a b c d @ CHR ''/'' # dec n) = Some (x, w') \<and>
     pat_inv w' tp t' \<and> entries t' = insert (k, x) (entries t) \<and>
     pfx w' = (if \<exists>y. (k, y) \<in> entries t then pfx w else (pfx w)(brk w \<mapsto> p))"
proof -
  let ?q = "brk w" let ?w1 = "w\<lparr>pfx := (pfx w)(?q \<mapsto> p), brk := Suc ?q\<rparr>"
  have "nat (int n mod 65536) = n" using n by simp
  then have parse: "ascii2prefix pton w AF_INET (Some (dotted a b c d @ CHR ''/'' # dec n)) = Some (Some ?q, ?w1)"
    using ascii2prefix_dotted [OF n(1) disjI1 [OF refl]] p by (simp add: New_Prefix_eq route_def)
  obtain lb where pr: "print_prefix ntop ?w1 (Some ?q) = Some (?w1\<lparr>toab := lb\<rparr>)"
    using print_prefix_ok [of ?w1 ?q p ntop] wf_route n buf p by auto
  from lookup_own_prefix [OF inv n p k refl, of lb] obtain x w1 w' t' where
    l: "patricia_lookup (?w1\<lparr>toab := lb\<rparr>) (Some tp) (Some ?q) = Some (x, w1)" "Deref_Prefix w1 (Some ?q) = Some w'" "pat_inv w' tp t'"
      "entries t' = insert (k, x) (entries t)" "pfx w' = (if \<exists>y. (k, y) \<in> entries t then pfx w else (pfx w)(?q \<mapsto> p))" by auto
  have "make_and_lookup pton ntop w (Some tp) (dotted a b c d @ CHR ''/'' # dec n) = Some (x, w')"
    using parse pr l(1,2) by (simp add: make_and_lookup_def)
  then show ?thesis using l(3-5) by blast
qed

theorem make_and_lookup_stores_witness:
  "\<exists>x w' t'. make_and_lookup (\<lambda>_. None) (\<lambda>_. None) sample_world (Some 0)
       (dotted 10 42 42 0 @ CHR ''/'' # dec 24) = Some (x, w') \<and>
     pat_inv w' 0 t' \<and> entries t' = insert (pkey (route 10 42 42 0 24), x) (entries sample_tree) \<and>
     pfx w' = (if \<exists>y. (pkey (route 10 42 42 0 24), y) \<in> entries sample_tree then pfx sample_world
               else (pfx sample_world)(brk sample_world \<mapsto> route 10 42 42 0 24))"
  by (rule make_and_lookup_stores [OF sample_inv]) (simp_all add: sample_world_def tree_maxbits_def)


subsection \<open>The demonstration program\<close>

definition demo_world :: pat_world where
  "demo_world = \<lparr>pfx = Map.empty, brk = 0, nodes = Map.empty, trees = Map.empty, num_active_patricia = 0,
     toab = \<lparr>buffs = replicate 16 [], bufi = 0\<rparr>\<rparr>"

text \<open>The demonstration program runs to its end.  It prints 5 and then 4 prefixes, its eight
  searches find and miss what they should, and at the end no prefix, node or tree is left allocated.\<close>

theorem demo_main_result:
  "map_option (\<lambda>(found, n1, n2, w). (map (\<lambda>r. r \<noteq> NULL) found, n1, n2, num_active_patricia w,
       list_all (\<lambda>a. pfx w a = None \<and> nodes w a = None \<and> trees w a = None) [0..<brk w]))
     (demo_main (\<lambda>_. None) (\<lambda>_. None) demo_world) =
   Some ([True, False, True, True, True, False, True, False], 5, 4, 0, True)"
  by code_simp

end
