(* ===== verification/RouteFile.thy ===== *)
theory RouteFile
  imports PatriciaUse
begin

text \<open>
  The program \<^verbatim>\<open>perf_test.c\<close>: it reads a file of prefixes, one per line, into a trie, looks up one more prefix and runs a
  few searches.  A file is the list of its lines, with the newline that \<^verbatim>\<open>getline\<close> keeps; the time measurement
  is not compiled.

  The property is what a routing table needs: after a file of routes has been loaded, best search is
  longest-prefix match among exactly the routes of the file.
\<close>

subsection \<open>The code\<close>

definition load_line :: "(string \<Rightarrow> bytes option) \<Rightarrow> ptr \<Rightarrow> string \<Rightarrow> pat_world \<Rightarrow> pat_world option" where
  "load_line inet_pton6 tree line w = do {
     (pre, w) \<leftarrow> ascii2prefix inet_pton6 w AF_INET (Some line);
     (_, w) \<leftarrow> patricia_lookup w tree pre;
     Deref_Prefix w pre
   }"

fun load_file :: "(string \<Rightarrow> bytes option) \<Rightarrow> ptr \<Rightarrow> string list \<Rightarrow> pat_world \<Rightarrow> pat_world option" where
  "load_file inet_pton6 tree [] w = Some w"
| "load_file inet_pton6 tree (line # lines) w = do {
     w \<leftarrow> load_line inet_pton6 tree line w;
     load_file inet_pton6 tree lines w
   }"

text \<open>\<open>files\<close> are the files that can be opened; opening the null pointer is undefined.  The result is the exit code and the
  nodes that the searches gave.\<close>

definition perf_main ::
  "(string \<Rightarrow> bytes option) \<Rightarrow> (bytes \<Rightarrow> string option) \<Rightarrow> (string \<Rightarrow> string list option) \<Rightarrow> string option \<Rightarrow> string option \<Rightarrow> pat_world \<Rightarrow>
     (int \<times> ptr list \<times> pat_world) option" where
  "perf_main pton6 ntop6 files argv1 argv2 w = do {
     (tp, w) \<leftarrow> New_Patricia w 32;
     let tree = Some tp;
     srcfile \<leftarrow> argv1;
     (case files srcfile of
        None \<Rightarrow> Some (-1, [], w)
      | Some lines \<Rightarrow> do {
          w \<leftarrow> load_file pton6 tree lines w;
          let str = (case argv2 of Some s \<Rightarrow> s | None \<Rightarrow> ''2.232.71.192/26'');
          w \<leftarrow> load_line pton6 tree str w;
          (_, w) \<leftarrow> make_and_lookup pton6 ntop6 w tree ''2.241.0.0/17'';
          (r1, w) \<leftarrow> try_search_best pton6 ntop6 w tree ''2.241.0.0/16'';
          (r2, w) \<leftarrow> try_search_best pton6 ntop6 w tree ''2.241.0.0/18'';
          (r3, w) \<leftarrow> try_search_exact pton6 ntop6 w tree ''2.241.0.0/16'';
          (r4, w) \<leftarrow> try_search_exact pton6 ntop6 w tree ''2.241.0.0/18'';
          (_, w) \<leftarrow> make_and_lookup pton6 ntop6 w tree ''10.42.42.0/24'';
          (_, w) \<leftarrow> make_and_lookup pton6 ntop6 w tree ''10.42.69.0/24'';
          (_, w) \<leftarrow> make_and_lookup pton6 ntop6 w tree ''10.0.0.0/8'';
          (_, w) \<leftarrow> make_and_lookup pton6 ntop6 w tree ''2.27.0.0/16'';
          (r5, w) \<leftarrow> try_search_best pton6 ntop6 w tree ''2.27.0.0/8'';
          (r6, w) \<leftarrow> try_search_best pton6 ntop6 w tree ''2.27.0.0/24'';
          (r7, w) \<leftarrow> try_search_exact pton6 ntop6 w tree ''2.27.0.0/8'';
          (r8, w) \<leftarrow> try_search_exact pton6 ntop6 w tree ''2.27.0.0/24'';
          (w, _) \<leftarrow> Destroy_Patricia w tree False;
          Some (0, [r1, r2, r3, r4, r5, r6, r7, r8], w)
        })
   }"

subsection \<open>Files of routes\<close>

type_synonym route_text = "byte \<times> byte \<times> byte \<times> byte \<times> nat"

fun route_line :: "route_text \<Rightarrow> string" where
  "route_line (a, b, c, d, n) = dotted a b c d @ CHR ''/'' # dec n @ [CHR 0x0A]"

fun route_key :: "route_text \<Rightarrow> bool list" where
  "route_key (a, b, c, d, n) = pkey (route a b c d n)"

fun route_ok :: "route_text \<Rightarrow> bool" where
  "route_ok (a, b, c, d, n) \<longleftrightarrow> n \<le> 32"

lemma load_line_stores:
  assumes inv: "pat_inv w tp t" and m: "tree_maxbits w tp = 32" and r: "route_ok r"
  shows "\<exists>x w' t'. load_line pton (Some tp) (route_line r) w = Some w' \<and> pat_inv w' tp t' \<and> tree_maxbits w' tp = 32 \<and>
    entries t' = insert (route_key r, x) (entries t)"
proof -
  obtain a b c d n where rr: "r = (a, b, c, d, n)" by (cases r) auto
  then have n: "n \<le> 32" "n \<le> tree_maxbits w tp" using r m by simp_all
  let ?q = "brk w" let ?p = "route a b c d n" let ?w1 = "w\<lparr>pfx := (pfx w)(?q \<mapsto> ?p), brk := Suc ?q\<rparr>"
  have "nat (int n mod 65536) = n" using n by simp
  then have parse: "ascii2prefix pton w AF_INET (Some (route_line r)) = Some (Some ?q, ?w1)"
    using ascii2prefix_line [OF n(1) disjI1 [OF refl], of "[CHR 0x0A]"] rr by (simp add: New_Prefix_eq route_def isdigit_def)
  have "?w1 = w\<lparr>pfx := (pfx w)(?q \<mapsto> ?p), brk := Suc ?q, toab := toab w\<rparr>" by (cases w) simp
  from lookup_own_prefix [OF inv n refl refl this] obtain x w1 w' t' where
    l: "patricia_lookup ?w1 (Some tp) (Some ?q) = Some (x, w1)" "Deref_Prefix w1 (Some ?q) = Some w'" "pat_inv w' tp t'"
      "tree_maxbits w' tp = tree_maxbits w tp" "entries t' = insert (pkey ?p, x) (entries t)" by blast
  then have "load_line pton (Some tp) (route_line r) w = Some w'" using parse by (simp add: load_line_def)
  then show ?thesis using l rr m by (intro exI [of _ x] exI [of _ w'] exI [of _ t']) simp
qed

lemma load_file_stores:
  "pat_inv w tp t \<Longrightarrow> tree_maxbits w tp = 32 \<Longrightarrow> list_all route_ok rs \<Longrightarrow>
   \<exists>w' t'. load_file pton (Some tp) (map route_line rs) w = Some w' \<and> pat_inv w' tp t' \<and> tree_maxbits w' tp = 32 \<and>
     fst ` entries t' = route_key ` set rs \<union> fst ` entries t"
proof (induction rs arbitrary: w t)
  case (Cons r rs)
  from Cons.prems load_line_stores [of w tp t r pton] obtain x w1 t1 where
    l: "load_line pton (Some tp) (route_line r) w = Some w1" "pat_inv w1 tp t1" "tree_maxbits w1 tp = 32"
      "entries t1 = insert (route_key r, x) (entries t)" by auto
  from Cons.IH [OF l(2,3)] Cons.prems(3) obtain w' t' where
    "load_file pton (Some tp) (map route_line rs) w1 = Some w'" "pat_inv w' tp t'" "tree_maxbits w' tp = 32"
    "fst ` entries t' = route_key ` set rs \<union> fst ` entries t1" by auto
  with l show ?case by auto
qed auto

text \<open>Property C6: a file of routes becomes a routing table.  Loading the lines of any routes into an empty trie succeeds,
  the stored prefixes are exactly the routes of the file, and a best search for any prefix \<open>k\<close> gives the
  node of the longest route that is a prefix of \<open>k\<close>, or nothing if no route is.\<close>

theorem route_file_longest_match:
  assumes "pat_inv w tp Tip" and "tree_maxbits w tp = 32" and "list_all route_ok rs"
  shows "\<exists>w' t'. load_file pton (Some tp) (map route_line rs) w = Some w' \<and> pat_inv w' tp t' \<and> fst ` entries t' = route_key ` set rs \<and>
    (\<forall>q k. arg_ok w' tp q k \<longrightarrow>
       (\<exists>found. patricia_search_best w' (Some tp) (Some q) = Some found \<and>
          (case found of
             None \<Rightarrow> \<forall>r \<in> set rs. \<not> prefix (route_key r) k
           | Some a \<Rightarrow> \<exists>r \<in> set rs. (route_key r, a) \<in> entries t' \<and> prefix (route_key r) k \<and>
               (\<forall>r' \<in> set rs. prefix (route_key r') k \<longrightarrow> length (route_key r') \<le> length (route_key r)))))"
proof -
  from load_file_stores [OF assms, of pton] obtain w' t' where
    l: "load_file pton (Some tp) (map route_line rs) w = Some w'" "pat_inv w' tp t'" "fst ` entries t' = route_key ` set rs"
    by auto
  have stored: "\<exists>a. (route_key r, a) \<in> entries t'" if "r \<in> set rs" for r 
  proof -
    have "route_key r \<in> fst ` entries t'" using that unfolding l(3) by blast
    then show ?thesis by auto
  qed
  have from_file: "\<exists>r \<in> set rs. x = route_key r" if "(x, a) \<in> entries t'" for x a 
  proof -
    have "x \<in> fst ` entries t'" using that by force
    then show ?thesis unfolding l(3) by blast
  qed
  have "\<exists>found. patricia_search_best w' (Some tp) (Some q) = Some found \<and>
          (case found of
             None \<Rightarrow> \<forall>r \<in> set rs. \<not> prefix (route_key r) k
           | Some a \<Rightarrow> \<exists>r \<in> set rs. (route_key r, a) \<in> entries t' \<and> prefix (route_key r) k \<and>
               (\<forall>r' \<in> set rs. prefix (route_key r') k \<longrightarrow> length (route_key r') \<le> length (route_key r)))" if "arg_ok w' tp q k" for q k
  proof -
    from pt.best_law [OF l(2) that] obtain found where
      found: "patricia_search_best w' (Some tp) (Some q) = Some found" "case found of
          None \<Rightarrow> \<forall>(x, a) \<in> entries t'. \<not> prefix x k
        | Some a \<Rightarrow> \<exists>x. (x, a) \<in> entries t' \<and> prefix x k \<and> (\<forall>(y, b) \<in> entries t'. prefix y k \<longrightarrow> length y \<le> length x)" by blast
    show ?thesis
    proof (cases found)
      case None
      then show ?thesis using found stored by fastforce
    next
      case (Some a)
      then obtain x where x: "(x, a) \<in> entries t'" "prefix x k" "\<forall>(y, b) \<in> entries t'. prefix y k \<longrightarrow> length y \<le> length x"
        using found(2) by auto
      obtain r where r: "r \<in> set rs" "x = route_key r" using from_file [OF x(1)] by blast
      have "length (route_key r') \<le> length (route_key r)" if "r' \<in> set rs" "prefix (route_key r') k" for r'
        using stored [OF that(1)] x(3) that(2) r(2) by blast
      then have "\<exists>r \<in> set rs. (route_key r, a) \<in> entries t' \<and> prefix (route_key r) k \<and>
          (\<forall>r' \<in> set rs. prefix (route_key r') k \<longrightarrow> length (route_key r') \<le> length (route_key r))"
        using r x(1,2) by blast
      then show ?thesis using Some found(1) by (intro exI [of _ "Some a"]) simp
    qed
  qed
  then show ?thesis using l by blast
qed

theorem route_file_longest_match_witness:
  "\<exists>w0 tp w' t'. New_Patricia demo_world 32 = Some (tp, w0) \<and>
     load_file (\<lambda>_. None) (Some tp) (map route_line [(10, 0, 0, 0, 8), (10, 42, 0, 0, 16)]) w0 = Some w' \<and>
     fst ` entries t' = {route_key (10, 0, 0, 0, 8), route_key (10, 42, 0, 0, 16)} \<and> pat_inv w' tp t'"
proof -
  have "\<forall>a\<ge>brk demo_world. pfx demo_world a = None \<and> nodes demo_world a = None \<and> trees demo_world a = None" by (simp add: demo_world_def)
  then obtain tp w0 where new: "New_Patricia demo_world 32 = Some (tp, w0)" "pat_inv w0 tp Tip" "tree_maxbits w0 tp = 32"
    by (simp add: New_Patricia_def Let_def PATRICIA_MAXBITS_def pat_inv_def tree_maxbits_def demo_world_def)
  have "list_all route_ok [(10, 0, 0, 0, 8), (10, 42, 0, 0, 16)]" by simp
  from route_file_longest_match [OF new(2,3) this, of "\<lambda>_. None"] new(1) show ?thesis
    by (simp del: route_line.simps route_key.simps load_file.simps list.map) blast
qed

text \<open>A run of the program on a file of two lines: the searches find the prefixes 2.241.0.0/17 and 2.27.0.0/16
  where they should, and nothing is left allocated.\<close>

theorem perf_main_run:
  "map_option (\<lambda>(code, found, w). (code, map (\<lambda>r. r \<noteq> NULL) found, num_active_patricia w,
       list_all (\<lambda>a. pfx w a = None \<and> nodes w a = None \<and> trees w a = None) [0..<brk w]))
     (perf_main (\<lambda>_. None) (\<lambda>_. None) (\<lambda>f. if f = ''routes'' then Some [''2.240.0.0/15'', ''10.0.0.0/8''] else None) (Some ''routes'') None demo_world) =
   Some (0, [True, True, False, False, False, True, False, False], 0, True)"
  by code_simp

end
