(* ===== verification/DigitTrie.thy ===== *)
theory DigitTrie
  imports Prefix
begin

text \<open>
  The digit trie of \<^verbatim>\<open>trie_test.c\<close>, one of the databases for AS numbers whose access times are compared: nodes with
  ten children, one per digit, and a mark at the end of a stored word.  The nodes are in a store, as the
  code changes them in place; \<open>calloc_ok\<close> says for which addresses \<^verbatim>\<open>calloc\<close> succeeds, whose result the code uses
  without a test.

  The locale \<open>word_set\<close> is the contract of a set of words; its interpretation on the code's functions
  gives the properties: the trie finds exactly the words that were inserted, releasing it frees every
  node, and the program answers every query about the numbers below 100000.
\<close>

subsection \<open>The code\<close>

definition TRIE_N :: nat where "TRIE_N = 10"

record TrieNode =
  t_data :: char
  children :: "ptr list"
  is_leaf :: int

record trie_heap =
  tnodes :: "TrieNode store"
  tbrk :: nat

definition make_trienode :: "(nat \<Rightarrow> bool) \<Rightarrow> char \<Rightarrow> trie_heap \<Rightarrow> (ptr \<times> trie_heap) option" where
  "make_trienode calloc_ok c h = do {
     c_assert (calloc_ok (tbrk h));
     Some (Some (tbrk h),
       h\<lparr>tnodes := (tnodes h)(tbrk h \<mapsto> \<lparr>t_data = c, children = replicate TRIE_N NULL, is_leaf = 0\<rparr>), tbrk := tbrk h + 1\<rparr>)
   }"

text \<open>\<^verbatim>\<open>word[i] - '0'\<close>, where \<^verbatim>\<open>char\<close> is signed, and the access \<^verbatim>\<open>children[idx]\<close>.\<close>

definition char_index :: "char \<Rightarrow> int" where
  "char_index c = (if of_char c < (128 :: int) then of_char c else of_char c - 256) - 48"

definition child :: "TrieNode \<Rightarrow> int \<Rightarrow> ptr option" where
  "child nd idx = (if idx < 0 then None else c_nth (children nd) (nat idx))"

definition set_child :: "ptr \<Rightarrow> int \<Rightarrow> ptr \<Rightarrow> trie_heap \<Rightarrow> trie_heap option" where
  "set_child temp idx p h = do {
     a \<leftarrow> temp;
     nd \<leftarrow> tnodes h a;
     Some (h\<lparr>tnodes := (tnodes h)(a \<mapsto> nd\<lparr>children := (children nd)[nat idx := p]\<rparr>)\<rparr>)
   }"

fun insert_loop :: "(nat \<Rightarrow> bool) \<Rightarrow> ptr \<Rightarrow> string \<Rightarrow> trie_heap \<Rightarrow> (ptr \<times> trie_heap) option" where
  "insert_loop calloc_ok temp [] h = Some (temp, h)"
| "insert_loop calloc_ok temp (c # cs) h = do {
     let idx = char_index c;
     nd \<leftarrow> deref (tnodes h) temp;
     p \<leftarrow> child nd idx;
     (p, h) \<leftarrow> (if p = NULL then do {
         (p, h) \<leftarrow> make_trienode calloc_ok c h;
         h \<leftarrow> set_child temp idx p h;
         Some (p, h)
       }
       else Some (p, h));
     insert_loop calloc_ok p cs h
   }"

definition insert_trie :: "(nat \<Rightarrow> bool) \<Rightarrow> ptr \<Rightarrow> string \<Rightarrow> trie_heap \<Rightarrow> (ptr \<times> trie_heap) option" where
  "insert_trie calloc_ok root word h = do {
     (temp, h) \<leftarrow> insert_loop calloc_ok root word h;
     a \<leftarrow> temp;
     nd \<leftarrow> tnodes h a;
     Some (root, h\<lparr>tnodes := (tnodes h)(a \<mapsto> nd\<lparr>is_leaf := 1\<rparr>)\<rparr>)
   }"

fun search_trie :: "ptr \<Rightarrow> string \<Rightarrow> trie_heap \<Rightarrow> int option" where
  "search_trie temp [] h =
     (if temp = NULL then Some 0
      else do {
        nd \<leftarrow> deref (tnodes h) temp;
        Some (if is_leaf nd = 1 then 1 else 0)
      })"
| "search_trie temp (c # cs) h = do {
     nd \<leftarrow> deref (tnodes h) temp;
     p \<leftarrow> child nd (char_index c);
     if p = NULL then Some 0 else search_trie p cs h
   }"

text \<open>\<^verbatim>\<open>free_trienode\<close> from the child \<open>i\<close> on.\<close>

partial_function (option) free_loop :: "ptr \<Rightarrow> nat \<Rightarrow> trie_heap \<Rightarrow> trie_heap option" where
  "free_loop node i h = do {
     nd \<leftarrow> deref (tnodes h) node;
     if i < TRIE_N then do {
       p \<leftarrow> c_nth (children nd) i;
       h \<leftarrow> (if p \<noteq> NULL then free_loop p 0 h else Some h);
       free_loop node (i + 1) h
     }
     else Some (h\<lparr>tnodes := (tnodes h)(the node := None)\<rparr>)
   }"

definition free_trienode :: "ptr \<Rightarrow> trie_heap \<Rightarrow> trie_heap option" where
  "free_trienode node h = free_loop node 0 h"

subsection \<open>The program\<close>

definition max_int :: nat where "max_int = 100000"

fun fill_loop :: "(nat \<Rightarrow> bool) \<Rightarrow> nat list \<Rightarrow> ptr \<Rightarrow> trie_heap \<Rightarrow> (ptr \<times> trie_heap) option" where
  "fill_loop calloc_ok [] root h = Some (root, h)"
| "fill_loop calloc_ok (i # is) root h = do {
     let buffer = dec i;
     c_assert (length buffer < 10);
     (root, h) \<leftarrow> insert_trie calloc_ok root buffer h;
     fill_loop calloc_ok is root h
   }"

text \<open>The queries, one per line, until a line with the number 0; \<^verbatim>\<open>gets\<close> has a buffer of ten characters.\<close>

fun query_loop :: "ptr \<Rightarrow> string list \<Rightarrow> trie_heap \<Rightarrow> int list option" where
  "query_loop root [] h = None"
| "query_loop root (line # lines) h = do {
     c_assert (length line < 10);
     result \<leftarrow> search_trie root line h;
     if (word_of_int (atol line) :: 32 word) = 0 then Some [result]
     else do {
       results \<leftarrow> query_loop root lines h;
       Some (result # results)
     }
   }"

definition trie_main :: "(nat \<Rightarrow> bool) \<Rightarrow> string list \<Rightarrow> int list option" where
  "trie_main calloc_ok lines = do {
     (root, h) \<leftarrow> make_trienode calloc_ok NUL \<lparr>tnodes = Map.empty, tbrk = 0\<rparr>;
     (root, h) \<leftarrow> fill_loop calloc_ok [0..<max_int] root h;
     query_loop root lines h
   }"

subsection \<open>The contract\<close>

fun put_all :: "('a \<Rightarrow> 'h \<Rightarrow> 'h option) \<Rightarrow> 'a list \<Rightarrow> 'h \<Rightarrow> 'h option" where
  "put_all put [] h = Some h"
| "put_all put (w # ws) h = do { h \<leftarrow> put w h; put_all put ws h }"

locale word_set =
  fixes inv :: "'h \<Rightarrow> string set \<Rightarrow> bool" and valid :: "string \<Rightarrow> bool"
    and put :: "string \<Rightarrow> 'h \<Rightarrow> 'h option" and search :: "string \<Rightarrow> 'h \<Rightarrow> int option"
  assumes put_law: "inv h W \<Longrightarrow> valid w \<Longrightarrow> \<exists>h'. put w h = Some h' \<and> inv h' (insert w W)"
    and search_law: "inv h W \<Longrightarrow> valid w \<Longrightarrow> search w h = Some (if w \<in> W then 1 else 0)"
begin

lemma put_all_inv: "inv h W \<Longrightarrow> list_all valid ws \<Longrightarrow> \<exists>h'. put_all put ws h = Some h' \<and> inv h' (W \<union> set ws)"
proof (induction ws arbitrary: h W)
  case (Cons w ws)
  then obtain h1 where "put w h = Some h1" "inv h1 (insert w W)" using put_law by fastforce
  with Cons show ?case by fastforce
qed simp

lemma search_after:
  assumes "inv h W" and "list_all valid ws" and "valid w"
  shows "Option.bind (put_all put ws h) (search w) = Some (if w \<in> W \<union> set ws then 1 else 0)"
  using put_all_inv [OF assms(1,2)] search_law assms(3) by fastforce

end

subsection \<open>Paths\<close>

text \<open>The child of a node for a digit, and the node at the end of a path of digits.\<close>

definition kid :: "trie_heap \<Rightarrow> nat \<Rightarrow> nat \<Rightarrow> ptr" where
  "kid h a i = (case tnodes h a of None \<Rightarrow> NULL | Some nd \<Rightarrow> if i < length (children nd) then children nd ! i else NULL)"

fun walk :: "trie_heap \<Rightarrow> nat \<Rightarrow> nat list \<Rightarrow> ptr" where
  "walk h a [] = Some a"
| "walk h a (i # is) = Option.bind (kid h a i) (\<lambda>b. walk h b is)"

lemma walk_append: "walk h a (is @ js) = Option.bind (walk h a is) (\<lambda>b. walk h b js)"
  by (induction "is" arbitrary: a) (auto split: bind_splits)

text \<open>Trees in the heap: ten children each, all of them live, every node but the root has one parent, the
  root has none, and there are no other nodes.\<close>

definition trie_inv :: "trie_heap \<Rightarrow> nat \<Rightarrow> bool" where
  "trie_inv h r \<longleftrightarrow> tnodes h r \<noteq> None \<and> (\<forall>a\<ge>tbrk h. tnodes h a = None) \<and>
     (\<forall>a nd. tnodes h a = Some nd \<longrightarrow> length (children nd) = TRIE_N) \<and>
     (\<forall>a i b. kid h a i = Some b \<longrightarrow> tnodes h b \<noteq> None \<and> b \<noteq> r) \<and>
     (\<forall>a i a' i' b. kid h a i = Some b \<longrightarrow> kid h a' i' = Some b \<longrightarrow> a = a' \<and> i = i') \<and>
     (\<forall>a. tnodes h a \<noteq> None \<longrightarrow> (\<exists>is. walk h r is = Some a))"

lemma kid_live: "trie_inv h r \<Longrightarrow> kid h a i = Some b \<Longrightarrow> tnodes h b \<noteq> None" and kid_not_root: "trie_inv h r \<Longrightarrow> kid h a i \<noteq> Some r"
  and kid_inj: "trie_inv h r \<Longrightarrow> kid h a i = Some b \<Longrightarrow> kid h a' i' = Some b \<Longrightarrow> a = a' \<and> i = i'"
  and reached: "trie_inv h r \<Longrightarrow> tnodes h a \<noteq> None \<Longrightarrow> \<exists>is. walk h r is = Some a"
  unfolding trie_inv_def by blast+

lemma walk_live: "trie_inv h r \<Longrightarrow> walk h a is = Some b \<Longrightarrow> tnodes h a \<noteq> None \<Longrightarrow> tnodes h b \<noteq> None"
  by (induction "is" arbitrary: a) (auto dest: kid_live split: bind_splits)

lemma walk_inj: "trie_inv h r \<Longrightarrow> walk h r is = Some b \<Longrightarrow> walk h r js = Some b \<Longrightarrow> is = js"
proof (induction "is" arbitrary: js b rule: rev_induct)
  case Nil
  then show ?case by (cases js rule: rev_cases) (auto simp: walk_append kid_not_root split: bind_splits)
next
  case (snoc i "is")
  then obtain a where a: "walk h r is = Some a" "kid h a i = Some b" by (auto simp: walk_append split: bind_splits)
  show ?case
  proof (cases js rule: rev_cases)
    case Nil
    then show ?thesis using snoc.prems a by (auto simp: kid_not_root)
  next
    case (snoc js' j)
    then obtain a' where a': "walk h r js' = Some a'" "kid h a' j = Some b"
      using \<open>walk h r js = Some b\<close> by (auto simp: walk_append split: bind_splits)
    then have "a' = a" "j = i" using kid_inj [OF \<open>trie_inv h r\<close> a(2)] by auto
    then show ?thesis using snoc.IH [OF \<open>trie_inv h r\<close> a(1)] a'(1) snoc by simp
  qed
qed

text \<open>Characters and digits.\<close>

definition ix :: "char \<Rightarrow> nat" where
  "ix c = of_char c - 48"

lemma char_index_digit: "isdigit c \<Longrightarrow> char_index c = int (ix c) \<and> ix c < TRIE_N"
proof -
  assume c: "isdigit c"
  define n :: nat where "n = of_char c"
  have "(of_char c :: int) = int n" by (simp add: n_def of_nat_of_char)
  moreover have "48 \<le> n" "n \<le> 57" using c by (simp_all add: isdigit_def n_def)
  ultimately show ?thesis by (auto simp: char_index_def ix_def TRIE_N_def n_def [symmetric])
qed

lemma ix_inj: "isdigit c \<Longrightarrow> isdigit d \<Longrightarrow> ix c = ix d \<Longrightarrow> c = d"
  unfolding isdigit_def ix_def by (metis eq_diff_iff of_char_eq_iff)

lemma map_ix_inj: "list_all isdigit v \<Longrightarrow> list_all isdigit w \<Longrightarrow> map ix v = map ix w \<Longrightarrow> v = w"
proof (induction v arbitrary: w)
  case (Cons c v)
  then show ?case by (cases w) (auto dest: ix_inj)
qed simp

lemma child_kid:
  "trie_inv h r \<Longrightarrow> tnodes h a = Some nd \<Longrightarrow> isdigit c \<Longrightarrow> child nd (char_index c) = Some (kid h a (ix c))"
  by (simp add: child_def char_index_digit kid_def trie_inv_def)

definition trie_words :: "trie_heap \<Rightarrow> nat \<Rightarrow> string set" where
  "trie_words h r = {w. list_all isdigit w \<and> (\<exists>b nd. walk h r (map ix w) = Some b \<and> tnodes h b = Some nd \<and> is_leaf nd = 1)}"

lemma search_trie_walk:
  assumes "trie_inv h r" and "tnodes h a \<noteq> None" and "list_all isdigit w"
  shows "search_trie (Some a) w h =
    Some (if \<exists>b nd. walk h a (map ix w) = Some b \<and> tnodes h b = Some nd \<and> is_leaf nd = 1 then 1 else 0)"
  using assms(2,3)
proof (induction w arbitrary: a)
  case (Cons c cs)
  then obtain nd where nd: "tnodes h a = Some nd" by auto
  show ?case
  proof (cases "kid h a (ix c)")
    case None
    then show ?thesis using child_kid [OF assms(1) nd] Cons.prems nd by simp
  next
    case (Some b)
    then have "tnodes h b \<noteq> None" using assms(1) by (auto simp: trie_inv_def)
    then show ?thesis using Some Cons child_kid [OF assms(1) nd] nd by simp
  qed
qed auto

subsection \<open>Inserting\<close>

text \<open>A new node \<open>b\<close> as the child \<open>i\<close> of \<open>a\<close>.\<close>

definition grown :: "trie_heap \<Rightarrow> nat \<Rightarrow> nat \<Rightarrow> char \<Rightarrow> trie_heap" where
  "grown h a i c = h\<lparr>tbrk := tbrk h + 1, tnodes := (tnodes h)
     (tbrk h \<mapsto> \<lparr>t_data = c, children = replicate TRIE_N NULL, is_leaf = 0\<rparr>,
      a \<mapsto> (the (tnodes h a))\<lparr>children := (children (the (tnodes h a)))[i := Some (tbrk h)]\<rparr>)\<rparr>"

lemma grown_step:
  assumes "trie_inv h r" and "tnodes h a = Some nd" and "isdigit c" and "kid h a (ix c) = NULL" and "calloc_ok (tbrk h)"
  shows "insert_loop calloc_ok (Some a) (c # cs) h = insert_loop calloc_ok (Some (tbrk h)) cs (grown h a (ix c) c)"
proof -
  have "a \<noteq> tbrk h" using assms(1,2) by (auto simp: trie_inv_def)
  then show ?thesis
    using assms child_kid [OF assms(1,2,3)] char_index_digit [OF assms(3)]
    by (simp add: make_trienode_def set_child_def grown_def)
qed

lemma grown_kid:
  assumes "trie_inv h r" and "tnodes h a = Some nd" and "i < TRIE_N"
  shows "kid (grown h a i c) x j = (if x = a \<and> j = i then Some (tbrk h) else if x = tbrk h then NULL else kid h x j)"
proof -
  have "a \<noteq> tbrk h" "length (children nd) = TRIE_N" using assms(1,2) by (auto simp: trie_inv_def)
  then show ?thesis using assms(2,3) by (auto simp: kid_def grown_def nth_list_update)
qed

lemma grown_walk:
  assumes inv: "trie_inv h r" and a: "tnodes h a = Some nd" and i: "i < TRIE_N" and free: "kid h a i = NULL"
  shows "walk h x is = Some y \<Longrightarrow> walk (grown h a i c) x is = Some y"
    and "walk (grown h a i c) r is = Some y \<Longrightarrow> y = tbrk h \<or> walk h r is = Some y"
proof -
  note k = grown_kid [OF inv a i, of c]
  have fresh: "kid h (tbrk h) j = NULL" for j using inv by (auto simp: trie_inv_def kid_def)
  have mono: "kid h x j = Some y \<Longrightarrow> kid (grown h a i c) x j = Some y" for x j y using free fresh unfolding k by auto
  show "walk h x is = Some y \<Longrightarrow> walk (grown h a i c) x is = Some y"
    by (induction "is" arbitrary: x) (auto dest: mono split: bind_splits)
  show "walk (grown h a i c) r is = Some y \<Longrightarrow> y = tbrk h \<or> walk h r is = Some y"
  proof (induction "is" arbitrary: y rule: rev_induct)
    case (snoc j js)
    then obtain x where x: "walk (grown h a i c) r js = Some x" "kid (grown h a i c) x j = Some y"
      by (auto simp: walk_append split: bind_splits)
    then have "x \<noteq> tbrk h" using inv a unfolding k by (auto simp: trie_inv_def split: if_splits)
    then have "walk h r js = Some x" using snoc.IH [OF x(1)] by simp
    then show ?case using x(2) \<open>x \<noteq> tbrk h\<close> unfolding k by (auto simp: walk_append split: if_splits)
  qed simp
qed

lemma grown_inv:
  assumes inv: "trie_inv h r" and a: "tnodes h a = Some nd" and i: "i < TRIE_N" and free: "kid h a i = NULL"
  shows "trie_inv (grown h a i c) r"
proof -
  note k = grown_kid [OF inv a i, of c]
  have "tnodes h (tbrk h) = None" "r \<noteq> tbrk h" using inv by (auto simp: trie_inv_def)
  moreover from this(1) have "kid h x j \<noteq> Some (tbrk h)" for x j using kid_live [OF inv] by blast
  ultimately have fresh: "tnodes h (tbrk h) = None" "kid h x j \<noteq> Some (tbrk h)" "r \<noteq> tbrk h" for x j by auto
  have live: "tnodes (grown h a i c) x \<noteq> None \<longleftrightarrow> x = tbrk h \<or> tnodes h x \<noteq> None" for x
    using a by (auto simp: grown_def)
  have "tnodes (grown h a i c) r \<noteq> None" using inv live by (auto simp: trie_inv_def)
  moreover have "\<forall>x\<ge>tbrk (grown h a i c). tnodes (grown h a i c) x = None"
    using inv a live by (auto simp: trie_inv_def grown_def)
  moreover have "length (children n) = TRIE_N" if "tnodes (grown h a i c) x = Some n" for x n
    using inv a that by (auto simp: trie_inv_def grown_def split: if_splits)
  moreover have "tnodes (grown h a i c) y \<noteq> None \<and> y \<noteq> r" if "kid (grown h a i c) x j = Some y" for x j y
    using that live kid_live [OF inv] kid_not_root [OF inv] fresh unfolding k by (auto split: if_splits)
  moreover have "x = x' \<and> j = j'" if "kid (grown h a i c) x j = Some y" "kid (grown h a i c) x' j' = Some y" for x j x' j' y
    using that fresh kid_inj [OF inv] unfolding k by (auto split: if_splits)
  moreover have "\<exists>is. walk (grown h a i c) r is = Some x" if x: "tnodes (grown h a i c) x \<noteq> None" for x
  proof (cases "x = tbrk h")
    case True
    obtain "is" where "walk h r is = Some a" using reached [OF inv, of a] a by auto
    then have "walk (grown h a i c) r (is @ [i]) = Some x"
      using grown_walk(1) [OF assms, where c = c] True k by (simp add: walk_append)
    then show ?thesis by blast
  next
    case False
    then obtain "is" where "walk h r is = Some x" using x live reached [OF inv] by blast
    then show ?thesis using grown_walk(1) [OF assms, where c = c] by blast
  qed
  ultimately show ?thesis unfolding trie_inv_def by (intro conjI) blast+
qed

lemma trie_words_leaf:
  "trie_words h r = {w. list_all isdigit w \<and> (\<exists>b. walk h r (map ix w) = Some b \<and> (\<exists>nd. tnodes h b = Some nd \<and> is_leaf nd = 1))}"
  by (simp add: trie_words_def)

lemma grown_words:
  assumes inv: "trie_inv h r" and a: "tnodes h a = Some nd" and i: "i < TRIE_N" and free: "kid h a i = NULL"
  shows "trie_words (grown h a i c) r = trie_words h r"
proof -
  let ?leaf = "\<lambda>h y. \<exists>n. tnodes h y = Some n \<and> is_leaf n = 1"
  have ne: "a \<noteq> tbrk h" "tnodes h (tbrk h) = None" using inv a by (auto simp: trie_inv_def)
  then have leaf: "?leaf (grown h a i c) y \<longleftrightarrow> ?leaf h y" and new: "\<not> ?leaf h (tbrk h)" for y
    using a by (auto simp: grown_def)
  have "(\<exists>y. walk (grown h a i c) r is = Some y \<and> ?leaf h y) \<longleftrightarrow> (\<exists>y. walk h r is = Some y \<and> ?leaf h y)" for "is"
    using grown_walk(1) [OF assms, where c = c] grown_walk(2) [OF assms, where c = c] new by blast
  then show ?thesis by (simp only: trie_words_leaf leaf)
qed

lemma insert_loop_path:
  assumes "trie_inv h r" and "walk h r is = Some a" and "list_all isdigit cs" and "\<And>x. calloc_ok x"
  shows "\<exists>b h'. insert_loop calloc_ok (Some a) cs h = Some (Some b, h') \<and> trie_inv h' r \<and>
    walk h' r (is @ map ix cs) = Some b \<and> trie_words h' r = trie_words h r"
  using assms(1,2,3)
proof (induction cs arbitrary: h a "is")
  case (Cons c cs)
  have "tnodes h r \<noteq> None" using Cons.prems(1) by (simp add: trie_inv_def)
  then obtain nd where nd: "tnodes h a = Some nd" using walk_live [OF Cons.prems(1,2)] by auto
  have c: "isdigit c" "ix c < TRIE_N" using Cons.prems(3) char_index_digit by auto
  have "\<exists>b h1. insert_loop calloc_ok (Some a) (c # cs) h = insert_loop calloc_ok (Some b) cs h1 \<and> trie_inv h1 r \<and>
    walk h1 r (is @ [ix c]) = Some b \<and> trie_words h1 r = trie_words h r"
  proof (cases "kid h a (ix c)")
    case (Some b)
    then show ?thesis using Cons.prems nd child_kid [OF Cons.prems(1) nd c(1)]
      by (intro exI [of _ b] exI [of _ h]) (simp add: walk_append)
  next
    case None
    note g = Cons.prems(1) nd c(2) None
    have "walk (grown h a (ix c) c) r (is @ [ix c]) = Some (tbrk h)"
      using grown_walk(1) [OF g Cons.prems(2)] grown_kid [OF Cons.prems(1) nd c(2)] by (simp add: walk_append)
    then show ?thesis using grown_step [where calloc_ok = calloc_ok and cs = cs, OF Cons.prems(1) nd c(1) None assms(4)]
        grown_inv [OF g] grown_words [OF g] by blast
  qed
  then show ?case using Cons.IH Cons.prems(3) by fastforce
qed simp

lemma mark_word:
  assumes "\<And>v. D v \<Longrightarrow> f v = Some b \<Longrightarrow> v = w" and "D w" and "f w = Some b"
  shows "{v. D v \<and> (\<exists>y. f v = Some y \<and> (y = b \<or> L y))} = insert w {v. D v \<and> (\<exists>y. f v = Some y \<and> L y)}"
  using assms by blast

lemma insert_trie_adds:
  assumes inv: "trie_inv h r" and w: "list_all isdigit w" and ok: "\<And>x. calloc_ok x"
  shows "\<exists>h'. insert_trie calloc_ok (Some r) w h = Some (Some r, h') \<and> trie_inv h' r \<and> trie_words h' r = insert w (trie_words h r)"
proof -
  from insert_loop_path [OF inv, of "[]" r w calloc_ok] w ok obtain b h1 where
    l: "insert_loop calloc_ok (Some r) w h = Some (Some b, h1)" and inv1: "trie_inv h1 r" and b: "walk h1 r (map ix w) = Some b"
    and words: "trie_words h1 r = trie_words h r" by auto
  have "tnodes h1 r \<noteq> None" using inv1 by (simp add: trie_inv_def)
  then obtain nd where nd: "tnodes h1 b = Some nd" using walk_live [OF inv1 b] by auto
  define h' where "h' = h1\<lparr>tnodes := (tnodes h1)(b \<mapsto> nd\<lparr>is_leaf := 1\<rparr>)\<rparr>"
  have k: "kid h' x j = kid h1 x j" for x j using nd by (simp add: kid_def h'_def)
  have wk: "walk h' x is = walk h1 x is" for x "is" by (induction "is" arbitrary: x) (simp_all add: k)
  have "trie_inv h' r" using inv1 nd unfolding trie_inv_def k wk by (auto simp: h'_def)
  moreover have "trie_words h' r = insert w (trie_words h1 r)"
  proof -
    have uniq: "v = w" if "list_all isdigit v" "walk h1 r (map ix v) = Some b" for v
      using map_ix_inj [OF that(1) w walk_inj [OF inv1 that(2) b]] .
    moreover have leaf: "(\<exists>n. tnodes h' y = Some n \<and> is_leaf n = 1) \<longleftrightarrow> y = b \<or> (\<exists>n. tnodes h1 y = Some n \<and> is_leaf n = 1)" for y
      by (simp add: h'_def)
    ultimately show ?thesis unfolding trie_words_leaf wk leaf by (intro mark_word uniq w b)
  qed
  ultimately show ?thesis using l nd words by (auto simp: insert_trie_def h'_def)
qed

lemma new_trie:
  assumes "calloc_ok 0"
  shows "\<exists>h. make_trienode calloc_ok c \<lparr>tnodes = Map.empty, tbrk = 0\<rparr> = Some (Some 0, h) \<and> trie_inv h 0 \<and> trie_words h 0 = {}"
proof -
  define h where "h = \<lparr>tnodes = [0 \<mapsto> \<lparr>t_data = c, children = replicate TRIE_N NULL, is_leaf = 0\<rparr>], tbrk = 1\<rparr>"
  have k: "kid h a i = NULL" for a i by (simp add: kid_def h_def)
  then have "walk h 0 is = Some b \<Longrightarrow> b = 0" for "is" b by (cases "is") simp_all
  then have "trie_words h 0 = {}" by (fastforce simp: trie_words_def h_def split: if_splits)
  moreover have "\<exists>is. walk h 0 is = Some 0" using walk.simps(1) [of h 0] by blast
  moreover have "tnodes h a = (if a = 0 then Some \<lparr>t_data = c, children = replicate TRIE_N NULL, is_leaf = 0\<rparr> else None)" "tbrk h = 1" for a
    by (simp_all add: h_def)
  ultimately have "trie_words h 0 = {}" "trie_inv h 0" by (auto simp: trie_inv_def k)
  then show ?thesis using assms by (simp add: make_trienode_def h_def)
qed

text \<open>The trie as a set of words: the state is a root and a heap.\<close>

definition trie_set :: "ptr \<times> trie_heap \<Rightarrow> string set \<Rightarrow> bool" where
  "trie_set s W \<longleftrightarrow> (\<exists>r. fst s = Some r \<and> trie_inv (snd s) r \<and> trie_words (snd s) r = W)"

interpretation ts: word_set trie_set "list_all isdigit" "\<lambda>w (root, h). insert_trie (\<lambda>_. True) root w h" "\<lambda>w (root, h). search_trie root w h"
proof
  fix s W w
  assume s: "trie_set s W" and w: "list_all isdigit w"
  then obtain r h where r: "s = (Some r, h)" "trie_inv h r" "trie_words h r = W" by (cases s) (auto simp: trie_set_def)
  show "\<exists>s'. (case s of (root, h) \<Rightarrow> insert_trie (\<lambda>_. True) root w h) = Some s' \<and> trie_set s' (insert w W)"
    using insert_trie_adds [OF r(2) w, of "\<lambda>_. True"] r by (auto simp: trie_set_def)
  have "tnodes h r \<noteq> None" using r(2) by (simp add: trie_inv_def)
  then show "(case s of (root, h) \<Rightarrow> search_trie root w h) = Some (if w \<in> W then 1 else 0)"
    using search_trie_walk [OF r(2) _ w, of r] r w by (auto simp: trie_words_def)
qed

subsection \<open>Releasing\<close>

definition below :: "trie_heap \<Rightarrow> nat \<Rightarrow> nat set" where
  "below h a = {b. \<exists>is. walk h a is = Some b}"

lemma below_kids: "below h a = insert a (\<Union>i. \<Union>b \<in> set_option (kid h a i). below h b)"
proof (intro set_eqI iffI)
  fix x assume "x \<in> below h a"
  then obtain "is" where "walk h a is = Some x" by (auto simp: below_def)
  then show "x \<in> insert a (\<Union>i. \<Union>b \<in> set_option (kid h a i). below h b)"
    by (cases "is") (auto simp: below_def split: bind_splits)
next
  fix x assume "x \<in> insert a (\<Union>i. \<Union>b \<in> set_option (kid h a i). below h b)"
  then consider "x = a" | i b "is" where "kid h a i = Some b" "walk h b is = Some x" by (auto simp: below_def)
  then show "x \<in> below h a"
  proof cases
    case 1
    have "walk h a [] = Some a" by simp
    then show ?thesis using 1 unfolding below_def by blast
  next
    case 2
    then have "walk h a (i # is) = Some x" by simp
    then show ?thesis unfolding below_def by blast
  qed
qed

lemma below_disjoint:
  assumes inv: "trie_inv h r" and a: "walk h r us = Some a" and b: "kid h a i = Some b"
  shows "a \<notin> below h b" and "kid h a j = Some c \<Longrightarrow> i \<noteq> j \<Longrightarrow> below h b \<inter> below h c = {}"
proof -
  have path: "walk h r (us @ j # js) = Some x" if "kid h a j = Some c" "walk h c js = Some x" for j c js x
    using a that by (simp add: walk_append)
  show "a \<notin> below h b"
  proof
    assume "a \<in> below h b"
    then obtain js where "walk h b js = Some a" by (auto simp: below_def)
    from walk_inj [OF inv path [OF b this] a] show False by simp
  qed
  assume c: "kid h a j = Some c" "i \<noteq> j"
  show "below h b \<inter> below h c = {}"
  proof (intro equals0I)
    fix x assume "x \<in> below h b \<inter> below h c"
    then obtain js ks where "walk h b js = Some x" "walk h c ks = Some x" by (auto simp: below_def)
    from walk_inj [OF inv path [OF b this(1)] path [OF c(1) this(2)]] c(2) show False by simp
  qed
qed

lemma below_finite: "trie_inv h r \<Longrightarrow> tnodes h a \<noteq> None \<Longrightarrow> finite (below h a)"
proof (rule finite_subset)
  assume inv: "trie_inv h r" and a: "tnodes h a \<noteq> None"
  show "below h a \<subseteq> {..<tbrk h}"
  proof
    fix x assume "x \<in> below h a"
    then have "tnodes h x \<noteq> None" using walk_live [OF inv _ a] by (auto simp: below_def)
    then show "x \<in> {..<tbrk h}" using inv by (meson lessThan_iff not_le trie_inv_def)
  qed
qed simp

text \<open>From the child \<open>i\<close> on: the nodes below the first \<open>i\<close> children are freed already.\<close>

lemma free_loop_frees:
  assumes inv: "trie_inv h r"
  shows "walk h r us = Some a \<Longrightarrow> i \<le> TRIE_N \<Longrightarrow> F \<inter> below h a = (\<Union>j<i. \<Union>b \<in> set_option (kid h a j). below h b) \<Longrightarrow>
    free_loop (Some a) i (h\<lparr>tnodes := tnodes h |` (- F)\<rparr>) = Some (h\<lparr>tnodes := tnodes h |` (- (F \<union> below h a))\<rparr>)"
proof (induction "card (below h a)" arbitrary: a us i F rule: less_induct)
  case less
  have "tnodes h r \<noteq> None" using inv by (simp add: trie_inv_def)
  then obtain nd where nd: "tnodes h a = Some nd" using walk_live [OF inv less.prems(1)] by auto
  have ten: "length (children nd) = TRIE_N" using inv nd by (simp add: trie_inv_def)
  have self: "a \<in> below h a" and sub: "kid h a j = Some b \<Longrightarrow> below h b \<subseteq> below h a" for j b
    using below_kids [of h a] by auto
  have out: "a \<notin> below h b" if "kid h a j = Some b" for j b using below_disjoint(1) [OF inv less.prems(1) that] .
  have live: "(tnodes h |` (- G)) a = Some nd" if "G \<inter> below h a = (\<Union>j<i. \<Union>b \<in> set_option (kid h a j). below h b)" for G i
  proof -
    have "a \<notin> G" using that self out by blast
    then show ?thesis using nd by simp
  qed
  show ?case using less.prems(2,3)
  proof (induction "TRIE_N - i" arbitrary: i F)
    case 0
    have "(\<Union>i. \<Union>b \<in> set_option (kid h a i). below h b) = (\<Union>j<i. \<Union>b \<in> set_option (kid h a j). below h b)"
      using 0 ten nd by (fastforce simp: kid_def split: if_splits)
    then have "below h a = insert a (F \<inter> below h a)" by (subst 0(3), subst below_kids) simp
    then have "F \<union> below h a = insert a F" by auto
    moreover have "tnodes h |` (- insert a F) = (tnodes h |` (- F))(a := None)" by (auto simp: restrict_map_def fun_eq_iff)
    moreover have "\<not> i < TRIE_N" using 0(1) by simp
    ultimately show ?case using live [OF 0(3)] by (subst free_loop.simps) simp
  next
    case (Suc k)
    then have i: "i < TRIE_N" by simp
    have kid: "children nd ! i = kid h a i" using nd ten i by (simp add: kid_def)
    have step: "free_loop (Some a) i (h\<lparr>tnodes := tnodes h |` (- F)\<rparr>) = do {
        g \<leftarrow> (if kid h a i \<noteq> NULL then free_loop (kid h a i) 0 (h\<lparr>tnodes := tnodes h |` (- F)\<rparr>) else Some (h\<lparr>tnodes := tnodes h |` (- F)\<rparr>));
        free_loop (Some a) (i + 1) g }"
      using live [OF Suc.prems(2)] i ten kid by (subst free_loop.simps) simp
    show ?case
    proof (cases "kid h a i")
      case None
      then have "F \<inter> below h a = (\<Union>j<i + 1. \<Union>b \<in> set_option (kid h a j). below h b)" using Suc.prems(2) by (simp add: lessThan_Suc)
      then show ?thesis using Suc.hyps(1) [of "i + 1" F] Suc.hyps(2) i None step by simp
    next
      case (Some b)
      have "below h b \<subset> below h a" using sub [OF Some] self out [OF Some] by blast
      then have small: "card (below h b) < card (below h a)" using below_finite [OF inv, of a] nd by (simp add: psubset_card_mono)
      have "below h b \<inter> below h c = {}" if "j < i" "kid h a j = Some c" for j c
        using below_disjoint(2) [OF inv less.prems(1) Some that(2)] that(1) by simp
      then have "(\<Union>j<i. \<Union>c \<in> set_option (kid h a j). below h c) \<inter> below h b = {}" by auto
      then have dis: "F \<inter> below h b = {}" using sub [OF Some] unfolding Suc.prems(2) [symmetric] by blast
      have "walk h r (us @ [i]) = Some b" using less.prems(1) Some by (simp add: walk_append)
      from less.hyps [OF small this, of 0 F] dis
      have freed: "free_loop (Some b) 0 (h\<lparr>tnodes := tnodes h |` (- F)\<rparr>) = Some (h\<lparr>tnodes := tnodes h |` (- (F \<union> below h b))\<rparr>)" by simp
      have "(F \<union> below h b) \<inter> below h a = (\<Union>j<i + 1. \<Union>b \<in> set_option (kid h a j). below h b)"
        using Suc.prems(2) sub [OF Some] Some by (auto simp: lessThan_Suc)
      from Suc.hyps(1) [OF _ _ this] Suc.hyps(2) i
      have "free_loop (Some a) (i + 1) (h\<lparr>tnodes := tnodes h |` (- (F \<union> below h b))\<rparr>) =
          Some (h\<lparr>tnodes := tnodes h |` (- (F \<union> below h b \<union> below h a))\<rparr>)" by simp
      moreover have "F \<union> below h b \<union> below h a = F \<union> below h a" using sub [OF Some] by blast
      ultimately show ?thesis using step freed Some by simp
    qed
  qed
qed

lemma free_trienode_frees:
  assumes "trie_inv h r"
  shows "free_trienode (Some r) h = Some (h\<lparr>tnodes := Map.empty\<rparr>)"
proof -
  have "h\<lparr>tnodes := tnodes h |` (- {})\<rparr> = h" by (simp add: restrict_map_def)
  moreover have "tnodes h |` (- below h r) = Map.empty"
    using assms by (fastforce simp: restrict_map_def fun_eq_iff trie_inv_def below_def)
  ultimately show ?thesis using free_loop_frees [OF assms, of "[]" r 0 "{}"] by (simp add: free_trienode_def)
qed

subsection \<open>Properties\<close>

lemma put_all_root:
  "put_all (\<lambda>w (root, h). insert_trie calloc_ok root w h) ws (root, h) = Some (root', h') \<Longrightarrow> root' = root"
  by (induction ws arbitrary: h) (auto simp: insert_trie_def split: bind_splits)

lemma trie_built:
  assumes "list_all (list_all isdigit) ws"
  obtains h0 h where "make_trienode (\<lambda>_. True) NUL \<lparr>tnodes = Map.empty, tbrk = 0\<rparr> = Some (Some 0, h0)"
    and "put_all (\<lambda>w (root, h). insert_trie (\<lambda>_. True) root w h) ws (Some 0, h0) = Some (Some 0, h)"
    and "trie_set (Some 0, h) (set ws)"
proof -
  obtain h0 where h0: "make_trienode (\<lambda>_. True) NUL \<lparr>tnodes = Map.empty, tbrk = 0\<rparr> = Some (Some 0, h0)" "trie_set (Some 0, h0) {}"
    using new_trie [of "\<lambda>_. True" NUL] by (auto simp: trie_set_def)
  from ts.put_all_inv [OF this(2) assms] obtain s where
    s: "put_all (\<lambda>w (root, h). insert_trie (\<lambda>_. True) root w h) ws (Some 0, h0) = Some s" "trie_set s (set ws)" by auto
  obtain h where "s = (Some 0, h)" using put_all_root s(1) by (cases s) metis
  then show thesis using that [OF h0(1), of h] s by simp
qed

text \<open>Property C29: the trie is a set of words.  After any words of digits have been inserted into a new trie, a search for
  a word of digits answers 1 if the word is among them and 0 otherwise, and releasing the root frees every
  node of the heap.\<close>

theorem trie_is_set:
  assumes "list_all (list_all isdigit) ws"
  shows "\<exists>h0 h. make_trienode (\<lambda>_. True) NUL \<lparr>tnodes = Map.empty, tbrk = 0\<rparr> = Some (Some 0, h0) \<and>
    put_all (\<lambda>w (root, h). insert_trie (\<lambda>_. True) root w h) ws (Some 0, h0) = Some (Some 0, h) \<and>
    (\<forall>w. list_all isdigit w \<longrightarrow> search_trie (Some 0) w h = Some (if w \<in> set ws then 1 else 0)) \<and>
    free_trienode (Some 0) h = Some (h\<lparr>tnodes := Map.empty\<rparr>)"
proof -
  obtain h0 h where h: "make_trienode (\<lambda>_. True) NUL \<lparr>tnodes = Map.empty, tbrk = 0\<rparr> = Some (Some 0, h0)"
    "put_all (\<lambda>w (root, h). insert_trie (\<lambda>_. True) root w h) ws (Some 0, h0) = Some (Some 0, h)" "trie_set (Some 0, h) (set ws)"
    using trie_built [OF assms] .
  have "free_trienode (Some 0) h = Some (h\<lparr>tnodes := Map.empty\<rparr>)" using h(3) free_trienode_frees by (auto simp: trie_set_def)
  then show ?thesis using h(1,2) ts.search_law [OF h(3)] by auto
qed

theorem trie_is_set_witness:
  "\<exists>h. search_trie (Some 0) ''61500'' h = Some 1 \<and> search_trie (Some 0) ''615'' h = Some 0 \<and>
     free_trienode (Some 0) h = Some (h\<lparr>tnodes := Map.empty\<rparr>)"
proof -
  have d: "list_all (list_all isdigit) [''61500'', ''61301'']" "list_all isdigit ''61500''" "list_all isdigit ''615''"
    by (simp_all add: isdigit_def)
  from trie_is_set [OF d(1)] obtain h where
    "\<forall>w. list_all isdigit w \<longrightarrow> search_trie (Some 0) w h = Some (if w \<in> set [''61500'', ''61301''] then 1 else 0)"
    "free_trienode (Some 0) h = Some (h\<lparr>tnodes := Map.empty\<rparr>)" by blast
  with d show ?thesis by (intro exI [of _ h]) (auto simp del: search_trie.simps)
qed

lemma fill_loop_put:
  "\<forall>i\<in>set is. i < max_int \<Longrightarrow>
   fill_loop calloc_ok is root h = put_all (\<lambda>w (root, h). insert_trie calloc_ok root w h) (map dec is) (root, h)"
proof (induction "is" arbitrary: root h)
  case (Cons i "is")
  have "length (dec i) < 10" using length_dec_less [of i 5] Cons.prems by (simp add: max_int_def)
  then show ?case using Cons by (simp split: bind_split)
qed simp

lemma dval_less: "list_all isdigit l \<Longrightarrow> 0 \<le> v \<Longrightarrow> 0 \<le> dval v l \<and> dval v l < (v + 1) * 10 ^ length l"
proof (induction l arbitrary: v)
  case (Cons c l)
  have c: "48 \<le> (of_char c :: int)" "(of_char c :: int) \<le> 57"
    using Cons.prems(1) isdigit_int [of c] by (simp_all add: isdigit_def of_nat_of_char [symmetric, where 'a = int] del: of_nat_of_char)
  define u where "u = v * 10 + of_char c - 48"
  have "dval u l < (u + 1) * 10 ^ length l" "0 \<le> dval u l"
    using Cons.IH [of u] Cons.prems c by (auto simp: u_def)
  note this(1)
  also have "(u + 1) * 10 ^ length l \<le> ((v + 1) * 10) * 10 ^ length l"
    using c by (intro mult_right_mono) (auto simp: u_def)
  also have "\<dots> = (v + 1) * 10 ^ length (c # l)" by simp
  finally have "dval u l < (v + 1) * 10 ^ length (c # l)" .
  then show ?case using \<open>0 \<le> dval u l\<close> by (simp add: u_def)
qed simp

text \<open>A line of at most nine digits, and the test for its end.\<close>

lemma line_number:
  assumes "list_all isdigit l" and "length l < 10"
  shows "(word_of_int (atol l) :: 32 word) = 0 \<longleftrightarrow> dval 0 l = 0"
proof -
  have b: "0 \<le> dval 0 l" "dval 0 l < 10 ^ 9"
    using dval_less [OF assms(1), of 0] power_increasing [of "length l" 9 "10 :: int"] assms(2) by auto
  have "atol l = dval 0 l"
  proof (cases "l = []")
    case False
    then show ?thesis using atol_number [OF assms(1) False, of "[]"] b by simp
  qed (simp add: atol_def)
  then show ?thesis using b by (auto simp: word_of_int_eq_0_iff dest: zdvd_imp_le)
qed

lemma query_loop_answers:
  assumes s: "trie_set (root, h) W" and q: "list_all (\<lambda>l. list_all isdigit l \<and> length l < 10 \<and> dval 0 l \<noteq> 0) qs"
    and l0: "list_all isdigit l0" "length l0 < 10" "dval 0 l0 = 0"
  shows "query_loop root (qs @ l0 # rest) h = Some (map (\<lambda>l. if l \<in> W then 1 else 0) (qs @ [l0]))"
  using q
proof (induction qs)
  case Nil
  show ?case using ts.search_law [OF s l0(1)] line_number [OF l0(1,2)] l0 by simp
next
  case (Cons q qs)
  then show ?case using ts.search_law [OF s, of q] line_number [of q] by simp
qed

text \<open>The program answers its queries.  It fills the trie with the numbers below 100000 and then answers
  every line of up to nine digits, up to the first with the value 0: with 1 if it is the decimal text of a
  number below 100000, and with 0 otherwise.\<close>

theorem trie_main_answers:
  assumes "list_all (\<lambda>l. list_all isdigit l \<and> length l < 10 \<and> dval 0 l \<noteq> 0) qs"
    and "list_all isdigit l0" and "length l0 < 10" and "dval 0 l0 = 0"
  shows "trie_main (\<lambda>_. True) (qs @ l0 # rest) = Some (map (\<lambda>l. if l \<in> dec ` {..<max_int} then 1 else 0) (qs @ [l0]))"
proof -
  have "list_all (list_all isdigit) (map dec [0..<max_int])" by (simp add: list_all_iff dec_no_special)
  from trie_built [OF this] obtain h0 h where h: "make_trienode (\<lambda>_. True) NUL \<lparr>tnodes = Map.empty, tbrk = 0\<rparr> = Some (Some 0, h0)"
    "put_all (\<lambda>w (root, h). insert_trie (\<lambda>_. True) root w h) (map dec [0..<max_int]) (Some 0, h0) = Some (Some 0, h)"
    "trie_set (Some 0, h) (set (map dec [0..<max_int]))" .
  have "fill_loop (\<lambda>_. True) [0..<max_int] (Some 0) h0 = Some (Some 0, h)" using fill_loop_put [of "[0..<max_int]"] h(2) by simp
  moreover have "set (map dec [0..<max_int]) = dec ` {..<max_int}" by (simp add: lessThan_atLeast0)
  ultimately show ?thesis using h(1) query_loop_answers [OF h(3) assms, of rest] by (simp add: trie_main_def)
qed

theorem trie_main_answers_witness:
  "trie_main (\<lambda>_. True) [''61500'', ''007'', ''0''] = Some [1, 0, 1]"
proof -
  have run: "trie_main (\<lambda>_. True) ([''61500'', ''007''] @ ''0'' # []) =
      Some (map (\<lambda>l. if l \<in> dec ` {..<max_int} then 1 else 0) ([''61500'', ''007''] @ [''0'']))"
    by (rule trie_main_answers) (simp_all add: isdigit_def)
  have "dec 61500 = ''61500''" "dec 0 = ''0''" "dec 7 = ''7''" by (simp_all add: dec.simps digit_char_def char_of_def bit_0)
  have "''007'' \<noteq> dec i" for i
  proof
    assume e: "''007'' = dec i"
    then have "dval 0 ''007'' = int i" by (metis dval_dec)
    then have "i = 7" by simp
    then show False using e \<open>dec 7 = ''7''\<close> by simp
  qed
  then have "''007'' \<notin> dec ` {..<max_int}" by blast
  moreover have "61500 \<in> {..<max_int}" "0 \<in> {..<max_int}" by (simp_all add: max_int_def)
  ultimately have "''007'' \<notin> dec ` {..<max_int}" "''61500'' \<in> dec ` {..<max_int}" "''0'' \<in> dec ` {..<max_int}"
    using \<open>dec 61500 = _\<close> \<open>dec 0 = _\<close> by (metis imageI)+
  then show ?thesis using run by simp
qed

text \<open>A character that is not a digit reads outside the children of a node.\<close>

theorem search_reads_outside:
  assumes "trie_inv h r" and "\<not> isdigit c"
  shows "search_trie (Some r) (c # cs) h = None"
proof -
  obtain nd where nd: "tnodes h r = Some nd" "length (children nd) = TRIE_N" using assms(1) by (auto simp: trie_inv_def)
  have "char_index c < 0 \<or> 10 \<le> char_index c"
  proof (rule ccontr)
    assume "\<not> (char_index c < 0 \<or> 10 \<le> char_index c)"
    moreover have "(of_char c :: int) < 256" by (metis of_char_mod_256 pos_mod_bound zero_less_numeral)
    ultimately have "48 \<le> (of_char c :: int)" "(of_char c :: int) \<le> 57" by (auto simp: char_index_def split: if_splits)
    then have "isdigit c" by (simp add: isdigit_def of_nat_of_char [symmetric, where 'a = int] del: of_nat_of_char)
    then show False using assms(2) by simp
  qed
  then show ?thesis using nd by (auto simp: child_def c_nth_def TRIE_N_def)
qed

end
