(* ===== verification/ArraySearch.thy ===== *)
theory ArraySearch
  imports Prelude
begin

text \<open>
  The sorted array of \<^verbatim>\<open>array_test.c\<close>, the simplest of the compared databases, with its binary search.  The
  array holds the numbers from 1 to 100000.  The midpoint lies between the bounds, so no operation
  leaves the range of \<^verbatim>\<open>int\<close> for an array of that size, and the integers are unbounded here.

  The properties: the search is right on every sorted array, and the program reports every value as found.
\<close>

subsection \<open>The code\<close>

function binarySearch :: "int list \<Rightarrow> int \<Rightarrow> int \<Rightarrow> int \<Rightarrow> int option" where
  "binarySearch arr l r x =
     (if r \<ge> l then do {
        let mid = l + (r - l) div 2;
        c_assert (0 \<le> mid);
        v \<leftarrow> c_nth arr (nat mid);
        if v = x then Some mid
        else if v > x then binarySearch arr l (mid - 1) x
        else binarySearch arr (mid + 1) r x
      }
      else Some (-1))"
  by pat_completeness auto
termination by (relation "measure (\<lambda>(arr, l, r, x). nat (r - l + 1))") auto

declare binarySearch.simps [simp del]

definition MAX_CNT :: nat where "MAX_CNT = 100000"

text \<open>The result of the search is overwritten with \<^verbatim>\<open>found\<close>.  The values are the printed index, or \<^verbatim>\<open>-1\<close> for a missing
  element, and whether the value is reported as found.\<close>

definition array_main :: "int \<Rightarrow> (int \<times> bool) option" where
  "array_main find_val = do {
     let as_list = map (\<lambda>i. int i + 1) [0..<MAX_CNT];
     let found = (0 :: int);
     let n = int (length as_list);
     let x = find_val;
     result \<leftarrow> binarySearch as_list 0 (n - 1) x;
     let result = found;
     let found = (if result \<noteq> -1 then 1 else found);
     Some (result, found \<noteq> 0)
   }"

subsection \<open>Properties\<close>

lemma mid_bounds: "l \<le> r \<Longrightarrow> l \<le> l + (r - l) div 2 \<and> l + (r - l) div 2 \<le> (r :: int)"
  by auto

lemma sorted_nth_int:
  "sorted arr \<Longrightarrow> 0 \<le> i \<Longrightarrow> i \<le> j \<Longrightarrow> j < int (length arr) \<Longrightarrow> arr ! nat i \<le> (arr ! nat j :: int)"
  by (rule sorted_nth_mono) auto

text \<open>The search never reads outside the array, sorted or not, and it ends.\<close>

lemma binarySearch_total:
  "0 \<le> l \<Longrightarrow> r < int (length arr) \<Longrightarrow> \<exists>m. binarySearch arr l r x = Some m"
proof (induction arr l r x rule: binarySearch.induct)
  case (1 arr l r x)
  show ?case
  proof (cases "l \<le> r")
    case True
    define mid where "mid = l + (r - l) div 2"
    have m: "0 \<le> mid" "nat mid < length arr" "mid \<le> r" "l \<le> mid" using mid_bounds [OF True] 1(3,4) by (auto simp: mid_def)
    consider "arr ! nat mid = x" | "arr ! nat mid > x" | "arr ! nat mid < x" by linarith
    then show ?thesis
    proof cases
      case 1
      then show ?thesis using True m by (subst binarySearch.simps) (simp add: mid_def [symmetric])
    next
      case 2
      then have "\<exists>k. binarySearch arr l (mid - 1) x = Some k" using 1(1) [OF True mid_def] 1(3,4) m by simp
      then show ?thesis using True m 2 by (subst binarySearch.simps) (simp add: mid_def [symmetric])
    next
      case 3
      then have "\<exists>k. binarySearch arr (mid + 1) r x = Some k" using 1(2) [OF True mid_def] 1(3,4) m by simp
      then show ?thesis using True m 3 by (subst binarySearch.simps) (simp add: mid_def [symmetric])
    qed
  next
    case False
    then show ?thesis by (subst binarySearch.simps) simp
  qed
qed

lemma binarySearch_sound: "binarySearch arr l r x = Some m \<Longrightarrow> m \<noteq> -1 \<Longrightarrow> l \<le> m \<and> m \<le> r \<and> 0 \<le> m \<and> m < int (length arr) \<and> arr ! nat m = x"
proof (induction arr l r x rule: binarySearch.induct)
  case (1 arr l r x)
  define mid where "mid = l + (r - l) div 2"
  show ?case
  proof (cases "l \<le> r")
    case True
    have m: "l \<le> mid" "mid \<le> r" using mid_bounds [OF True] by (simp_all add: mid_def)
    from 1(3) True have "0 \<le> mid" and "nat mid < length arr" and
      "(if arr ! nat mid = x then Some mid else if arr ! nat mid > x then binarySearch arr l (mid - 1) x else binarySearch arr (mid + 1) r x) = Some m"
      by (auto simp: binarySearch.simps [of arr l r x] mid_def [symmetric] Let_def c_nth_def split: if_splits)
    then show ?thesis using 1(1) [OF True mid_def] 1(2) [OF True mid_def] 1(4) m by (fastforce split: if_splits)
  next
    case False
    then show ?thesis using 1(3,4) by (simp add: binarySearch.simps [of arr l r x])
  qed
qed

lemma binarySearch_complete:
  "sorted arr \<Longrightarrow> 0 \<le> l \<Longrightarrow> r < int (length arr) \<Longrightarrow> binarySearch arr l r x = Some (-1) \<Longrightarrow> l \<le> i \<Longrightarrow> i \<le> r \<Longrightarrow> arr ! nat i \<noteq> x"
proof (induction arr l r x arbitrary: i rule: binarySearch.induct)
  case (1 arr l r x)
  define mid where "mid = l + (r - l) div 2"
  have le: "l \<le> r" using 1(7,8) by simp
  have m: "l \<le> mid" "mid \<le> r" "0 \<le> mid" "nat mid < length arr" using mid_bounds [OF le] 1(4,5) by (auto simp: mid_def)
  have run: "(if arr ! nat mid = x then Some mid else if arr ! nat mid > x then binarySearch arr l (mid - 1) x else binarySearch arr (mid + 1) r x) = Some (-1)"
    using 1(6) le m by (simp add: binarySearch.simps [of arr l r x] mid_def [symmetric] Let_def)
  have "arr ! nat mid \<noteq> x" using run m(3) by auto
  then consider "arr ! nat mid > x" | "arr ! nat mid < x" by linarith
  then show ?case
  proof cases
    case 1
    show ?thesis
    proof (cases "i < mid")
      case True
      then show ?thesis using "1.IH"(1) [OF le mid_def] run 1 m "1.prems" by auto
    next
      case False
      then show ?thesis using sorted_nth_int [of arr mid i] 1 m "1.prems" by auto
    qed
  next
    case 2
    show ?thesis
    proof (cases "mid < i")
      case True
      then show ?thesis using "1.IH"(2) [OF le mid_def] run 2 m "1.prems" by auto
    next
      case False
      then show ?thesis using sorted_nth_int [of arr i mid] 2 m "1.prems" by auto
    qed
  qed
qed

text \<open>Binary search is right.  On a sorted array, with bounds inside it, the search ends without reading outside
  the array; it gives the index of an element with the value if there is one between the bounds, and
  \<open>-1\<close> otherwise.\<close>

theorem binarySearch_correct:
  assumes "sorted arr" and "0 \<le> l" and "r < int (length arr)"
  shows "\<exists>m. binarySearch arr l r x = Some m \<and>
    (if \<exists>i. l \<le> i \<and> i \<le> r \<and> arr ! nat i = x then l \<le> m \<and> m \<le> r \<and> arr ! nat m = x else m = -1)"
proof -
  obtain m where m: "binarySearch arr l r x = Some m" using binarySearch_total [OF assms(2,3)] by blast
  show ?thesis
  proof (cases "m = -1")
    case True
    then show ?thesis using m binarySearch_complete [OF assms] by auto
  next
    case False
    then show ?thesis using m binarySearch_sound [OF m False] by auto
  qed
qed

theorem binarySearch_correct_witness:
  "\<exists>m. binarySearch [2, 3, 4, 10, 40] 0 4 10 = Some m \<and> 0 \<le> m \<and> m \<le> 4 \<and> [2, 3, 4, 10, 40] ! nat m = (10 :: int)"
proof -
  have "\<exists>i. 0 \<le> i \<and> i \<le> 4 \<and> [2, 3, 4, 10, 40] ! nat i = (10 :: int)" by (intro exI [of _ 3]) simp
  then show ?thesis using binarySearch_correct [of "[2, 3, 4, 10, 40]" 0 4 10] by simp
qed

text \<open>The program reports every value as found.  Whatever value is searched for, it prints that the element
  is present at index 0 and that the value was found, because the result of the search is overwritten.\<close>

theorem array_main_always_found: "array_main find_val = Some (0, True)"
proof -
  have "\<exists>m. binarySearch (map (\<lambda>i. int i + 1) [0..<MAX_CNT]) 0 (int MAX_CNT - 1) find_val = Some m"
    by (rule binarySearch_total) simp_all
  then show ?thesis by (auto simp: array_main_def)
qed

end
