(* ===== verification/DerKey.thy ===== *)
theory DerKey
  imports Prelude
begin

text \<open>
  DER-encoded keys: \<^verbatim>\<open>IS_DER_PRIVATE\<close> of \<^verbatim>\<open>bgpsec_openssl-VariousKeyManipulation.c\<close>, which tells a
  private from a public key by the identifier octets after the outer SEQUENCE, and
  \<^verbatim>\<open>new_pub_ecpoint2Der\<close> of \<^verbatim>\<open>srxcryptoapi-VariousKeyManipulation.c\<close>, which puts a DER header before a
  point.  The buffer is a list of octets; a read outside it gives \<open>None\<close>.  The position is an
  8-bit counter, as in the code.  The properties: keys encoded by the rules of X.690 are classified
  correctly as long as the short form of the length is used below 127 octets in all and the long form
  otherwise; at the boundary the code reads outside the key.
\<close>

subsection \<open>The code\<close>

definition ID_SEQUENCE :: byte where "ID_SEQUENCE = 0x30"
definition ID_INTEGER :: byte where "ID_INTEGER = 0x02"
definition ID_OCTET_STRING :: byte where "ID_OCTET_STRING = 0x04"

text \<open>\<^verbatim>\<open>p[pos]\<close> with the 8-bit position.\<close>

definition at :: "bytes \<Rightarrow> byte \<Rightarrow> byte option" where
  "at p pos = c_nth p (unat pos)"

text \<open>The part after an INTEGER identifier at \<open>pos\<close>: skip it and look for an OCTET STRING.\<close>

definition der_after_integer :: "bytes \<Rightarrow> byte \<Rightarrow> int option" where
  "der_after_integer p pos = do {
     let pos = pos + 1;
     int_len \<leftarrow> at p pos;
     let pos = pos + 1;
     let pos = pos + int_len;
     c \<leftarrow> at p pos;
     Some (if c = ID_OCTET_STRING then 1 else -1)
   }"

definition IS_DER_PRIVATE :: "bytes option \<Rightarrow> 16 word \<Rightarrow> int option" where
  "IS_DER_PRIVATE p len =
     (case p of
        None \<Rightarrow> Some (-1)
      | Some p \<Rightarrow> do {
          c \<leftarrow> at p 0;
          if c \<noteq> ID_SEQUENCE then Some (-1)
          else do {
            init_len \<leftarrow> at p 1;
            if len < 127 \<and> init_len AND 0x80 = 0 then do {
              c \<leftarrow> at p 2;
              if c = ID_INTEGER then der_after_integer p 2
              else if c = ID_SEQUENCE then Some 0
              else Some (-1)
            }
            else do {
              let subseq_len = init_len AND 0x7f;
              let pos = 2 + subseq_len;
              c \<leftarrow> at p pos;
              if c = ID_INTEGER then der_after_integer p pos
              else if c = ID_SEQUENCE then Some 0
              else Some (-1)
            }
          }
        })"

definition pub_der_head :: bytes where
  "pub_der_head =
    [0x30, 0x59, 0x30, 0x13, 0x06, 0x07, 0x2a, 0x86, 0x48, 0xce, 0x3d, 0x02, 0x01, 0x06, 0x08, 0x2a,
     0x86, 0x48, 0xce, 0x3d, 0x03, 0x01, 0x07, 0x03, 0x42, 0x00]"

text \<open>\<open>size_der\<close> is the constant \<^verbatim>\<open>SIZE_DER_PUBKEY\<close> of a header outside the sources, the size of the
  allocated buffer; \<open>ok\<close> says whether \<^verbatim>\<open>malloc\<close> succeeds.  The inner \<open>None\<close> is \<^verbatim>\<open>NULL\<close>.  The rest of
  the buffer after the two copies is uninitialised, so the result lists only what was written.\<close>

definition new_pub_ecpoint2Der :: "nat \<Rightarrow> bool \<Rightarrow> bytes \<Rightarrow> bytes option option" where
  "new_pub_ecpoint2Der size_der ok bin_ecpoint =
     (if \<not> ok then Some None
      else do {
        point \<leftarrow> c_take 65 bin_ecpoint;
        c_assert (26 + 65 \<le> size_der);
        Some (Some (pub_der_head @ point))
      })"

subsection \<open>DER encodings\<close>

text \<open>Lengths by X.690: the short form below 128, otherwise the number of length octets with the
  high bit set, then the length itself.\<close>

definition der_length :: "nat \<Rightarrow> bytes" where
  "der_length n =
     (if n < 128 then [of_nat n]
      else if n < 256 then [0x81, of_nat n]
      else [0x82, of_nat (n div 256), of_nat (n mod 256)])"

definition der :: "byte \<Rightarrow> bytes \<Rightarrow> bytes" where
  "der tag body = tag # der_length (length body) @ body"

text \<open>An EC private key is a sequence of a version, an octet string and more; a subject public key
  info is a sequence that starts with the sequence of the algorithm.\<close>

definition der_private :: "bytes \<Rightarrow> bytes \<Rightarrow> bytes \<Rightarrow> bytes" where
  "der_private version key more = der ID_SEQUENCE (der ID_INTEGER version @ der ID_OCTET_STRING key @ more)"

definition der_public :: "bytes \<Rightarrow> bytes \<Rightarrow> bytes" where
  "der_public algo more = der ID_SEQUENCE (der ID_SEQUENCE algo @ more)"

lemma at_simps [simp]:
  "at (x # xs) 0 = Some x"
  "at (x # y # xs) 1 = Some y"
  "at (x # y # z # xs) 2 = Some z"
  by (simp_all add: at_def c_nth_def)

lemma high_bit_short: "n < 128 \<Longrightarrow> (of_nat n :: byte) AND 0x80 = 0"
proof -
  assume n: "n < 128"
  then have "\<not> bit n 7" by (simp add: bit_iff_odd)
  then have "\<not> bit (of_nat n :: byte) 7" by (simp only: bit_of_nat_iff simp_thms)
  then show ?thesis using bit_iff_and_push_bit_not_eq_0 [of "of_nat n :: byte" 7] by simp
qed

lemma at_unat: "at p (of_nat n) = c_nth p n" if "n < 256"
  using that by (simp add: at_def unat_of_nat)

lemma at_append: "at (xs @ y # ys) (of_nat (length xs)) = Some y" if "length xs < 256"
  using that by (simp add: at_unat c_nth_def)

text \<open>Past an INTEGER of fewer than 128 octets comes the identifier of what follows.\<close>

lemma der_after_integer_spec:
  assumes "length xs + length v + 3 < 256" and "length v < 128"
  shows "der_after_integer (xs @ der ID_INTEGER v @ c # rest) (of_nat (length xs)) =
    Some (if c = ID_OCTET_STRING then 1 else -1)"
proof -
  let ?p = "xs @ der ID_INTEGER v @ c # rest"
  have p: "?p = (xs @ [ID_INTEGER]) @ of_nat (length v) # v @ c # rest"
    "?p = (xs @ [ID_INTEGER, of_nat (length v)] @ v) @ c # rest"
    using assms(2) by (simp_all add: der_def der_length_def)
  have 1: "at ?p (of_nat (length xs) + 1) = Some (of_nat (length v))"
    using at_append [of "xs @ [ID_INTEGER]" "of_nat (length v)" "v @ c # rest"] assms(1) p(1)
    by (simp add: add.commute)
  have 2: "at ?p (of_nat (length xs) + 1 + 1 + of_nat (length v)) = Some c"
    using at_append [of "xs @ [ID_INTEGER, of_nat (length v)] @ v" c rest] assms(1) p(2)
    by (simp add: add_ac)
  show ?thesis unfolding der_after_integer_def Let_def 1 bind.bind_lunit 2 by simp
qed

lemma der_octet_string: "der ID_OCTET_STRING key = ID_OCTET_STRING # tl (der ID_OCTET_STRING key)"
  by (simp add: der_def)

text \<open>The number of octets before the body of the outer sequence.\<close>

definition der_skip :: "nat \<Rightarrow> nat" where
  "der_skip n = (if n < 128 then 2 else if n < 256 then 3 else 4)"

text \<open>The two forms of the length meet the test of the code except for totals of 127 to 129
  octets.\<close>

definition der_total_ok :: "bytes \<Rightarrow> bool" where
  "der_total_ok p \<longleftrightarrow> length p < 127 \<or> 130 < length p \<and> length p < 65536"

lemma der_position:
  assumes p: "p = der ID_SEQUENCE body" and ok: "der_total_ok p" and len: "len = of_nat (length p)"
  shows "IS_DER_PRIVATE (Some p) len = do {
      c \<leftarrow> at p (of_nat (der_skip (length body)));
      if c = ID_INTEGER then der_after_integer p (of_nat (der_skip (length body)))
      else if c = ID_SEQUENCE then Some 0 else Some (-1) }"
proof -
  let ?n = "length body"
  have u: "unat len = length p" using ok len by (auto simp: der_total_ok_def unat_of_nat)
  have L: "len < 127 \<longleftrightarrow> length p < 127" by (simp add: word_less_nat_alt u)
  consider "?n < 128" "length p = ?n + 2" | "128 \<le> ?n" "?n < 256" "length p = ?n + 3"
    | "256 \<le> ?n" "length p = ?n + 4"
    by (cases "?n < 128"; cases "?n < 256") (auto simp: p der_def der_length_def)
  then show ?thesis
  proof cases
    case 1
    then have "?n < 125" using ok by (auto simp: der_total_ok_def)
    with 1 L show ?thesis
      by (simp add: IS_DER_PRIVATE_def p der_def der_length_def der_skip_def high_bit_short cong: if_cong)
  next
    case 2
    with L show ?thesis
      by (simp add: IS_DER_PRIVATE_def p der_def der_length_def der_skip_def Let_def cong: if_cong)
  next
    case 3
    with L show ?thesis
      by (simp add: IS_DER_PRIVATE_def p der_def der_length_def der_skip_def Let_def cong: if_cong)
  qed
qed

lemma der_body_at: "der ID_SEQUENCE body = (ID_SEQUENCE # der_length (length body)) @ body"
  "length (ID_SEQUENCE # der_length (length body)) = der_skip (length body)"
  by (simp_all add: der_def der_length_def der_skip_def)

text \<open>A private key in DER (a sequence of an INTEGER and an OCTET STRING) is recognised
  as private, for every total length but 127 to 129 octets, without reading outside the key.\<close>

theorem private_key_recognised:
  assumes "p = der_private version key more" and "length version < 128" and "der_total_ok p"
  shows "IS_DER_PRIVATE (Some p) (of_nat (length p)) = Some 1"
proof -
  define body where "body = der ID_INTEGER version @ der ID_OCTET_STRING key @ more"
  define head where "head = ID_SEQUENCE # der_length (length body)"
  have p: "p = der ID_SEQUENCE body" using assms(1) by (simp add: der_private_def body_def)
  have hb: "p = head @ body" and hl: "length head = der_skip (length body)" "length head < 5"
    using der_body_at [of body] p by (simp_all add: head_def der_skip_def)
  let ?rest = "tl (der ID_OCTET_STRING key) @ more"
  have p2: "p = head @ der ID_INTEGER version @ ID_OCTET_STRING # ?rest"
    using hb der_octet_string [of key] by (simp add: body_def)
  have "at p (of_nat (length head)) = Some ID_INTEGER"
    using at_append [of head ID_INTEGER "der_length (length version) @ version @ ID_OCTET_STRING # ?rest"] hl(2) p2
    by (simp add: der_def)
  moreover have "der_after_integer p (of_nat (length head)) = Some 1"
    using der_after_integer_spec [of head version ID_OCTET_STRING ?rest] hl(2) assms(2) p2 by simp
  ultimately show ?thesis using der_position [OF p assms(3) refl] hl(1) by simp
qed

theorem private_key_recognised_witness:
  "IS_DER_PRIVATE (Some (der_private [1] (replicate 32 7) [])) (of_nat (length (der_private [1] (replicate 32 7) [])))
     = Some 1"
  by (rule private_key_recognised [OF refl])
     (simp_all add: der_total_ok_def der_private_def der_def der_length_def)

text \<open>A public key in DER (a sequence that starts with a sequence) is recognised as
  public.\<close>

theorem public_key_recognised:
  assumes "p = der_public algo more" and "der_total_ok p"
  shows "IS_DER_PRIVATE (Some p) (of_nat (length p)) = Some 0"
proof -
  define body where "body = der ID_SEQUENCE algo @ more"
  define head where "head = ID_SEQUENCE # der_length (length body)"
  have p: "p = der ID_SEQUENCE body" using assms(1) by (simp add: der_public_def body_def)
  have hb: "p = head @ body" and hl: "length head = der_skip (length body)" "length head < 5"
    using der_body_at [of body] p by (simp_all add: head_def der_skip_def)
  have "at p (of_nat (length head)) = Some ID_SEQUENCE"
    using at_append [of head ID_SEQUENCE "der_length (length algo) @ algo @ more"] hl(2) hb
    by (simp add: der_def body_def)
  then show ?thesis
    using der_position [OF p assms(2) refl] hl(1) by (simp add: ID_INTEGER_def ID_SEQUENCE_def)
qed

theorem public_key_recognised_witness:
  "IS_DER_PRIVATE (Some (der_public (replicate 19 1) (replicate 68 4)))
     (of_nat (length (der_public (replicate 19 1) (replicate 68 4)))) = Some 0"
  by (rule public_key_recognised [OF refl])
     (simp_all add: der_total_ok_def der_public_def der_def der_length_def)

text \<open>At the boundary the code goes wrong.  A key whose body of 125 to 127 octets still has
  the short form of the length is taken for the long form, because the test compares the total with
  127, and the octet inspected lies outside the key.\<close>

theorem boundary_reads_outside:
  assumes "p = der ID_SEQUENCE body" and "125 \<le> length body" and "length body < 128"
  shows "IS_DER_PRIVATE (Some p) (of_nat (length p)) = None"
proof -
  let ?n = "length body"
  have len: "length p = ?n + 2" using assms by (simp add: der_def der_length_def)
  have "unat (of_nat (length p) :: 16 word) = length p"
    using len assms(3) by (simp only: unat_of_nat take_bit_eq_mod) simp
  then have "\<not> (of_nat (length p) :: 16 word) < 127"
    using len assms(2) by (simp only: word_less_nat_alt) simp
  moreover have "(of_nat ?n :: byte) AND 0x7f = of_nat ?n"
  proof -
    have "(of_nat ?n :: byte) AND mask 7 = take_bit 7 (of_nat ?n)" by (simp only: take_bit_eq_mask)
    also have "\<dots> = of_nat (take_bit 7 ?n)" by (simp add: take_bit_of_nat [symmetric])
    also have "take_bit 7 ?n = ?n" using assms(3) by (simp add: take_bit_eq_mod)
    finally show ?thesis by (simp add: mask_eq_exp_minus_1)
  qed
  moreover have "at p (2 + of_nat ?n) = None"
    using at_unat [of "?n + 2" p] assms(3) len by (simp add: c_nth_def add.commute)
  ultimately show ?thesis
    using assms by (simp add: IS_DER_PRIVATE_def der_def der_length_def Let_def)
qed

theorem boundary_reads_outside_witness:
  "IS_DER_PRIVATE (Some (der ID_SEQUENCE (replicate 125 0))) (of_nat (length (der ID_SEQUENCE (replicate 125 0)))) = None"
  by (rule boundary_reads_outside [OF refl]) simp_all

text \<open>The header that \<^verbatim>\<open>new_pub_ecpoint2Der\<close> writes makes a DER public key of any point of
  65 octets: the result is the DER encoding of the algorithm and the point, and the classifier takes
  it for a public key.\<close>

theorem ecpoint_to_der_is_public:
  assumes "length point = 65" and "91 \<le> size_der"
  shows "\<exists>d. new_pub_ecpoint2Der size_der True point = Some (Some d) \<and> length d = 91 \<and>
     d = der_public (take 19 (drop 4 pub_der_head)) (der 0x03 (0 # point)) \<and>
     IS_DER_PRIVATE (Some d) 91 = Some 0"
proof -
  let ?d = "pub_der_head @ point"
  have "new_pub_ecpoint2Der size_der True point = Some (Some ?d)"
    using assms by (simp add: new_pub_ecpoint2Der_def)
  moreover have d: "?d = der_public (take 19 (drop 4 pub_der_head)) (der 0x03 (0 # point))"
    using assms(1) by (simp add: pub_der_head_def der_public_def der_def der_length_def ID_SEQUENCE_def)
  moreover have "IS_DER_PRIVATE (Some ?d) 91 = Some 0"
    by (simp add: IS_DER_PRIVATE_def pub_der_head_def ID_SEQUENCE_def ID_INTEGER_def)
  moreover have "length ?d = 91" using assms(1) by (simp add: pub_der_head_def)
  ultimately show ?thesis by blast
qed

theorem ecpoint_to_der_is_public_witness:
  "\<exists>d. new_pub_ecpoint2Der 91 True (replicate 65 4) = Some (Some d) \<and> length d = 91 \<and>
     d = der_public (take 19 (drop 4 pub_der_head)) (der 0x03 (0 # replicate 65 4)) \<and>
     IS_DER_PRIVATE (Some d) 91 = Some 0"
  by (rule ecpoint_to_der_is_public) simp_all

end
