(* ===== verification/SkiPath.thy ===== *)
theory SkiPath
  imports Prelude
begin

text \<open>
  The helper functions of \<^verbatim>\<open>srxcryptoapi-VariousKeyManipulation.c\<close> that the key loading code of both
  sources relies on: \<^verbatim>\<open>sca_SetKeyPath\<close>, which stores the directory of the keys in \<^verbatim>\<open>_keyPath\<close>,
  \<^verbatim>\<open>sca_FindDirInSKI\<close>, which makes a file name of a subject key identifier (SKI), and
  \<^verbatim>\<open>sca_debugLog\<close>.  C strings are \<open>string\<close>s without the terminating NUL.  The property: under every key
  path that \<^verbatim>\<open>sca_SetKeyPath\<close> accepts, different identifiers get different file names.
\<close>

subsection \<open>The code\<close>

definition MAX_CMD_LEN :: nat where "MAX_CMD_LEN = 1024"
definition MAXPATHLEN :: nat where "MAXPATHLEN = 4096"
definition SKI_LENGTH :: nat where "SKI_LENGTH = 20"

text \<open>\<^verbatim>\<open>snprintf(buf, n, ...)\<close>: at most \<open>n - 1\<close> characters and the NUL.\<close>

definition snprintf :: "nat \<Rightarrow> string \<Rightarrow> string" where
  "snprintf n s = take (n - 1) s"

text \<open>The conversion \<^verbatim>\<open>%02X\<close> of an octet.\<close>

definition hex_digit :: "nat \<Rightarrow> char" where
  "hex_digit n = ''0123456789ABCDEF'' ! (n mod 16)"

definition hex2 :: "byte \<Rightarrow> string" where
  "hex2 b = [hex_digit (unat b div 16), hex_digit (unat b)]"

text \<open>The result and the new \<^verbatim>\<open>_keyPath\<close>.\<close>

definition sca_SetKeyPath :: "string \<Rightarrow> string \<Rightarrow> int \<times> string" where
  "sca_SetKeyPath key_path keyPath =
     (if length key_path < MAX_CMD_LEN - 1 then (1, key_path) else (0, keyPath))"

text \<open>\<open>filenamebufLen\<close> is positive; the identifier is read for \<^verbatim>\<open>SKI_LENGTH\<close> octets.  The result is
  the text in the buffer.\<close>

definition sca_FindDirInSKI :: "string \<Rightarrow> nat \<Rightarrow> bytes \<Rightarrow> string option" where
  "sca_FindDirInSKI keyPath filenamebufLen ski = do {
     octets \<leftarrow> c_take SKI_LENGTH ski;
     let skiHex = concat (map hex2 octets);
     Some (snprintf (filenamebufLen - 1)
       (keyPath @ ''/'' @ take 2 skiHex @ ''/'' @ take 4 (drop 2 skiHex) @ ''/'' @ drop 6 skiHex))
   }"

datatype log_level = LOG_ERR | LOG_WARNING | LOG_INFO | LOG_DEBUG | LOG_OTHER int

fun log_level_name :: "log_level \<Rightarrow> string" where
  "log_level_name LOG_DEBUG = ''DEBUG''"
| "log_level_name LOG_WARNING = ''WARNING''"
| "log_level_name LOG_INFO = ''INFO''"
| "log_level_name LOG_ERR = ''ERROR''"
| "log_level_name (LOG_OTHER _) = ''??''"

text \<open>The text written to the standard output.  The test of the level has the disjunct \<open>1\<close>, so
  every message is written, whatever the log level.\<close>

definition sca_debugLog :: "log_level \<Rightarrow> string \<Rightarrow> string" where
  "sca_debugLog level msg = ''[SRxCryptoAPI - '' @ log_level_name level @ ''] '' @ snprintf 0xff msg"

subsection \<open>Different identifiers have different files\<close>

lemma hex_digit_inj: "hex_digit m = hex_digit n \<longleftrightarrow> m mod 16 = n mod 16"
proof -
  have "distinct ''0123456789ABCDEF''" by code_simp
  then show ?thesis unfolding hex_digit_def by (subst nth_eq_iff_index_eq) auto
qed

lemma hex2_inj [simp]: "hex2 a = hex2 b \<longleftrightarrow> a = b"
proof
  assume "hex2 a = hex2 b"
  then have *: "(unat a div 16) mod 16 = (unat b div 16) mod 16" "unat a mod 16 = unat b mod 16"
    by (simp_all add: hex2_def hex_digit_inj)
  have "unat a < 256" "unat b < 256" using unsigned_less [of a, where 'a = nat] unsigned_less [of b, where 'a = nat] by simp_all
  then have "unat a div 16 < 16" "unat b div 16 < 16" by (simp_all add: div_less_iff_less_mult)
  with *(1) have "unat a div 16 = unat b div 16" by simp
  with *(2) have "unat a = unat b" by (metis div_mult_mod_eq)
  then show "a = b" by (simp add: word_unat_eq_iff)
qed simp

lemma length_hex [simp]: "length (concat (map hex2 xs)) = 2 * length xs"
  by (induction xs) (simp_all add: hex2_def)

lemma concat_hex_inj: "concat (map hex2 xs) = concat (map hex2 ys) \<Longrightarrow> xs = ys"
proof (induction xs arbitrary: ys)
  case Nil
  then show ?case by (cases ys) (simp_all add: hex2_def)
next
  case (Cons x xs)
  then obtain y ys' where ys: "ys = y # ys'" by (cases ys) (auto simp: hex2_def)
  have "length (hex2 x) = length (hex2 y)" by (simp add: hex2_def)
  with Cons show ?case by (auto simp: ys)
qed

text \<open>Splitting the text of the identifier by slashes loses nothing.\<close>

lemma split_hex_inj:
  assumes "length s = 40" and "length t = 40"
    and "k @ ''/'' @ take 2 s @ ''/'' @ take 4 (drop 2 s) @ ''/'' @ drop 6 s =
         k @ ''/'' @ take 2 t @ ''/'' @ take 4 (drop 2 t) @ ''/'' @ drop 6 t"
  shows "s = t"
proof -
  have "take 2 s = take 2 t" "take 4 (drop 2 s) = take 4 (drop 2 t)" "drop 6 s = drop 6 t"
    using assms by simp_all
  moreover have "u = take 2 u @ take 4 (drop 2 u) @ drop 6 u" for u :: string
    by (metis add_2_eq_Suc' append_take_drop_id drop_drop numeral_Bit0 numeral_plus_numeral
        semiring_norm(3,4,5) add.commute add_numeral_left numeral_eq_Suc numerals(1) semiring_norm(2))
  ultimately show ?thesis by metis
qed

text \<open>Under every key path that \<^verbatim>\<open>sca_SetKeyPath\<close> accepts, \<^verbatim>\<open>sca_FindDirInSKI\<close> with a buffer
  of \<^verbatim>\<open>MAXPATHLEN\<close> octets reads only the identifier, does not truncate the name, and maps different
  identifiers to different names.\<close>

theorem FindDirInSKI_injective:
  assumes "sca_SetKeyPath path old = (1, keyPath)" and "length ski = 20" and "length ski' = 20"
  shows "keyPath = path \<and>
    (\<exists>name. sca_FindDirInSKI keyPath MAXPATHLEN ski = Some name \<and> length name = length path + 43 \<and>
       prefix path name) \<and>
    (sca_FindDirInSKI keyPath MAXPATHLEN ski = sca_FindDirInSKI keyPath MAXPATHLEN ski' \<longleftrightarrow> ski = ski')"
proof -
  have k: "keyPath = path" using assms(1) by (auto simp: sca_SetKeyPath_def split: if_splits)
  define name where "name x = keyPath @ ''/'' @ take 2 x @ ''/'' @ take 4 (drop 2 x) @ ''/'' @ drop 6 x" for x
  have len: "length keyPath < 1023" using assms(1) by (auto simp: sca_SetKeyPath_def MAX_CMD_LEN_def split: if_splits)
  have *: "sca_FindDirInSKI keyPath MAXPATHLEN s = Some (name (concat (map hex2 s)))"
    "length (name (concat (map hex2 s))) = length keyPath + 43" if "length s = 20" for s
    using that len
    by (simp_all add: sca_FindDirInSKI_def SKI_LENGTH_def snprintf_def MAXPATHLEN_def name_def Let_def)
  have 1: "\<exists>name. sca_FindDirInSKI keyPath MAXPATHLEN ski = Some name \<and> length name = length path + 43 \<and>
       prefix path name"
    using * [OF assms(2)] k by (auto simp: name_def)
  have 2: "sca_FindDirInSKI keyPath MAXPATHLEN ski = sca_FindDirInSKI keyPath MAXPATHLEN ski' \<longleftrightarrow> ski = ski'"
    using *(1) [OF assms(2)] *(1) [OF assms(3)] assms(2,3)
      split_hex_inj [of "concat (map hex2 ski)" "concat (map hex2 ski')" keyPath]
    by (auto simp: name_def dest: concat_hex_inj)
  show ?thesis using k 1 2 by blast
qed

theorem FindDirInSKI_injective_witness:
  "sca_FindDirInSKI ''/keys'' MAXPATHLEN (replicate 20 1) \<noteq> sca_FindDirInSKI ''/keys'' MAXPATHLEN (replicate 20 2)"
proof -
  have "sca_SetKeyPath ''/keys'' [] = (1, ''/keys'')" by (simp add: sca_SetKeyPath_def MAX_CMD_LEN_def)
  from FindDirInSKI_injective [OF this, of "replicate 20 1" "replicate 20 2"]
  show ?thesis by (simp add: replicate_eq_replicate)
qed

end
