(* ===== verification/BgpsecLib.thy ===== *)
theory BgpsecLib
  imports DerKey SkiPath
begin

text \<open>
  The base of \<^verbatim>\<open>bgpsec_openssl-VariousKeyManipulation.c\<close>: the state of the library, what it uses of
  OpenSSL and uthash, the loading of keys from files and the check of one signature.

  OpenSSL and uthash are not part of the sources.  What the code calls is a field of the record
  \<open>openssl\<close>, an argument of every definition that uses it; opaque OpenSSL objects are known by an
  octet string.  Objects that the code frees, or compares by address, live in one heap, \<open>objs\<close>: an
  \<^verbatim>\<open>EC_KEY\<close> or a buffer.  A freed address is not live any more, so that a second
  \<^verbatim>\<open>EC_KEY_free\<close> or a use after it has the outcome \<open>None\<close>.  Objects that the code only creates and
  passes on (\<^verbatim>\<open>BIO\<close>, \<^verbatim>\<open>X509\<close>, \<^verbatim>\<open>EVP_PKEY\<close>, \<^verbatim>\<open>EC_GROUP\<close>, \<^verbatim>\<open>EC_POINT\<close>) are values.  The debug
  output is switched off.
\<close>

subsection \<open>OpenSSL and uthash as parameters\<close>

type_synonym EC_KEY = bytes
type_synonym EVP_PKEY = bytes
type_synonym X509 = bytes
type_synonym EC_POINT = bytes
type_synonym BIGNUM = bytes

record BGPSecKey =
  key_algoID :: byte
  key_asn :: "32 word"
  key_ski :: bytes
  keyLength :: "16 word"
  keyData :: ptr

record Record_t =
  rec_asn :: "32 word"
  rec_ski :: bytes
  rec_data :: BGPSecKey
  hashv :: "32 word"

text \<open>\<^verbatim>\<open>ECDSA_verify\<close> takes the digest, the signature and the key and returns 1, 0 or -1.
  \<^verbatim>\<open>ECDSA_sign\<close> is randomised: its first argument is the number of the call.  \<open>malloc_ok\<close> says which
  allocations succeed.  \<open>hash_value\<close> is the hash of uthash, \<open>hash_find\<close> the position of the record it
  finds, \<open>hash_grow\<close> the number of buckets after an insertion.\<close>

record openssl =
  SHA256 :: "bytes \<Rightarrow> bytes"
  ECDSA_verify :: "bytes \<Rightarrow> bytes \<Rightarrow> EC_KEY \<Rightarrow> int"
  ECDSA_sign :: "nat \<Rightarrow> bytes \<Rightarrow> EC_KEY \<Rightarrow> bytes option"
  d2i_ECPrivateKey :: "bytes \<Rightarrow> EC_KEY option"
  d2i_PUBKEY :: "bytes \<Rightarrow> EVP_PKEY option"
  EVP_PKEY_get1_EC_KEY :: "EVP_PKEY \<Rightarrow> EC_KEY option"
  EC_KEY_has_public_key :: "EC_KEY \<Rightarrow> bool"
  EC_KEY_check_key :: "EC_KEY \<Rightarrow> bool"
  BIO_new_ok :: bool
  BIO_read_filename :: "string \<Rightarrow> int"
  PEM_read_bio_PrivateKey :: "string \<Rightarrow> EVP_PKEY option"
  pkey_priv_key :: "EVP_PKEY \<Rightarrow> BIGNUM option"
  d2i_X509_bio :: "string \<Rightarrow> X509 option"
  cert_public_key :: "X509 \<Rightarrow> bytes"
  EC_KEY_new_by_curve_name :: "int \<Rightarrow> EC_KEY option"
  EC_GROUP_new_by_curve_name_ok :: "int \<Rightarrow> bool"
  EC_POINT_new_ok :: bool
  EC_POINT_oct2point :: "int \<Rightarrow> bytes \<Rightarrow> EC_POINT option"
  EC_KEY_set_public_key :: "EC_KEY \<Rightarrow> EC_POINT \<Rightarrow> EC_KEY option"
  EC_KEY_set_private_key :: "EC_KEY \<Rightarrow> BIGNUM \<Rightarrow> EC_KEY option"
  sizeof_EC_KEY :: "16 word"
  DEFAULT_KEYFILE_EXT :: string
  DEFAULT_CERTFILE_EXT :: string
  malloc_ok :: "nat \<Rightarrow> bool"
  hash_value :: "32 word \<Rightarrow> 32 word"
  hash_find :: "Record_t list \<Rightarrow> 32 word \<Rightarrow> nat option"
  hash_grow :: "Record_t list \<Rightarrow> 32 word \<Rightarrow> 32 word"

subsection \<open>State\<close>

datatype obj = Buf bytes | Key EC_KEY

record Enbuf_Eckey_t =
  en_buf :: ptr
  ec_key :: ptr
  slot_id :: int

record lib =
  objs :: "obj store"
  nxt :: nat
  signs :: nat
  keyPath :: string
  g_records :: "Record_t list"
  num_buckets :: "32 word"
  stEnbuf_Eckey :: "Enbuf_Eckey_t list"

definition new_obj :: "obj \<Rightarrow> lib \<Rightarrow> ptr \<times> lib" where
  "new_obj x s = (Some (nxt s), s\<lparr>objs := (objs s)(nxt s \<mapsto> x), nxt := nxt s + 1\<rparr>)"

definition key_at :: "lib \<Rightarrow> ptr \<Rightarrow> EC_KEY option" where
  "key_at s p = (case deref (objs s) p of Some (Key k) \<Rightarrow> Some k | _ \<Rightarrow> None)"

definition buf_at :: "lib \<Rightarrow> ptr \<Rightarrow> bytes option" where
  "buf_at s p = (case deref (objs s) p of Some (Buf b) \<Rightarrow> Some b | _ \<Rightarrow> None)"

definition put_key :: "nat \<Rightarrow> EC_KEY \<Rightarrow> lib \<Rightarrow> lib" where
  "put_key a k s = s\<lparr>objs := (objs s)(a \<mapsto> Key k)\<rparr>"

definition EC_KEY_free :: "ptr \<Rightarrow> lib \<Rightarrow> lib option" where
  "EC_KEY_free p s =
     (case p of
        None \<Rightarrow> Some s
      | Some a \<Rightarrow> do { k \<leftarrow> key_at s p; Some (s\<lparr>objs := (objs s)(a := None)\<rparr>) })"

definition free_buf :: "ptr \<Rightarrow> lib \<Rightarrow> lib option" where
  "free_buf p s =
     (case p of
        None \<Rightarrow> Some s
      | Some a \<Rightarrow> do { b \<leftarrow> buf_at s p; Some (s\<lparr>objs := (objs s)(a := None)\<rparr>) })"

subsection \<open>Constants\<close>

definition API_BGPSEC_SUCCESS :: int where "API_BGPSEC_SUCCESS = 0"
definition API_BGPSEC_FAILURE :: int where "API_BGPSEC_FAILURE = -1"
definition API_BGPSEC_VERIFY_SUCCESS :: int where "API_BGPSEC_VERIFY_SUCCESS = 1"
definition API_BGPSEC_VERIFY_FAILURE :: int where "API_BGPSEC_VERIFY_FAILURE = 0"
definition API_BGPSEC_VERIFY_ERROR :: int where "API_BGPSEC_VERIFY_ERROR = -1"
definition API_BGPSEC_ALGO_ID_256 :: int where "API_BGPSEC_ALGO_ID_256 = 1"
definition API_BGPSEC_OPENSSL_ID :: int where "API_BGPSEC_OPENSSL_ID = 415"

lemmas api_defs = API_BGPSEC_SUCCESS_def API_BGPSEC_FAILURE_def API_BGPSEC_VERIFY_SUCCESS_def
  API_BGPSEC_VERIFY_FAILURE_def API_BGPSEC_VERIFY_ERROR_def

subsection \<open>Digest and check of one signature\<close>

text \<open>\<open>md\<close> says whether the caller passes a buffer for the digest; without one the result is
  \<^verbatim>\<open>NULL\<close>.\<close>

definition cl_BgpsecOctetDigest :: "openssl \<Rightarrow> bytes \<Rightarrow> nat \<Rightarrow> bool \<Rightarrow> bytes option option" where
  "cl_BgpsecOctetDigest E octet octet_len md = do {
     m \<leftarrow> c_take octet_len octet;
     let result = SHA256 E m;
     Some (if md then Some result else None)
   }"

definition cl_BgpsecDoVerifySignature ::
  "openssl \<Rightarrow> lib \<Rightarrow> bytes \<Rightarrow> ptr \<Rightarrow> byte \<Rightarrow> bytes option \<Rightarrow> nat \<Rightarrow> int option" where
  "cl_BgpsecDoVerifySignature E s digest eckey signature_algorithm signature signature_len = do {
     k \<leftarrow> key_at s eckey;
     buf \<leftarrow> signature;
     sig \<leftarrow> c_take signature_len buf;
     Some (if ECDSA_verify E digest sig k = 0 then API_BGPSEC_VERIFY_FAILURE else API_BGPSEC_VERIFY_SUCCESS)
   }"

subsection \<open>Keys from files\<close>

definition cl_GetPrivateKey :: "openssl \<Rightarrow> string \<Rightarrow> EVP_PKEY option" where
  "cl_GetPrivateKey E fn =
     (if \<not> BIO_new_ok E then None
      else let szFileName = snprintf (MAXPATHLEN - 1) (fn @ ''.'' @ DEFAULT_KEYFILE_EXT E) in
        if BIO_read_filename E szFileName = 1 then PEM_read_bio_PrivateKey E szFileName else None)"

definition cl_GetPublicKey :: "openssl \<Rightarrow> string \<Rightarrow> X509 option" where
  "cl_GetPublicKey E fn =
     (if \<not> BIO_new_ok E then None
      else let szFileName = snprintf (MAXPATHLEN - 1) (fn @ ''.'' @ DEFAULT_CERTFILE_EXT E) in
        if BIO_read_filename E szFileName \<le> 0 then None else d2i_X509_bio E szFileName)"

text \<open>The key pointer \<^verbatim>\<open>*ecdsa_key\<close> is an argument; the private key is set in the object it points to.
  The private part of an \<^verbatim>\<open>EVP_PKEY\<close> that holds no EC key is not defined.\<close>

definition cl_BgpsecSetEcPrivateKey :: "openssl \<Rightarrow> string \<Rightarrow> ptr \<Rightarrow> int \<Rightarrow> lib \<Rightarrow> (int \<times> lib) option" where
  "cl_BgpsecSetEcPrivateKey E filePrefix ecdsa_key curveId s =
     (case cl_GetPrivateKey E filePrefix of
        None \<Rightarrow> Some (API_BGPSEC_FAILURE, s)
      | Some privateKey \<Rightarrow> do {
          a \<leftarrow> ecdsa_key;
          k \<leftarrow> key_at s ecdsa_key;
          priv_key \<leftarrow> pkey_priv_key E privateKey;
          (case EC_KEY_set_private_key E k priv_key of
             None \<Rightarrow> Some (API_BGPSEC_FAILURE, s)
           | Some k' \<Rightarrow> Some (API_BGPSEC_SUCCESS, put_key a k' s))
        })"

text \<open>The result, the new value of \<^verbatim>\<open>*ecdsa_key\<close> and the state.  The error exit frees the key but
  leaves its address in \<^verbatim>\<open>*ecdsa_key\<close>.\<close>

definition set_ec_public_key_err :: "ptr \<Rightarrow> lib \<Rightarrow> (int \<times> ptr \<times> lib) option" where
  "set_ec_public_key_err ecdsa_key s = do {
     s \<leftarrow> EC_KEY_free ecdsa_key s;
     Some (API_BGPSEC_FAILURE, ecdsa_key, s)
   }"

definition cl_BgpsecSetEcPublicKey :: "openssl \<Rightarrow> string \<Rightarrow> ptr \<Rightarrow> int \<Rightarrow> lib \<Rightarrow> (int \<times> ptr \<times> lib) option" where
  "cl_BgpsecSetEcPublicKey E filePrefix ecdsa_key curveId s =
     (case cl_GetPublicKey E filePrefix of
        None \<Rightarrow> set_ec_public_key_err ecdsa_key s
      | Some cert \<Rightarrow>
          let curveId = (if curveId = API_BGPSEC_ALGO_ID_256 then API_BGPSEC_OPENSSL_ID else curveId);
              (ecdsa_key, s) = (case EC_KEY_new_by_curve_name E curveId of
                                  None \<Rightarrow> (None, s) | Some k \<Rightarrow> new_obj (Key k) s) in
          if \<not> EC_GROUP_new_by_curve_name_ok E curveId then set_ec_public_key_err ecdsa_key s
          else do {
            let pubkey = cert_public_key E cert;
            c_assert (length pubkey \<le> 4096);
            if \<not> EC_POINT_new_ok E then set_ec_public_key_err ecdsa_key s
            else (case EC_POINT_oct2point E curveId pubkey of
                None \<Rightarrow> set_ec_public_key_err ecdsa_key s
              | Some point \<Rightarrow> do {
                  a \<leftarrow> ecdsa_key;
                  k \<leftarrow> key_at s ecdsa_key;
                  (case EC_KEY_set_public_key E k point of
                     None \<Rightarrow> set_ec_public_key_err ecdsa_key s
                   | Some k' \<Rightarrow>
                       let s = put_key a k' s in
                       if \<not> EC_KEY_check_key E k' then set_ec_public_key_err ecdsa_key s
                       else Some (API_BGPSEC_SUCCESS, ecdsa_key, s))
                })
          })"

subsection \<open>Verification of one signature\<close>

record BGPSecSignData =
  sd_data :: "bytes option"
  dataLength :: "16 word"
  sd_ski :: "bytes option"
  sd_algoID :: byte
  sd_signature :: "bytes option"
  sigLen :: "16 word"

text \<open>The last part of both verification functions: the digest and the check.\<close>

definition digest_and_verify :: "openssl \<Rightarrow> lib \<Rightarrow> ptr \<Rightarrow> BGPSecSignData \<Rightarrow> int option" where
  "digest_and_verify E s ecdsa_key d = do {
     octets \<leftarrow> sd_data d;
     r \<leftarrow> cl_BgpsecOctetDigest E octets (unat (dataLength d)) True;
     md \<leftarrow> r;
     cl_BgpsecDoVerifySignature E s md ecdsa_key (sd_algoID d) (sd_signature d) (unat (sigLen d))
   }"

text \<open>With a key from a file.  The key is freed on failure only.\<close>

definition stcl_BgpsecVerifySignatureSSL :: "openssl \<Rightarrow> BGPSecSignData \<Rightarrow> lib \<Rightarrow> (int \<times> lib) option" where
  "stcl_BgpsecVerifySignatureSSL E d s = do {
     ski \<leftarrow> sd_ski d;
     szFileName \<leftarrow> sca_FindDirInSKI (keyPath s) MAXPATHLEN ski;
     (r, ecdsa_key, s) \<leftarrow> cl_BgpsecSetEcPublicKey E szFileName None API_BGPSEC_ALGO_ID_256 s;
     if r \<noteq> API_BGPSEC_SUCCESS then do {
       s \<leftarrow> EC_KEY_free ecdsa_key s;
       Some (-1, s)
     }
     else do {
       status \<leftarrow> digest_and_verify E s ecdsa_key d;
       if status \<noteq> API_BGPSEC_VERIFY_SUCCESS then do {
         s \<leftarrow> EC_KEY_free ecdsa_key s;
         Some (API_BGPSEC_VERIFY_FAILURE, s)
       }
       else Some (status, s)
     }
   }"

text \<open>The key in DER of one element of the key array: \<open>None\<close> when a read is outside the buffer, else the
  decoded key or \<^verbatim>\<open>NULL\<close>.\<close>

definition decode_key :: "openssl \<Rightarrow> bytes \<Rightarrow> 16 word \<Rightarrow> EC_KEY option option" where
  "decode_key E buf len = do {
     retType \<leftarrow> IS_DER_PRIVATE (Some buf) len;
     der \<leftarrow> c_take (unat len) buf;
     Some (if retType = 1 then d2i_ECPrivateKey E der
           else (case d2i_PUBKEY E der of
                   None \<Rightarrow> None
                 | Some pkey_tmp \<Rightarrow> EVP_PKEY_get1_EC_KEY E pkey_tmp))
   }"

text \<open>With an array of keys: the key at \<open>keyCnt\<close>.\<close>

definition stcl_BgpsecVerifySignatureSSL_withKeyInfo ::
  "openssl \<Rightarrow> BGPSecSignData \<Rightarrow> BGPSecKey option list option \<Rightarrow> 16 word \<Rightarrow> lib \<Rightarrow> (int \<times> lib) option" where
  "stcl_BgpsecVerifySignatureSSL_withKeyInfo E d keys keyCnt s =
     (case keys of
        None \<Rightarrow> Some (-1, s)
      | Some ks \<Rightarrow> do {
          kp \<leftarrow> c_nth ks (unat keyCnt);
          (case kp of
             None \<Rightarrow> Some (-1, s)
           | Some key \<Rightarrow>
               (if keyData key = None then Some (-1, s)
                else do {
                  buf \<leftarrow> buf_at s (keyData key);
                  dk \<leftarrow> decode_key E buf (keyLength key);
                  (case dk of
                     None \<Rightarrow> Some (-1, s)
                   | Some k \<Rightarrow>
                       let (ecdsa_key, s) = new_obj (Key k) s in
                       if \<not> EC_KEY_has_public_key E k \<or> \<not> EC_KEY_check_key E k
                       then do {
                         s \<leftarrow> EC_KEY_free ecdsa_key s;
                         Some (-1, s)
                       }
                       else do {
                         status \<leftarrow> digest_and_verify E s ecdsa_key d;
                         if status \<noteq> API_BGPSEC_VERIFY_SUCCESS then do {
                           s \<leftarrow> EC_KEY_free ecdsa_key s;
                           Some (API_BGPSEC_VERIFY_FAILURE, s)
                         }
                         else do {
                           s \<leftarrow> EC_KEY_free ecdsa_key s;
                           Some (status, s)
                         }
                       })
                }))
        })"

end
