(* ===== verification/BgpsecVerify.thy ===== *)
theory BgpsecVerify
  imports BgpsecLib
begin

text \<open>
  \<^verbatim>\<open>cl_BgpsecVerify\<close> of \<^verbatim>\<open>bgpsec_openssl-VariousKeyManipulation.c\<close>, the validation of a BGPsec path:
  one signature per secure path segment, each over the octets of the segment and the signature of the
  next one, the last over the prefix.  The linked lists of path and signature segments are lists; the
  hash buffer has \<^verbatim>\<open>BGPSEC_MAX_SIG_LENGTH + 10\<close> octets and a copy beyond it has the outcome
  \<open>None\<close>.

  The main property compares the loop with the abstract specification \<open>path_valid\<close>, which says that
  every segment of the path carries an accepted signature over its message.  The other properties
  state when the function answers SUCCESS without having checked all signatures.
\<close>

subsection \<open>The code\<close>

definition BGPSEC_MAX_SIG_LENGTH :: nat where "BGPSEC_MAX_SIG_LENGTH = 128"
definition OCTET_SECURE_PATH_LEN :: "64 word" where "OCTET_SECURE_PATH_LEN = 2"
definition OCTET_SECURE_PATH_SEGMENT :: "64 word" where "OCTET_SECURE_PATH_SEGMENT = 6"

record PathSegment =
  seg_as :: "32 word"
  pCount :: byte
  seg_flags :: byte

record SigSegment =
  ss_ski :: "bytes option"
  ss_sigLen :: "16 word"
  ss_signature :: "bytes option"

record SigBlock =
  algoSuiteId :: byte
  sigSegments :: "SigSegment list"

record BgpsecPathAttr =
  securePathLen :: "64 word"
  pathSegments :: "PathSegment list"
  sigBlocks :: "SigBlock list"

record bgp_prefix =
  prefixlen :: byte
  prefix_octets :: bytes

text \<open>\<^verbatim>\<open>put_u32\<close> writes a 32-bit number in network byte order.\<close>

definition put_u32 :: "32 word \<Rightarrow> bytes" where
  "put_u32 x = map (\<lambda>i. ucast (drop_bit i x)) [24, 16, 8, 0]"

definition PSIZE :: "byte \<Rightarrow> nat" where
  "PSIZE a = (unat a + 7) div 8"

definition cl_BgpsecSanityCheck :: "BgpsecPathAttr option \<Rightarrow> int" where
  "cl_BgpsecSanityCheck bpa =
     (case bpa of
        None \<Rightarrow> -1
      | Some bpa \<Rightarrow>
          (case (pathSegments bpa, sigBlocks bpa) of
             (seg # _, sb # _) \<Rightarrow>
               (case sigSegments sb of
                  [] \<Rightarrow> -1
                | ss # _ \<Rightarrow> if ss_signature ss = None \<or> ss_ski ss = None then -1 else 0)
           | _ \<Rightarrow> -1))"

text \<open>The hash buffer of a transit segment and of the origin segment.\<close>

definition transit_hashbuff :: "32 word \<Rightarrow> PathSegment \<Rightarrow> SigSegment \<Rightarrow> bytes option" where
  "transit_hashbuff targetAS seg nss = do {
     signature \<leftarrow> ss_signature nss;
     sig \<leftarrow> c_take (unat (ss_sigLen nss)) signature;
     c_assert (10 + unat (ss_sigLen nss) \<le> BGPSEC_MAX_SIG_LENGTH + 10);
     Some (put_u32 targetAS @ put_u32 (seg_as seg) @ [pCount seg, seg_flags seg] @ sig)
   }"

definition origin_hashbuff :: "32 word \<Rightarrow> PathSegment \<Rightarrow> byte \<Rightarrow> bgp_prefix option \<Rightarrow> bytes option" where
  "origin_hashbuff targetAS seg algo pfx = do {
     p \<leftarrow> pfx;
     nlri \<leftarrow> c_take (PSIZE (prefixlen p)) (prefix_octets p);
     c_assert (12 + PSIZE (prefixlen p) \<le> BGPSEC_MAX_SIG_LENGTH + 10);
     Some (put_u32 targetAS @ put_u32 (seg_as seg) @ [pCount seg, seg_flags seg] @ [algo, prefixlen p] @ nlri)
   }"

definition sslVerifyData :: "bytes \<Rightarrow> byte \<Rightarrow> SigSegment \<Rightarrow> BGPSecSignData" where
  "sslVerifyData hashbuff algo ss =
     \<lparr>sd_data = Some hashbuff, dataLength = of_nat (length hashbuff), sd_ski = ss_ski ss, sd_algoID = algo,
      sd_signature = ss_signature ss, sigLen = ss_sigLen ss\<rparr>"

text \<open>\<^verbatim>\<open>keys[i]\<close> with an \<^verbatim>\<open>int\<close> index.\<close>

definition key_nth :: "'a list \<Rightarrow> int \<Rightarrow> 'a option" where
  "key_nth ks i = (if i < 0 then None else c_nth ks (nat i))"

text \<open>The \<^verbatim>\<open>while\<close> loop; \<open>iter\<close> is the unsigned short counter.\<close>

fun verify_loop :: "openssl \<Rightarrow> 16 word \<Rightarrow> BGPSecKey option list option \<Rightarrow> bgp_prefix option \<Rightarrow> byte \<Rightarrow>
    32 word \<Rightarrow> 16 word \<Rightarrow> PathSegment list \<Rightarrow> SigSegment list \<Rightarrow> lib \<Rightarrow> (int \<times> lib) option" where
  "verify_loop E number_keys keys p algo targetAS iter (seg # segs) (ss # sss) s =
     (if iter = 0 then Some (API_BGPSEC_VERIFY_SUCCESS, s)
      else if 1 < iter then
        (case sss of
           [] \<Rightarrow> Some (API_BGPSEC_VERIFY_ERROR, s)
         | nss # _ \<Rightarrow> do {
             hashbuff \<leftarrow> transit_hashbuff targetAS seg nss;
             let d = sslVerifyData hashbuff algo ss;
             let currNum = int (unat number_keys) - int (unat iter);
             present \<leftarrow> (case keys of None \<Rightarrow> Some False
                | Some ks \<Rightarrow> do { k \<leftarrow> key_nth ks currNum; Some (k \<noteq> None) });
             (r, s) \<leftarrow> (if present
                then stcl_BgpsecVerifySignatureSSL_withKeyInfo E d keys (of_int currNum) s
                else stcl_BgpsecVerifySignatureSSL E d s);
             if r \<noteq> API_BGPSEC_VERIFY_SUCCESS then Some (API_BGPSEC_VERIFY_ERROR, s)
             else verify_loop E number_keys keys p algo (seg_as seg) (iter - 1) segs sss s
           })
      else do {
        hashbuff \<leftarrow> origin_hashbuff targetAS seg algo p;
        let d = sslVerifyData hashbuff algo ss;
        present \<leftarrow> (case keys of None \<Rightarrow> Some False
           | Some ks \<Rightarrow> do { k \<leftarrow> c_nth ks 0; Some (k \<noteq> None) });
        (r, s) \<leftarrow> (if present
           then stcl_BgpsecVerifySignatureSSL_withKeyInfo E d keys (number_keys - iter) s
           else stcl_BgpsecVerifySignatureSSL E d s);
        if r \<noteq> API_BGPSEC_VERIFY_SUCCESS then Some (API_BGPSEC_VERIFY_ERROR, s)
        else verify_loop E number_keys keys p algo targetAS (iter - 1) segs sss s
      })"
| "verify_loop E number_keys keys p algo targetAS iter _ _ s = Some (API_BGPSEC_VERIFY_SUCCESS, s)"

text \<open>The number of segments, computed in \<^verbatim>\<open>size_t\<close> and cut to an unsigned short.\<close>

definition path_segment_count :: "64 word \<Rightarrow> 16 word" where
  "path_segment_count len = ucast ((len - OCTET_SECURE_PATH_LEN) div OCTET_SECURE_PATH_SEGMENT)"

definition cl_BgpsecVerify :: "openssl \<Rightarrow> BgpsecPathAttr option \<Rightarrow> 16 word \<Rightarrow> BGPSecKey option list option \<Rightarrow>
    bgp_prefix option \<Rightarrow> 32 word \<Rightarrow> lib \<Rightarrow> (int \<times> lib) option" where
  "cl_BgpsecVerify E bpa number_keys keys pfx local_as s =
     (if cl_BgpsecSanityCheck bpa \<noteq> 0 then Some (API_BGPSEC_VERIFY_ERROR, s)
      else do {
        bpa \<leftarrow> bpa;
        sb \<leftarrow> c_nth (sigBlocks bpa) 0;
        verify_loop E number_keys keys pfx (algoSuiteId sb) local_as
          (path_segment_count (securePathLen bpa)) (pathSegments bpa) (sigSegments sb) s
      })"

definition validate :: "openssl \<Rightarrow> BgpsecPathAttr option \<Rightarrow> 16 word \<Rightarrow> BGPSecKey option list option \<Rightarrow>
    bgp_prefix option \<Rightarrow> 32 word \<Rightarrow> lib \<Rightarrow> (int \<times> lib) option" where
  "validate E bpa number_keys keys pfx local_as s = cl_BgpsecVerify E bpa number_keys keys pfx local_as s"

subsection \<open>What a valid path is\<close>

definition key_ok :: "openssl \<Rightarrow> EC_KEY \<Rightarrow> bool" where
  "key_ok E k \<longleftrightarrow> EC_KEY_has_public_key E k \<and> EC_KEY_check_key E k"

text \<open>The signature is accepted under the decoded key.  As in the code, every result of
  \<^verbatim>\<open>ECDSA_verify\<close> but 0 counts as accepted.\<close>

definition sig_ok :: "openssl \<Rightarrow> EC_KEY option \<Rightarrow> bytes \<Rightarrow> bytes \<Rightarrow> bool" where
  "sig_ok E dk msg sig =
     (case dk of None \<Rightarrow> False | Some k \<Rightarrow> key_ok E k \<and> ECDSA_verify E (SHA256 E msg) sig k \<noteq> 0)"

text \<open>The message of segment \<open>i\<close>: target AS, signer AS, count, flags, and the next signature or, for the
  origin, the algorithm and the prefix.  The target of a segment is the AS before it.\<close>

definition seg_target :: "32 word \<Rightarrow> PathSegment list \<Rightarrow> nat \<Rightarrow> 32 word" where
  "seg_target local_as segs i = (if i = 0 then local_as else seg_as (segs ! (i - 1)))"

definition seg_message :: "byte \<Rightarrow> bgp_prefix \<Rightarrow> 32 word \<Rightarrow> PathSegment list \<Rightarrow> bytes list \<Rightarrow> nat \<Rightarrow> bytes" where
  "seg_message algo p local_as segs sigs i =
     put_u32 (seg_target local_as segs i) @ put_u32 (seg_as (segs ! i)) @ [pCount (segs ! i), seg_flags (segs ! i)] @
     (if Suc i < length segs then sigs ! Suc i
      else [algo, prefixlen p] @ take (PSIZE (prefixlen p)) (prefix_octets p))"

definition path_valid :: "openssl \<Rightarrow> byte \<Rightarrow> bgp_prefix \<Rightarrow> 32 word \<Rightarrow> PathSegment list \<Rightarrow> bytes list \<Rightarrow>
    EC_KEY option list \<Rightarrow> bool" where
  "path_valid E algo p local_as segs sigs dks \<longleftrightarrow>
     (\<forall>i<length segs. sig_ok E (dks ! i) (seg_message algo p local_as segs sigs i) (sigs ! i))"

text \<open>The signature octets of a segment, and keys that are present in memory and decode.\<close>

definition sig_octets :: "SigSegment \<Rightarrow> bytes option" where
  "sig_octets ss = do { b \<leftarrow> ss_signature ss; c_take (unat (ss_sigLen ss)) b }"

definition key_decodes :: "openssl \<Rightarrow> lib \<Rightarrow> BGPSecKey option \<Rightarrow> EC_KEY option \<Rightarrow> bool" where
  "key_decodes E s kp dk = (case kp of None \<Rightarrow> False | Some key \<Rightarrow>
     (case buf_at s (keyData key) of None \<Rightarrow> False | Some buf \<Rightarrow> decode_key E buf (keyLength key) = Some dk))"

definition heap_fresh :: "lib \<Rightarrow> bool" where
  "heap_fresh s \<longleftrightarrow> (\<forall>a\<ge>nxt s. objs s a = None)"

subsection \<open>One signature\<close>

lemma new_key_simps [simp]:
  "key_at (snd (new_obj (Key k) s)) (Some (nxt s)) = Some k"
  "fst (new_obj x s) = Some (nxt s)"
  "signs (snd (new_obj x s)) = signs s"
  by (simp_all add: new_obj_def key_at_def)

lemma heap_fresh_next [simp]: "heap_fresh s \<Longrightarrow> objs s (nxt s) = None"
  by (simp add: heap_fresh_def)

text \<open>A key that was made and freed leaves the heap as it was.\<close>

lemma free_new_key: "heap_fresh s \<Longrightarrow>
  EC_KEY_free (Some (nxt s)) (snd (new_obj (Key k) s)) = Some (s\<lparr>nxt := nxt s + 1\<rparr>)"
  by (simp add: EC_KEY_free_def new_obj_def key_at_def fun_upd_idem)

lemma digest_and_verify_spec:
  assumes "key_at s kp = Some k" and "length m < 65536" and "sig_octets ss = Some sig"
  shows "digest_and_verify E s kp (sslVerifyData m algo ss) =
    Some (if ECDSA_verify E (SHA256 E m) sig k = 0 then 0 else 1)"
proof -
  have u: "unat (of_nat (length m) :: 16 word) = length m"
    using assms(2) by (simp only: unat_of_nat take_bit_eq_mod) simp
  show ?thesis
    using assms by (cases "ss_signature ss")
      (simp_all add: digest_and_verify_def sslVerifyData_def cl_BgpsecOctetDigest_def u
        cl_BgpsecDoVerifySignature_def sig_octets_def api_defs)
qed

lemma withKeyInfo_spec:
  assumes fresh: "heap_fresh s" and key: "unat i < length ks" "key_decodes E s (ks ! unat i) dk"
    and m: "length m < 65536" "sig_octets ss = Some sig"
  shows "\<exists>r n. nxt s \<le> n \<and> (r = 1 \<longleftrightarrow> sig_ok E dk m sig) \<and>
    stcl_BgpsecVerifySignatureSSL_withKeyInfo E (sslVerifyData m algo ss) (Some ks) i s = Some (r, s\<lparr>nxt := n\<rparr>)"
proof -
  obtain key buf where kb: "ks ! unat i = Some key" "buf_at s (keyData key) = Some buf"
    "decode_key E buf (keyLength key) = Some dk"
    using key(2) by (auto simp: key_decodes_def split: option.splits)
  obtain a where nn: "keyData key = Some a" using kb(2) by (cases "keyData key") (simp_all add: buf_at_def)
  let ?f = "stcl_BgpsecVerifySignatureSSL_withKeyInfo E (sslVerifyData m algo ss) (Some ks) i s"
  show ?thesis
  proof (cases dk)
    case None
    then have "?f = Some (-1, s)"
      using key(1) kb nn by (simp add: stcl_BgpsecVerifySignatureSSL_withKeyInfo_def)
    then show ?thesis using None by (intro exI [of _ "-1"] exI [of _ "nxt s"]) (simp add: sig_ok_def)
  next
    case (Some k)
    let ?s = "snd (new_obj (Key k) s)"
    have v: "digest_and_verify E ?s (Some (nxt s)) (sslVerifyData m algo ss) =
        Some (if ECDSA_verify E (SHA256 E m) sig k = 0 then 0 else 1)"
      using m by (intro digest_and_verify_spec) simp_all
    let ?r = "if \<not> key_ok E k then -1 else if ECDSA_verify E (SHA256 E m) sig k = 0 then 0 else 1 :: int"
    have "?f = Some (?r, s\<lparr>nxt := nxt s + 1\<rparr>)"
      using key(1) kb nn Some v free_new_key [OF fresh, of k]
      by (simp add: stcl_BgpsecVerifySignatureSSL_withKeyInfo_def key_ok_def api_defs split_beta)
    then show ?thesis using Some by (intro exI [of _ ?r] exI [of _ "nxt s + 1"]) (simp add: sig_ok_def)
  qed
qed

subsection \<open>The loop\<close>

lemma key_decodes_next [simp]: "key_decodes E (s\<lparr>nxt := n\<rparr>) kp dk = key_decodes E s kp dk"
  by (simp add: key_decodes_def buf_at_def cong: option.case_cong)

lemma heap_fresh_nxt: "heap_fresh s \<Longrightarrow> nxt s \<le> n \<Longrightarrow> heap_fresh (s\<lparr>nxt := n\<rparr>)"
  by (simp add: heap_fresh_def)

lemma seg_message_Suc [simp]:
  "seg_message algo p local_as (seg # segs) (sig # sigs) (Suc i) = seg_message algo p (seg_as seg) segs sigs i"
  by (cases i) (simp_all add: seg_message_def seg_target_def)

lemma path_valid_Cons:
  "path_valid E algo p local_as (seg # segs) (sig # sigs) (dk # dks) \<longleftrightarrow>
     sig_ok E dk (seg_message algo p local_as (seg # segs) (sig # sigs) 0) sig \<and>
     path_valid E algo p (seg_as seg) segs sigs dks"
  by (simp add: path_valid_def All_less_Suc2)

lemma transit_hashbuff_spec:
  assumes "sig_octets nss = Some sig" and "length sig \<le> 128"
  shows "transit_hashbuff t seg nss = Some (put_u32 t @ put_u32 (seg_as seg) @ [pCount seg, seg_flags seg] @ sig)"
proof -
  have "length sig = unat (ss_sigLen nss)"
    using assms(1) by (cases "ss_signature nss") (auto simp: sig_octets_def c_take_def split: if_splits)
  then show ?thesis
    using assms by (cases "ss_signature nss")
      (auto simp: transit_hashbuff_def sig_octets_def BGPSEC_MAX_SIG_LENGTH_def)
qed

lemma PSIZE_le: "PSIZE a \<le> 32"
proof -
  have "unat a < 256" using unsigned_less [of a, where 'a = nat] by simp
  then show ?thesis by (simp add: PSIZE_def)
qed

lemma origin_hashbuff_spec:
  assumes "PSIZE (prefixlen p) \<le> length (prefix_octets p)"
  shows "origin_hashbuff t seg algo (Some p) = Some (put_u32 t @ put_u32 (seg_as seg) @ [pCount seg, seg_flags seg] @
    [algo, prefixlen p] @ take (PSIZE (prefixlen p)) (prefix_octets p))"
  using assms PSIZE_le [of "prefixlen p"] by (simp add: origin_hashbuff_def BGPSEC_MAX_SIG_LENGTH_def)

lemma length_put_u32 [simp]: "length (put_u32 x) = 4"
  by (simp add: put_u32_def)

text \<open>The last segment: one check, then the counter is 0.\<close>

lemma verify_loop_last:
  assumes "heap_fresh s" and "sig_octets ss = Some sig" and "unat nk = length ks" and "ks \<noteq> []"
    and "key_decodes E s (ks ! (length ks - 1)) dk" and "ks ! 0 \<noteq> None"
    and p: "PSIZE (prefixlen p) \<le> length (prefix_octets p)"
  shows "\<exists>n. verify_loop E nk (Some ks) (Some p) algo t 1 (seg # segs) (ss # sss) s =
      Some (if path_valid E algo p t [seg] [sig] [dk] then 1 else -1, s\<lparr>nxt := n\<rparr>)"
proof -
  let ?m = "seg_message algo p t [seg] [sig] 0"
  have i: "unat (nk - 1) = length ks - 1"
    using assms(3,4) by (subst unat_minus_one) auto
  have "length ?m < 65536"
    using PSIZE_le [of "prefixlen p"] by (simp add: seg_message_def)
  then obtain r n where rs: "r = 1 \<longleftrightarrow> sig_ok E dk ?m sig"
    "stcl_BgpsecVerifySignatureSSL_withKeyInfo E (sslVerifyData ?m algo ss) (Some ks) (nk - 1) s = Some (r, s\<lparr>nxt := n\<rparr>)"
    using withKeyInfo_spec [OF assms(1), of "nk - 1" ks E dk ?m ss sig algo] i assms(2,4,5) by auto
  have "origin_hashbuff t seg algo (Some p) = Some ?m"
    using p by (simp add: origin_hashbuff_spec seg_message_def seg_target_def)
  then have "verify_loop E nk (Some ks) (Some p) algo t 1 (seg # segs) (ss # sss) s =
      Some (if sig_ok E dk ?m sig then 1 else -1, s\<lparr>nxt := n\<rparr>)"
    using rs assms(4,6) by (cases segs; cases sss) (simp_all add: api_defs)
  then show ?thesis by (auto simp: path_valid_def)
qed

text \<open>A transit segment: one check, then the rest of the path with the next target.\<close>

lemma verify_loop_transit:
  assumes "heap_fresh s" and "1 < iter" and "unat iter \<le> length ks" and nk: "unat nk = length ks"
    and "sig_octets ss = Some sig" and "sig_octets nss = Some nsig" and "length nsig \<le> 128"
    and key: "key_decodes E s (ks ! (length ks - unat iter)) dk"
    and m: "m = put_u32 t @ put_u32 (seg_as seg) @ [pCount seg, seg_flags seg] @ nsig"
  shows "\<exists>n\<ge>nxt s. verify_loop E nk (Some ks) pfx algo t iter (seg # segs) (ss # nss # sss) s =
     (if sig_ok E dk m sig
      then verify_loop E nk (Some ks) pfx algo (seg_as seg) (iter - 1) segs (nss # sss) (s\<lparr>nxt := n\<rparr>)
      else Some (-1, s\<lparr>nxt := n\<rparr>))"
proof -
  have it: "0 < unat iter" using assms(2) by (simp add: word_less_nat_alt)
  define c where "c = int (unat nk) - int (unat iter)"
  have ci: "c = int (length ks - unat iter)" unfolding c_def nk using assms(3) by (simp only: of_nat_diff)
  then have c: "0 \<le> c" "nat c = length ks - unat iter" "length ks - unat iter < length ks"
    using assms(3) it by (simp_all only: nat_int of_nat_0_le_iff)
  have "length ks < 65536" using nk unsigned_less [of nk, where 'a = nat] by simp
  then have u: "unat (of_int c :: 16 word) = length ks - unat iter"
    unfolding ci by (simp only: of_int_of_nat_eq unat_of_nat take_bit_eq_mod) simp
  have "length m < 65536" using assms(7) by (simp add: m)
  then obtain r n where rs: "nxt s \<le> n" "r = 1 \<longleftrightarrow> sig_ok E dk m sig"
    "stcl_BgpsecVerifySignatureSSL_withKeyInfo E (sslVerifyData m algo ss) (Some ks) (of_int c) s =
       Some (r, s\<lparr>nxt := n\<rparr>)"
    using withKeyInfo_spec [OF assms(1), of "of_int c" ks E dk m ss sig algo] u c(3) key assms(5) by auto
  have "transit_hashbuff t seg nss = Some m"
    using transit_hashbuff_spec [OF assms(6,7)] by (simp add: m)
  moreover have "key_nth ks c = Some (ks ! (length ks - unat iter))" "ks ! (length ks - unat iter) \<noteq> None"
    using c key by (auto simp: key_nth_def key_decodes_def split: option.splits)
  moreover have "iter \<noteq> 0" using it by auto
  ultimately show ?thesis
    using rs assms(2) unfolding verify_loop.simps(1) [of _ _ _ _ _ _ iter]
    by (intro exI [of _ n]) (auto simp: c_def [symmetric] api_defs Let_def simp del: of_nat_unat verify_loop.simps)
qed

lemma verify_loop_spec:
  assumes "heap_fresh s" and "segs \<noteq> []" and "unat iter = length segs" and "length segs \<le> length ks"
    and "unat nk = length ks" and "ks ! 0 \<noteq> None"
    and "\<forall>i<length segs. key_decodes E s (ks ! (length ks - length segs + i)) (dks ! i)"
    and "length dks = length segs" and "length sigs = length segs"
    and "map sig_octets sss = map Some sigs" and "\<forall>sig\<in>set sigs. length sig \<le> 128"
    and "PSIZE (prefixlen p) \<le> length (prefix_octets p)"
  shows "\<exists>n. verify_loop E nk (Some ks) (Some p) algo t iter segs sss s =
     Some (if path_valid E algo p t segs sigs dks then 1 else -1, s\<lparr>nxt := n\<rparr>)"
  using assms
proof (induction segs arbitrary: t iter sss sigs dks s)
  case Nil
  then show ?case by simp
next
  case (Cons seg segs)
  obtain sig sigs' dk dks' ss sss' where l: "sigs = sig # sigs'" "dks = dk # dks'" "sss = ss # sss'"
    "sig_octets ss = Some sig" "map sig_octets sss' = map Some sigs'" "length sigs' = length segs" "length dks' = length segs"
    using Cons.prems(8-10) by (cases sigs; cases dks; cases sss) auto
  show ?case
  proof (cases segs)
    case Nil
    then have "iter = 1" using Cons.prems(3) by (simp add: word_unat_eq_iff)
    moreover have "sigs' = []" "dks' = []" using Nil l by auto
    ultimately show ?thesis
      using verify_loop_last [OF Cons.prems(1) l(4) Cons.prems(5), of E dk p algo t seg segs sss'] Cons.prems(4,6,7,12) Nil
      by (cases ks) (auto simp: l)
  next
    case (Cons seg' segs')
    obtain nsig sigs'' nss sss'' where l': "sigs' = nsig # sigs''" "sss' = nss # sss''" "sig_octets nss = Some nsig"
      using Cons l(5,6) by (cases sigs'; cases sss') auto
    define m where "m = put_u32 t @ put_u32 (seg_as seg) @ [pCount seg, seg_flags seg] @ nsig"
    have it: "1 < iter" using Cons.prems(3) Cons by (simp add: word_less_nat_alt)
    have k0: "key_decodes E s (ks ! (length ks - unat iter)) dk"
      using Cons.prems(3,7) l(2) by auto
    obtain n where n: "nxt s \<le> n" "verify_loop E nk (Some ks) (Some p) algo t iter (seg # segs) sss s =
       (if sig_ok E dk m sig
        then verify_loop E nk (Some ks) (Some p) algo (seg_as seg) (iter - 1) segs sss' (s\<lparr>nxt := n\<rparr>)
        else Some (-1, s\<lparr>nxt := n\<rparr>))"
      using verify_loop_transit [OF Cons.prems(1) it _ Cons.prems(5) l(4) l'(3) _ k0 m_def, of "Some p" algo segs sss'']
        Cons.prems(3,4,11) Cons l l' by auto
    have "\<exists>n'. verify_loop E nk (Some ks) (Some p) algo (seg_as seg) (iter - 1) segs sss' (s\<lparr>nxt := n\<rparr>) =
       Some (if path_valid E algo p (seg_as seg) segs sigs' dks' then 1 else -1, s\<lparr>nxt := n\<rparr>\<lparr>nxt := n'\<rparr>)"
    proof (rule Cons.IH)
      show "unat (iter - 1) = length segs" using Cons.prems(3) it by (subst unat_minus_one) auto
      show "\<forall>i<length segs. key_decodes E (s\<lparr>nxt := n\<rparr>) (ks ! (length ks - length segs + i)) (dks' ! i)"
      proof (intro allI impI)
        fix i assume "i < length segs"
        then show "key_decodes E (s\<lparr>nxt := n\<rparr>) (ks ! (length ks - length segs + i)) (dks' ! i)"
          using Cons.prems(7) [rule_format, of "Suc i"] Cons.prems(4) l(2) by (simp add: Suc_diff_Suc)
      qed
    qed (use Cons.prems Cons n(1) l heap_fresh_nxt in auto)
    then show ?thesis using n(2) path_valid_Cons [of E algo p t seg segs sig sigs' dk dks'] Cons l l'
      by (auto simp: m_def seg_message_def seg_target_def)
  qed
qed

subsection \<open>Properties\<close>

text \<open>An update as the protocol has it: the length field counts the segments, there is one signature of at
  most 128 octets and one key for every segment, and the keys can be read.\<close>

definition well_formed :: "openssl \<Rightarrow> lib \<Rightarrow> BgpsecPathAttr \<Rightarrow> bgp_prefix \<Rightarrow> BGPSecKey option list \<Rightarrow> bytes list \<Rightarrow>
    EC_KEY option list \<Rightarrow> bool" where
  "well_formed E s bpa p ks sigs dks \<longleftrightarrow>
     0 < length (pathSegments bpa) \<and> length (pathSegments bpa) < 65536 \<and>
     securePathLen bpa = of_nat (2 + 6 * length (pathSegments bpa)) \<and>
     sigBlocks bpa \<noteq> [] \<and> map sig_octets (sigSegments (hd (sigBlocks bpa))) = map Some sigs \<and>
     ss_ski (hd (sigSegments (hd (sigBlocks bpa)))) \<noteq> None \<and>
     length sigs = length (pathSegments bpa) \<and> (\<forall>sig\<in>set sigs. length sig \<le> 128) \<and>
     list_all2 (key_decodes E s) ks dks \<and> length ks = length (pathSegments bpa) \<and>
     PSIZE (prefixlen p) \<le> length (prefix_octets p)"

lemma path_segment_count_eq:
  assumes "n < 65536" shows "unat (path_segment_count (of_nat (2 + 6 * n))) = n"
proof -
  have "unat (of_nat (6 * n) :: 64 word) = 6 * n" using assms by (simp only: unat_of_nat take_bit_eq_mod) simp
  then have "unat ((of_nat (6 * n) :: 64 word) div 6) = n" by (simp add: unat_div)
  moreover have "(of_nat (2 + 6 * n) :: 64 word) - 2 = of_nat (6 * n)" by simp
  ultimately have "unat (((of_nat (2 + 6 * n) :: 64 word) - 2) div 6) = n" by presburger
  then show ?thesis using assms
    unfolding path_segment_count_def OCTET_SECURE_PATH_LEN_def OCTET_SECURE_PATH_SEGMENT_def
    by (simp only: unsigned_ucast_eq take_bit_eq_mod) simp
qed

text \<open>Property C3: the validation of a well-formed update is exact and safe.  It answers SUCCESS if every
  segment of the path has an accepted signature over its message, ERROR otherwise; it terminates,
  stays inside its buffers, and frees every key object it makes.\<close>

theorem verify_iff_path_valid:
  assumes "heap_fresh s" and "well_formed E s bpa p ks sigs dks"
  shows "\<exists>n. cl_BgpsecVerify E (Some bpa) (of_nat (length ks)) (Some ks) (Some p) local_as s =
    Some (if path_valid E (algoSuiteId (hd (sigBlocks bpa))) p local_as (pathSegments bpa) sigs dks
          then API_BGPSEC_VERIFY_SUCCESS else API_BGPSEC_VERIFY_ERROR, s\<lparr>nxt := n\<rparr>)"
proof -
  note w = assms(2) [unfolded well_formed_def]
  let ?segs = "pathSegments bpa" and ?sb = "hd (sigBlocks bpa)"
  obtain seg segs where segs: "?segs = seg # segs" using w by (cases ?segs) auto
  obtain ss sss where ss: "sigSegments ?sb = ss # sss" using w by (cases "sigSegments ?sb") auto
  have sig: "\<exists>b. ss_signature ss = Some b" using w ss by (cases "ss_signature ss"; cases sigs) (auto simp: sig_octets_def)
  have sane: "cl_BgpsecSanityCheck (Some bpa) = 0"
    using w segs ss sig by (cases "sigBlocks bpa") (auto simp: cl_BgpsecSanityCheck_def)
  have nk: "unat (of_nat (length ks) :: 16 word) = length ks"
    using w by (simp only: unat_of_nat take_bit_eq_mod) simp
  have it: "unat (path_segment_count (securePathLen bpa)) = length ?segs"
    using w path_segment_count_eq [of "length ?segs"] by metis
  have k0: "ks ! 0 \<noteq> None"
    using w by (cases ks) (auto simp: list_all2_Cons1 key_decodes_def split: option.splits)
  have "\<exists>n. verify_loop E (of_nat (length ks)) (Some ks) (Some p) (algoSuiteId ?sb) local_as
      (path_segment_count (securePathLen bpa)) ?segs (sigSegments ?sb) s =
    Some (if path_valid E (algoSuiteId ?sb) p local_as ?segs sigs dks then 1 else -1, s\<lparr>nxt := n\<rparr>)"
    using w k0 nk it by (intro verify_loop_spec assms(1)) (auto simp: list_all2_conv_all_nth)
  then show ?thesis
    using sane w by (cases "sigBlocks bpa") (auto simp: cl_BgpsecVerify_def api_defs)
qed

text \<open>A concrete library and update: digests are sums, a signature is accepted if it is the digest followed
  by the key, and a key in DER ends with the key octet.\<close>

definition sample_ssl :: openssl where
  "sample_ssl =
    \<lparr>SHA256 = (\<lambda>m. [foldr (+) m 0]),
     ECDSA_verify = (\<lambda>d sig k. if sig = d @ k then 1 else 0),
     ECDSA_sign = (\<lambda>_ d k. Some (d @ k)),
     d2i_ECPrivateKey = (\<lambda>b. if b = [] then None else Some [last b]),
     d2i_PUBKEY = (\<lambda>b. if b = [] then None else Some b),
     EVP_PKEY_get1_EC_KEY = (\<lambda>b. if b = [] then None else Some [last b]),
     EC_KEY_has_public_key = (\<lambda>_. True), EC_KEY_check_key = (\<lambda>k. k \<noteq> []),
     BIO_new_ok = True, BIO_read_filename = (\<lambda>_. 1),
     PEM_read_bio_PrivateKey = (\<lambda>_. Some [9]), pkey_priv_key = Some,
     d2i_X509_bio = (\<lambda>_. Some [9]), cert_public_key = id,
     EC_KEY_new_by_curve_name = (\<lambda>_. Some []), EC_GROUP_new_by_curve_name_ok = (\<lambda>_. True),
     EC_POINT_new_ok = True, EC_POINT_oct2point = (\<lambda>_. Some),
     EC_KEY_set_public_key = (\<lambda>_. Some), EC_KEY_set_private_key = (\<lambda>_. Some),
     sizeof_EC_KEY = 88, DEFAULT_KEYFILE_EXT = ''der'', DEFAULT_CERTFILE_EXT = ''cert'',
     malloc_ok = (\<lambda>_. True), hash_value = id,
     hash_find = (\<lambda>rs n. find_index (\<lambda>r. rec_asn r = n) rs), hash_grow = (\<lambda>_ _. 32)\<rparr>"

definition sample_lib :: lib where
  "sample_lib =
    \<lparr>objs = [0 \<mapsto> Buf (der_public [1] [7]), 1 \<mapsto> Buf (der_public [1] [8])], nxt = 2, signs = 0, keyPath = ''/keys'',
     g_records = [], num_buckets = 32, stEnbuf_Eckey = replicate 16 \<lparr>en_buf = None, ec_key = None, slot_id = 0\<rparr>\<rparr>"

definition sample_key :: "32 word \<Rightarrow> nat \<Rightarrow> BGPSecKey option" where
  "sample_key asn a = Some \<lparr>key_algoID = 1, key_asn = asn, key_ski = replicate 20 1, keyLength = 6, keyData = Some a\<rparr>"

definition sample_sig :: "bytes \<Rightarrow> SigSegment" where
  "sample_sig sig = \<lparr>ss_ski = Some (replicate 20 1), ss_sigLen = of_nat (length sig), ss_signature = Some sig\<rparr>"

definition sample_path :: "64 word \<Rightarrow> PathSegment list \<Rightarrow> bytes list \<Rightarrow> BgpsecPathAttr" where
  "sample_path len segs sigs =
    \<lparr>securePathLen = len, pathSegments = segs,
     sigBlocks = [\<lparr>algoSuiteId = 1, sigSegments = map sample_sig sigs\<rparr>]\<rparr>"

definition sample_segs :: "PathSegment list" where
  "sample_segs = [\<lparr>seg_as = 200, pCount = 1, seg_flags = 0\<rparr>, \<lparr>seg_as = 300, pCount = 1, seg_flags = 0\<rparr>]"

definition sample_prefix :: bgp_prefix where
  "sample_prefix = \<lparr>prefixlen = 8, prefix_octets = [10, 0, 0, 0]\<rparr>"

lemmas sample_defs = sample_ssl_def sample_lib_def sample_key_def sample_sig_def sample_path_def sample_segs_def sample_prefix_def

lemma sample_fresh: "heap_fresh sample_lib"
  by (simp add: heap_fresh_def sample_lib_def)

lemma sample_keys_decode:
  "key_decodes sample_ssl sample_lib (sample_key n 0) (Some [7])"
  "key_decodes sample_ssl sample_lib (sample_key n 1) (Some [8])"
  by (simp_all add: key_decodes_def buf_at_def sample_defs decode_key_def der_public_def der_def der_length_def
      IS_DER_PRIVATE_def ID_SEQUENCE_def ID_INTEGER_def)

lemma sample_well_formed:
  "well_formed sample_ssl sample_lib (sample_path 14 sample_segs [[62, 7], [9, 8]]) sample_prefix
     [sample_key 200 0, sample_key 300 1] [[62, 7], [9, 8]] [Some [7], Some [8]]"
  using sample_keys_decode
  by (simp add: well_formed_def sample_sig_def sample_path_def sample_segs_def sample_prefix_def sig_octets_def PSIZE_def)

lemma sample_valid: "path_valid sample_ssl 1 sample_prefix 100 sample_segs [[62, 7], [9, 8]] [Some [7], Some [8]]"
  by code_simp

theorem verify_iff_path_valid_witness:
  "\<exists>n. cl_BgpsecVerify sample_ssl (Some (sample_path 14 sample_segs [[62, 7], [9, 8]])) 2
     (Some [sample_key 200 0, sample_key 300 1]) (Some sample_prefix) 100 sample_lib =
     Some (API_BGPSEC_VERIFY_SUCCESS, sample_lib\<lparr>nxt := n\<rparr>)"
  using verify_iff_path_valid [OF sample_fresh sample_well_formed, of 100] sample_valid
  by (simp add: sample_path_def)

text \<open>The length field decides how much is checked.  With a length of 2 to 7 octets no segment
  is counted, and every attribute that passes the sanity check is accepted without one signature check,
  whatever its segments, keys and prefix are.\<close>

theorem short_length_accepts_all:
  assumes "cl_BgpsecSanityCheck (Some bpa) = 0" and "2 \<le> securePathLen bpa" and "securePathLen bpa < 8"
  shows "cl_BgpsecVerify E (Some bpa) number_keys keys pfx local_as s = Some (API_BGPSEC_VERIFY_SUCCESS, s)"
proof -
  obtain sb sbs seg segs ss sss where b: "sigBlocks bpa = sb # sbs" "pathSegments bpa = seg # segs"
    "sigSegments sb = ss # sss"
    using assms(1) by (auto simp: cl_BgpsecSanityCheck_def split: list.splits)
  have "unat (securePathLen bpa - 2) = unat (securePathLen bpa) - 2"
    using assms(2) by (simp add: unat_sub)
  moreover have "unat (securePathLen bpa) < 8" using assms(3) by (simp add: word_less_nat_alt)
  ultimately have "unat ((securePathLen bpa - 2) div 6) = 0" by (simp add: unat_div)
  then have "path_segment_count (securePathLen bpa) = 0"
    by (simp add: path_segment_count_def OCTET_SECURE_PATH_LEN_def OCTET_SECURE_PATH_SEGMENT_def unsigned_eq_0_iff)
  then show ?thesis using assms(1) b by (cases sss) (simp_all add: cl_BgpsecVerify_def)
qed

theorem short_length_accepts_all_witness:
  "cl_BgpsecVerify sample_ssl (Some (sample_path 7 sample_segs [[1], [2]])) 0 None None 5 sample_lib =
     Some (API_BGPSEC_VERIFY_SUCCESS, sample_lib)"
  by (rule short_length_accepts_all) (simp_all add: cl_BgpsecSanityCheck_def sample_sig_def sample_path_def sample_segs_def)

text \<open>The loop stops with SUCCESS when the list of path segments ends before the counter does.
  A path of one segment whose length field counts at least two is accepted once the signature of that
  segment is, and neither the origin signature nor the prefix is looked at: the answer is the same for
  every prefix, a missing one too.\<close>

theorem truncated_path_skips_origin:
  assumes "heap_fresh s" and "pathSegments bpa = [seg]" and "sigBlocks bpa = sb # sbs"
    and "sigSegments sb = ss # nss # sss" and "ss_ski ss \<noteq> None"
    and "sig_octets ss = Some sig" and "sig_octets nss = Some nsig" and "length nsig \<le> 128"
    and n: "n = unat (path_segment_count (securePathLen bpa))" "1 < n" "n \<le> length ks" "length ks < 65536"
    and "key_decodes E s (ks ! (length ks - n)) dk"
    and "sig_ok E dk (put_u32 local_as @ put_u32 (seg_as seg) @ [pCount seg, seg_flags seg] @ nsig) sig"
  shows "\<exists>a. cl_BgpsecVerify E (Some bpa) (of_nat (length ks)) (Some ks) pfx local_as s =
    Some (API_BGPSEC_VERIFY_SUCCESS, s\<lparr>nxt := a\<rparr>)"
proof -
  let ?it = "path_segment_count (securePathLen bpa)"
  have nk: "unat (of_nat (length ks) :: 16 word) = length ks" using n(4) by (intro unat_of_nat_small) simp
  have it: "1 < ?it" using n by (simp add: word_less_nat_alt)
  have sg: "\<exists>b. ss_signature ss = Some b" using assms(6) by (cases "ss_signature ss") (auto simp: sig_octets_def)
  have sane: "cl_BgpsecSanityCheck (Some bpa) = 0"
    using assms(2-5) sg by (auto simp: cl_BgpsecSanityCheck_def)
  show ?thesis
    using verify_loop_transit [OF assms(1) it _ nk assms(6-8) _ refl,
      where E = E and dk = dk and t = local_as and seg = seg and pfx = pfx and algo = "algoSuiteId sb" and segs = "[]" and sss = sss]
      sane assms(2-4,13,14) n by (auto simp: cl_BgpsecVerify_def api_defs)
qed

theorem truncated_path_skips_origin_witness:
  "\<exists>a. cl_BgpsecVerify sample_ssl (Some (sample_path 14 (take 1 sample_segs) [[62, 7], [9, 8]])) 2
     (Some [sample_key 200 0, sample_key 300 1]) None 100 sample_lib =
     Some (API_BGPSEC_VERIFY_SUCCESS, sample_lib\<lparr>nxt := a\<rparr>)"
proof -
  let ?ks = "[sample_key 200 0, sample_key 300 1]"
  have c: "unat (path_segment_count 14) = 2" by code_simp
  have v: "sig_ok sample_ssl (Some [7]) (put_u32 100 @ put_u32 200 @ [1, 0] @ [9, 8]) [62, 7]" by code_simp
  have "\<exists>a. cl_BgpsecVerify sample_ssl (Some (sample_path 14 (take 1 sample_segs) [[62, 7], [9, 8]]))
     (of_nat (length ?ks)) (Some ?ks) None 100 sample_lib = Some (API_BGPSEC_VERIFY_SUCCESS, sample_lib\<lparr>nxt := a\<rparr>)"
    by (rule truncated_path_skips_origin
          [OF sample_fresh, where n = 2 and dk = "Some [7]" and nsig = "[9, 8]" and sig = "[62, 7]" and
            ss = "sample_sig [62, 7]" and nss = "sample_sig [9, 8]" and sss = "[]" and sbs = "[]" and
            seg = "hd sample_segs" and sb = "\<lparr>algoSuiteId = 1, sigSegments = map sample_sig [[62, 7], [9, 8]]\<rparr>"])
       (use v in \<open>simp_all add: sample_path_def sample_sig_def sample_segs_def sig_octets_def c sample_keys_decode\<close>)
  then show ?thesis by simp
qed

text \<open>The hash buffer has room for a signature of 128 octets only, and the length of the received
  signature is not compared with it.  A longer second signature overflows the buffer as soon as two
  segments are counted.\<close>

theorem long_signature_overflows:
  assumes "cl_BgpsecSanityCheck (Some bpa) = 0" and "sigBlocks bpa = sb # sbs" and "sigSegments sb = ss # nss # sss"
    and "1 < path_segment_count (securePathLen bpa)" and "128 < ss_sigLen nss"
  shows "cl_BgpsecVerify E (Some bpa) number_keys keys pfx local_as s = None"
proof -
  obtain seg segs where b: "pathSegments bpa = seg # segs"
    using assms(1) by (auto simp: cl_BgpsecSanityCheck_def split: list.splits)
  have "transit_hashbuff local_as seg nss = None"
    using assms(5) by (cases "ss_signature nss")
      (auto simp: transit_hashbuff_def c_take_def BGPSEC_MAX_SIG_LENGTH_def word_less_nat_alt)
  moreover have "path_segment_count (securePathLen bpa) \<noteq> 0" using assms(4) by auto
  ultimately show ?thesis using assms(1-4) b by (simp add: cl_BgpsecVerify_def)
qed

theorem long_signature_overflows_witness:
  "cl_BgpsecVerify sample_ssl (Some (sample_path 14 sample_segs [[62, 7], replicate 129 0])) 2 None None 100 sample_lib = None"
proof -
  have "1 < path_segment_count 14" by code_simp
  then show ?thesis
    by (intro long_signature_overflows [where nss = "sample_sig (replicate 129 0)" and sss = "[]" and
        ss = "sample_sig [62, 7]" and sb = "\<lparr>algoSuiteId = 1, sigSegments = map sample_sig [[62, 7], replicate 129 0]\<rparr>" and sbs = "[]"])
       (simp_all add: cl_BgpsecSanityCheck_def sample_path_def sample_sig_def sample_segs_def)
qed

end
