(* ===== verification/BgpsecSign.thy ===== *)
theory BgpsecSign
  imports BgpsecVerify
begin

text \<open>
  The signing side of \<^verbatim>\<open>bgpsec_openssl-VariousKeyManipulation.c\<close>: \<^verbatim>\<open>cl_BgpsecECDSA_Sign\<close>, the three
  requests (with a key from a file, with a key in DER, with the identifier of a registered key) and the
  entry points \<^verbatim>\<open>sign_with_key\<close> and \<^verbatim>\<open>sign_with_id\<close>.  A request returns the length of the signature,
  the contents of the caller's signature buffer and the state; a signature longer than the buffer has
  the outcome \<open>None\<close>.  The properties: what a successful request writes and leaves in memory, that an
  update signed with \<^verbatim>\<open>sign_with_key\<close> is accepted by \<^verbatim>\<open>cl_BgpsecVerify\<close>, and which failures free a
  key twice or leave it dangling.
\<close>

subsection \<open>The code\<close>

type_synonym sign_result = "(int \<times> bytes option \<times> lib) option"

text \<open>The error exit of the signing function frees the key of the caller and returns \<open>length\<close>, which is
  not reset when the check of the new signature fails.\<close>

definition cl_BgpsecECDSA_Sign :: "openssl \<Rightarrow> bytes \<Rightarrow> ptr \<Rightarrow> bytes option \<Rightarrow> lib \<Rightarrow> sign_result" where
  "cl_BgpsecECDSA_Sign E digest ecdsa_key signature s = do {
     k \<leftarrow> key_at s ecdsa_key;
     let n = signs s;
     let s = s\<lparr>signs := n + 1\<rparr>;
     (case ECDSA_sign E n digest k of
        None \<Rightarrow> do {
          s \<leftarrow> EC_KEY_free ecdsa_key s;
          Some (0, signature, s)
        }
      | Some sig \<Rightarrow> do {
          buf \<leftarrow> signature;
          c_assert (length sig \<le> length buf);
          let signature = Some (sig @ drop (length sig) buf);
          if ECDSA_verify E digest sig k \<noteq> 1 then do {
            s \<leftarrow> EC_KEY_free ecdsa_key s;
            Some (int (length sig), signature, s)
          }
          else Some (int (length sig), signature, s)
        })
   }"

definition cl_SignParamSanityCheck :: "BGPSecSignData option \<Rightarrow> BGPSecKey option \<Rightarrow> int" where
  "cl_SignParamSanityCheck signData key =
     (case signData of
        None \<Rightarrow> -1
      | Some d \<Rightarrow> if sd_ski d = None \<or> sd_data d = None \<or> sd_signature d = None then -1 else 0)"

definition cl_SignParamWithKeySanityCheck :: "BGPSecSignData option \<Rightarrow> BGPSecKey option \<Rightarrow> int" where
  "cl_SignParamWithKeySanityCheck signData key =
     (case signData of
        None \<Rightarrow> -1
      | Some d \<Rightarrow>
          if sd_ski d = None \<or> sd_data d = None \<or> sd_signature d = None then -1
          else (case key of None \<Rightarrow> -1 | Some k \<Rightarrow> if keyData k = None then -1 else 0))"

definition cl_SignParamWithIDSanityCheck :: "BGPSecSignData option \<Rightarrow> byte \<Rightarrow> int" where
  "cl_SignParamWithIDSanityCheck signData keyID =
     (case signData of
        None \<Rightarrow> -1
      | Some d \<Rightarrow>
          if sd_data d = None \<or> sd_signature d = None then -1
          else if keyID = 0 then -1 else 0)"

text \<open>The \<^verbatim>\<open>switch\<close> over the algorithm, the same in all requests.\<close>

definition digest_and_sign :: "openssl \<Rightarrow> ptr \<Rightarrow> BGPSecSignData \<Rightarrow> lib \<Rightarrow> sign_result" where
  "digest_and_sign E ecdsa_key d s =
     (if int (unat (sd_algoID d)) = API_BGPSEC_ALGO_ID_256 then do {
        octets \<leftarrow> sd_data d;
        r \<leftarrow> cl_BgpsecOctetDigest E octets (unat (dataLength d)) True;
        md \<leftarrow> r;
        cl_BgpsecECDSA_Sign E md ecdsa_key (sd_signature d) s
      }
      else Some (0, sd_signature d, s))"

text \<open>\<open>nosig\<close> is the unchanged signature buffer of the caller.\<close>

definition nosig :: "BGPSecSignData option \<Rightarrow> bytes option" where
  "nosig signData = Option.bind signData sd_signature"

definition stBgpsecReqSigning :: "openssl \<Rightarrow> BGPSecSignData option \<Rightarrow> BGPSecKey option \<Rightarrow> lib \<Rightarrow> sign_result" where
  "stBgpsecReqSigning E sslSignData bgpsecKey s =
     (if cl_SignParamSanityCheck sslSignData bgpsecKey \<noteq> 0 then Some (-1, nosig sslSignData, s)
      else do {
        d \<leftarrow> sslSignData;
        ski \<leftarrow> sd_ski d;
        szFileName \<leftarrow> sca_FindDirInSKI (keyPath s) MAXPATHLEN ski;
        (r, ecdsa_key, s) \<leftarrow> cl_BgpsecSetEcPublicKey E szFileName None API_BGPSEC_ALGO_ID_256 s;
        (bad, s) \<leftarrow> (if r \<noteq> API_BGPSEC_SUCCESS then Some (True, s)
           else do {
             (r, s) \<leftarrow> cl_BgpsecSetEcPrivateKey E szFileName ecdsa_key API_BGPSEC_ALGO_ID_256 s;
             Some (r \<noteq> 0, s)
           });
        if bad then do {
          s \<leftarrow> EC_KEY_free ecdsa_key s;
          Some (-1, sd_signature d, s)
        }
        else do {
          k \<leftarrow> key_at s ecdsa_key;
          if \<not> EC_KEY_check_key E k then do {
            s \<leftarrow> EC_KEY_free ecdsa_key s;
            Some (0, sd_signature d, s)
          }
          else digest_and_sign E ecdsa_key d s
        }
      })"

definition stBgpsecReqSigningWithKeyInfo ::
  "openssl \<Rightarrow> BGPSecSignData option \<Rightarrow> BGPSecKey option \<Rightarrow> lib \<Rightarrow> sign_result" where
  "stBgpsecReqSigningWithKeyInfo E sslSignData bgpsecKey s =
     (if cl_SignParamWithKeySanityCheck sslSignData bgpsecKey \<noteq> 0 then Some (-1, nosig sslSignData, s)
      else do {
        d \<leftarrow> sslSignData;
        key \<leftarrow> bgpsecKey;
        buf \<leftarrow> buf_at s (keyData key);
        der \<leftarrow> c_take (unat (keyLength key)) buf;
        (case d2i_ECPrivateKey E der of
           None \<Rightarrow> Some (0, sd_signature d, s)
         | Some k \<Rightarrow>
             let (ecdsa_key, s) = new_obj (Key k) s in
             if \<not> EC_KEY_check_key E k then Some (0, sd_signature d, s)
             else do {
               (ret, signature, s) \<leftarrow> digest_and_sign E ecdsa_key d s;
               s \<leftarrow> EC_KEY_free ecdsa_key s;
               Some (ret, signature, s)
             })
      })"

definition RET_ID_OFFSET :: byte where "RET_ID_OFFSET = 1"

definition stBgpsecReqSigningWithID :: "openssl \<Rightarrow> BGPSecSignData option \<Rightarrow> byte \<Rightarrow> lib \<Rightarrow> sign_result" where
  "stBgpsecReqSigningWithID E sslSignData inID s =
     (if cl_SignParamWithIDSanityCheck sslSignData inID \<noteq> 0 then Some (-1, nosig sslSignData, s)
      else do {
        d \<leftarrow> sslSignData;
        let keyID = inID - RET_ID_OFFSET;
        slot \<leftarrow> c_nth (stEnbuf_Eckey s) (unat keyID);
        if ec_key slot = None then Some (0, sd_signature d, s)
        else do {
          k \<leftarrow> key_at s (ec_key slot);
          if \<not> EC_KEY_check_key E k then Some (0, sd_signature d, s)
          else digest_and_sign E (ec_key slot) d s
        }
      })"

definition sign_with_key :: "openssl \<Rightarrow> BGPSecSignData option \<Rightarrow> BGPSecKey option \<Rightarrow> lib \<Rightarrow> sign_result" where
  "sign_with_key E bgpsec_data key s =
     (case key of
        Some k \<Rightarrow> if keyData k \<noteq> None then stBgpsecReqSigningWithKeyInfo E bgpsec_data key s
                  else stBgpsecReqSigning E bgpsec_data key s
      | None \<Rightarrow> stBgpsecReqSigning E bgpsec_data key s)"

definition sign_with_id :: "openssl \<Rightarrow> 16 word \<Rightarrow> bytes option \<Rightarrow> byte \<Rightarrow> 16 word \<Rightarrow> bytes option \<Rightarrow> lib \<Rightarrow> sign_result" where
  "sign_with_id E dataLen dat keyID sigLength signature s =
     stBgpsecReqSigningWithID E
       (Some \<lparr>sd_data = dat, dataLength = dataLen, sd_ski = None, sd_algoID = 1,
              sd_signature = signature, sigLen = sigLength\<rparr>) keyID s"

subsection \<open>A request that succeeds\<close>

text \<open>The octets to sign, and a request whose signature comes out and passes the check of the code.\<close>

definition sign_octets :: "BGPSecSignData \<Rightarrow> bytes option" where
  "sign_octets d = do { m \<leftarrow> sd_data d; c_take (unat (dataLength d)) m }"

definition signs_as :: "openssl \<Rightarrow> nat \<Rightarrow> EC_KEY \<Rightarrow> bytes \<Rightarrow> bytes \<Rightarrow> bool" where
  "signs_as E n k m sig \<longleftrightarrow> ECDSA_sign E n (SHA256 E m) k = Some sig \<and> ECDSA_verify E (SHA256 E m) sig k = 1"

lemma digest_and_sign_ok:
  assumes "key_at s p = Some k" and "sd_algoID d = 1" and "sign_octets d = Some m"
    and "signs_as E (signs s) k m sig" and "sd_signature d = Some buf" and "length sig \<le> length buf"
  shows "digest_and_sign E p d s =
    Some (int (length sig), Some (sig @ drop (length sig) buf), s\<lparr>signs := signs s + 1\<rparr>)"
  using assms by (cases "sd_data d")
    (auto simp: digest_and_sign_def API_BGPSEC_ALGO_ID_256_def cl_BgpsecOctetDigest_def cl_BgpsecECDSA_Sign_def
      sign_octets_def signs_as_def c_take_eq_Some)

text \<open>The key of the caller: its buffer holds a private key that decodes and passes the check.\<close>

definition der_key :: "openssl \<Rightarrow> lib \<Rightarrow> BGPSecKey \<Rightarrow> EC_KEY \<Rightarrow> bool" where
  "der_key E s key k \<longleftrightarrow> (\<exists>buf. buf_at s (keyData key) = Some buf \<and> unat (keyLength key) \<le> length buf \<and>
     d2i_ECPrivateKey E (take (unat (keyLength key)) buf) = Some k) \<and> EC_KEY_check_key E k"

lemma sign_with_key_unfold:
  assumes "der_key E s key k" and "sd_ski d \<noteq> None" and "sd_data d \<noteq> None" and "sd_signature d \<noteq> None"
  shows "sign_with_key E (Some d) (Some key) s = do {
     (ret, signature, s') \<leftarrow> digest_and_sign E (Some (nxt s)) d (snd (new_obj (Key k) s));
     s'' \<leftarrow> EC_KEY_free (Some (nxt s)) s';
     Some (ret, signature, s'') }"
proof -
  obtain buf where buf: "buf_at s (keyData key) = Some buf" "unat (keyLength key) \<le> length buf"
    "d2i_ECPrivateKey E (take (unat (keyLength key)) buf) = Some k" "EC_KEY_check_key E k"
    using assms(1) by (auto simp: der_key_def)
  obtain a where a: "keyData key = Some a" using buf(1) by (cases "keyData key") (simp_all add: buf_at_def)
  have "sign_with_key E (Some d) (Some key) s = stBgpsecReqSigningWithKeyInfo E (Some d) (Some key) s"
    by (simp add: sign_with_key_def a)
  moreover have "cl_SignParamWithKeySanityCheck (Some d) (Some key) = 0"
    using assms(2-4) a by (auto simp: cl_SignParamWithKeySanityCheck_def)
  ultimately show ?thesis
    using buf by (simp add: stBgpsecReqSigningWithKeyInfo_def split_beta)
qed

lemma sign_with_key_ok:
  assumes "heap_fresh s" and "der_key E s key k" and "sd_ski d \<noteq> None" and "sd_algoID d = 1"
    and "sign_octets d = Some m" and "signs_as E (signs s) k m sig"
    and "sd_signature d = Some buf" and "length sig \<le> length buf"
  shows "sign_with_key E (Some d) (Some key) s =
    Some (int (length sig), Some (sig @ drop (length sig) buf), s\<lparr>signs := signs s + 1, nxt := nxt s + 1\<rparr>)"
proof -
  let ?s = "snd (new_obj (Key k) s)"
  have "sd_data d \<noteq> None" using assms(5) by (cases "sd_data d") (auto simp: sign_octets_def)
  then have "sign_with_key E (Some d) (Some key) s = do {
     (ret, signature, s') \<leftarrow> digest_and_sign E (Some (nxt s)) d ?s;
     s'' \<leftarrow> EC_KEY_free (Some (nxt s)) s';
     Some (ret, signature, s'') }"
    using assms by (intro sign_with_key_unfold) auto
  moreover have "digest_and_sign E (Some (nxt s)) d ?s =
      Some (int (length sig), Some (sig @ drop (length sig) buf), ?s\<lparr>signs := signs s + 1\<rparr>)"
    using digest_and_sign_ok [of ?s "Some (nxt s)" k d m E sig buf] assms by simp
  moreover have "EC_KEY_free (Some (nxt s)) (?s\<lparr>signs := signs s + 1\<rparr>) = Some (s\<lparr>signs := signs s + 1, nxt := nxt s + 1\<rparr>)"
    using assms(1) by (simp add: EC_KEY_free_def new_obj_def key_at_def fun_upd_idem)
  ultimately show ?thesis by simp
qed

text \<open>What OpenSSL promises of a key pair: what the private key signs, both halves accept.\<close>

definition key_pair :: "openssl \<Rightarrow> EC_KEY \<Rightarrow> EC_KEY \<Rightarrow> bool" where
  "key_pair E priv pub \<longleftrightarrow> (\<forall>n d sig. ECDSA_sign E n d priv = Some sig \<longrightarrow>
     ECDSA_verify E d sig priv = 1 \<and> ECDSA_verify E d sig pub = 1)"

definition signed_update :: "PathSegment \<Rightarrow> bytes \<Rightarrow> nat \<Rightarrow> bytes \<Rightarrow> BgpsecPathAttr" where
  "signed_update seg ski len buf =
    \<lparr>securePathLen = 8, pathSegments = [seg], sigBlocks = [\<lparr>algoSuiteId = 1,
     sigSegments = [\<lparr>ss_ski = Some ski, ss_sigLen = of_nat len, ss_signature = Some buf\<rparr>]\<rparr>]\<rparr>"

definition sign_data :: "bytes \<Rightarrow> bytes \<Rightarrow> bytes \<Rightarrow> BGPSecSignData" where
  "sign_data m ski buf =
    \<lparr>sd_data = Some m, dataLength = of_nat (length m), sd_ski = Some ski, sd_algoID = 1,
     sd_signature = Some buf, sigLen = of_nat (length buf)\<rparr>"

lemma sign_octets_data: "length m < 65536 \<Longrightarrow> sign_octets (sign_data m ski buf) = Some m"
  using unat_of_nat_small [of "length m", where 'a = 16] by (simp add: sign_octets_def sign_data_def)

text \<open>Property C7: signing and validation fit together.  When the origin signs the message of its segment
  with \<^verbatim>\<open>sign_with_key\<close>, the request returns the length of the signature, frees its key object, and the
  update that carries the buffer is accepted by the peer with the public half of the key pair.\<close>

theorem signed_update_accepted:
  assumes "heap_fresh s" and pair: "key_pair E priv pub" and "der_key E s key priv"
    and "key_decodes E s (Some pubkey) (Some pub)" and "key_ok E pub"
    and m: "m = put_u32 peer @ put_u32 (seg_as seg) @ [pCount seg, seg_flags seg] @ [1, prefixlen p] @
        take (PSIZE (prefixlen p)) (prefix_octets p)"
    and p: "PSIZE (prefixlen p) \<le> length (prefix_octets p)"
    and sig: "ECDSA_sign E (signs s) (SHA256 E m) priv = Some sig" "length sig \<le> length buf" "length sig < 65536"
  shows "\<exists>buf' s'. sign_with_key E (Some (sign_data m ski buf)) (Some key) s = Some (int (length sig), Some buf', s') \<and>
     objs s' = objs s \<and>
     (\<exists>n. cl_BgpsecVerify E (Some (signed_update seg ski (length sig) buf')) 1 (Some [Some pubkey]) (Some p) peer s' =
        Some (API_BGPSEC_VERIFY_SUCCESS, s'\<lparr>nxt := n\<rparr>))"
proof -
  let ?s = "s\<lparr>signs := signs s + 1, nxt := nxt s + 1\<rparr>" and ?buf = "sig @ drop (length sig) buf"
  let ?ss = "\<lparr>ss_ski = Some ski, ss_sigLen = of_nat (length sig), ss_signature = Some ?buf\<rparr> :: SigSegment"
  have "length m < 65536" using PSIZE_le [of "prefixlen p"] by (simp add: m)
  then have 1: "sign_with_key E (Some (sign_data m ski buf)) (Some key) s = Some (int (length sig), Some ?buf, ?s)"
    using assms by (intro sign_with_key_ok [where m = m] sign_octets_data)
      (auto simp: signs_as_def key_pair_def sign_data_def)
  have "sig_octets ?ss = Some sig"
    using unat_of_nat_small [of "length sig", where 'a = 16] sig(3) by (simp add: sig_octets_def)
  moreover have "heap_fresh ?s" "key_decodes E ?s (Some pubkey) (Some pub)"
    using assms(1,4) by (simp_all add: heap_fresh_def key_decodes_def buf_at_def cong: option.case_cong)
  moreover have "path_valid E 1 p peer [seg] [sig] [Some pub]"
    using pair sig(1) assms(5) by (auto simp: path_valid_def sig_ok_def seg_message_def seg_target_def key_pair_def m)
  ultimately have "\<exists>n. verify_loop E 1 (Some [Some pubkey]) (Some p) 1 peer 1 [seg] [?ss] ?s = Some (1, ?s\<lparr>nxt := n\<rparr>)"
    using verify_loop_last [of ?s ?ss sig 1 "[Some pubkey]" E "Some pub" p 1 peer seg "[]" "[]"] p by simp
  moreover have "path_segment_count 8 = 1" by code_simp
  ultimately have "\<exists>n. cl_BgpsecVerify E (Some (signed_update seg ski (length sig) ?buf)) 1 (Some [Some pubkey]) (Some p) peer ?s =
      Some (API_BGPSEC_VERIFY_SUCCESS, ?s\<lparr>nxt := n\<rparr>)"
    by (simp add: cl_BgpsecVerify_def signed_update_def cl_BgpsecSanityCheck_def api_defs)
  with 1 show ?thesis by (intro exI [of _ ?buf] exI [of _ ?s]) simp
qed

theorem signed_update_accepted_witness:
  "\<exists>buf' s'. sign_with_key sample_ssl
      (Some (sign_data [0, 0, 0, 100, 0, 0, 0, 200, 1, 0, 1, 8, 10] [1] (replicate 72 0))) (sample_key 200 0) sample_lib =
      Some (2, Some buf', s') \<and> objs s' = objs sample_lib \<and>
     (\<exists>n. cl_BgpsecVerify sample_ssl (Some (signed_update (hd sample_segs) [1] 2 buf')) 1 (Some [sample_key 200 0])
        (Some sample_prefix) 100 s' = Some (API_BGPSEC_VERIFY_SUCCESS, s'\<lparr>nxt := n\<rparr>))"
proof -
  let ?m = "[0, 0, 0, 100, 0, 0, 0, 200, 1, 0, 1, 8, 10] :: bytes"
  have m: "?m = put_u32 100 @ put_u32 (seg_as (hd sample_segs)) @ [pCount (hd sample_segs), seg_flags (hd sample_segs)] @
      [1, prefixlen sample_prefix] @ take (PSIZE (prefixlen sample_prefix)) (prefix_octets sample_prefix)" by code_simp
  have k: "der_key sample_ssl sample_lib (the (sample_key 200 0)) [7]"
    by (simp add: der_key_def sample_defs buf_at_def der_public_def der_def der_length_def)
  have "key_pair sample_ssl [7] [7]" by (simp add: key_pair_def sample_ssl_def)
  moreover have "key_decodes sample_ssl sample_lib (Some (the (sample_key 200 0))) (Some [7])"
    using sample_keys_decode(1) [of 200] by (simp add: sample_key_def)
  moreover have "key_ok sample_ssl [7]" by (simp add: key_ok_def sample_ssl_def)
  moreover have "ECDSA_sign sample_ssl (signs sample_lib) (SHA256 sample_ssl ?m) [7] = Some [64, 7]" by code_simp
  moreover have "PSIZE (prefixlen sample_prefix) \<le> length (prefix_octets sample_prefix)" by code_simp
  moreover have "length [64, 7 :: byte] = 2" by simp
  ultimately show ?thesis
    using signed_update_accepted [OF sample_fresh _ k _ _ m, of "[7]" "the (sample_key 200 0)" "[64, 7]" "replicate 72 0" "[1]"]
    by (simp only: sample_key_def option.sel length_replicate) simp
qed

subsection \<open>Requests that fail\<close>

text \<open>The outcome of the signing call that takes the error exit: no signature, or one that fits the buffer
  and does not pass the check.\<close>

definition sign_fails :: "openssl \<Rightarrow> nat \<Rightarrow> EC_KEY \<Rightarrow> bytes \<Rightarrow> nat \<Rightarrow> bool" where
  "sign_fails E n k m room =
     (case ECDSA_sign E n (SHA256 E m) k of None \<Rightarrow> True
      | Some sig \<Rightarrow> length sig \<le> room \<and> ECDSA_verify E (SHA256 E m) sig k \<noteq> 1)"

lemma digest_and_sign_fails:
  assumes "key_at s (Some a) = Some k" and "sd_algoID d = 1" and "sign_octets d = Some m"
    and "sd_signature d = Some buf" and "sign_fails E (signs s) k m (length buf)"
  shows "\<exists>r sig. digest_and_sign E (Some a) d s =
    Some (r, sig, s\<lparr>signs := signs s + 1, objs := (objs s)(a := None)\<rparr>)"
  using assms by (cases "sd_data d"; cases "ECDSA_sign E (signs s) (SHA256 E m) k")
    (auto simp: digest_and_sign_def API_BGPSEC_ALGO_ID_256_def cl_BgpsecOctetDigest_def cl_BgpsecECDSA_Sign_def
      sign_octets_def c_take_eq_Some sign_fails_def EC_KEY_free_def key_at_def)

text \<open>When the signing call inside \<^verbatim>\<open>sign_with_key\<close> fails, the key object is freed twice, once
  by \<^verbatim>\<open>cl_BgpsecECDSA_Sign\<close> and once by its caller.\<close>

theorem failed_sign_frees_twice:
  assumes "der_key E s key k" and "sd_ski d \<noteq> None" and "sd_algoID d = 1" and "sign_octets d = Some m"
    and "sd_signature d = Some buf" and "sign_fails E (signs s) k m (length buf)"
  shows "sign_with_key E (Some d) (Some key) s = None"
proof -
  let ?s = "snd (new_obj (Key k) s)"
  have "sd_data d \<noteq> None" using assms(4) by (cases "sd_data d") (auto simp: sign_octets_def)
  then have 1: "sign_with_key E (Some d) (Some key) s = do {
     (ret, signature, s') \<leftarrow> digest_and_sign E (Some (nxt s)) d ?s;
     s'' \<leftarrow> EC_KEY_free (Some (nxt s)) s';
     Some (ret, signature, s'') }"
    using assms by (intro sign_with_key_unfold) auto
  obtain r sig where "digest_and_sign E (Some (nxt s)) d ?s =
      Some (r, sig, ?s\<lparr>signs := signs s + 1, objs := (objs ?s)(nxt s := None)\<rparr>)"
    using digest_and_sign_fails [of ?s "nxt s" k d m buf E] assms by auto
  then show ?thesis unfolding 1 by (simp add: EC_KEY_free_def key_at_def)
qed

theorem failed_sign_frees_twice_witness:
  "sign_with_key (sample_ssl\<lparr>ECDSA_sign := \<lambda>_ _ _. None\<rparr>) (Some (sign_data [1, 2] [1] (replicate 72 0)))
     (sample_key 200 0) sample_lib = None"
proof -
  have "der_key (sample_ssl\<lparr>ECDSA_sign := \<lambda>_ _ _. None\<rparr>) sample_lib (the (sample_key 200 0)) [7]"
    by (simp add: der_key_def sample_defs buf_at_def der_public_def der_def der_length_def)
  from failed_sign_frees_twice [OF this, of "sign_data [1, 2] [1] (replicate 72 0)" "[1, 2]" "replicate 72 0"]
  show ?thesis by (simp add: sign_data_def sign_octets_def sign_fails_def sample_key_def)
qed

text \<open>The same failure inside \<^verbatim>\<open>sign_with_id\<close> frees the registered key but leaves its address
  in the table: the call returns, and every later request with this identifier that passes the parameter
  check uses freed memory.\<close>

theorem failed_sign_with_id_dangles:
  assumes "keyID \<noteq> 0" and "unat (keyID - 1) < length (stEnbuf_Eckey s)" and "ec_key (stEnbuf_Eckey s ! unat (keyID - 1)) = Some a"
    and "key_at s (Some a) = Some k" and "EC_KEY_check_key E k"
    and "unat dlen \<le> length m" and "sign_fails E (signs s) k (take (unat dlen) m) (length buf)"
  shows "\<exists>r sig s'. sign_with_id E dlen (Some m) keyID slen (Some buf) s = Some (r, sig, s') \<and>
    (\<forall>dlen' m' slen' buf'. sign_with_id E dlen' (Some m') keyID slen' (Some buf') s' = None)"
proof -
  let ?d = "\<lparr>sd_data = Some m, dataLength = dlen, sd_ski = None, sd_algoID = 1, sd_signature = Some buf, sigLen = slen\<rparr>"
  let ?s = "s\<lparr>signs := signs s + 1, objs := (objs s)(a := None)\<rparr>"
  have "sign_with_id E dlen (Some m) keyID slen (Some buf) s = digest_and_sign E (Some a) ?d s"
    using assms by (simp add: sign_with_id_def stBgpsecReqSigningWithID_def cl_SignParamWithIDSanityCheck_def RET_ID_OFFSET_def)
  moreover have "\<exists>r sig. digest_and_sign E (Some a) ?d s = Some (r, sig, ?s)"
    using assms by (intro digest_and_sign_fails) (auto simp: sign_octets_def)
  moreover have "sign_with_id E dlen' (Some m') keyID slen' (Some buf') ?s = None" for dlen' m' slen' buf'
    using assms by (simp add: sign_with_id_def stBgpsecReqSigningWithID_def cl_SignParamWithIDSanityCheck_def RET_ID_OFFSET_def key_at_def)
  ultimately show ?thesis by metis
qed

theorem failed_sign_with_id_dangles_witness:
  "\<exists>r sig s'. sign_with_id (sample_ssl\<lparr>ECDSA_sign := \<lambda>_ _ _. None\<rparr>) 2 (Some [1, 2]) 1 72 (Some (replicate 72 0))
      (sample_lib\<lparr>objs := [5 \<mapsto> Key [7]], stEnbuf_Eckey := [\<lparr>en_buf = None, ec_key = Some 5, slot_id = 0\<rparr>]\<rparr>) = Some (r, sig, s') \<and>
    (\<forall>dlen' m' slen' buf'. sign_with_id (sample_ssl\<lparr>ECDSA_sign := \<lambda>_ _ _. None\<rparr>) dlen' (Some m') 1 slen' (Some buf') s' = None)"
  by (rule failed_sign_with_id_dangles [where k = "[7]" and a = 5])
     (simp_all add: key_at_def sample_ssl_def sign_fails_def)

text \<open>A certificate whose public key is not a point of the curve makes the verification with a
  key from a file free its key object twice: \<^verbatim>\<open>cl_BgpsecSetEcPublicKey\<close> frees it on its error exit and
  leaves the address in the variable of the caller, whose own exit frees it again.\<close>

theorem bad_certificate_frees_twice:
  assumes "sd_ski d = Some ski" and "length ski = 20" and "cl_GetPublicKey E fn = Some cert"
    and "sca_FindDirInSKI (keyPath s) MAXPATHLEN ski = Some fn"
    and "EC_KEY_new_by_curve_name E API_BGPSEC_OPENSSL_ID = Some k" and "length (cert_public_key E cert) \<le> 4096"
    and "EC_GROUP_new_by_curve_name_ok E API_BGPSEC_OPENSSL_ID" and "EC_POINT_new_ok E"
    and "EC_POINT_oct2point E API_BGPSEC_OPENSSL_ID (cert_public_key E cert) = None"
  shows "stcl_BgpsecVerifySignatureSSL E d s = None"
  using assms by (simp add: stcl_BgpsecVerifySignatureSSL_def cl_BgpsecSetEcPublicKey_def set_ec_public_key_err_def
      new_obj_def EC_KEY_free_def key_at_def api_defs)

theorem bad_certificate_frees_twice_witness:
  "stcl_BgpsecVerifySignatureSSL (sample_ssl\<lparr>EC_POINT_oct2point := \<lambda>_ _. None\<rparr>)
     (sign_data [1] (replicate 20 1) [2]) sample_lib = None"
proof -
  let ?fn = "the (sca_FindDirInSKI (keyPath sample_lib) MAXPATHLEN (replicate 20 1))"
  have "sca_FindDirInSKI (keyPath sample_lib) MAXPATHLEN (replicate 20 1) = Some ?fn"
    by (simp add: sca_FindDirInSKI_def SKI_LENGTH_def Let_def)
  then show ?thesis
    by (intro bad_certificate_frees_twice [where ski = "replicate 20 1" and fn = ?fn and cert = "[9]"])
       (simp_all add: sign_data_def sample_ssl_def cl_GetPublicKey_def)
qed

end
