(* ===== verification/KeyStore.thy ===== *)
theory KeyStore
  imports BgpsecSign
begin

text \<open>
  The key store of \<^verbatim>\<open>bgpsec_openssl-VariousKeyManipulation.c\<close>: the hash table \<^verbatim>\<open>g_records\<close> from AS
  numbers to key records, the table \<^verbatim>\<open>stEnbuf_Eckey\<close> from key identifiers to key objects, and the
  operations that register, find and unregister keys.

  The hash table is the list of its records in the order of insertion; what uthash computes is in the
  record \<open>openssl\<close> (\<open>hash_value\<close>, \<open>hash_find\<close>, \<open>hash_grow\<close>), and \<open>hash_ok\<close> states what its
  documentation says of a search.  \<^verbatim>\<open>ID_NUM_MAX\<close> is the length of the table of key identifiers.  The
  address of a key buffer is the identity of the buffer, as in the code.

  The locale \<open>key_table\<close> states what a client expects of the registration: the identifier returned is
  bound to the key, and keys with other identifiers stay bound.  Its interpretation on the code's
  operations gives that any number of keys with different AS numbers and different identifiers can be
  registered and used.  The other properties state what happens when identifiers collide, wrap around,
  or are released.
\<close>

subsection \<open>The code\<close>

fun cmpSKI_loop :: "nat \<Rightarrow> nat \<Rightarrow> bytes \<Rightarrow> bytes \<Rightarrow> bool option" where
  "cmpSKI_loop 0 idx arr1 arr2 = Some True"
| "cmpSKI_loop (Suc n) idx arr1 arr2 = do {
     a \<leftarrow> c_nth arr1 idx;
     b \<leftarrow> c_nth arr2 idx;
     if a \<noteq> b then Some False else cmpSKI_loop n (idx + 1) arr1 arr2
   }"

definition cmpSKI :: "bytes \<Rightarrow> bytes \<Rightarrow> bool option" where
  "cmpSKI arr1 arr2 = cmpSKI_loop SKI_LENGTH 0 arr1 arr2"

definition HASH_ADD :: "openssl \<Rightarrow> Record_t \<Rightarrow> lib \<Rightarrow> lib" where
  "HASH_ADD E r s =
     s\<lparr>g_records := g_records s @ [r\<lparr>hashv := hash_value E (rec_asn r)\<rparr>],
       num_buckets := hash_grow E (g_records s) (num_buckets s)\<rparr>"

text \<open>\<^verbatim>\<open>HASH_DEL\<close> of the record at a position.\<close>

definition HASH_DEL :: "nat \<Rightarrow> lib \<Rightarrow> lib" where
  "HASH_DEL i s = s\<lparr>g_records := take i (g_records s) @ drop (Suc i) (g_records s)\<rparr>"

definition malloc :: "openssl \<Rightarrow> lib \<Rightarrow> bool \<times> lib" where
  "malloc E s = (malloc_ok E (nxt s), s\<lparr>nxt := nxt s + 1\<rparr>)"

text \<open>\<^verbatim>\<open>hashv & (ID_NUM_MAX-1)\<close>\<close>

definition id_of_hash :: "lib \<Rightarrow> 32 word \<Rightarrow> 32 word" where
  "id_of_hash s h = h AND (of_nat (length (stEnbuf_Eckey s)) - 1)"

text \<open>A failed allocation of the key information jumps to the error exit, which reads the variable
  \<^verbatim>\<open>new\<close> before it is set; the second allocation is not tested at all.\<close>

definition inputKeyInfo :: "openssl \<Rightarrow> ptr \<Rightarrow> bytes \<Rightarrow> 32 word \<Rightarrow> BGPSecKey option \<Rightarrow> lib \<Rightarrow> (int \<times> lib) option" where
  "inputKeyInfo E ec ski asn outKey s =
     (case (ec, outKey) of
        (Some _, Some out) \<Rightarrow> do {
          let (ok, s) = malloc E s;
          c_assert ok;
          oski \<leftarrow> c_take SKI_LENGTH (key_ski out);
          let bsKeyInfo = \<lparr>key_algoID = 1, key_asn = key_asn out, key_ski = oski,
                           keyLength = sizeof_EC_KEY E, keyData = keyData out\<rparr>;
          let (ok, s) = malloc E s;
          c_assert ok;
          let (ok, s) = malloc E s;
          if ok then do {
            nski \<leftarrow> c_take SKI_LENGTH ski;
            let s = HASH_ADD E \<lparr>rec_asn = asn, rec_ski = nski, rec_data = bsKeyInfo, hashv = 0\<rparr> s;
            Some (sint (id_of_hash s (hash_value E asn)), s)
          }
          else Some (-1, s)
        }
      | _ \<Rightarrow> Some (-1, s))"

text \<open>The position of the record, or \<^verbatim>\<open>NULL\<close>.\<close>

definition restoreKeyInfo :: "openssl \<Rightarrow> bytes \<Rightarrow> 32 word \<Rightarrow> lib \<Rightarrow> nat option option" where
  "restoreKeyInfo E ski asn s = do {
     c \<leftarrow> c_nth ski 0;
     (case hash_find E (g_records s) asn of
        None \<Rightarrow> Some None
      | Some i \<Rightarrow> do {
          out \<leftarrow> c_nth (g_records s) i;
          same \<leftarrow> cmpSKI (rec_ski out) ski;
          Some (if same then Some i else None)
        })
   }"

text \<open>The body of the loop returns in every branch, so only the first record is looked at.  A match is
  logged with the identifier as a string, which reads on until a zero octet.\<close>

definition restoreKeyInfo_withID :: "bytes \<Rightarrow> 32 word \<Rightarrow> 32 word \<Rightarrow> lib \<Rightarrow> nat option option" where
  "restoreKeyInfo_withID ski asn kid s =
     (case g_records s of
        [] \<Rightarrow> Some None
      | r # _ \<Rightarrow>
          if rec_asn r = asn then do {
            same \<leftarrow> cmpSKI (rec_ski r) ski;
            if same then
              (if kid = hashv r then do { c_assert (0 \<in> set (rec_ski r)); Some (Some 0) } else Some None)
            else Some None
          }
          else Some None)"

definition hashKey_get_BGPSecKey :: "openssl \<Rightarrow> 32 word \<Rightarrow> bytes option \<Rightarrow> lib \<Rightarrow> BGPSecKey option option" where
  "hashKey_get_BGPSecKey E asn ski s =
     (case ski of
        None \<Rightarrow> Some None
      | Some ski \<Rightarrow>
          if asn = 0 then Some None
          else do {
            found \<leftarrow> restoreKeyInfo E ski asn s;
            (case found of
               None \<Rightarrow> Some None
             | Some i \<Rightarrow> do { r \<leftarrow> c_nth (g_records s) i; Some (Some (rec_data r)) })
          })"

definition registerPrivateKey :: "openssl \<Rightarrow> BGPSecKey option \<Rightarrow> lib \<Rightarrow> (byte \<times> lib) option" where
  "registerPrivateKey E outKey s =
     (case outKey of
        None \<Rightarrow> Some (0, s)
      | Some out \<Rightarrow>
          if key_asn out = 0 then Some (0, s)
          else do {
            found \<leftarrow> restoreKeyInfo E (key_ski out) (key_asn out) s;
            (case found of
               Some i \<Rightarrow> do {
                 r \<leftarrow> c_nth (g_records s) i;
                 Some (ucast (id_of_hash s (hashv r)) + RET_ID_OFFSET, s)
               }
             | None \<Rightarrow> do {
                 buf \<leftarrow> buf_at s (keyData out);
                 der \<leftarrow> c_take (unat (keyLength out)) buf;
                 (case d2i_ECPrivateKey E der of
                    None \<Rightarrow> Some (0, s)
                  | Some k \<Rightarrow> do {
                      let (ec, s) = new_obj (Key k) s;
                      (retVal, s) \<leftarrow> inputKeyInfo E ec (key_ski out) (key_asn out) outKey s;
                      let ret_hash_id = ((if retVal = -1 then 0 else of_int retVal) :: byte);
                      c_assert (unat ret_hash_id < length (stEnbuf_Eckey s));
                      let s = s\<lparr>stEnbuf_Eckey := (stEnbuf_Eckey s)[unat ret_hash_id :=
                        \<lparr>en_buf = keyData out, ec_key = ec, slot_id = int (unat ret_hash_id)\<rparr>]\<rparr>;
                      Some (ret_hash_id + RET_ID_OFFSET, s)
                    })
               })
          })"

text \<open>The result, the caller's key structure and the state.\<close>

definition register_public_found :: "openssl \<Rightarrow> BGPSecKey \<Rightarrow> Record_t \<Rightarrow> lib \<Rightarrow> (byte \<times> BGPSecKey \<times> lib) option" where
  "register_public_found E out r s = do {
     let tmp = rec_data r;
     let (ok, s) = malloc E s;
     (copy, s) \<leftarrow> (if ok then do {
         buf \<leftarrow> buf_at s (keyData tmp);
         octets \<leftarrow> c_take (unat (keyLength tmp)) buf;
         Some (new_obj (Buf octets) s)
       } else Some (None, s));
     (out, s) \<leftarrow> (if keyData out = None then Some (out\<lparr>keyData := copy\<rparr>, s)
       else do { s \<leftarrow> free_buf copy s; Some (out, s) });
     let out = (if keyLength out = 0 then out\<lparr>keyLength := keyLength tmp\<rparr> else out);
     Some (ucast (id_of_hash s (hashv r)) + RET_ID_OFFSET, out, s)
   }"

definition registerPublicKey :: "openssl \<Rightarrow> BGPSecKey option \<Rightarrow> lib \<Rightarrow> (byte \<times> BGPSecKey option \<times> lib) option" where
  "registerPublicKey E outKey s =
     (case outKey of
        None \<Rightarrow> Some (0, outKey, s)
      | Some out \<Rightarrow>
          if key_asn out = 0 then Some (0, outKey, s)
          else do {
            found \<leftarrow> restoreKeyInfo E (key_ski out) (key_asn out) s;
            (case found of
               Some i \<Rightarrow> do {
                 r \<leftarrow> c_nth (g_records s) i;
                 (ret, out, s) \<leftarrow> register_public_found E out r s;
                 Some (ret, Some out, s)
               }
             | None \<Rightarrow>
                 if keyData out = None then Some (0, outKey, s)
                 else do {
                   buf \<leftarrow> buf_at s (keyData out);
                   der \<leftarrow> c_take (unat (keyLength out)) buf;
                   (case d2i_PUBKEY E der of
                      None \<Rightarrow> Some (0, outKey, s)
                    | Some pkey_tmp \<Rightarrow> do {
                        k \<leftarrow> EVP_PKEY_get1_EC_KEY E pkey_tmp;
                        let (ec, s) = new_obj (Key k) s;
                        (retVal, s) \<leftarrow> inputKeyInfo E ec (key_ski out) (key_asn out) outKey s;
                        let ret_hash_id = ((if retVal = -1 then 0 else of_int retVal) :: byte);
                        Some (ret_hash_id + RET_ID_OFFSET, outKey, s)
                      })
                 })
          })"

text \<open>The body of \<^verbatim>\<open>unregisterPublicKey\<close> is empty.\<close>

definition unregisterPublicKey :: "BGPSecKey option \<Rightarrow> lib \<Rightarrow> lib" where
  "unregisterPublicKey key s = s"

definition deleteKeyInfo :: "nat option \<Rightarrow> lib \<Rightarrow> (int \<times> lib) option" where
  "deleteKeyInfo rec s =
     (case rec of
        None \<Rightarrow> Some (-1, s)
      | Some i \<Rightarrow> do {
          r \<leftarrow> c_nth (g_records s) i;
          s \<leftarrow> EC_KEY_free (keyData (rec_data r)) s;
          Some (0, HASH_DEL i s)
        })"

definition unregisterKey :: "openssl \<Rightarrow> bytes \<Rightarrow> 32 word \<Rightarrow> 32 word \<Rightarrow> lib \<Rightarrow> (32 word \<times> lib) option" where
  "unregisterKey E ski asn keyID s =
     (if asn = 0 then Some (0, s)
      else do {
        found \<leftarrow> restoreKeyInfo E ski asn s;
        (case found of
           None \<Rightarrow> Some (0, s)
         | Some i \<Rightarrow> do {
             (_, s) \<leftarrow> deleteKeyInfo (Some i) s;
             Some (0, s)
           })
      })"

text \<open>The loop of \<^verbatim>\<open>unregisterPrivateKey\<close> over the records: a record that matches is deleted and freed,
  and the loop then reads \<^verbatim>\<open>hh.next\<close> of the freed record.\<close>

fun unregister_loop :: "32 word \<Rightarrow> byte \<Rightarrow> ptr \<Rightarrow> Record_t list \<Rightarrow> unit option" where
  "unregister_loop buckets keyID en [] = Some ()"
| "unregister_loop buckets keyID en (r # rs) =
     (if hashv r AND (buckets - 1) = ucast keyID \<and> en = keyData (rec_data r) then None
      else unregister_loop buckets keyID en rs)"

definition unregisterPrivateKey :: "byte \<Rightarrow> lib \<Rightarrow> (byte \<times> lib) option" where
  "unregisterPrivateKey inID s = do {
     let keyID = inID - RET_ID_OFFSET;
     slot \<leftarrow> c_nth (stEnbuf_Eckey s) (unat keyID);
     if int (unat keyID) \<noteq> slot_id slot then Some (0, s)
     else do {
       u \<leftarrow> unregister_loop (num_buckets s) keyID (en_buf slot) (g_records s);
       s \<leftarrow> EC_KEY_free (ec_key slot) s;
       s \<leftarrow> free_buf (en_buf slot) s;
       Some (0, s\<lparr>stEnbuf_Eckey := (stEnbuf_Eckey s)[unat keyID := \<lparr>en_buf = None, ec_key = None, slot_id = 0\<rparr>]\<rparr>)
     }
   }"

subsection \<open>What the code relies on, and the state of the store\<close>

text \<open>The documentation of uthash: a search gives a record with the key, and \<^verbatim>\<open>NULL\<close> if there is none.\<close>

definition hash_ok :: "openssl \<Rightarrow> bool" where
  "hash_ok E \<longleftrightarrow> (\<forall>rs n. case hash_find E rs n of
      None \<Rightarrow> (\<forall>r\<in>set rs. rec_asn r \<noteq> n)
    | Some i \<Rightarrow> i < length rs \<and> rec_asn (rs ! i) = n)"

definition store_inv :: "openssl \<Rightarrow> lib \<Rightarrow> bool" where
  "store_inv E s \<longleftrightarrow> heap_fresh s \<and> 0 < length (stEnbuf_Eckey s) \<and> length (stEnbuf_Eckey s) \<le> 256 \<and>
     (\<forall>r\<in>set (g_records s). length (rec_ski r) = 20 \<and> hashv r = hash_value E (rec_asn r))"

text \<open>The identifier that an AS number gets.\<close>

definition key_id :: "openssl \<Rightarrow> lib \<Rightarrow> 32 word \<Rightarrow> byte" where
  "key_id E s asn = ucast (id_of_hash s (hash_value E asn)) + RET_ID_OFFSET"

text \<open>The identifier \<open>i\<close> is bound to the usable key \<open>k\<close>.\<close>

definition bound :: "openssl \<Rightarrow> lib \<Rightarrow> byte \<Rightarrow> EC_KEY \<Rightarrow> bool" where
  "bound E s i k \<longleftrightarrow> i \<noteq> 0 \<and> unat (i - 1) < length (stEnbuf_Eckey s) \<and>
     (\<exists>a. ec_key (stEnbuf_Eckey s ! unat (i - 1)) = Some a \<and> key_at s (Some a) = Some k) \<and> EC_KEY_check_key E k"

text \<open>A key that can be registered and gets the identifier \<open>i\<close>.\<close>

definition registrable :: "openssl \<Rightarrow> lib \<Rightarrow> BGPSecKey \<Rightarrow> EC_KEY \<Rightarrow> byte \<Rightarrow> bool" where
  "registrable E s key k i \<longleftrightarrow> key_asn key \<noteq> 0 \<and> length (key_ski key) = 20 \<and> der_key E s key k \<and>
     (\<forall>r\<in>set (g_records s). rec_asn r \<noteq> key_asn key) \<and> i = key_id E s (key_asn key)"

subsection \<open>Identifiers\<close>

lemma cmpSKI_loop_eq:
  "n + idx \<le> length a \<Longrightarrow> n + idx \<le> length b \<Longrightarrow>
   cmpSKI_loop n idx a b = Some (take n (drop idx a) = take n (drop idx b))"
proof (induction n arbitrary: idx)
  case 0
  then show ?case by simp
next
  case (Suc n)
  then have "take (Suc n) (drop idx x) = x ! idx # take n (drop (Suc idx) x)" if "x = a \<or> x = b" for x
    using that by (auto simp: Cons_nth_drop_Suc [symmetric])
  with Suc show ?case by auto
qed

lemma cmpSKI_eq [simp]: "length a = 20 \<Longrightarrow> length b = 20 \<Longrightarrow> cmpSKI a b = Some (a = b)"
  by (simp add: cmpSKI_def SKI_LENGTH_def cmpSKI_loop_eq)

lemma id_of_hash_less:
  assumes "0 < length (stEnbuf_Eckey s)" and "length (stEnbuf_Eckey s) \<le> 256"
  shows "unat (id_of_hash s h) < length (stEnbuf_Eckey s)"
proof -
  let ?N = "length (stEnbuf_Eckey s)"
  have u: "unat (of_nat ?N :: 32 word) = ?N" using assms(2) by (intro unat_of_nat_small) simp
  then have "(of_nat ?N :: 32 word) \<noteq> 0" using assms(1) by (metis less_irrefl unsigned_0)
  then have "unat ((of_nat ?N :: 32 word) - 1) = ?N - 1" using u by (simp add: unat_minus_one)
  moreover have "id_of_hash s h \<le> of_nat ?N - 1" unfolding id_of_hash_def by (rule word_and_le1)
  ultimately have "unat (id_of_hash s h) \<le> ?N - 1" by (simp add: word_le_nat_alt)
  then show ?thesis using assms(1) by linarith
qed

lemma id_of_hash_int:
  assumes "0 < length (stEnbuf_Eckey s)" and "length (stEnbuf_Eckey s) \<le> 256"
  shows "sint (id_of_hash s h) = int (unat (id_of_hash s h))"
    and "unat (ucast (id_of_hash s h) :: byte) = unat (id_of_hash s h)"
proof -
  have l: "unat (id_of_hash s h) < 256" using id_of_hash_less [OF assms] assms(2) by (meson less_le_trans)
  then have "uint (id_of_hash s h) < 256" by (simp add: uint_nat del: of_nat_unat)
  then show "sint (id_of_hash s h) = int (unat (id_of_hash s h))"
    by (simp only: sint_uint of_nat_unat, intro signed_take_bit_int_eq_self) (auto intro: order_trans [of _ 0])
  show "unat (ucast (id_of_hash s h) :: byte) = unat (id_of_hash s h)"
    using l by (simp add: unsigned_ucast_eq take_bit_eq_mod)
qed

lemma id_of_hash_cong: "length (stEnbuf_Eckey s') = length (stEnbuf_Eckey s) \<Longrightarrow> id_of_hash s' h = id_of_hash s h"
  by (simp add: id_of_hash_def)

subsection \<open>Registering a new key\<close>

text \<open>The state after the registration.\<close>

definition registered :: "openssl \<Rightarrow> BGPSecKey \<Rightarrow> EC_KEY \<Rightarrow> lib \<Rightarrow> lib" where
  "registered E key k s =
     (let s' = HASH_ADD E \<lparr>rec_asn = key_asn key, rec_ski = key_ski key,
                rec_data = \<lparr>key_algoID = 1, key_asn = key_asn key, key_ski = key_ski key,
                            keyLength = sizeof_EC_KEY E, keyData = keyData key\<rparr>, hashv = 0\<rparr>
              (s\<lparr>objs := (objs s)(nxt s \<mapsto> Key k), nxt := nxt s + 4\<rparr>) in
      s'\<lparr>stEnbuf_Eckey := (stEnbuf_Eckey s)[unat (id_of_hash s (hash_value E (key_asn key))) :=
        \<lparr>en_buf = keyData key, ec_key = Some (nxt s), slot_id = int (unat (id_of_hash s (hash_value E (key_asn key))))\<rparr>]\<rparr>)"

lemma registered_simps [simp]:
  "objs (registered E key k s) = (objs s)(nxt s \<mapsto> Key k)"
  "nxt (registered E key k s) = nxt s + 4"
  "signs (registered E key k s) = signs s"
  "length (stEnbuf_Eckey (registered E key k s)) = length (stEnbuf_Eckey s)"
  "g_records (registered E key k s) = g_records s @ [\<lparr>rec_asn = key_asn key, rec_ski = key_ski key,
     rec_data = \<lparr>key_algoID = 1, key_asn = key_asn key, key_ski = key_ski key,
                 keyLength = sizeof_EC_KEY E, keyData = keyData key\<rparr>, hashv = hash_value E (key_asn key)\<rparr>]"
  by (simp_all add: registered_def HASH_ADD_def)

lemma restore_none:
  assumes "hash_ok E" and "\<forall>r\<in>set (g_records s). rec_asn r \<noteq> asn" and "length ski = 20"
  shows "restoreKeyInfo E ski asn s = Some None"
proof -
  have h: "case hash_find E (g_records s) asn of None \<Rightarrow> \<forall>r\<in>set (g_records s). rec_asn r \<noteq> asn
      | Some i \<Rightarrow> i < length (g_records s) \<and> rec_asn (g_records s ! i) = asn"
    using assms(1) unfolding hash_ok_def by blast
  have "hash_find E (g_records s) asn = None"
  proof (cases "hash_find E (g_records s) asn")
    case (Some i)
    with h have "g_records s ! i \<in> set (g_records s)" "rec_asn (g_records s ! i) = asn" by auto
    with assms(2) show ?thesis by blast
  qed
  then show ?thesis using assms(3) by (simp add: restoreKeyInfo_def)
qed

lemma register_new:
  assumes "hash_ok E" and "\<forall>n. malloc_ok E n" and "store_inv E s" and "registrable E s key k i"
  shows "registerPrivateKey E (Some key) s = Some (i, registered E key k s)"
proof -
  note inv = assms(3) [unfolded store_inv_def] and reg = assms(4) [unfolded registrable_def]
  obtain buf where buf: "buf_at s (keyData key) = Some buf" "unat (keyLength key) \<le> length buf"
    "d2i_ECPrivateKey E (take (unat (keyLength key)) buf) = Some k"
    using reg by (auto simp: der_key_def)
  let ?h = "id_of_hash s (hash_value E (key_asn key))"
  let ?s = "snd (new_obj (Key k) s)"
  define s' where "s' = HASH_ADD E \<lparr>rec_asn = key_asn key, rec_ski = key_ski key,
                rec_data = \<lparr>key_algoID = 1, key_asn = key_asn key, key_ski = key_ski key,
                            keyLength = sizeof_EC_KEY E, keyData = keyData key\<rparr>, hashv = 0\<rparr>
              (s\<lparr>objs := (objs s)(nxt s \<mapsto> Key k), nxt := nxt s + 4\<rparr>)"
  have len: "stEnbuf_Eckey s' = stEnbuf_Eckey s" by (simp add: s'_def HASH_ADD_def)
  have id: "sint ?h = int (unat ?h)" "unat (ucast ?h :: byte) = unat ?h" "unat ?h < length (stEnbuf_Eckey s)"
    using id_of_hash_int [of s] id_of_hash_less [of s] inv by auto
  have "inputKeyInfo E (Some (nxt s)) (key_ski key) (key_asn key) (Some key) ?s = Some (int (unat ?h), s')"
    using assms(2) reg id(1) len
    by (simp add: inputKeyInfo_def malloc_def SKI_LENGTH_def s'_def new_obj_def HASH_ADD_def id_of_hash_def)
  moreover have "(of_int (int (unat ?h)) :: byte) = ucast ?h" by simp
  moreover have "int (unat ?h) \<noteq> -1" by (metis int_ops(1) neg_0_le_iff_le not_one_le_zero of_nat_0_le_iff)
  ultimately show ?thesis
    using restore_none [OF assms(1)] reg buf id len
    by (simp add: registerPrivateKey_def registered_def Let_def split_beta key_id_def s'_def [symmetric] del: of_nat_unat)
qed

lemma store_inv_registered:
  assumes "store_inv E s" and "registrable E s key k i"
  shows "store_inv E (registered E key k s)"
  using assms by (auto simp: store_inv_def heap_fresh_def registrable_def)

lemma key_id_slot:
  assumes "store_inv E s"
  shows "unat (key_id E s asn - 1) = unat (id_of_hash s (hash_value E asn))"
    "unat (key_id E s asn - 1) < length (stEnbuf_Eckey s)"
  using assms id_of_hash_int(2) [of s] id_of_hash_less [of s] by (simp_all add: key_id_def RET_ID_OFFSET_def store_inv_def)

lemma bound_registered:
  assumes "store_inv E s" and "registrable E s key k i" and "i \<noteq> 0"
  shows "bound E (registered E key k s) i k"
proof -
  have i: "i = key_id E s (key_asn key)" and c: "EC_KEY_check_key E k"
    using assms(2) by (simp_all add: registrable_def der_key_def)
  have "stEnbuf_Eckey (registered E key k s) ! unat (i - 1) =
      \<lparr>en_buf = keyData key, ec_key = Some (nxt s), slot_id = int (unat (i - 1))\<rparr>"
    using key_id_slot [OF assms(1), of "key_asn key"] by (simp add: i registered_def Let_def del: of_nat_unat)
  then show ?thesis
    using assms(3) c key_id_slot(2) [OF assms(1)] by (simp add: bound_def key_at_def i)
qed

lemma bound_other:
  assumes "store_inv E s" and "registrable E s key k i" and "bound E s j k'" and "j \<noteq> i"
  shows "bound E (registered E key k s) j k'"
proof -
  have i: "i = key_id E s (key_asn key)" using assms(2) by (simp add: registrable_def)
  have "i - 1 \<noteq> j - 1" using assms(4) by simp
  then have "unat (i - 1) \<noteq> unat (j - 1)" by (simp only: word_unat_eq_iff [symmetric] not_False_eq_True)
  then have slot: "stEnbuf_Eckey (registered E key k s) ! unat (j - 1) = stEnbuf_Eckey s ! unat (j - 1)"
    using key_id_slot(1) [OF assms(1), of "key_asn key"] by (simp add: i registered_def Let_def)
  obtain a where a: "ec_key (stEnbuf_Eckey s ! unat (j - 1)) = Some a" "key_at s (Some a) = Some k'"
    using assms(3) by (auto simp: bound_def)
  have "a \<noteq> nxt s" using a(2) assms(1) by (auto simp: key_at_def store_inv_def)
  then show ?thesis using assms(3) a slot by (auto simp: bound_def key_at_def)
qed

lemma registrable_other:
  assumes "store_inv E s" and "registrable E s key k i" and "registrable E s key' k' j" and "key_asn key \<noteq> key_asn key'"
  shows "registrable E (registered E key k s) key' k' j"
proof -
  have "heap_fresh s" using assms(1) by (simp add: store_inv_def)
  then have "buf_at (registered E key k s) p = Some b" if "buf_at s p = Some b" for p b
    using that by (cases p) (auto simp: buf_at_def)
  then have "der_key E (registered E key k s) key' k'"
    using assms(3) unfolding registrable_def der_key_def by blast
  then show ?thesis
    using assms by (simp add: registrable_def key_id_def id_of_hash_def)
qed

text \<open>The record of a new key is the last one, and a search finds it.\<close>

lemma restore_registered:
  assumes "hash_ok E" and "registrable E s key k i"
  shows "restoreKeyInfo E (key_ski key) (key_asn key) (registered E key k s) = Some (Some (length (g_records s)))"
proof -
  let ?rs = "g_records (registered E key k s)"
  note reg = assms(2) [unfolded registrable_def]
  obtain j where j: "hash_find E ?rs (key_asn key) = Some j" "j < length ?rs" "rec_asn (?rs ! j) = key_asn key"
    using assms(1) [unfolded hash_ok_def, rule_format, of ?rs "key_asn key"] by (auto split: option.splits)
  have "j = length (g_records s)"
    using j(2,3) reg by (auto simp: nth_append less_Suc_eq split: if_splits)
  with j(1) show ?thesis using reg by (simp add: restoreKeyInfo_def)
qed

lemma unregister_loop_match:
  "r \<in> set rs \<Longrightarrow> hashv r AND (n - 1) = ucast keyID \<Longrightarrow> unregister_loop n keyID (keyData (rec_data r)) rs = None"
  by (induction rs) auto

subsection \<open>The contract of the registration\<close>

primrec reg_all :: "('k \<Rightarrow> 's \<Rightarrow> (byte \<times> 's) option) \<Rightarrow> 'k list \<Rightarrow> 's \<Rightarrow> (byte list \<times> 's) option" where
  "reg_all reg [] s = Some ([], s)"
| "reg_all reg (k # ks) s = do {
     (i, s) \<leftarrow> reg k s;
     (is, s) \<leftarrow> reg_all reg ks s;
     Some (i # is, s)
   }"

locale key_table =
  fixes reg :: "'k \<Rightarrow> 's \<Rightarrow> (byte \<times> 's) option"
    and inv :: "'s \<Rightarrow> bool"
    and can :: "'s \<Rightarrow> 'k \<Rightarrow> 'e \<Rightarrow> byte \<Rightarrow> bool"
    and has :: "'s \<Rightarrow> byte \<Rightarrow> 'e \<Rightarrow> bool"
    and apart :: "'k \<Rightarrow> 'k \<Rightarrow> bool"
  assumes reg_binds: "inv s \<Longrightarrow> can s k e i \<Longrightarrow> \<exists>s'. reg k s = Some (i, s') \<and> inv s' \<and> has s' i e"
    and reg_keeps: "inv s \<Longrightarrow> can s k e i \<Longrightarrow> reg k s = Some (i, s') \<Longrightarrow> has s j e' \<Longrightarrow> j \<noteq> i \<Longrightarrow> has s' j e'"
    and reg_others: "inv s \<Longrightarrow> can s k e i \<Longrightarrow> reg k s = Some (i, s') \<Longrightarrow> can s k' e' j \<Longrightarrow> apart k k' \<Longrightarrow> can s' k' e' j"
begin

text \<open>Any number of keys with different identifiers: all are bound, and the earlier ones stay bound.\<close>

lemma reg_all_has:
  assumes "inv s" and "\<forall>(k, e, i) \<in> set ts. can s k e i" and "distinct (map (snd \<circ> snd) ts)"
    and "sorted_wrt (\<lambda>x y. apart (fst x) (fst y)) ts"
  shows "\<exists>s'. reg_all reg (map fst ts) s = Some (map (snd \<circ> snd) ts, s') \<and> inv s' \<and>
    (\<forall>(k, e, i) \<in> set ts. has s' i e) \<and> (\<forall>j e. has s j e \<longrightarrow> j \<notin> (snd \<circ> snd) ` set ts \<longrightarrow> has s' j e)"
  using assms
proof (induction ts arbitrary: s)
  case Nil
  then show ?case by simp
next
  case (Cons t ts)
  obtain k e i where t: "t = (k, e, i)" by (cases t)
  obtain s1 where s1: "reg k s = Some (i, s1)" "inv s1" "has s1 i e"
    using reg_binds [OF Cons.prems(1)] Cons.prems(2) t by fastforce
  have c: "can s k e i" using Cons.prems(2) t by auto
  have "\<forall>(k', e', j) \<in> set ts. can s1 k' e' j"
    using reg_others [OF Cons.prems(1) c s1(1)] Cons.prems(2,4) t by fastforce
  then obtain s' where s': "reg_all reg (map fst ts) s1 = Some (map (snd \<circ> snd) ts, s')" "inv s'"
    "\<forall>(k, e, i) \<in> set ts. has s' i e" "\<forall>j e. has s1 j e \<longrightarrow> j \<notin> (snd \<circ> snd) ` set ts \<longrightarrow> has s' j e"
    using Cons.IH [OF s1(2)] Cons.prems(3,4) by auto
  have "has s' i e" using s1(3) s'(4) Cons.prems(3) t by auto
  moreover have "has s' j e'" if "has s j e'" "j \<notin> (snd \<circ> snd) ` set (t # ts)" for j e'
    using reg_keeps [OF Cons.prems(1) c s1(1) that(1)] that(2) s'(4) t by auto
  ultimately show ?case using s1(1) s' t by auto
qed

end

text \<open>The code meets the contract, for keys with different AS numbers and identifiers other than 0.\<close>

definition store_ready :: "openssl \<Rightarrow> lib \<Rightarrow> bool" where
  "store_ready E s \<longleftrightarrow> store_inv E s \<and> hash_ok E \<and> (\<forall>n. malloc_ok E n)"

interpretation ks: key_table "\<lambda>key. registerPrivateKey E (Some key)" "store_ready E"
  "\<lambda>s key k i. registrable E s key k i \<and> i \<noteq> 0" "bound E" "\<lambda>key key'. key_asn key \<noteq> key_asn key'" for E
  by unfold_locales
    (auto simp: store_ready_def register_new store_inv_registered bound_registered bound_other registrable_other)

lemma sign_bound:
  assumes "bound E s i k" and "signs_as E (signs s) k m sig" and "length m < 65536" and "length sig \<le> length buf"
  shows "sign_with_id E (of_nat (length m)) (Some m) i slen (Some buf) s =
    Some (int (length sig), Some (sig @ drop (length sig) buf), s\<lparr>signs := signs s + 1\<rparr>)"
proof -
  obtain a where a: "ec_key (stEnbuf_Eckey s ! unat (i - 1)) = Some a" "key_at s (Some a) = Some k"
    "i \<noteq> 0" "unat (i - 1) < length (stEnbuf_Eckey s)" "EC_KEY_check_key E k"
    using assms(1) by (auto simp: bound_def)
  let ?d = "\<lparr>sd_data = Some m, dataLength = of_nat (length m), sd_ski = None, sd_algoID = 1, sd_signature = Some buf, sigLen = slen\<rparr>"
  have "sign_with_id E (of_nat (length m)) (Some m) i slen (Some buf) s = digest_and_sign E (Some a) ?d s"
    using a by (simp add: sign_with_id_def stBgpsecReqSigningWithID_def cl_SignParamWithIDSanityCheck_def RET_ID_OFFSET_def)
  also have "\<dots> = Some (int (length sig), Some (sig @ drop (length sig) buf), s\<lparr>signs := signs s + 1\<rparr>)"
    using a(2) assms(2-4) unat_of_nat_small [of "length m", where 'a = 16]
    by (intro digest_and_sign_ok [where m = m]) (simp_all add: sign_octets_def)
  finally show ?thesis .
qed

subsection \<open>Properties\<close>

lemma sample_ready: "store_ready sample_ssl sample_lib"
proof -
  have "hash_ok sample_ssl"
    unfolding hash_ok_def sample_ssl_def
    by (auto split: option.splits dest: find_index_Some simp: find_index_None)
  then show ?thesis using sample_fresh by (simp add: store_ready_def store_inv_def sample_defs)
qed

lemma sample_registrable:
  "registrable sample_ssl sample_lib (the (sample_key 200 0)) [7] 9"
  "registrable sample_ssl sample_lib (the (sample_key 300 1)) [8] 13"
  "registrable sample_ssl sample_lib (the (sample_key 216 1)) [8] 9"
  by (simp_all add: registrable_def sample_defs der_key_def buf_at_def der_public_def der_def der_length_def
      key_id_def id_of_hash_def RET_ID_OFFSET_def)

text \<open>Property C8: private keys can be registered and used.  Keys with different AS numbers that get different
  identifiers other than 0 are all registered, and afterwards a request with the identifier of a key is
  signed with that key.\<close>

theorem registered_keys_sign:
  assumes "store_inv E s" and "hash_ok E" and "\<forall>n. malloc_ok E n"
    and "\<forall>(key, k, i) \<in> set ts. registrable E s key k i \<and> i \<noteq> 0"
    and "distinct (map (snd \<circ> snd) ts)" and "sorted_wrt (\<lambda>x y. key_asn (fst x) \<noteq> key_asn (fst y)) ts"
  shows "\<exists>s'. reg_all (\<lambda>key. registerPrivateKey E (Some key)) (map fst ts) s = Some (map (snd \<circ> snd) ts, s') \<and>
    (\<forall>(key, k, i) \<in> set ts. \<forall>m sig buf slen. signs_as E (signs s') k m sig \<and> length m < 65536 \<and> length sig \<le> length buf \<longrightarrow>
      sign_with_id E (of_nat (length m)) (Some m) i slen (Some buf) s' =
        Some (int (length sig), Some (sig @ drop (length sig) buf), s'\<lparr>signs := signs s' + 1\<rparr>))"
proof -
  obtain s' where s': "reg_all (\<lambda>key. registerPrivateKey E (Some key)) (map fst ts) s = Some (map (snd \<circ> snd) ts, s')"
    "\<forall>(key, k, i) \<in> set ts. bound E s' i k"
    using ks.reg_all_has [of E s ts] assms by (auto simp: store_ready_def)
  have "sign_with_id E (of_nat (length m)) (Some m) i slen (Some buf) s' =
        Some (int (length sig), Some (sig @ drop (length sig) buf), s'\<lparr>signs := signs s' + 1\<rparr>)"
    if "(key, k, i) \<in> set ts" "signs_as E (signs s') k m sig" "length m < 65536" "length sig \<le> length buf"
    for key k i m sig buf slen
    using that s'(2) by (intro sign_bound [of E s' i k]) auto
  then show ?thesis by (intro exI [of _ s'] conjI s'(1)) (clarify, blast)
qed

theorem registered_keys_sign_witness:
  "\<exists>s'. reg_all (\<lambda>key. registerPrivateKey sample_ssl (Some key)) [the (sample_key 200 0), the (sample_key 300 1)] sample_lib =
      Some ([9, 13], s') \<and>
    sign_with_id sample_ssl 2 (Some [3, 4]) 13 2 (Some [0, 0, 0]) s' =
      Some (2, Some [7, 8, 0], s'\<lparr>signs := signs s' + 1\<rparr>)"
proof -
  let ?ts = "[(the (sample_key 200 0), [7], 9), (the (sample_key 300 1), [8], 13)] :: (BGPSecKey \<times> bytes \<times> byte) list"
  have "\<exists>s'. reg_all (\<lambda>key. registerPrivateKey sample_ssl (Some key)) (map fst ?ts) sample_lib =
      Some (map (snd \<circ> snd) ?ts, s') \<and>
    (\<forall>(key, k, i) \<in> set ?ts. \<forall>m sig buf slen. signs_as sample_ssl (signs s') k m sig \<and> length m < 65536 \<and> length sig \<le> length buf \<longrightarrow>
      sign_with_id sample_ssl (of_nat (length m)) (Some m) i slen (Some buf) s' =
        Some (int (length sig), Some (sig @ drop (length sig) buf), s'\<lparr>signs := signs s' + 1\<rparr>))"
    using sample_ready sample_registrable
    by (intro registered_keys_sign) (auto simp: store_ready_def sample_key_def)
  then obtain s' where 1: "reg_all (\<lambda>key. registerPrivateKey sample_ssl (Some key)) (map fst ?ts) sample_lib = Some ([9, 13], s')"
    and 2: "\<And>m sig buf slen. signs_as sample_ssl (signs s') [8] m sig \<and> length m < 65536 \<and> length sig \<le> length buf \<Longrightarrow>
      sign_with_id sample_ssl (of_nat (length m)) (Some m) 13 slen (Some buf) s' =
        Some (int (length sig), Some (sig @ drop (length sig) buf), s'\<lparr>signs := signs s' + 1\<rparr>)"
    by auto
  have "signs_as sample_ssl (signs s') [8] [3, 4] [7, 8]" by (simp add: signs_as_def sample_ssl_def)
  then show ?thesis using 1 2 [of "[3, 4]" "[7, 8]" "[0, 0, 0]" 2] by auto
qed

text \<open>Registering is stable.  Once a key is registered, a second registration with the same AS
  number and subject key identifier returns the same identifier without changing anything, and a search
  returns the buffer of the registered key.\<close>

theorem register_twice:
  assumes "store_inv E s" and "hash_ok E" and "\<forall>n. malloc_ok E n" and "registrable E s key k i"
    and "key_asn key' = key_asn key" and "key_ski key' = key_ski key"
  shows "\<exists>s' info. registerPrivateKey E (Some key) s = Some (i, s') \<and> registerPrivateKey E (Some key') s' = Some (i, s') \<and>
    hashKey_get_BGPSecKey E (key_asn key) (Some (key_ski key)) s' = Some (Some info) \<and> keyData info = keyData key"
proof -
  let ?s = "registered E key k s" and ?j = "length (g_records s)"
  note reg = assms(4) [unfolded registrable_def]
  have found: "restoreKeyInfo E (key_ski key) (key_asn key) ?s = Some (Some ?j)"
    using restore_registered [OF assms(2,4)] .
  have "id_of_hash ?s (hash_value E (key_asn key)) = id_of_hash s (hash_value E (key_asn key))"
    by (rule id_of_hash_cong) simp
  then have "registerPrivateKey E (Some key') ?s = Some (i, ?s)"
    using found reg assms(5,6) by (simp add: registerPrivateKey_def key_id_def)
  moreover have "registerPrivateKey E (Some key) s = Some (i, ?s)"
    using register_new [OF assms(2,3,1,4)] .
  moreover have "hashKey_get_BGPSecKey E (key_asn key) (Some (key_ski key)) ?s = Some (Some (rec_data (g_records ?s ! ?j)))"
    using found reg by (simp add: hashKey_get_BGPSecKey_def)
  ultimately show ?thesis by auto
qed

theorem register_twice_witness:
  "\<exists>s' info. registerPrivateKey sample_ssl (sample_key 200 0) sample_lib = Some (9, s') \<and>
     registerPrivateKey sample_ssl (sample_key 200 0) s' = Some (9, s') \<and>
     hashKey_get_BGPSecKey sample_ssl 200 (Some (replicate 20 1)) s' = Some (Some info) \<and> keyData info = Some 0"
  using register_twice [OF _ _ _ sample_registrable(1), of "the (sample_key 200 0)"] sample_ready
  by (simp add: store_ready_def sample_key_def)

text \<open>Identifiers collide silently.  If two keys with different AS numbers get the same identifier,
  both registrations return it, and afterwards it is the second key that signs for both.\<close>

theorem colliding_keys:
  assumes "store_inv E s" and "hash_ok E" and "\<forall>n. malloc_ok E n"
    and "registrable E s key1 k1 i" and "registrable E s key2 k2 i" and "key_asn key1 \<noteq> key_asn key2" and "i \<noteq> 0"
  shows "\<exists>s1 s2. registerPrivateKey E (Some key1) s = Some (i, s1) \<and> registerPrivateKey E (Some key2) s1 = Some (i, s2) \<and>
    (\<forall>m sig buf slen. signs_as E (signs s2) k2 m sig \<and> length m < 65536 \<and> length sig \<le> length buf \<longrightarrow>
      sign_with_id E (of_nat (length m)) (Some m) i slen (Some buf) s2 =
        Some (int (length sig), Some (sig @ drop (length sig) buf), s2\<lparr>signs := signs s2 + 1\<rparr>))"
proof -
  let ?s1 = "registered E key1 k1 s" and ?s2 = "registered E key2 k2 (registered E key1 k1 s)"
  note inv1 = store_inv_registered [OF assms(1,4)] and reg2 = registrable_other [OF assms(1,4,5,6)]
  have "bound E ?s2 i k2" using bound_registered [OF inv1 reg2 assms(7)] .
  then have "\<forall>m sig buf slen. signs_as E (signs ?s2) k2 m sig \<and> length m < 65536 \<and> length sig \<le> length buf \<longrightarrow>
      sign_with_id E (of_nat (length m)) (Some m) i slen (Some buf) ?s2 =
        Some (int (length sig), Some (sig @ drop (length sig) buf), ?s2\<lparr>signs := signs ?s2 + 1\<rparr>)"
    using sign_bound by blast
  then show ?thesis
    using register_new [OF assms(2,3,1,4)] register_new [OF assms(2,3) inv1 reg2] by blast
qed

theorem colliding_keys_witness:
  "\<exists>s1 s2. registerPrivateKey sample_ssl (sample_key 200 0) sample_lib = Some (9, s1) \<and>
     registerPrivateKey sample_ssl (sample_key 216 1) s1 = Some (9, s2) \<and>
     sign_with_id sample_ssl 2 (Some [3, 4]) 9 2 (Some [0, 0, 0]) s2 = Some (2, Some [7, 8, 0], s2\<lparr>signs := signs s2 + 1\<rparr>)"
proof -
  obtain s1 s2 where 1: "registerPrivateKey sample_ssl (sample_key 200 0) sample_lib = Some (9, s1)"
    "registerPrivateKey sample_ssl (sample_key 216 1) s1 = Some (9, s2)"
    and 2: "\<And>m sig buf slen. signs_as sample_ssl (signs s2) [8] m sig \<and> length m < 65536 \<and> length sig \<le> length buf \<Longrightarrow>
      sign_with_id sample_ssl (of_nat (length m)) (Some m) 9 slen (Some buf) s2 =
        Some (int (length sig), Some (sig @ drop (length sig) buf), s2\<lparr>signs := signs s2 + 1\<rparr>)"
    using colliding_keys [OF _ _ _ sample_registrable(1,3)] sample_ready by (auto simp: store_ready_def sample_key_def)
  have "signs_as sample_ssl (signs s2) [8] [3, 4] [7, 8]" by (simp add: signs_as_def sample_ssl_def)
  then show ?thesis using 1 2 [of "[3, 4]" "[7, 8]" "[0, 0, 0]" 2] by auto
qed

text \<open>With a table of 256 entries the last identifier is unusable.  A key whose hash ends in 255 is
  stored in the last entry, but the identifier returned wraps around to 0, the code for an error, and
  a request with it is refused.\<close>

theorem last_identifier_wraps:
  assumes "store_inv E s" and "hash_ok E" and "\<forall>n. malloc_ok E n" and "registrable E s key k i"
    and "length (stEnbuf_Eckey s) = 256" and "hash_value E (key_asn key) AND 255 = 255"
  shows "\<exists>s'. registerPrivateKey E (Some key) s = Some (0, s') \<and> bound E s' 0 k = False \<and>
    ec_key (stEnbuf_Eckey s' ! 255) = Some (nxt s) \<and> key_at s' (Some (nxt s)) = Some k \<and>
    (\<forall>dlen m slen buf. sign_with_id E dlen m 0 slen buf s' = Some (-1, buf, s'))"
proof -
  have h: "id_of_hash s (hash_value E (key_asn key)) = 255" using assms(5,6) by (simp add: id_of_hash_def)
  have "i = 0" using assms(4) h by (simp add: registrable_def key_id_def RET_ID_OFFSET_def)
  then have 1: "registerPrivateKey E (Some key) s = Some (0, registered E key k s)"
    using register_new [OF assms(2,3,1,4)] by simp
  have 2: "ec_key (stEnbuf_Eckey (registered E key k s) ! 255) = Some (nxt s)"
    using assms(5) h by (simp add: registered_def Let_def)
  show ?thesis
    by (intro exI [of _ "registered E key k s"] conjI 1 2)
       (auto simp: bound_def key_at_def sign_with_id_def stBgpsecReqSigningWithID_def cl_SignParamWithIDSanityCheck_def nosig_def)
qed

theorem last_identifier_wraps_witness:
  "\<exists>s'. registerPrivateKey sample_ssl (sample_key 255 0)
     (sample_lib\<lparr>stEnbuf_Eckey := replicate 256 \<lparr>en_buf = None, ec_key = None, slot_id = 0\<rparr>\<rparr>) = Some (0, s') \<and>
     sign_with_id sample_ssl 1 (Some [1]) 0 1 (Some [0]) s' = Some (-1, Some [0], s')"
proof -
  let ?s = "sample_lib\<lparr>stEnbuf_Eckey := replicate 256 \<lparr>en_buf = None, ec_key = None, slot_id = 0\<rparr>\<rparr>"
  have "store_inv sample_ssl ?s" by (simp add: store_inv_def heap_fresh_def sample_lib_def)
  moreover have "registrable sample_ssl ?s (the (sample_key 255 0)) [7] 0"
    by (simp add: registrable_def sample_defs der_key_def buf_at_def der_public_def der_def der_length_def
        key_id_def id_of_hash_def RET_ID_OFFSET_def)
  ultimately show ?thesis
    using last_identifier_wraps [of sample_ssl ?s "the (sample_key 255 0)" "[7]" 0] sample_ready
    by (simp add: store_ready_def sample_key_def) (auto simp: sample_ssl_def)
qed

text \<open>Releasing a registered key is undefined.  \<^verbatim>\<open>unregisterPrivateKey\<close> frees the record it
  removes and then follows its link, whenever the bucket of the key is the identifier; and
  \<^verbatim>\<open>unregisterKey\<close> passes the buffer of the key, which is no key object, to \<^verbatim>\<open>EC_KEY_free\<close>.\<close>

theorem release_undefined:
  assumes "store_inv E s" and "hash_ok E" and "\<forall>n. malloc_ok E n" and "registrable E s key k i"
    and "s' = registered E key k s" and "hash_value E (key_asn key) AND (num_buckets s' - 1) = ucast (i - 1)"
  shows "registerPrivateKey E (Some key) s = Some (i, s') \<and> unregisterPrivateKey i s' = None \<and>
    unregisterKey E (key_ski key) (key_asn key) keyID s' = None"
proof (intro conjI)
  note reg = assms(4) [unfolded registrable_def]
  show "registerPrivateKey E (Some key) s = Some (i, s')" using register_new [OF assms(2,3,1,4)] assms(5) by simp
  have slot: "stEnbuf_Eckey s' ! unat (i - 1) =
      \<lparr>en_buf = keyData key, ec_key = Some (nxt s), slot_id = int (unat (i - 1))\<rparr>" "unat (i - 1) < length (stEnbuf_Eckey s')"
    using key_id_slot [OF assms(1), of "key_asn key"] reg by (simp_all add: registered_def Let_def assms(5) del: of_nat_unat)
  have "unregister_loop (num_buckets s') (i - 1) (keyData key) (g_records s') = None"
    using unregister_loop_match [of "last (g_records s')" "g_records s'"] assms(5,6) by simp
  then show "unregisterPrivateKey i s' = None"
    using slot by (simp add: unregisterPrivateKey_def RET_ID_OFFSET_def)
  have "EC_KEY_free (keyData key) s' = None"
  proof -
    obtain a b where ab: "keyData key = Some a" "objs s a = Some (Buf b)"
      using reg by (cases "keyData key") (auto simp: der_key_def buf_at_def split: option.splits obj.splits)
    moreover have "a \<noteq> nxt s" using ab(2) assms(1) by (auto simp: store_inv_def)
    ultimately show ?thesis by (simp add: EC_KEY_free_def key_at_def assms(5))
  qed
  then show "unregisterKey E (key_ski key) (key_asn key) keyID s' = None"
    using restore_registered [OF assms(2,4)] reg by (simp add: unregisterKey_def deleteKeyInfo_def assms(5))
qed

theorem release_undefined_witness:
  "\<exists>s'. registerPrivateKey sample_ssl (sample_key 200 0) sample_lib = Some (9, s') \<and> unregisterPrivateKey 9 s' = None \<and>
     unregisterKey sample_ssl (replicate 20 1) 200 9 s' = None"
proof -
  have "hash_value sample_ssl 200 AND (num_buckets (registered sample_ssl (the (sample_key 200 0)) [7] sample_lib) - 1) = 8"
    by (simp add: registered_def HASH_ADD_def sample_ssl_def)
  then show ?thesis
    using release_undefined [OF _ _ _ sample_registrable(1) refl, of 9] sample_ready
    by (auto simp: store_ready_def sample_key_def)
qed

end
