(* ===== verification/KeyLoad.thy ===== *)
theory KeyLoad
  imports KeyStore
begin

text \<open>
  The loading of keys in \<^verbatim>\<open>srxcryptoapi-VariousKeyManipulation.c\<close>: \<^verbatim>\<open>sca_loadKey\<close>, which reads the key of
  a subject key identifier from the key directory and returns it in DER, and the functions it calls.

  The key objects and the buffers are in the heap of the library.  A key object can have more than one
  reference (\<^verbatim>\<open>EVP_PKEY_set1_EC_KEY\<close> and \<^verbatim>\<open>EVP_PKEY_get1_EC_KEY\<close> take one), so \<^verbatim>\<open>EC_KEY_free\<close> frees the
  object with the last one.  Of all other OpenSSL objects the state counts how many of each kind
  are allocated.  What the code uses of OpenSSL and of the file system beyond the record \<open>openssl\<close> is in the
  record \<open>key_io\<close>.  The build is the one of the source: \<^verbatim>\<open>USE_EC_PUB_EVP_PKEY\<close>, \<^verbatim>\<open>DECODING_TEST_CODE\<close> and
  \<^verbatim>\<open>HEX_DEBUG_OUTPUT\<close> are defined, \<^verbatim>\<open>USE_EC_PUB_OCTET_KEY\<close> is not.

  The function \<open>load_spec\<close> says what the caller gets: an undefined outcome, a failure or the DER of the
  key.  The properties: \<^verbatim>\<open>sca_loadKey\<close> refines it, a loaded key can be registered and used for
  signing, and what a successful load leaves allocated.
\<close>

subsection \<open>State and parameters\<close>

datatype resource = R_BIO | R_X509 | R_GROUP | R_POINT | R_PKEY | R_KEYREF | R_CTX | R_BN | R_HEX

text \<open>\<open>i2d\<close> functions return no octets when they fail.  \<open>struct_octets\<close> are the first 32 octets of a
  key structure in memory.\<close>

record key_io =
  stat_mode :: "string \<Rightarrow> 32 word option"
  file_octets :: "string \<Rightarrow> bytes option"
  i2d_ECPrivateKey :: "EC_KEY \<Rightarrow> bytes"
  i2d_PUBKEY :: "EVP_PKEY \<Rightarrow> bytes"
  EVP_PKEY_new_ok :: bool
  EVP_PKEY_set1_EC_KEY :: "EC_KEY \<Rightarrow> EVP_PKEY"
  EC_KEY_get0_private_key :: "EC_KEY \<Rightarrow> BIGNUM option"
  d2i_PrivateKey :: "bytes \<Rightarrow> EVP_PKEY option"
  EC_POINT_mul :: "bytes \<Rightarrow> EC_POINT"
  struct_octets :: "BGPSecKey \<Rightarrow> bytes"

record loader =
  lib_of :: lib
  refs :: "nat \<Rightarrow> nat"
  held :: "resource \<Rightarrow> nat"

definition hold :: "resource \<Rightarrow> loader \<Rightarrow> loader" where
  "hold r s = s\<lparr>held := (held s)(r := held s r + 1)\<rparr>"

definition release :: "resource \<Rightarrow> loader \<Rightarrow> loader option" where
  "release r s = do {
     c_assert (0 < held s r);
     Some (s\<lparr>held := (held s)(r := held s r - 1)\<rparr>)
   }"

text \<open>\<open>refs\<close> counts the references of a key object beyond the first.\<close>

definition new_key :: "EC_KEY \<Rightarrow> loader \<Rightarrow> ptr \<times> loader" where
  "new_key k s = (let (p, l) = new_obj (Key k) (lib_of s) in (p, s\<lparr>lib_of := l, refs := (refs s)(nxt (lib_of s) := 0)\<rparr>))"

definition up_ref :: "nat \<Rightarrow> loader \<Rightarrow> loader" where
  "up_ref a s = s\<lparr>refs := (refs s)(a := refs s a + 1)\<rparr>"

definition free_key :: "ptr \<Rightarrow> loader \<Rightarrow> loader option" where
  "free_key p s =
     (case p of
        None \<Rightarrow> Some s
      | Some a \<Rightarrow> do {
          k \<leftarrow> key_at (lib_of s) p;
          if 0 < refs s a then Some (s\<lparr>refs := (refs s)(a := refs s a - 1)\<rparr>)
          else do { l \<leftarrow> EC_KEY_free p (lib_of s); Some (s\<lparr>lib_of := l\<rparr>) }
        })"

text \<open>\<^verbatim>\<open>EC_KEY_set_public_key\<close> and \<^verbatim>\<open>EC_KEY_set_private_key\<close> on a key object; the result \<open>Some None\<close> is their
  failure.\<close>

definition set_key :: "(EC_KEY \<Rightarrow> EC_KEY option) \<Rightarrow> ptr \<Rightarrow> loader \<Rightarrow> loader option option" where
  "set_key f p s = do {
     a \<leftarrow> p;
     k \<leftarrow> key_at (lib_of s) p;
     Some (case f k of None \<Rightarrow> None | Some k' \<Rightarrow> Some (s\<lparr>lib_of := put_key a k' (lib_of s)\<rparr>))
   }"

subsection \<open>Constants\<close>

definition CERT_EXT :: string where "CERT_EXT = ''pub''"
definition KEY_EXT :: string where "KEY_EXT = ''private''"
definition API_SUCCESS :: int where "API_SUCCESS = 0"
definition API_FAILURE :: int where "API_FAILURE = -1"
definition API_DEFAULT_CURVE :: int where "API_DEFAULT_CURVE = 1"
definition API_LOADKEY_SUCCESS :: int where "API_LOADKEY_SUCCESS = 1"
definition API_LOADKEY_FAILURE :: int where "API_LOADKEY_FAILURE = 0"

definition S_IFMT :: "32 word" where "S_IFMT = 0xF000"
definition S_IFREG :: "32 word" where "S_IFREG = 0x8000"
definition S_IFLNK :: "32 word" where "S_IFLNK = 0xA000"

subsection \<open>Keys from files\<close>

definition sca_GetPublicKey :: "openssl \<Rightarrow> string \<Rightarrow> loader \<Rightarrow> (X509 option \<times> loader) option" where
  "sca_GetPublicKey E fn s =
     (if \<not> BIO_new_ok E then Some (None, s)
      else
        let s = hold R_BIO s;
            szFileName = snprintf (MAXPATHLEN - 1) (fn @ ''.'' @ CERT_EXT)
        in if BIO_read_filename E szFileName \<le> 0 then do {
             s \<leftarrow> release R_BIO s;
             Some (None, s)
           }
           else (case d2i_X509_bio E szFileName of
               None \<Rightarrow> do { s \<leftarrow> release R_BIO s; Some (None, s) }
             | Some cert \<Rightarrow> do { s \<leftarrow> release R_BIO (hold R_X509 s); Some (Some cert, s) }))"

text \<open>The label \<^verbatim>\<open>err_cleanup\<close>; \<open>ecGroup\<close> and \<open>cert\<close> say which objects exist.\<close>

definition err_cleanup :: "ptr \<Rightarrow> bool \<Rightarrow> bool \<Rightarrow> loader \<Rightarrow> (int \<times> ptr \<times> loader) option" where
  "err_cleanup ecdsa_key ecGroup cert s = do {
     s \<leftarrow> free_key ecdsa_key s;
     s \<leftarrow> (if ecGroup then release R_GROUP s else Some s);
     s \<leftarrow> (if cert then release R_X509 s else Some s);
     Some (API_FAILURE, ecdsa_key, s)
   }"

text \<open>The result, the new value of \<^verbatim>\<open>*ecdsa_key\<close> and the state.\<close>

definition sca_BgpsecSetEcPublicKey :: "openssl \<Rightarrow> string \<Rightarrow> ptr \<Rightarrow> int \<Rightarrow> loader \<Rightarrow> (int \<times> ptr \<times> loader) option" where
  "sca_BgpsecSetEcPublicKey E filePrefix ecdsa_key curveId s = do {
     (cert, s) \<leftarrow> sca_GetPublicKey E filePrefix s;
     (case cert of
        None \<Rightarrow> err_cleanup ecdsa_key False False s
      | Some cert \<Rightarrow>
          let curveId = (if curveId = API_BGPSEC_ALGO_ID_256 then API_BGPSEC_OPENSSL_ID else curveId);
              (ecdsa_key, s) = (case EC_KEY_new_by_curve_name E curveId of
                                  None \<Rightarrow> (None, s) | Some k \<Rightarrow> new_key k s) in
          if \<not> EC_GROUP_new_by_curve_name_ok E curveId then err_cleanup ecdsa_key False True s
          else do {
            let s = hold R_GROUP s;
            let pubkey = cert_public_key E cert;
            c_assert (length pubkey \<le> 4096);
            if \<not> EC_POINT_new_ok E then err_cleanup ecdsa_key True True s
            else do {
              let s = hold R_POINT s;
              r \<leftarrow> (case EC_POINT_oct2point E curveId pubkey of
                      None \<Rightarrow> Some None
                    | Some point \<Rightarrow> set_key (\<lambda>k. EC_KEY_set_public_key E k point) ecdsa_key s);
              (case r of
                 None \<Rightarrow> do { s \<leftarrow> release R_POINT s; err_cleanup ecdsa_key True True s }
               | Some s \<Rightarrow> do {
                   k \<leftarrow> key_at (lib_of s) ecdsa_key;
                   if \<not> EC_KEY_check_key E k then err_cleanup ecdsa_key True True s
                   else Some (API_SUCCESS, ecdsa_key, s)
                 })
            }
          })
   }"

definition sca_GetPrivateKey :: "openssl \<Rightarrow> string \<Rightarrow> loader \<Rightarrow> (EVP_PKEY option \<times> loader) option" where
  "sca_GetPrivateKey E fn s =
     (if \<not> BIO_new_ok E then Some (None, s)
      else
        let s = hold R_BIO s;
            szFileName = snprintf (MAXPATHLEN - 1) (fn @ ''.'' @ KEY_EXT)
        in if BIO_read_filename E szFileName = 1 then
             (case PEM_read_bio_PrivateKey E szFileName of
                None \<Rightarrow> do { s \<leftarrow> release R_BIO s; Some (None, s) }
              | Some privateKey \<Rightarrow> do { s \<leftarrow> release R_BIO (hold R_PKEY s); Some (Some privateKey, s) })
           else do { s \<leftarrow> release R_BIO s; Some (None, s) })"

text \<open>Neither the private key object nor the reference taken by \<^verbatim>\<open>EVP_PKEY_get1_EC_KEY\<close> is released.  A
  private key of another kind than EC gives the null pointer, which is dereferenced.\<close>

definition sca_BgpsecSetEcPrivateKey :: "openssl \<Rightarrow> key_io \<Rightarrow> string \<Rightarrow> ptr \<Rightarrow> int \<Rightarrow> loader \<Rightarrow> (int \<times> loader) option" where
  "sca_BgpsecSetEcPrivateKey E X filePrefix ecdsa_key curveId s = do {
     (privateKey, s) \<leftarrow> sca_GetPrivateKey E filePrefix s;
     (case privateKey of
        None \<Rightarrow> Some (API_FAILURE, s)
      | Some privateKey \<Rightarrow> do {
          tmpEckey \<leftarrow> EVP_PKEY_get1_EC_KEY E privateKey;
          let s = hold R_KEYREF s;
          let bn = EC_KEY_get0_private_key X tmpEckey;
          r \<leftarrow> set_key (\<lambda>k. Option.bind bn (EC_KEY_set_private_key E k)) ecdsa_key s;
          (case r of None \<Rightarrow> Some (API_FAILURE, s) | Some s \<Rightarrow> Some (API_SUCCESS, s))
        })
   }"

text \<open>\<^verbatim>\<open>sca_new_PrivateKeyStream\<close>: the octets of a file and the key they encode.  The \<^verbatim>\<open>FILE\<close> pointer is
  kept in an \<^verbatim>\<open>int\<close>, which has to be wide enough for it.  The results are the stream, the key object and the
  length.\<close>

definition sca_new_PrivateKeyStream ::
  "openssl \<Rightarrow> key_io \<Rightarrow> string \<Rightarrow> loader \<Rightarrow> ((ptr \<times> ptr \<times> nat) option \<times> loader) option" where
  "sca_new_PrivateKeyStream E X fn s =
     (case file_octets X (snprintf (MAXPATHLEN - 1) (fn @ ''.'' @ KEY_EXT)) of
        None \<Rightarrow> Some (None, s)
      | Some octets \<Rightarrow>
          let buffer = take 2048 octets in
          if buffer = [] then Some (None, s)
          else if \<not> malloc_ok E (nxt (lib_of s)) then Some (None, s\<lparr>lib_of := snd (malloc E (lib_of s))\<rparr>)
          else
            let (stream, l) = new_obj (Buf buffer) (lib_of s);
                s = s\<lparr>lib_of := l\<rparr>
            in (case d2i_PrivateKey X buffer of
                  None \<Rightarrow> do { l \<leftarrow> free_buf stream (lib_of s); Some (None, s\<lparr>lib_of := l\<rparr>) }
                | Some privateKey \<Rightarrow>
                    (case EVP_PKEY_get1_EC_KEY E privateKey of
                       None \<Rightarrow> Some (Some (stream, None, length buffer), s)
                     | Some k \<Rightarrow> let (ec, s) = new_key k s in Some (Some (stream, ec, length buffer), s))))"

subsection \<open>Loading\<close>

text \<open>The debug output keeps a context and the printed text, and reads the public key without a test.\<close>

definition PrintPrivPubKeyHex :: "openssl \<Rightarrow> ptr \<Rightarrow> loader \<Rightarrow> loader option" where
  "PrintPrivPubKeyHex E p s =
     (if p = NULL then Some s
      else do {
        k \<leftarrow> key_at (lib_of s) p;
        c_assert (EC_KEY_has_public_key E k);
        Some (hold R_HEX (hold R_CTX s))
      })"

definition file_is_key :: "32 word option \<Rightarrow> bool" where
  "file_is_key status =
     (case status of None \<Rightarrow> False | Some st_mode \<Rightarrow> st_mode AND S_IFMT = S_IFREG \<or> st_mode AND S_IFMT = S_IFLNK)"

fun stat_loop :: "key_io \<Rightarrow> string \<Rightarrow> nat \<Rightarrow> string list \<Rightarrow> bool \<times> bool \<Rightarrow> bool \<times> bool" where
  "stat_loop X filePrefix i [] st = st"
| "stat_loop X filePrefix i (e # exts) (pub_status, priv_status) =
     (let szFileName = snprintf (MAXPATHLEN - 1) (filePrefix @ ''.'' @ e) in
      stat_loop X filePrefix (i + 1) exts
        (if file_is_key (stat_mode X szFileName)
         then (if i = 0 then (True, priv_status) else if i = 1 then (pub_status, True) else (pub_status, priv_status))
         else (pub_status, priv_status)))"

text \<open>The label \<^verbatim>\<open>int_err\<close>.\<close>

definition int_err :: "ptr \<Rightarrow> BGPSecKey \<Rightarrow> loader \<Rightarrow> (int \<times> BGPSecKey \<times> loader) option" where
  "int_err p key s = do {
     s \<leftarrow> free_key p s;
     Some (API_LOADKEY_FAILURE, key\<lparr>keyData := NULL\<rparr>, s)
   }"

text \<open>Without a certificate a public key is computed, from the octets of the key structure.\<close>

definition dummy_public_key :: "openssl \<Rightarrow> key_io \<Rightarrow> BGPSecKey \<Rightarrow> ptr \<Rightarrow> loader \<Rightarrow> loader option option" where
  "dummy_public_key E X key p s = do {
     c_assert (EC_GROUP_new_by_curve_name_ok E API_BGPSEC_OPENSSL_ID \<and> EC_POINT_new_ok E);
     let s = hold R_BN (hold R_CTX (hold R_POINT (hold R_GROUP s)));
     let point = EC_POINT_mul X (struct_octets X key);
     s \<leftarrow> release R_CTX s;
     s \<leftarrow> release R_GROUP s;
     s \<leftarrow> release R_BN s;
     r \<leftarrow> set_key (\<lambda>k. EC_KEY_set_public_key E k point) p s;
     (case r of None \<Rightarrow> Some None | Some s \<Rightarrow> do { s \<leftarrow> release R_POINT s; Some (Some s) })
   }"

text \<open>The end of the decoding test: the public key of the decoded key if it has none, and its release.\<close>

definition finish_decoding :: "openssl \<Rightarrow> string \<Rightarrow> bool \<Rightarrow> ptr \<Rightarrow> EC_KEY \<Rightarrow> ptr \<Rightarrow> bytes \<Rightarrow> ptr \<Rightarrow> BGPSecKey \<Rightarrow> loader \<Rightarrow>
    (int \<times> BGPSecKey \<times> loader) option" where
  "finish_decoding E filePrefix pub_status recon_key rk ep enc p key s = do {
     s \<leftarrow> PrintPrivPubKeyHex E recon_key s;
     (r, recon_key, s) \<leftarrow> (if \<not> EC_KEY_has_public_key E rk \<and> pub_status
        then sca_BgpsecSetEcPublicKey E filePrefix recon_key API_DEFAULT_CURVE s
        else Some (API_SUCCESS, recon_key, s));
     if r \<noteq> API_SUCCESS then int_err p key s
     else do {
       s \<leftarrow> free_key recon_key s;
       Some (API_LOADKEY_SUCCESS, key\<lparr>keyLength := of_nat (length enc), keyData := ep\<rparr>, s)
     }
   }"

definition load_private :: "openssl \<Rightarrow> key_io \<Rightarrow> string \<Rightarrow> bool \<Rightarrow> ptr \<Rightarrow> BGPSecKey \<Rightarrow> loader \<Rightarrow> (int \<times> BGPSecKey \<times> loader) option" where
  "load_private E X filePrefix pub_status p key s = do {
     s \<leftarrow> PrintPrivPubKeyHex E p s;
     k \<leftarrow> key_at (lib_of s) p;
     let enc = i2d_ECPrivateKey X k;
     if enc = [] then int_err p key s
     else if \<not> malloc_ok E (nxt (lib_of s)) then int_err p key (s\<lparr>lib_of := snd (malloc E (lib_of s))\<rparr>)
     else do {
       let (ep, l) = new_obj (Buf enc) (lib_of s);
       s \<leftarrow> free_key p (s\<lparr>lib_of := l\<rparr>);
       (case d2i_ECPrivateKey E enc of
          None \<Rightarrow> int_err p key s
        | Some rk \<Rightarrow>
            let (recon_key, s) = new_key rk s
            in finish_decoding E filePrefix pub_status recon_key rk ep enc p key s)
     }
   }"

text \<open>\<^verbatim>\<open>EVP_PKEY_free\<close> drops the reference of \<^verbatim>\<open>pkey\<close>; \<^verbatim>\<open>pkey_tmp\<close> keeps one on the decoded key and is never
  freed.\<close>

definition load_public :: "openssl \<Rightarrow> key_io \<Rightarrow> string \<Rightarrow> bool \<Rightarrow> ptr \<Rightarrow> BGPSecKey \<Rightarrow> loader \<Rightarrow> (int \<times> BGPSecKey \<times> loader) option" where
  "load_public E X filePrefix pub_status p key s = do {
     let s = hold R_BIO s;
     if \<not> EVP_PKEY_new_ok X then int_err p key s
     else do {
       a \<leftarrow> p;
       k \<leftarrow> key_at (lib_of s) p;
       let s = up_ref a (hold R_PKEY s);
       let enc = i2d_PUBKEY X (EVP_PKEY_set1_EC_KEY X k);
       if enc = [] then int_err p key s
       else if \<not> malloc_ok E (nxt (lib_of s)) then int_err p key (s\<lparr>lib_of := snd (malloc E (lib_of s))\<rparr>)
       else do {
         let (ep, l) = new_obj (Buf enc) (lib_of s);
         s \<leftarrow> free_key p (s\<lparr>lib_of := l\<rparr>);
         s \<leftarrow> free_key p s;
         s \<leftarrow> release R_PKEY s;
         (case d2i_PUBKEY E enc of
            None \<Rightarrow> int_err p key s
          | Some pkey_tmp \<Rightarrow>
              let s = hold R_PKEY s in
              (case EVP_PKEY_get1_EC_KEY E pkey_tmp of
                 None \<Rightarrow> int_err p key s
               | Some rk \<Rightarrow>
                   let (recon_key, s') = new_key rk s;
                       s = up_ref (nxt (lib_of s)) s'
                   in finish_decoding E filePrefix pub_status recon_key rk ep enc p key s))
       }
     }
   }"

text \<open>The result, the key structure of the caller and the state.  \<^verbatim>\<open>sca_FindDirInSKI\<close> returns its buffer, so
  the test of its result never fails.\<close>

definition sca_loadKey :: "openssl \<Rightarrow> key_io \<Rightarrow> BGPSecKey \<Rightarrow> bool \<Rightarrow> loader \<Rightarrow> (int \<times> BGPSecKey \<times> loader) option" where
  "sca_loadKey E X key fPrivate s = do {
     filePrefix \<leftarrow> sca_FindDirInSKI (keyPath (lib_of s)) MAXPATHLEN (key_ski key);
     let (pub_status, priv_status) = stat_loop X filePrefix 0 [CERT_EXT, KEY_EXT] (False, False);
     (ok, p, s) \<leftarrow>
       (if pub_status then do {
          (r, p, s) \<leftarrow> sca_BgpsecSetEcPublicKey E filePrefix NULL API_DEFAULT_CURVE s;
          Some (r = API_SUCCESS, p, s)
        }
        else do {
          r \<leftarrow> dummy_public_key E X key NULL s;
          Some (case r of None \<Rightarrow> (False, NULL, s) | Some s \<Rightarrow> (True, NULL, s))
        });
     if \<not> ok then int_err p key s
     else do {
       (r, s) \<leftarrow> (if priv_status \<and> fPrivate
          then sca_BgpsecSetEcPrivateKey E X filePrefix p API_BGPSEC_ALGO_ID_256 s
          else Some (API_SUCCESS, s));
       if r \<noteq> API_SUCCESS then int_err p key s
       else do {
         k \<leftarrow> key_at (lib_of s) p;
         if \<not> EC_KEY_check_key E k then int_err p key s
         else if fPrivate then load_private E X filePrefix pub_status p key s
         else load_public E X filePrefix pub_status p key s
       }
     }
   }"

subsection \<open>What the caller gets\<close>

datatype pub_outcome = Unreadable | BadKey | GoodKey EC_KEY

text \<open>The key of a certificate file, made from the empty key \<open>k0\<close> of the curve.\<close>

definition pub_of :: "openssl \<Rightarrow> EC_KEY \<Rightarrow> string \<Rightarrow> pub_outcome" where
  "pub_of E k0 fn =
     (let f = snprintf (MAXPATHLEN - 1) (fn @ ''.'' @ CERT_EXT) in
      if BIO_read_filename E f \<le> 0 then Unreadable
      else (case d2i_X509_bio E f of
          None \<Rightarrow> Unreadable
        | Some cert \<Rightarrow>
            if length (cert_public_key E cert) > 4096 then BadKey
            else (case Option.bind (EC_POINT_oct2point E API_BGPSEC_OPENSSL_ID (cert_public_key E cert)) (EC_KEY_set_public_key E k0) of
                None \<Rightarrow> BadKey
              | Some k \<Rightarrow> if EC_KEY_check_key E k then GoodKey k else BadKey)))"

definition priv_of :: "openssl \<Rightarrow> string \<Rightarrow> EVP_PKEY option" where
  "priv_of E fn =
     (let f = snprintf (MAXPATHLEN - 1) (fn @ ''.'' @ KEY_EXT) in
      if BIO_read_filename E f = 1 then PEM_read_bio_PrivateKey E f else None)"

definition has_file :: "key_io \<Rightarrow> string \<Rightarrow> string \<Rightarrow> bool" where
  "has_file X fn e = file_is_key (stat_mode X (snprintf (MAXPATHLEN - 1) (fn @ ''.'' @ e)))"

datatype load_result = Undefined | Failed | Loaded bytes

text \<open>The encoding is decoded again; a key that does not decode, or that decodes without a public key, has an
  undefined outcome.\<close>

definition encode_spec :: "openssl \<Rightarrow> bytes \<Rightarrow> EC_KEY option \<Rightarrow> load_result" where
  "encode_spec E enc dec =
     (if enc = [] then Failed
      else (case dec of None \<Rightarrow> Undefined | Some rk \<Rightarrow> if EC_KEY_has_public_key E rk then Loaded enc else Undefined))"

definition private_spec :: "openssl \<Rightarrow> key_io \<Rightarrow> EC_KEY \<Rightarrow> load_result" where
  "private_spec E X k =
     (if \<not> EC_KEY_check_key E k then Failed
      else if \<not> EC_KEY_has_public_key E k then Undefined
      else encode_spec E (i2d_ECPrivateKey X k) (d2i_ECPrivateKey E (i2d_ECPrivateKey X k)))"

definition public_spec :: "openssl \<Rightarrow> key_io \<Rightarrow> EC_KEY \<Rightarrow> load_result" where
  "public_spec E X k =
     (let enc = i2d_PUBKEY X (EVP_PKEY_set1_EC_KEY X k) in
      encode_spec E enc (Option.bind (d2i_PUBKEY E enc) (EVP_PKEY_get1_EC_KEY E)))"

definition load_spec :: "openssl \<Rightarrow> key_io \<Rightarrow> EC_KEY \<Rightarrow> string \<Rightarrow> bool \<Rightarrow> load_result" where
  "load_spec E X k0 fn fPrivate =
     (if \<not> has_file X fn CERT_EXT then Undefined
      else (case pub_of E k0 fn of
          Unreadable \<Rightarrow> Failed
        | BadKey \<Rightarrow> Undefined
        | GoodKey k \<Rightarrow>
            if \<not> fPrivate then public_spec E X k
            else if \<not> has_file X fn KEY_EXT then private_spec E X k
            else (case priv_of E fn of
                None \<Rightarrow> Failed
              | Some pk \<Rightarrow>
                  (case EVP_PKEY_get1_EC_KEY E pk of
                     None \<Rightarrow> Undefined
                   | Some tk \<Rightarrow>
                       (case Option.bind (EC_KEY_get0_private_key X tk) (EC_KEY_set_private_key E k) of
                          None \<Rightarrow> Failed
                        | Some k' \<Rightarrow> private_spec E X k')))))"

text \<open>Allocations inside OpenSSL succeed.\<close>

definition alloc_ok :: "openssl \<Rightarrow> key_io \<Rightarrow> EC_KEY \<Rightarrow> bool" where
  "alloc_ok E X k0 \<longleftrightarrow> BIO_new_ok E \<and> EC_KEY_new_by_curve_name E API_BGPSEC_OPENSSL_ID = Some k0 \<and>
     EC_GROUP_new_by_curve_name_ok E API_BGPSEC_OPENSSL_ID \<and> EC_POINT_new_ok E \<and> EVP_PKEY_new_ok X \<and> (\<forall>n. malloc_ok E n)"

lemmas load_consts = API_SUCCESS_def API_FAILURE_def API_LOADKEY_SUCCESS_def API_LOADKEY_FAILURE_def API_DEFAULT_CURVE_def
  API_BGPSEC_ALGO_ID_256_def

subsection \<open>Key objects and resources\<close>

lemma hold_simps [simp]:
  "lib_of (hold r s) = lib_of s" "refs (hold r s) = refs s" "held (hold r s) = (held s)(r := held s r + 1)"
  by (simp_all add: hold_def)

lemma release_hold [simp]: "release r (hold r s) = Some s"
  by (simp add: release_def hold_def)

lemma release_other [simp]: "r \<noteq> q \<Longrightarrow> release r (hold q (hold r s)) = Some (hold q s)"
  by (simp add: release_def hold_def fun_upd_twist)

lemma release_pos: "0 < held s r \<Longrightarrow> release r s = Some (s\<lparr>held := (held s)(r := held s r - 1)\<rparr>)"
  by (simp add: release_def)

lemma up_ref_simps [simp]: "lib_of (up_ref a s) = lib_of s" "held (up_ref a s) = held s"
  "refs (up_ref a s) = (refs s)(a := refs s a + 1)"
  by (simp_all add: up_ref_def)

lemma new_key_eq: "new_key k s = (Some (nxt (lib_of s)), s\<lparr>lib_of := (lib_of s)\<lparr>objs := (objs (lib_of s))(nxt (lib_of s) \<mapsto> Key k),
    nxt := nxt (lib_of s) + 1\<rparr>, refs := (refs s)(nxt (lib_of s) := 0)\<rparr>)"
  by (simp add: new_key_def new_obj_def)

text \<open>The key object at \<open>a\<close>, and its release.\<close>

lemma key_at_Some [simp]: "key_at l (Some a) = Some k \<longleftrightarrow> objs l a = Some (Key k)"
  by (auto simp: key_at_def split: obj.splits option.splits)

lemma free_key_dead: "objs (lib_of s) a = None \<Longrightarrow> free_key (Some a) s = None"
  by (simp add: free_key_def key_at_def)

lemma free_key_last:
  "objs (lib_of s) a = Some (Key k) \<Longrightarrow> refs s a = 0 \<Longrightarrow>
     free_key (Some a) s = Some (s\<lparr>lib_of := (lib_of s)\<lparr>objs := (objs (lib_of s))(a := None)\<rparr>\<rparr>)"
  by (simp add: free_key_def EC_KEY_free_def key_at_def)

lemma free_key_shared:
  "objs (lib_of s) a = Some (Key k) \<Longrightarrow> 0 < refs s a \<Longrightarrow> free_key (Some a) s = Some (s\<lparr>refs := (refs s)(a := refs s a - 1)\<rparr>)"
  by (simp add: free_key_def key_at_def)

lemma int_err_dead: "objs (lib_of s) a = None \<Longrightarrow> int_err (Some a) key s = None"
  by (simp add: int_err_def free_key_dead)

lemma int_err_last:
  "objs (lib_of s) a = Some (Key k) \<Longrightarrow> refs s a = 0 \<Longrightarrow>
     int_err (Some a) key s = Some (0, key\<lparr>keyData := NULL\<rparr>, s\<lparr>lib_of := (lib_of s)\<lparr>objs := (objs (lib_of s))(a := None)\<rparr>\<rparr>)"
  by (simp add: int_err_def free_key_last load_consts)

subsection \<open>The parts of the load\<close>

lemma stat_loop_eq:
  "stat_loop X fn 0 [CERT_EXT, KEY_EXT] (False, False) = (has_file X fn CERT_EXT, has_file X fn KEY_EXT)"
  by (simp add: has_file_def Let_def)

text \<open>The state after the public key has been read: the key object, a certificate, a group and a point.\<close>

definition pub_loaded :: "EC_KEY \<Rightarrow> loader \<Rightarrow> loader" where
  "pub_loaded k s = hold R_POINT (hold R_GROUP (hold R_X509 (snd (new_key k s))))"

lemma GetPublicKey_spec:
  fixes fn :: string
  assumes "alloc_ok E X k0"
  defines "f \<equiv> snprintf (MAXPATHLEN - 1) (fn @ ''.'' @ CERT_EXT)"
  shows "sca_GetPublicKey E fn s =
    Some (case (if BIO_read_filename E f \<le> 0 then None else d2i_X509_bio E f) of
            None \<Rightarrow> (None, s) | Some cert \<Rightarrow> (Some cert, hold R_X509 s))"
  using assms by (auto simp: sca_GetPublicKey_def alloc_ok_def Let_def split: option.splits)

lemma err_cleanup_last:
  assumes "objs (lib_of s) a = Some (Key k)" and "refs s a = 0" and "0 < held s R_GROUP" and "0 < held s R_X509"
  shows "\<exists>s'. err_cleanup (Some a) True True s = Some (-1, Some a, s') \<and> objs (lib_of s') a = None"
  using assms by (simp add: err_cleanup_def free_key_last release_pos load_consts)

lemma set_public_spec:
  fixes fn :: string
  assumes "alloc_ok E X k0" and "heap_fresh (lib_of s)"
  defines "r \<equiv> sca_BgpsecSetEcPublicKey E fn NULL API_DEFAULT_CURVE s"
  shows "case pub_of E k0 fn of
      Unreadable \<Rightarrow> r = Some (-1, NULL, s)
    | BadKey \<Rightarrow> r = None \<or> (\<exists>s'. r = Some (-1, Some (nxt (lib_of s)), s') \<and> objs (lib_of s') (nxt (lib_of s)) = None)
    | GoodKey k \<Rightarrow> r = Some (0, Some (nxt (lib_of s)), pub_loaded k s)"
proof -
  define f where "f = snprintf (MAXPATHLEN - 1) (fn @ ''.'' @ CERT_EXT)"
  define co where "co = (if BIO_read_filename E f \<le> 0 then None else d2i_X509_bio E f)"
  note g = GetPublicKey_spec [OF assms(1), of fn s, folded f_def, folded co_def]
  show ?thesis
  proof (cases co)
    case None
    then have "pub_of E k0 fn = Unreadable"
      by (auto simp: co_def pub_of_def f_def Let_def split: if_splits option.splits)
    then show ?thesis
      using g None by (simp add: r_def sca_BgpsecSetEcPublicKey_def err_cleanup_def free_key_def load_consts)
  next
    case (Some cert)
    define pk a s1 where "pk = cert_public_key E cert" and "a = nxt (lib_of s)"
      and "s1 = hold R_POINT (hold R_GROUP (snd (new_key k0 (hold R_X509 s))))"
    have pub: "pub_of E k0 fn = (if length pk > 4096 then BadKey
        else (case Option.bind (EC_POINT_oct2point E API_BGPSEC_OPENSSL_ID pk) (EC_KEY_set_public_key E k0) of
            None \<Rightarrow> BadKey | Some k \<Rightarrow> if EC_KEY_check_key E k then GoodKey k else BadKey))"
      using Some by (auto simp: co_def pub_of_def f_def pk_def Let_def split: if_splits)
    have s1: "objs (lib_of s1) a = Some (Key k0)" "refs s1 a = 0" "0 < held s1 R_GROUP" "0 < held s1 R_X509" "0 < held s1 R_POINT"
      by (simp_all add: s1_def new_key_eq a_def)
    have r: "r = (if length pk > 4096 then None
        else do { r \<leftarrow> (case EC_POINT_oct2point E API_BGPSEC_OPENSSL_ID pk of
                      None \<Rightarrow> Some None
                    | Some point \<Rightarrow> set_key (\<lambda>k. EC_KEY_set_public_key E k point) (Some a) s1);
              (case r of
                 None \<Rightarrow> do { s \<leftarrow> release R_POINT s1; err_cleanup (Some a) True True s }
               | Some s \<Rightarrow> do {
                   k \<leftarrow> key_at (lib_of s) (Some a);
                   if \<not> EC_KEY_check_key E k then err_cleanup (Some a) True True s
                   else Some (API_SUCCESS, Some a, s) }) })"
      using assms(1) g Some
      by (simp add: r_def sca_BgpsecSetEcPublicKey_def alloc_ok_def load_consts pk_def a_def s1_def new_key_eq Let_def
          cong: option.case_cong if_cong)
    have bad: "\<exists>s'. do { s \<leftarrow> release R_POINT s1; err_cleanup (Some a) True True s } = Some (-1, Some a, s') \<and>
        objs (lib_of s') a = None"
      using err_cleanup_last [of "s1\<lparr>held := (held s1)(R_POINT := held s1 R_POINT - 1)\<rparr>" a k0] s1 by (simp add: release_pos)
    show ?thesis
    proof (cases "Option.bind (EC_POINT_oct2point E API_BGPSEC_OPENSSL_ID pk) (EC_KEY_set_public_key E k0)")
      case None
      then have "r = None \<or> (\<exists>s'. r = Some (-1, Some a, s') \<and> objs (lib_of s') a = None)"
        using r bad s1(1) by (auto simp: set_key_def key_at_def split: option.splits bind_splits)
      then show ?thesis using pub None by (simp add: a_def)
    next
      case (Some k)
      let ?s = "s1\<lparr>lib_of := put_key a k (lib_of s1)\<rparr>"
      have r': "r = (if length pk > 4096 then None
          else if \<not> EC_KEY_check_key E k then err_cleanup (Some a) True True ?s else Some (0, Some a, ?s))"
        using r Some s1(1) by (auto simp: set_key_def key_at_def put_key_def load_consts split: bind_splits)
      have "?s = pub_loaded k s"
        by (simp add: s1_def new_key_eq put_key_def pub_loaded_def a_def hold_def)
      moreover have "\<exists>s'. err_cleanup (Some a) True True ?s = Some (-1, Some a, s') \<and> objs (lib_of s') a = None"
        using err_cleanup_last [of ?s a k] s1 by (simp add: put_key_def)
      ultimately show ?thesis using pub Some r' by (auto simp: a_def)
    qed
  qed
qed

lemma set_private_spec:
  fixes fn :: string and c :: int
  assumes "alloc_ok E X k0" and "objs (lib_of s) a = Some (Key k)"
  defines "r \<equiv> sca_BgpsecSetEcPrivateKey E X fn (Some a) c s"
  shows "case priv_of E fn of
      None \<Rightarrow> r = Some (-1, s)
    | Some pk \<Rightarrow>
        (case EVP_PKEY_get1_EC_KEY E pk of
           None \<Rightarrow> r = None
         | Some tk \<Rightarrow>
             (case Option.bind (EC_KEY_get0_private_key X tk) (EC_KEY_set_private_key E k) of
                None \<Rightarrow> r = Some (-1, hold R_KEYREF (hold R_PKEY s))
              | Some k' \<Rightarrow> r = Some (0, (hold R_KEYREF (hold R_PKEY s))\<lparr>lib_of := put_key a k' (lib_of s)\<rparr>)))"
proof -
  have g: "sca_GetPrivateKey E fn s = Some (priv_of E fn, if priv_of E fn = None then s else hold R_PKEY s)"
    using assms(1) by (auto simp: sca_GetPrivateKey_def priv_of_def alloc_ok_def Let_def split: option.splits)
  show ?thesis
    using assms(2) by (auto simp: r_def sca_BgpsecSetEcPrivateKey_def g set_key_def key_at_def load_consts
        split: option.splits bind_splits)
qed

lemma finish_decoding_spec:
  assumes "objs (lib_of s) b = Some (Key rk)"
  shows "finish_decoding E fn st (Some b) rk ep enc p key s =
    (if EC_KEY_has_public_key E rk
     then map_option (\<lambda>s'. (1, key\<lparr>keyLength := of_nat (length enc), keyData := ep\<rparr>, s')) (free_key (Some b) (hold R_HEX (hold R_CTX s)))
     else None)"
  using assms by (simp add: finish_decoding_def PrintPrivPubKeyHex_def key_at_def load_consts map_option_bind
      map_conv_bind_option comp_def)

text \<open>What a caller sees of the result: the outcome, the key structure, and the heap of the library, in which a
  successful load puts the encoding at the first free address.\<close>

definition load_gives :: "load_result \<Rightarrow> BGPSecKey \<Rightarrow> obj store \<Rightarrow> lib \<Rightarrow> (int \<times> BGPSecKey \<times> loader) option \<Rightarrow> bool" where
  "load_gives res key H l r =
     (case res of
        Undefined \<Rightarrow> r = None
      | Failed \<Rightarrow> (\<exists>s' n. r = Some (0, key\<lparr>keyData := NULL\<rparr>, s') \<and> nxt l \<le> n \<and> lib_of s' = l\<lparr>objs := H, nxt := n\<rparr>)
      | Loaded enc \<Rightarrow> (\<exists>s' a n. r = Some (1, key\<lparr>keyLength := of_nat (length enc), keyData := Some a\<rparr>, s') \<and>
          nxt l \<le> a \<and> a < n \<and> lib_of s' = l\<lparr>objs := H(a \<mapsto> Buf enc), nxt := n\<rparr>))"

lemma load_gives_intros:
  "load_gives Undefined key H l None"
  "lib_of s' = l\<lparr>objs := H, nxt := n\<rparr> \<Longrightarrow> nxt l \<le> n \<Longrightarrow> load_gives Failed key H l (Some (0, key\<lparr>keyData := NULL\<rparr>, s'))"
  "lib_of s' = l\<lparr>objs := H(a \<mapsto> Buf enc), nxt := n\<rparr> \<Longrightarrow> nxt l \<le> a \<Longrightarrow> a < n \<Longrightarrow> m = of_nat (length enc) \<Longrightarrow>
     load_gives (Loaded enc) key H l (Some (1, key\<lparr>keyLength := m, keyData := Some a\<rparr>, s'))"
  by (auto simp: load_gives_def)

lemma load_private_spec:
  assumes "alloc_ok E X k0" and "heap_fresh (lib_of s)" and "objs (lib_of s) a = Some (Key k)" and "refs s a = 0"
    and "EC_KEY_check_key E k"
  shows "load_gives (private_spec E X k) key ((objs (lib_of s))(a := None)) (lib_of s) (load_private E X fn st (Some a) key s)"
proof -
  define enc b s1 where "enc = i2d_ECPrivateKey X k" and "b = nxt (lib_of s)" and "s1 = hold R_HEX (hold R_CTX s)"
  have ab: "a < b" using assms(2,3) by (force simp: heap_fresh_def b_def not_less [symmetric])
  let ?l = "(lib_of s)\<lparr>objs := (objs (lib_of s))(b \<mapsto> Buf enc, a := None), nxt := b + 1\<rparr>"
  let ?s2 = "s1\<lparr>lib_of := ?l\<rparr>"
  have s1: "lib_of s1 = lib_of s" "refs s1 = refs s" by (simp_all add: s1_def)
  have free: "free_key (Some a) (s1\<lparr>lib_of := (lib_of s)\<lparr>objs := (objs (lib_of s))(b \<mapsto> Buf enc), nxt := b + 1\<rparr>\<rparr>) = Some ?s2"
    using assms(3,4) ab by (subst free_key_last [of _ _ k]) (auto simp: s1)
  have run: "load_private E X fn st (Some a) key s = (if \<not> EC_KEY_has_public_key E k then None
      else if enc = [] then int_err (Some a) key s1
      else (case d2i_ECPrivateKey E enc of None \<Rightarrow> int_err (Some a) key ?s2
        | Some rk \<Rightarrow> finish_decoding E fn st (Some (b + 1)) rk (Some b) enc (Some a) key (snd (new_key rk ?s2))))"
    using assms(1,3) free s1(1)
    by (simp add: load_private_def PrintPrivPubKeyHex_def key_at_def enc_def b_def s1_def [symmetric] alloc_ok_def
        new_obj_def new_key_eq Let_def cong: option.case_cong)
  have dead: "int_err (Some a) key ?s2 = None" by (rule int_err_dead) simp
  have fin: "finish_decoding E fn st (Some (b + 1)) rk (Some b) enc (Some a) key (snd (new_key rk ?s2)) =
      (if EC_KEY_has_public_key E rk
       then Some (1, key\<lparr>keyLength := of_nat (length enc), keyData := Some b\<rparr>,
         (hold R_HEX (hold R_CTX (snd (new_key rk ?s2))))\<lparr>lib_of := ?l\<lparr>objs := (objs ?l)(b + 1 := None), nxt := b + 2\<rparr>\<rparr>) else None)"
    for rk
    by (subst finish_decoding_spec) (simp_all add: new_key_eq free_key_last [of _ _ rk])
  have b1: "objs (lib_of s) (Suc b) = None" using assms(2) by (simp add: heap_fresh_def b_def)
  have err: "int_err (Some a) key s1 = Some (0, key\<lparr>keyData := NULL\<rparr>, s1\<lparr>lib_of := (lib_of s)\<lparr>objs := (objs (lib_of s))(a := None)\<rparr>\<rparr>)"
    using int_err_last [of s1 a k key] assms(3,4) s1 by simp
  have heap: "(objs (lib_of s))(b \<mapsto> Buf enc, a := None, Suc b := None) = (objs (lib_of s))(a := None, b \<mapsto> Buf enc)"
    using ab b1 by (auto simp: fun_eq_iff)
  note spec = private_spec_def encode_spec_def enc_def [symmetric]
  consider "\<not> EC_KEY_has_public_key E k" | "EC_KEY_has_public_key E k" "enc = []"
    | "EC_KEY_has_public_key E k" "enc \<noteq> []" "d2i_ECPrivateKey E enc = None"
    | rk where "EC_KEY_has_public_key E k" "enc \<noteq> []" "d2i_ECPrivateKey E enc = Some rk" by fastforce
  then show ?thesis
  proof cases
    case 2
    then show ?thesis using run err assms(5) by (simp add: spec) (rule load_gives_intros(2) [where n = b], simp_all add: b_def)
  next
    case 4
    then show ?thesis using run fin [of rk] assms(5) heap
      by (auto simp: spec b_def intro!: load_gives_intros)
  qed (use run dead assms(5) in \<open>simp_all add: spec load_gives_intros\<close>)
qed

text \<open>A public load leaves the decoded key allocated, and a failed encoding the key itself.\<close>

lemma load_public_run:
  assumes "alloc_ok E X k0" and "heap_fresh (lib_of s)" and "objs (lib_of s) a = Some (Key k)" and "refs s a = 0"
  defines "enc \<equiv> i2d_PUBKEY X (EVP_PKEY_set1_EC_KEY X k)" and "b \<equiv> nxt (lib_of s)"
  defines "l \<equiv> (lib_of s)\<lparr>objs := (objs (lib_of s))(b \<mapsto> Buf enc, a := None), nxt := b + 1\<rparr>"
  shows "enc = [] \<Longrightarrow> load_public E X fn st (Some a) key s = Some (0, key\<lparr>keyData := NULL\<rparr>, hold R_PKEY (hold R_BIO s))"
    and "enc \<noteq> [] \<Longrightarrow> Option.bind (d2i_PUBKEY E enc) (EVP_PKEY_get1_EC_KEY E) = None \<Longrightarrow>
      load_public E X fn st (Some a) key s = None"
    and "enc \<noteq> [] \<Longrightarrow> Option.bind (d2i_PUBKEY E enc) (EVP_PKEY_get1_EC_KEY E) = Some rk \<Longrightarrow>
      load_public E X fn st (Some a) key s =
        (if EC_KEY_has_public_key E rk
         then Some (1, key\<lparr>keyLength := of_nat (length enc), keyData := Some b\<rparr>,
           hold R_HEX (hold R_CTX (hold R_PKEY (hold R_BIO (s\<lparr>lib_of := l\<lparr>objs := (objs l)(b + 1 \<mapsto> Key rk), nxt := b + 2\<rparr>,
             refs := (refs s)(a := 0, b + 1 := 0)\<rparr>)))))
         else None)"
proof -
  have ab: "a < b" using assms(2,3) by (force simp: heap_fresh_def b_def not_less [symmetric])
  define s1 where "s1 = up_ref a (hold R_PKEY (hold R_BIO s))"
  let ?s2 = "s1\<lparr>lib_of := (lib_of s)\<lparr>objs := (objs (lib_of s))(b \<mapsto> Buf enc), nxt := b + 1\<rparr>\<rparr>"
  let ?s3 = "(hold R_BIO s)\<lparr>lib_of := l, refs := (refs s)(a := 0)\<rparr>"
  have s1: "lib_of s1 = lib_of s" "refs s1 a = 1" "refs s1 = (refs s)(a := 1)" using assms(4) by (simp_all add: s1_def)
  have f1: "free_key (Some a) ?s2 = Some (?s2\<lparr>refs := (refs s)(a := 0)\<rparr>)"
    using assms(3) s1 ab by (subst free_key_shared [of _ _ k]) simp_all
  have f2: "free_key (Some a) (?s2\<lparr>refs := (refs s)(a := 0)\<rparr>) = Some (hold R_PKEY ?s3)"
    using assms(3) ab by (subst free_key_last [of _ _ k]) (simp_all add: s1_def l_def hold_def up_ref_def)
  have run: "load_public E X fn st (Some a) key s = (if enc = [] then int_err (Some a) key s1
     else (case d2i_PUBKEY E enc of
            None \<Rightarrow> int_err (Some a) key ?s3
          | Some pkey_tmp \<Rightarrow>
              (case EVP_PKEY_get1_EC_KEY E pkey_tmp of
                 None \<Rightarrow> int_err (Some a) key (hold R_PKEY ?s3)
               | Some rk \<Rightarrow> finish_decoding E fn st (Some (b + 1)) rk (Some b) enc (Some a) key
                   (up_ref (b + 1) (snd (new_key rk (hold R_PKEY ?s3)))))))"
    using assms(1,3) f1 f2 s1(1)
    by (simp add: load_public_def key_at_def enc_def b_def s1_def [symmetric] alloc_ok_def l_def
        new_obj_def new_key_eq Let_def cong: option.case_cong)
  have dead: "int_err (Some a) key ?s3 = None" "int_err (Some a) key (hold R_PKEY ?s3) = None"
    by (rule int_err_dead, simp add: l_def)+
  have fin: "finish_decoding E fn st (Some (b + 1)) rk (Some b) enc (Some a) key (up_ref (b + 1) (snd (new_key rk (hold R_PKEY ?s3)))) =
      (if EC_KEY_has_public_key E rk
       then Some (1, key\<lparr>keyLength := of_nat (length enc), keyData := Some b\<rparr>,
           hold R_HEX (hold R_CTX (hold R_PKEY (hold R_BIO (s\<lparr>lib_of := l\<lparr>objs := (objs l)(b + 1 \<mapsto> Key rk), nxt := b + 2\<rparr>,
             refs := (refs s)(a := 0, b + 1 := 0)\<rparr>)))))
       else None)" for rk
    by (subst finish_decoding_spec) (simp_all add: new_key_eq free_key_shared [of _ _ rk] l_def hold_def up_ref_def)
  have "int_err (Some a) key s1 = Some (0, key\<lparr>keyData := NULL\<rparr>, hold R_PKEY (hold R_BIO s))"
    using s1 assms(3,4)
    by (cases s) (simp add: int_err_def free_key_shared [of _ _ k] load_consts, simp add: s1_def up_ref_def hold_def fun_upd_idem)
  then show "enc = [] \<Longrightarrow> load_public E X fn st (Some a) key s = Some (0, key\<lparr>keyData := NULL\<rparr>, hold R_PKEY (hold R_BIO s))"
    using run by simp
  show "enc \<noteq> [] \<Longrightarrow> Option.bind (d2i_PUBKEY E enc) (EVP_PKEY_get1_EC_KEY E) = None \<Longrightarrow> load_public E X fn st (Some a) key s = None"
    using run dead by (auto split: option.splits bind_splits)
  show "enc \<noteq> [] \<Longrightarrow> Option.bind (d2i_PUBKEY E enc) (EVP_PKEY_get1_EC_KEY E) = Some rk \<Longrightarrow>
      load_public E X fn st (Some a) key s =
        (if EC_KEY_has_public_key E rk
         then Some (1, key\<lparr>keyLength := of_nat (length enc), keyData := Some b\<rparr>,
           hold R_HEX (hold R_CTX (hold R_PKEY (hold R_BIO (s\<lparr>lib_of := l\<lparr>objs := (objs l)(b + 1 \<mapsto> Key rk), nxt := b + 2\<rparr>,
             refs := (refs s)(a := 0, b + 1 := 0)\<rparr>)))))
         else None)"
    using run fin [of rk] by (auto split: bind_splits)
qed

subsection \<open>The whole load\<close>

definition load_rest :: "openssl \<Rightarrow> key_io \<Rightarrow> string \<Rightarrow> bool \<Rightarrow> bool \<Rightarrow> ptr \<Rightarrow> BGPSecKey \<Rightarrow> loader \<Rightarrow> (int \<times> BGPSecKey \<times> loader) option" where
  "load_rest E X fn st fPrivate p key s = do {
     (r, s) \<leftarrow> (if has_file X fn KEY_EXT \<and> fPrivate then sca_BgpsecSetEcPrivateKey E X fn p API_BGPSEC_ALGO_ID_256 s
        else Some (API_SUCCESS, s));
     if r \<noteq> API_SUCCESS then int_err p key s
     else do {
       k \<leftarrow> key_at (lib_of s) p;
       if \<not> EC_KEY_check_key E k then int_err p key s
       else if fPrivate then load_private E X fn st p key s
       else load_public E X fn st p key s
     }
   }"

lemma loadKey_eq:
  assumes "sca_FindDirInSKI (keyPath (lib_of s)) MAXPATHLEN (key_ski key) = Some fn"
  shows "sca_loadKey E X key fPrivate s =
    (if \<not> has_file X fn CERT_EXT then None
     else do {
       (r, p, s) \<leftarrow> sca_BgpsecSetEcPublicKey E fn NULL API_DEFAULT_CURVE s;
       if r \<noteq> API_SUCCESS then int_err p key s else load_rest E X fn True fPrivate p key s })"
proof -
  have "dummy_public_key E X key NULL s = None" by (simp add: dummy_public_key_def set_key_def)
  then show ?thesis
    using assms by (cases "has_file X fn CERT_EXT"; cases "sca_BgpsecSetEcPublicKey E fn NULL API_DEFAULT_CURVE s")
      (auto simp: sca_loadKey_def stat_loop_eq load_rest_def simp del: stat_loop.simps cong: if_cong)
qed

lemma pub_loaded_simps [simp]:
  "lib_of (pub_loaded k s) = (lib_of s)\<lparr>objs := (objs (lib_of s))(nxt (lib_of s) \<mapsto> Key k), nxt := nxt (lib_of s) + 1\<rparr>"
  "refs (pub_loaded k s) = (refs s)(nxt (lib_of s) := 0)"
  by (simp_all add: pub_loaded_def new_key_eq)

lemma heap_fresh_pub_loaded [simp]: "heap_fresh (lib_of s) \<Longrightarrow> heap_fresh (lib_of (pub_loaded k s))"
  by (simp add: heap_fresh_def)

lemma load_gives_base:
  "load_gives res key H (l\<lparr>objs := G, nxt := m\<rparr>) r \<Longrightarrow> nxt l \<le> m \<Longrightarrow> load_gives res key H l r"
  by (cases res) (auto simp: load_gives_def intro: le_trans)

text \<open>The first part: without a readable certificate the load ends there.\<close>

lemma loadKey_public_part:
  fixes fPrivate :: bool
  assumes "alloc_ok E X k0" and "heap_fresh (lib_of s)" and fn: "sca_FindDirInSKI (keyPath (lib_of s)) MAXPATHLEN (key_ski key) = Some fn"
  defines "r \<equiv> sca_loadKey E X key fPrivate s"
  shows "\<not> has_file X fn CERT_EXT \<or> pub_of E k0 fn = BadKey \<Longrightarrow> r = None"
    and "has_file X fn CERT_EXT \<Longrightarrow> pub_of E k0 fn = Unreadable \<Longrightarrow> r = Some (0, key\<lparr>keyData := NULL\<rparr>, s)"
    and "has_file X fn CERT_EXT \<Longrightarrow> pub_of E k0 fn = GoodKey k \<Longrightarrow>
      r = load_rest E X fn True fPrivate (Some (nxt (lib_of s))) key (pub_loaded k s)"
proof -
  note sp = set_public_spec [OF assms(1,2), of fn]
  show "\<not> has_file X fn CERT_EXT \<or> pub_of E k0 fn = BadKey \<Longrightarrow> r = None"
    using sp by (auto simp: r_def loadKey_eq [OF fn] int_err_dead load_consts split: bind_splits)
  show "has_file X fn CERT_EXT \<Longrightarrow> pub_of E k0 fn = Unreadable \<Longrightarrow> r = Some (0, key\<lparr>keyData := NULL\<rparr>, s)"
    using sp by (auto simp: r_def loadKey_eq [OF fn] int_err_def free_key_def load_consts)
  show "has_file X fn CERT_EXT \<Longrightarrow> pub_of E k0 fn = GoodKey k \<Longrightarrow>
      r = load_rest E X fn True fPrivate (Some (nxt (lib_of s))) key (pub_loaded k s)"
    using sp by (auto simp: r_def loadKey_eq [OF fn] load_consts)
qed

text \<open>The second part for a private key, from a state \<open>t\<close> that has the key object at the first address.\<close>

definition key_loaded :: "lib \<Rightarrow> nat \<Rightarrow> EC_KEY \<Rightarrow> loader \<Rightarrow> bool" where
  "key_loaded l a k t \<longleftrightarrow> heap_fresh l \<and> a = nxt l \<and> lib_of t = l\<lparr>objs := (objs l)(a \<mapsto> Key k), nxt := a + 1\<rparr> \<and> refs t a = 0"

lemma key_loadedD:
  assumes "key_loaded l a k t"
  shows "objs (lib_of t) a = Some (Key k)" "refs t a = 0" "heap_fresh (lib_of t)" "(objs l)(a := None) = objs l"
    "(objs (lib_of t))(a := None) = objs l" "lib_of t = l\<lparr>objs := (objs l)(a \<mapsto> Key k), nxt := a + 1\<rparr>" "a = nxt l"
proof -
  show "(objs l)(a := None) = objs l" using assms by (simp add: key_loaded_def fun_upd_idem)
  then show "(objs (lib_of t))(a := None) = objs l" using assms by (simp add: key_loaded_def)
qed (use assms in \<open>auto simp: key_loaded_def heap_fresh_def\<close>)

lemma key_loaded_pub: "heap_fresh (lib_of s) \<Longrightarrow> key_loaded (lib_of s) (nxt (lib_of s)) k (pub_loaded k s)"
  by (simp add: key_loaded_def)

lemma int_err_loaded:
  assumes "key_loaded l a k t"
  shows "load_gives Failed key (objs l) l (int_err (Some a) key t)"
  using key_loadedD [OF assms]
  by (simp add: int_err_last [of _ _ k]) (rule load_gives_intros(2) [where n = "a + 1"], simp_all)

lemma load_end_private:
  assumes "alloc_ok E X k0" and "key_loaded l a k t"
  shows "load_gives (private_spec E X k) key (objs l) l
    (do { k \<leftarrow> key_at (lib_of t) (Some a);
          if \<not> EC_KEY_check_key E k then int_err (Some a) key t else load_private E X fn st (Some a) key t })"
proof (cases "EC_KEY_check_key E k")
  case True
  note t = key_loadedD [OF assms(2)]
  have "load_gives (private_spec E X k) key (objs l) (lib_of t) (load_private E X fn st (Some a) key t)"
    using load_private_spec [OF assms(1) t(3,1,2) True] t(5) by simp
  then show ?thesis using True t(1,6,7) load_gives_base [where l = l and m = "a + 1"] by (simp add: key_at_def)
next
  case False
  then show ?thesis
    using key_loadedD(1) [OF assms(2)] int_err_loaded [OF assms(2)] by (simp add: key_at_def private_spec_def)
qed

definition with_private :: "openssl \<Rightarrow> key_io \<Rightarrow> EC_KEY \<Rightarrow> string \<Rightarrow> load_result" where
  "with_private E X k fn =
     (if \<not> has_file X fn KEY_EXT then private_spec E X k
      else (case priv_of E fn of
          None \<Rightarrow> Failed
        | Some pk \<Rightarrow>
            (case EVP_PKEY_get1_EC_KEY E pk of
               None \<Rightarrow> Undefined
             | Some tk \<Rightarrow>
                 (case Option.bind (EC_KEY_get0_private_key X tk) (EC_KEY_set_private_key E k) of
                    None \<Rightarrow> Failed
                  | Some k' \<Rightarrow> private_spec E X k'))))"

lemma load_rest_private:
  assumes "alloc_ok E X k0" and "key_loaded l a k t"
  shows "load_gives (with_private E X k fn) key (objs l) l (load_rest E X fn st True (Some a) key t)"
proof (cases "has_file X fn KEY_EXT")
  case False
  then show ?thesis using load_end_private [OF assms] by (simp add: load_rest_def with_private_def)
next
  case True
  let ?h = "hold R_KEYREF (hold R_PKEY t)"
  note sp = set_private_spec [OF assms(1) key_loadedD(1) [OF assms(2)], of fn API_BGPSEC_ALGO_ID_256]
  note def = load_rest_def with_private_def load_consts
  have err: "load_gives Failed key (objs l) l (int_err (Some a) key t)" "load_gives Failed key (objs l) l (int_err (Some a) key ?h)"
    using assms(2) by (auto simp: key_loaded_def intro!: int_err_loaded [of _ _ k])
  consider "priv_of E fn = None" | pk where "priv_of E fn = Some pk" "EVP_PKEY_get1_EC_KEY E pk = None"
    | pk tk where "priv_of E fn = Some pk" "EVP_PKEY_get1_EC_KEY E pk = Some tk"
        "Option.bind (EC_KEY_get0_private_key X tk) (EC_KEY_set_private_key E k) = None"
    | pk tk k' where "priv_of E fn = Some pk" "EVP_PKEY_get1_EC_KEY E pk = Some tk"
        "Option.bind (EC_KEY_get0_private_key X tk) (EC_KEY_set_private_key E k) = Some k'"
    by (meson not_None_eq)
  then show ?thesis
  proof cases
    case (4 pk tk k')
    have "key_loaded l a k' (?h\<lparr>lib_of := put_key a k' (lib_of t)\<rparr>)"
      using assms(2) by (auto simp: key_loaded_def put_key_def)
    from load_end_private [OF assms(1) this] show ?thesis using True sp 4 by (simp add: def)
  qed (use True sp err in \<open>simp_all add: def load_gives_intros\<close>)
qed

lemma load_spec_cases:
  assumes "alloc_ok E X k0" and "heap_fresh (lib_of s)" and "sca_FindDirInSKI (keyPath (lib_of s)) MAXPATHLEN (key_ski key) = Some fn"
  obtains "load_spec E X k0 fn fPrivate = Undefined" "sca_loadKey E X key fPrivate s = None"
  | "load_spec E X k0 fn fPrivate = Failed" "sca_loadKey E X key fPrivate s = Some (0, key\<lparr>keyData := NULL\<rparr>, s)"
  | k t where "load_spec E X k0 fn fPrivate = (if fPrivate then with_private E X k fn else public_spec E X k)"
      "EC_KEY_check_key E k" "t = pub_loaded k s" "key_loaded (lib_of s) (nxt (lib_of s)) k t"
      "sca_loadKey E X key fPrivate s = load_rest E X fn True fPrivate (Some (nxt (lib_of s))) key t"
proof -
  note part = loadKey_public_part [OF assms, where fPrivate = fPrivate]
  have ck: "EC_KEY_check_key E k" if "pub_of E k0 fn = GoodKey k" for k
    using that by (auto simp: pub_of_def Let_def split: if_splits option.splits bind_splits)
  consider "\<not> has_file X fn CERT_EXT \<or> pub_of E k0 fn = BadKey" | "has_file X fn CERT_EXT" "pub_of E k0 fn = Unreadable"
    | k where "has_file X fn CERT_EXT" "pub_of E k0 fn = GoodKey k" by (meson pub_outcome.exhaust)
  then show thesis
  proof cases
    case 1
    then show ?thesis using part(1) by (intro that(1)) (auto simp: load_spec_def)
  next
    case 2
    then show ?thesis using part(2) by (intro that(2)) (auto simp: load_spec_def)
  next
    case (3 k)
    then show ?thesis
      using part(3) ck by (intro that(3) [OF _ _ refl key_loaded_pub [OF assms(2)]]) (auto simp: load_spec_def with_private_def)
  qed
qed

lemma load_private_gives:
  assumes "alloc_ok E X k0" and "heap_fresh (lib_of s)" and "sca_FindDirInSKI (keyPath (lib_of s)) MAXPATHLEN (key_ski key) = Some fn"
  shows "load_gives (load_spec E X k0 fn True) key (objs (lib_of s)) (lib_of s) (sca_loadKey E X key True s)"
  using assms
proof (cases rule: load_spec_cases [where fPrivate = True])
  case 2
  then show ?thesis by (auto intro: load_gives_intros(2) [where n = "nxt (lib_of s)"])
next
  case (3 k t)
  then show ?thesis using load_rest_private [OF assms(1) 3(4)] by simp
qed (simp add: load_gives_intros)

text \<open>The outcome as the caller sees it: the call has no defined outcome, it returns 0 and a null pointer, or it returns 1, a pointer to a buffer and its length.  An
  answer in which the result, the pointer and the length do not fit together is none of these.\<close>

definition visible :: "(int \<times> BGPSecKey \<times> loader) option \<Rightarrow> load_result option" where
  "visible r =
     (case r of
        None \<Rightarrow> Some Undefined
      | Some (v, key, s) \<Rightarrow>
          if v = API_LOADKEY_FAILURE \<and> keyData key = NULL then Some Failed
          else if v = API_LOADKEY_SUCCESS then
            (case buf_at (lib_of s) (keyData key) of
               None \<Rightarrow> None
             | Some b \<Rightarrow> if keyLength key = of_nat (length b) then Some (Loaded b) else None)
          else None)"

lemma visible_load_gives: "load_gives res key H l r \<Longrightarrow> visible r = Some res"
  by (cases res) (auto simp: load_gives_def visible_def load_consts buf_at_def)

lemma load_public_visible:
  assumes "alloc_ok E X k0" and "key_loaded l a k t" and "EC_KEY_check_key E k"
  shows "visible (load_rest E X fn st False (Some a) key t) = Some (public_spec E X k)"
proof -
  note t = key_loadedD [OF assms(2)]
  note run = load_public_run [OF assms(1) t(3,1,2), where fn = fn and st = st and key = key]
  have rest: "load_rest E X fn st False (Some a) key t = load_public E X fn st (Some a) key t"
    using t(1) assms(3) by (simp add: load_rest_def key_at_def)
  define enc where "enc = i2d_PUBKEY X (EVP_PKEY_set1_EC_KEY X k)"
  have ne: "nxt (lib_of t) \<noteq> a" using t(6,7) by simp
  show ?thesis
  proof (cases "enc = [] \<or> Option.bind (d2i_PUBKEY E enc) (EVP_PKEY_get1_EC_KEY E) = None")
    case True
    then show ?thesis
      using run(1,2) rest by (auto simp: enc_def [symmetric] public_spec_def encode_spec_def visible_def load_consts)
  next
    case False
    then obtain rk where "Option.bind (d2i_PUBKEY E enc) (EVP_PKEY_get1_EC_KEY E) = Some rk" "enc \<noteq> []" by auto
    then show ?thesis
      using run(3) [of rk] rest ne by (simp add: enc_def [symmetric] public_spec_def encode_spec_def visible_def load_consts buf_at_def)
  qed
qed

lemma load_visible:
  assumes "alloc_ok E X k0" and "heap_fresh (lib_of s)" and "sca_FindDirInSKI (keyPath (lib_of s)) MAXPATHLEN (key_ski key) = Some fn"
  shows "visible (sca_loadKey E X key fPrivate s) = Some (load_spec E X k0 fn fPrivate)"
  using assms
proof (cases rule: load_spec_cases [where fPrivate = fPrivate])
  case (3 k t)
  then show ?thesis using visible_load_gives [OF load_private_gives [OF assms]] load_public_visible [OF assms(1) 3(4,2)] by (cases fPrivate) simp_all
qed (simp_all add: visible_def load_consts)

subsection \<open>Properties\<close>

text \<open>A file system and a version of OpenSSL for the examples: all files are regular.\<close>

definition sample_io :: key_io where
  "sample_io = \<lparr>stat_mode = (\<lambda>_. Some 0x8180), file_octets = (\<lambda>_. Some [9]), i2d_ECPrivateKey = (\<lambda>k. [0x30, 1] @ k),
     i2d_PUBKEY = (\<lambda>k. [0x30, 2] @ k), EVP_PKEY_new_ok = True, EVP_PKEY_set1_EC_KEY = (\<lambda>k. k),
     EC_KEY_get0_private_key = Some, d2i_PrivateKey = Some, EC_POINT_mul = (\<lambda>b. b), struct_octets = (\<lambda>_. replicate 32 0)\<rparr>"

definition sample_loader :: loader where
  "sample_loader = \<lparr>lib_of = sample_lib, refs = (\<lambda>_. 0), held = (\<lambda>_. 0)\<rparr>"

definition sample_ski_key :: BGPSecKey where
  "sample_ski_key = \<lparr>key_algoID = 1, key_asn = 200, key_ski = replicate 20 1, keyLength = 0, keyData = NULL\<rparr>"

definition sample_file :: string where
  "sample_file = the (sca_FindDirInSKI ''/keys'' MAXPATHLEN (replicate 20 1))"

lemma sample_load:
  "alloc_ok sample_ssl sample_io []" "heap_fresh (lib_of sample_loader)"
  "sca_FindDirInSKI (keyPath (lib_of sample_loader)) MAXPATHLEN (key_ski sample_ski_key) = Some sample_file"
  "load_spec sample_ssl sample_io [] sample_file True = Loaded [0x30, 1, 9]"
  "load_spec sample_ssl sample_io [] sample_file False = Loaded [0x30, 2, 9]"
proof -
  note spec = load_spec_def has_file_def file_is_key_def pub_of_def priv_of_def private_spec_def public_spec_def encode_spec_def
    sample_ssl_def sample_io_def S_IFMT_def S_IFREG_def S_IFLNK_def
  show "alloc_ok sample_ssl sample_io []" by (simp add: alloc_ok_def sample_ssl_def sample_io_def)
  show "heap_fresh (lib_of sample_loader)" using sample_fresh by (simp add: sample_loader_def)
  show "sca_FindDirInSKI (keyPath (lib_of sample_loader)) MAXPATHLEN (key_ski sample_ski_key) = Some sample_file"
    by (simp add: sample_file_def sca_FindDirInSKI_def sample_loader_def sample_lib_def sample_ski_key_def SKI_LENGTH_def Let_def)
  show "load_spec sample_ssl sample_io [] sample_file True = Loaded [0x30, 1, 9]" by (simp add: spec)
  show "load_spec sample_ssl sample_io [] sample_file False = Loaded [0x30, 2, 9]" by (simp add: spec)
qed

text \<open>Property C9: \<^verbatim>\<open>sca_loadKey\<close> does what \<open>load_spec\<close> says.  When the allocations inside OpenSSL succeed, the
  call returns 1 with a buffer that holds the DER encoding of the key of the certificate (with the private key added for a private
  load) and with its length, or it returns 0 with a null pointer, or its outcome is undefined, exactly in the cases
  of \<open>load_spec\<close>: undefined are a missing certificate file, a certificate without a valid key, a private key
  that is not an EC key, and an encoding that does not decode again.\<close>

theorem loadKey_refines:
  assumes "alloc_ok E X k0" and "heap_fresh (lib_of s)"
    and "sca_FindDirInSKI (keyPath (lib_of s)) MAXPATHLEN (key_ski key) = Some fn"
  shows "visible (sca_loadKey E X key fPrivate s) = Some (load_spec E X k0 fn fPrivate)"
  by (rule load_visible [OF assms])

theorem loadKey_refines_witness:
  "visible (sca_loadKey sample_ssl sample_io sample_ski_key True sample_loader) = Some (Loaded [0x30, 1, 9])"
  using loadKey_refines [OF sample_load(1-3), of True] sample_load(4) by simp

text \<open>Property C10: a loaded private key can be used.  When \<^verbatim>\<open>sca_loadKey\<close> gives an encoding that decodes to the
  valid key \<open>k\<close>, the filled structure can be passed to \<^verbatim>\<open>registerPrivateKey\<close>, and a request with the
  identifier that this returns is signed with \<open>k\<close>.\<close>

theorem loaded_key_signs:
  assumes "alloc_ok E X k0" and "store_inv E (lib_of s)" and "hash_ok E"
    and "sca_FindDirInSKI (keyPath (lib_of s)) MAXPATHLEN (key_ski key) = Some fn"
    and "load_spec E X k0 fn True = Loaded enc" and "length enc < 65536"
    and "d2i_ECPrivateKey E enc = Some k" and "EC_KEY_check_key E k"
    and "key_asn key \<noteq> 0" and "length (key_ski key) = 20" and "\<forall>r\<in>set (g_records (lib_of s)). rec_asn r \<noteq> key_asn key"
    and "i = key_id E (lib_of s) (key_asn key)" and "i \<noteq> 0"
    and "signs_as E (signs (lib_of s)) k m sig" and "length m < 65536" and "length sig \<le> length buf"
  shows "\<exists>key' s' l. sca_loadKey E X key True s = Some (1, key', s') \<and>
    registerPrivateKey E (Some key') (lib_of s') = Some (i, l) \<and>
    sign_with_id E (of_nat (length m)) (Some m) i slen (Some buf) l =
      Some (int (length sig), Some (sig @ drop (length sig) buf), l\<lparr>signs := signs l + 1\<rparr>)"
proof -
  have fresh: "heap_fresh (lib_of s)" using assms(2) by (simp add: store_inv_def)
  obtain s' a n where r: "sca_loadKey E X key True s = Some (1, key\<lparr>keyLength := of_nat (length enc), keyData := Some a\<rparr>, s')"
    and a: "nxt (lib_of s) \<le> a" "a < n" and l: "lib_of s' = (lib_of s)\<lparr>objs := (objs (lib_of s))(a \<mapsto> Buf enc), nxt := n\<rparr>"
    using load_private_gives [OF assms(1) fresh assms(4)] assms(5) by (auto simp: load_gives_def)
  let ?key = "key\<lparr>keyLength := of_nat (length enc), keyData := Some a\<rparr>"
  have inv: "store_inv E (lib_of s')"
    using assms(2) a by (auto simp: l store_inv_def heap_fresh_def)
  have "key_id E (lib_of s') = key_id E (lib_of s)" by (simp add: fun_eq_iff l key_id_def id_of_hash_def)
  moreover have "der_key E (lib_of s') ?key k"
    using assms(6-8) unat_of_nat_small [of "length enc", where 'a = 16] by (simp add: der_key_def buf_at_def l)
  ultimately have reg: "registrable E (lib_of s') ?key k i"
    using assms(9-12) by (simp add: registrable_def l)
  have "\<forall>n. malloc_ok E n" using assms(1) by (simp add: alloc_ok_def)
  then have "registerPrivateKey E (Some ?key) (lib_of s') = Some (i, registered E ?key k (lib_of s'))"
    by (rule register_new [OF assms(3) _ inv reg])
  moreover have "sign_with_id E (of_nat (length m)) (Some m) i slen (Some buf) (registered E ?key k (lib_of s')) =
      Some (int (length sig), Some (sig @ drop (length sig) buf), (registered E ?key k (lib_of s'))\<lparr>signs := signs (registered E ?key k (lib_of s')) + 1\<rparr>)"
    using assms(14-16) by (intro sign_bound [OF bound_registered [OF inv reg assms(13)]]) (simp_all add: l)
  ultimately show ?thesis using r by blast
qed

theorem loaded_key_signs_witness:
  "\<exists>key' s' l. sca_loadKey sample_ssl sample_io sample_ski_key True sample_loader = Some (1, key', s') \<and>
    registerPrivateKey sample_ssl (Some key') (lib_of s') = Some (9, l) \<and>
    sign_with_id sample_ssl (of_nat (length [3, 4 :: byte])) (Some [3, 4]) 9 3 (Some [0, 0, 0]) l =
      Some (int (length [7, 9 :: byte]), Some ([7, 9] @ drop (length [7, 9 :: byte]) [0, 0, 0]), l\<lparr>signs := signs l + 1\<rparr>)"
proof (rule loaded_key_signs [OF sample_load(1) _ _ sample_load(3,4), where k = "[9]"])
  show "store_inv sample_ssl (lib_of sample_loader)" "hash_ok sample_ssl"
    using sample_ready by (simp_all add: store_ready_def sample_loader_def)
  show "9 = key_id sample_ssl (lib_of sample_loader) (key_asn sample_ski_key)" by code_simp
qed (simp_all add: sample_ssl_def sample_ski_key_def sample_loader_def sample_lib_def signs_as_def)

text \<open>What a public load leaves behind.  A successful public load keeps, besides the encoding it returns, a
  second key object (the decoded copy) and, for good, a certificate, a group, a point, a key container, a
  \<^verbatim>\<open>BIO\<close>, a context and the printed text; nothing else is left, and the old objects are untouched.\<close>

theorem public_load_leaks:
  assumes "alloc_ok E X k0" and "heap_fresh (lib_of s)"
    and "sca_FindDirInSKI (keyPath (lib_of s)) MAXPATHLEN (key_ski key) = Some fn"
    and "load_spec E X k0 fn False = Loaded enc"
  shows "\<exists>key' s' a rk. sca_loadKey E X key False s = Some (1, key', s') \<and> keyData key' = Some a \<and>
    Option.bind (d2i_PUBKEY E enc) (EVP_PKEY_get1_EC_KEY E) = Some rk \<and> objs (lib_of s) a = None \<and> objs (lib_of s) (a + 1) = None \<and>
    objs (lib_of s') = (objs (lib_of s))(a \<mapsto> Buf enc, a + 1 \<mapsto> Key rk) \<and>
    (\<forall>r. held s' r = held s r + (if r \<in> {R_X509, R_GROUP, R_POINT, R_PKEY, R_BIO, R_CTX, R_HEX} then 1 else 0))"
  using assms(1-3)
proof (cases rule: load_spec_cases [where fPrivate = False])
  case (3 k t)
  let ?a = "nxt (lib_of s)" and ?b = "nxt (lib_of t)"
  define e where "e = i2d_PUBKEY X (EVP_PKEY_set1_EC_KEY X k)"
  note t = key_loadedD [OF 3(4)]
  have spec: "public_spec E X k = Loaded enc" using 3(1) assms(4) by simp
  then obtain rk where rk: "Option.bind (d2i_PUBKEY E enc) (EVP_PKEY_get1_EC_KEY E) = Some rk" "EC_KEY_has_public_key E rk"
    "e = enc" "enc \<noteq> []"
    by (auto simp: public_spec_def encode_spec_def e_def Let_def split: if_splits option.splits)
  have run: "load_public E X fn True (Some ?a) key t =
      Some (1, key\<lparr>keyLength := of_nat (length enc), keyData := Some ?b\<rparr>,
         hold R_HEX (hold R_CTX (hold R_PKEY (hold R_BIO (t\<lparr>lib_of := (lib_of t)\<lparr>objs := (objs (lib_of t))(?b \<mapsto> Buf enc, ?a := None, ?b + 1 \<mapsto> Key rk),
           nxt := ?b + 2\<rparr>, refs := (refs t)(?a := 0, ?b + 1 := 0)\<rparr>)))))"
    using load_public_run(3) [OF assms(1) t(3,1,2), where fn = fn and st = True and key = key and rk = rk] rk by (simp add: e_def)
  have rest: "sca_loadKey E X key False s = load_public E X fn True (Some ?a) key t"
    using 3(2,5) t(1) by (simp add: load_rest_def key_at_def)
  have b: "?b = ?a + 1" using t(6) by simp
  have objs: "(objs (lib_of t))(?b \<mapsto> Buf enc, ?a := None, ?b + 1 \<mapsto> Key rk) = (objs (lib_of s))(?b \<mapsto> Buf enc, ?b + 1 \<mapsto> Key rk)"
    using t(4) by (auto simp: t(6) fun_eq_iff split: if_splits)
  have "objs (lib_of s) ?b = None" "objs (lib_of s) (?b + 1) = None" using assms(2) by (simp_all add: b heap_fresh_def)
  moreover have "held t r = held s r + (if r \<in> {R_X509, R_GROUP, R_POINT} then 1 else 0)" for r
    by (simp add: 3(3) pub_loaded_def new_key_eq)
  ultimately show ?thesis using run rest rk(1) objs by auto
qed (use assms(4) in simp_all)

theorem public_load_leaks_witness:
  "\<exists>key' s'. sca_loadKey sample_ssl sample_io sample_ski_key False sample_loader = Some (1, key', s') \<and>
     held s' R_X509 = 1 \<and> held s' R_PKEY = 1"
  using public_load_leaks [OF sample_load(1-3,5)] by (auto simp: sample_loader_def)

end
