(* ===== verification/KeyUtils.thy ===== *)
theory KeyUtils
  imports KeyLoad
begin

text \<open>
  The loader of \<^verbatim>\<open>crypto_utils.c\<close>, a later version of \<^verbatim>\<open>sca_loadKey\<close>.  It differs from the one of \<open>KeyLoad\<close> in two
  points: keys are printed only at the debug level of the log, and without a certificate it makes a key object before it
  sets a public key, which it computes from a constant.

  The property says what the caller gets at every level of the log, with and without a certificate.  The file calls the functions that read the
  certificate and the private key but does not define them; they are those of the library that calls it, modelled in \<open>KeyLoad\<close>.  The code after the test of the key is repeated in both
  versions, and at the debug level the lemmas of \<open>KeyLoad\<close> apply to it.
\<close>

subsection \<open>The loader\<close>

definition utils_print :: "bool \<Rightarrow> openssl \<Rightarrow> ptr \<Rightarrow> loader \<Rightarrow> loader option" where
  "utils_print dbg E p s = (if dbg then PrintPrivPubKeyHex E p s else Some s)"

definition utils_finish :: "bool \<Rightarrow> openssl \<Rightarrow> string \<Rightarrow> bool \<Rightarrow> ptr \<Rightarrow> EC_KEY \<Rightarrow> ptr \<Rightarrow> bytes \<Rightarrow> ptr \<Rightarrow> BGPSecKey \<Rightarrow> loader \<Rightarrow>
    (int \<times> BGPSecKey \<times> loader) option" where
  "utils_finish dbg E filePrefix pub_status recon_key rk ep enc p key s = do {
     s \<leftarrow> utils_print dbg E recon_key s;
     (r, recon_key, s) \<leftarrow> (if \<not> EC_KEY_has_public_key E rk \<and> pub_status
        then sca_BgpsecSetEcPublicKey E filePrefix recon_key API_DEFAULT_CURVE s
        else Some (API_SUCCESS, recon_key, s));
     if r \<noteq> API_SUCCESS then int_err p key s
     else do {
       s \<leftarrow> free_key recon_key s;
       Some (API_LOADKEY_SUCCESS, key\<lparr>keyLength := of_nat (length enc), keyData := ep\<rparr>, s)
     }
   }"

definition utils_private :: "bool \<Rightarrow> openssl \<Rightarrow> key_io \<Rightarrow> string \<Rightarrow> bool \<Rightarrow> ptr \<Rightarrow> BGPSecKey \<Rightarrow> loader \<Rightarrow> (int \<times> BGPSecKey \<times> loader) option" where
  "utils_private dbg E X filePrefix pub_status p key s = do {
     s \<leftarrow> utils_print dbg E p s;
     k \<leftarrow> key_at (lib_of s) p;
     let enc = i2d_ECPrivateKey X k;
     if enc = [] then int_err p key s
     else if \<not> malloc_ok E (nxt (lib_of s)) then int_err p key (s\<lparr>lib_of := snd (malloc E (lib_of s))\<rparr>)
     else do {
       let (ep, l) = new_obj (Buf enc) (lib_of s);
       s \<leftarrow> free_key p (s\<lparr>lib_of := l\<rparr>);
       (case d2i_ECPrivateKey E enc of
          None \<Rightarrow> int_err p key s
        | Some rk \<Rightarrow>
            let (recon_key, s) = new_key rk s
            in utils_finish dbg E filePrefix pub_status recon_key rk ep enc p key s)
     }
   }"

definition utils_public :: "bool \<Rightarrow> openssl \<Rightarrow> key_io \<Rightarrow> string \<Rightarrow> bool \<Rightarrow> ptr \<Rightarrow> BGPSecKey \<Rightarrow> loader \<Rightarrow> (int \<times> BGPSecKey \<times> loader) option" where
  "utils_public dbg E X filePrefix pub_status p key s = do {
     let s = hold R_BIO s;
     if \<not> EVP_PKEY_new_ok X then int_err p key s
     else do {
       a \<leftarrow> p;
       k \<leftarrow> key_at (lib_of s) p;
       let s = up_ref a (hold R_PKEY s);
       let enc = i2d_PUBKEY X (EVP_PKEY_set1_EC_KEY X k);
       if enc = [] then int_err p key s
       else if \<not> malloc_ok E (nxt (lib_of s)) then int_err p key (s\<lparr>lib_of := snd (malloc E (lib_of s))\<rparr>)
       else do {
         let (ep, l) = new_obj (Buf enc) (lib_of s);
         s \<leftarrow> free_key p (s\<lparr>lib_of := l\<rparr>);
         s \<leftarrow> free_key p s;
         s \<leftarrow> release R_PKEY s;
         (case d2i_PUBKEY E enc of
            None \<Rightarrow> int_err p key s
          | Some pkey_tmp \<Rightarrow>
              let s = hold R_PKEY s in
              (case EVP_PKEY_get1_EC_KEY E pkey_tmp of
                 None \<Rightarrow> int_err p key s
               | Some rk \<Rightarrow>
                   let (recon_key, s') = new_key rk s;
                       s = up_ref (nxt (lib_of s)) s'
                   in utils_finish dbg E filePrefix pub_status recon_key rk ep enc p key s))
       }
     }
   }"

text \<open>The constant in the source, and the public key that is computed from it.\<close>

definition dummy_octets :: bytes where
  "dummy_octets = [0xAE, 0x9F, 0x24, 0x11, 0x7C, 0x4B, 0x1F, 0xE6, 0x49, 0x28, 0x66, 0x51, 0xEC, 0xE6, 0x53, 0x81]"

definition utils_dummy :: "openssl \<Rightarrow> key_io \<Rightarrow> loader \<Rightarrow> (bool \<times> ptr \<times> loader) option" where
  "utils_dummy E X s = do {
     c_assert (EC_GROUP_new_by_curve_name_ok E API_BGPSEC_OPENSSL_ID \<and> EC_POINT_new_ok E);
     let s = hold R_BN (hold R_CTX (hold R_POINT (hold R_GROUP s)));
     let point = EC_POINT_mul X dummy_octets;
     s \<leftarrow> release R_CTX s;
     s \<leftarrow> release R_GROUP s;
     s \<leftarrow> release R_BN s;
     let (p, s) = (case EC_KEY_new_by_curve_name E API_BGPSEC_OPENSSL_ID of None \<Rightarrow> (NULL, s) | Some k \<Rightarrow> new_key k s);
     r \<leftarrow> set_key (\<lambda>k. EC_KEY_set_public_key E k point) p s;
     (case r of None \<Rightarrow> Some (False, p, s) | Some s \<Rightarrow> do { s \<leftarrow> release R_POINT s; Some (True, p, s) })
   }"

definition utils_loadKey :: "bool \<Rightarrow> openssl \<Rightarrow> key_io \<Rightarrow> BGPSecKey \<Rightarrow> bool \<Rightarrow> loader \<Rightarrow> (int \<times> BGPSecKey \<times> loader) option" where
  "utils_loadKey dbg E X key fPrivate s = do {
     filePrefix \<leftarrow> sca_FindDirInSKI (keyPath (lib_of s)) MAXPATHLEN (key_ski key);
     let (pub_status, priv_status) = stat_loop X filePrefix 0 [CERT_EXT, KEY_EXT] (False, False);
     (ok, p, s) \<leftarrow>
       (if pub_status then do {
          (r, p, s) \<leftarrow> sca_BgpsecSetEcPublicKey E filePrefix NULL API_DEFAULT_CURVE s;
          Some (r = API_SUCCESS, p, s)
        }
        else utils_dummy E X s);
     if \<not> ok then int_err p key s
     else do {
       (r, s) \<leftarrow> (if priv_status \<and> fPrivate
          then sca_BgpsecSetEcPrivateKey E X filePrefix p API_BGPSEC_ALGO_ID_256 s
          else Some (API_SUCCESS, s));
       if r \<noteq> API_SUCCESS then int_err p key s
       else do {
         k \<leftarrow> key_at (lib_of s) p;
         if \<not> EC_KEY_check_key E k then int_err p key s
         else if fPrivate then utils_private dbg E X filePrefix pub_status p key s
         else utils_public dbg E X filePrefix pub_status p key s
       }
     }
   }"

subsection \<open>Comparison with the earlier version\<close>

lemma utils_debug: "utils_print True = PrintPrivPubKeyHex" "utils_finish True = finish_decoding" "utils_private True = load_private" "utils_public True = load_public"
proof -
  show pr: "utils_print True = PrintPrivPubKeyHex" by (intro ext) (simp add: utils_print_def)
  show fin: "utils_finish True = finish_decoding" by (intro ext) (simp only: utils_finish_def finish_decoding_def pr)
  show "utils_private True = load_private" by (intro ext) (simp only: utils_private_def load_private_def pr fin)
  show "utils_public True = load_public" by (intro ext) (simp only: utils_public_def load_public_def fin)
qed

lemma utils_with_certificate:
  assumes "sca_FindDirInSKI (keyPath (lib_of s)) MAXPATHLEN (key_ski key) = Some fn" and "has_file X fn CERT_EXT"
  shows "utils_loadKey True E X key fPrivate s = sca_loadKey E X key fPrivate s"
  unfolding utils_loadKey_def sca_loadKey_def assms(1) option.simps(5) bind.simps stat_loop_eq
  using assms(2) by (simp only: utils_debug Let_def prod.case if_True HOL.simp_thms)

lemma utils_without_certificate:
  assumes "sca_FindDirInSKI (keyPath (lib_of s)) MAXPATHLEN (key_ski key) = Some fn" and "\<not> has_file X fn CERT_EXT"
    and "utils_dummy E X s = Some (ok, p, t)"
  shows "utils_loadKey True E X key fPrivate s = (if ok then load_rest E X fn False fPrivate p key t else int_err p key t)"
  using assms by (simp add: utils_loadKey_def load_rest_def stat_loop_eq utils_debug del: stat_loop.simps cong: if_cong)

subsection \<open>The debug output\<close>

text \<open>What a printed key leaves allocated.\<close>

definition logged :: "loader \<Rightarrow> loader" where
  "logged s = hold R_HEX (hold R_CTX s)"

lemma logged_simps [simp]: "lib_of (logged s) = lib_of s" "refs (logged s) = refs s" "s\<lparr>lib_of := l\<rparr> = t \<Longrightarrow> (logged s)\<lparr>lib_of := l\<rparr> = logged t"
  by (auto simp: logged_def hold_def)

lemma logged_lib: "(logged s)\<lparr>lib_of := l\<rparr> = logged (s\<lparr>lib_of := l\<rparr>)"
  by (simp add: logged_def hold_def)

lemma logged_refs: "(logged s)\<lparr>refs := f\<rparr> = logged (s\<lparr>refs := f\<rparr>)"
  by (simp add: logged_def hold_def)

lemma hold_logged: "hold r (logged s) = logged (hold r s)"
  by (cases r) (auto simp: logged_def hold_def fun_eq_iff)

lemma up_ref_logged: "up_ref a (logged s) = logged (up_ref a s)"
  by (simp add: logged_def hold_def up_ref_def)

lemma release_logged: "r \<noteq> R_HEX \<Longrightarrow> r \<noteq> R_CTX \<Longrightarrow> release r (logged s) = map_option logged (release r s)"
  by (auto simp: logged_def hold_def release_def fun_eq_iff)

lemma new_key_logged: "new_key k (logged s) = map_prod (\<lambda>p. p) logged (new_key k s)"
  by (simp add: new_key_eq logged_def hold_def)

lemma free_key_logged: "free_key p (logged s) = map_option logged (free_key p s)"
  by (cases p; cases "key_at (lib_of s) p"; cases "EC_KEY_free p (lib_of s)") (simp_all add: free_key_def logged_def hold_def del: key_at_Some)

lemma set_key_logged: "set_key f p (logged s) = map_option (map_option logged) (set_key f p s)"
  by (cases p; cases "key_at (lib_of s) p") (auto simp: set_key_def logged_def hold_def simp del: key_at_Some split: option.splits)

lemmas log_simps = hold_logged up_ref_logged release_logged new_key_logged free_key_logged set_key_logged logged_lib

lemma int_err_logged: "int_err p key (logged s) = map_option (\<lambda>(r, k, s). (r, k, logged s)) (int_err p key s)"
  by (auto simp: int_err_def free_key_logged split: bind_splits)

text \<open>At the debug level a run that ends does what the quiet run does, and keeps the objects of at most two printed keys.\<close>

definition quieter :: "(int \<times> BGPSecKey \<times> loader) option \<Rightarrow> (int \<times> BGPSecKey \<times> loader) option \<Rightarrow> bool" where
  "quieter quiet loud \<longleftrightarrow> (\<forall>r k s'. loud = Some (r, k, s') \<longrightarrow> (\<exists>t n. n \<le> 2 \<and> quiet = Some (r, k, t) \<and> s' = (logged ^^ n) t))"

lemma quieter_same [simp]: "quieter x x"
  unfolding quieter_def by (metis funpow_0 zero_le)

lemma quieter_undefined [simp]: "quieter x None"
  by (simp add: quieter_def)

lemma quieter_int_err: "quieter (int_err p key s) (int_err p key (logged s))"
  unfolding quieter_def int_err_logged by (auto intro!: exI [of _ "1 :: nat"])

lemma quieter_bind: "(\<And>x. m = Some x \<Longrightarrow> quieter (f x) (g x)) \<Longrightarrow> quieter (m \<bind> f) (m \<bind> g)"
  by (cases m) auto

lemma print_logged: "key_at (lib_of s) rp = Some rk \<Longrightarrow> PrintPrivPubKeyHex E rp s = (if EC_KEY_has_public_key E rk then Some (logged s) else None)"
  by (cases rp) (auto simp: PrintPrivPubKeyHex_def logged_def key_at_def split: option.splits)

lemma quieter_finish:
  assumes "key_at (lib_of s) rp = Some rk"
  shows "quieter (utils_finish False E fn st rp rk ep enc p key s) (utils_finish True E fn st rp rk ep enc p key s)"
    and "quieter (utils_finish False E fn st rp rk ep enc p key s) (utils_finish True E fn st rp rk ep enc p key (logged s))"
proof -
  have run: "utils_finish dbg E fn st rp rk ep enc p key u =
      map_option (\<lambda>u. (API_LOADKEY_SUCCESS, key\<lparr>keyLength := of_nat (length enc), keyData := ep\<rparr>, u)) (free_key rp (if dbg then logged u else u))"
    if "EC_KEY_has_public_key E rk" "key_at (lib_of u) rp = Some rk" for dbg u
    using that print_logged [OF that(2), of E] by (simp add: utils_finish_def utils_print_def map_conv_bind_option comp_def)
  have undef: "utils_finish True E fn st rp rk ep enc p key u = None" if "\<not> EC_KEY_has_public_key E rk" "key_at (lib_of u) rp = Some rk" for u
    using that print_logged [OF that(2), of E] by (simp add: utils_finish_def utils_print_def)
  show "quieter (utils_finish False E fn st rp rk ep enc p key s) (utils_finish True E fn st rp rk ep enc p key s)"
    using run [of s] undef [of s] assms by (cases "EC_KEY_has_public_key E rk") (auto simp: quieter_def free_key_logged intro!: exI [of _ "1 :: nat"])
  show "quieter (utils_finish False E fn st rp rk ep enc p key s) (utils_finish True E fn st rp rk ep enc p key (logged s))"
    using run [of s] run [of "logged s"] undef [of "logged s"] assms
    by (cases "EC_KEY_has_public_key E rk") (auto simp: quieter_def free_key_logged numeral_2_eq_2 intro!: exI [of _ "2 :: nat"])
qed

lemma key_at_new_key: "key_at (lib_of (snd (new_key k s))) (fst (new_key k s)) = Some k"
  by (simp add: new_key_eq)

lemma quieter_public: "quieter (utils_public False E X fn st p key s) (utils_public True E X fn st p key s)"
  unfolding utils_public_def Let_def
  by (auto intro!: quieter_bind quieter_finish(1) simp: new_obj_def new_key_eq split: option.split)

lemma quieter_private: "quieter (utils_private False E X fn st p key s) (utils_private True E X fn st p key s)"
proof (cases "key_at (lib_of s) p")
  case None
  then show ?thesis by (auto simp: quieter_def utils_private_def utils_print_def PrintPrivPubKeyHex_def split: if_splits bind_splits)
next
  case (Some k)
  show ?thesis
  proof (cases "EC_KEY_has_public_key E k")
    case False
    then show ?thesis using print_logged [OF Some, of E] by (simp add: utils_private_def utils_print_def)
  next
    case True
    show ?thesis
      using Some True print_logged [OF Some, of E]
      by (auto simp: utils_private_def utils_print_def Let_def new_obj_def logged_lib logged_refs quieter_int_err free_key_logged new_key_eq
          intro!: quieter_finish(2) split: option.split bind_splits)
  qed
qed

lemma quieter_loadKey: "quieter (utils_loadKey False E X key fPrivate s) (utils_loadKey True E X key fPrivate s)"
  unfolding utils_loadKey_def Let_def stat_loop_eq prod.case
  by (auto intro!: quieter_bind simp: quieter_private quieter_public)

text \<open>The level of the log does not change what the loader does.  Whenever the loader of \<^verbatim>\<open>crypto_utils.c\<close> ends at the
  debug level, it also ends below it with the same result, the same key structure and the same heap, and the debug level only leaves the
  objects of at most two printed keys allocated.\<close>

lemma log_level_changes_nothing:
  assumes "utils_loadKey True E X key fPrivate s = Some (r, key', s')"
  shows "\<exists>t n. n \<le> 2 \<and> utils_loadKey False E X key fPrivate s = Some (r, key', t) \<and> s' = (logged ^^ n) t \<and> lib_of s' = lib_of t"
proof -
  have "lib_of ((logged ^^ n) t) = lib_of t" for n t by (induction n) simp_all
  then show ?thesis using quieter_loadKey [of E X key fPrivate s] assms by (auto simp: quieter_def)
qed

subsection \<open>A key without a certificate\<close>

lemma utils_dummy_spec:
  assumes "alloc_ok E X k0" and "heap_fresh (lib_of s)" and "EC_KEY_set_public_key E k0 (EC_POINT_mul X dummy_octets) = Some k"
  shows "\<exists>t. utils_dummy E X s = Some (True, Some (nxt (lib_of s)), t) \<and> key_loaded (lib_of s) (nxt (lib_of s)) k t"
proof -
  let ?s = "hold R_POINT s"
  have rel: "release R_BN (hold R_BN ?s) = Some ?s"
    "release R_CTX (hold R_BN (hold R_CTX (hold R_POINT (hold R_GROUP s)))) = Some (hold R_BN (hold R_POINT (hold R_GROUP s)))"
    "release R_GROUP (hold R_BN (hold R_POINT (hold R_GROUP s))) = Some (hold R_BN ?s)"
    by (auto simp: release_def hold_def fun_eq_iff)
  have pos: "0 < held (snd (new_key k0 ?s)) R_POINT" by (simp add: new_key_eq)
  show ?thesis using assms rel pos
    by (simp add: utils_dummy_def alloc_ok_def Let_def new_key_eq set_key_def key_at_def put_key_def release_pos key_loaded_def)
qed

lemma utils_dummy_fails:
  assumes "alloc_ok E X k0" and "heap_fresh (lib_of s)" and "EC_KEY_set_public_key E k0 (EC_POINT_mul X dummy_octets) = None"
  shows "\<exists>t. utils_dummy E X s = Some (False, Some (nxt (lib_of s)), t) \<and> key_loaded (lib_of s) (nxt (lib_of s)) k0 t"
proof -
  let ?s = "hold R_POINT s"
  have rel: "release R_BN (hold R_BN ?s) = Some ?s"
    "release R_CTX (hold R_BN (hold R_CTX (hold R_POINT (hold R_GROUP s)))) = Some (hold R_BN (hold R_POINT (hold R_GROUP s)))"
    "release R_GROUP (hold R_BN (hold R_POINT (hold R_GROUP s))) = Some (hold R_BN ?s)"
    by (auto simp: release_def hold_def fun_eq_iff)
  show ?thesis using assms rel
    by (simp add: utils_dummy_def alloc_ok_def Let_def new_key_eq set_key_def key_at_def key_loaded_def)
qed

subsection \<open>What the caller gets\<close>

text \<open>The key that is loaded: that of the certificate file, or without such a file the one that is computed from the constant.\<close>

definition utils_key :: "openssl \<Rightarrow> key_io \<Rightarrow> EC_KEY \<Rightarrow> string \<Rightarrow> pub_outcome" where
  "utils_key E X k0 fn =
     (if has_file X fn CERT_EXT then pub_of E k0 fn
      else (case EC_KEY_set_public_key E k0 (EC_POINT_mul X dummy_octets) of None \<Rightarrow> Unreadable | Some k \<Rightarrow> GoodKey k))"

definition utils_spec :: "openssl \<Rightarrow> key_io \<Rightarrow> EC_KEY \<Rightarrow> string \<Rightarrow> bool \<Rightarrow> load_result" where
  "utils_spec E X k0 fn fPrivate =
     (case utils_key E X k0 fn of
        Unreadable \<Rightarrow> Failed
      | BadKey \<Rightarrow> Undefined
      | GoodKey k \<Rightarrow>
          if fPrivate then with_private E X k fn
          else if EC_KEY_check_key E k then public_spec E X k
          else Failed)"

lemma utils_spec_certificate:
  assumes "has_file X fn CERT_EXT"
  shows "utils_spec E X k0 fn fPrivate = load_spec E X k0 fn fPrivate"
proof (cases "pub_of E k0 fn")
  case (GoodKey k)
  then have "EC_KEY_check_key E k" by (auto simp: pub_of_def Let_def split: if_splits option.splits bind_splits)
  then show ?thesis using GoodKey assms by (simp add: utils_spec_def utils_key_def load_spec_def with_private_def)
qed (use assms in \<open>simp_all add: utils_spec_def utils_key_def load_spec_def\<close>)

lemma utils_debug_visible:
  assumes "alloc_ok E X k0" and "heap_fresh (lib_of s)" and "sca_FindDirInSKI (keyPath (lib_of s)) MAXPATHLEN (key_ski key) = Some fn"
  shows "visible (utils_loadKey True E X key fPrivate s) = Some (utils_spec E X k0 fn fPrivate)"
proof (cases "has_file X fn CERT_EXT")
  case True
  then show ?thesis using utils_with_certificate [OF assms(3) True] load_visible [OF assms] by (simp add: utils_spec_certificate)
next
  case False
  let ?a = "nxt (lib_of s)"
  show ?thesis
  proof (cases "EC_KEY_set_public_key E k0 (EC_POINT_mul X dummy_octets)")
    case None
    obtain t where t: "utils_dummy E X s = Some (False, Some ?a, t)" "key_loaded (lib_of s) ?a k0 t"
      using utils_dummy_fails [OF assms(1,2) None] by blast
    then show ?thesis using visible_load_gives [OF int_err_loaded [OF t(2), of key]] utils_without_certificate [OF assms(3) False t(1)] None False
      by (simp add: utils_spec_def utils_key_def)
  next
    case (Some k)
    obtain t where t: "utils_dummy E X s = Some (True, Some ?a, t)" "key_loaded (lib_of s) ?a k t"
      using utils_dummy_spec [OF assms(1,2) Some] by blast
    have run: "utils_loadKey True E X key fPrivate s = load_rest E X fn False fPrivate (Some ?a) key t"
      using utils_without_certificate [OF assms(3) False t(1)] by simp
    have spec: "utils_spec E X k0 fn fPrivate =
        (if fPrivate then with_private E X k fn else if EC_KEY_check_key E k then public_spec E X k else Failed)"
      using False Some by (simp add: utils_spec_def utils_key_def)
    have "visible (load_rest E X fn False False (Some ?a) key t) = Some Failed" if "\<not> EC_KEY_check_key E k"
      using that key_loadedD(1) [OF t(2)] visible_load_gives [OF int_err_loaded [OF t(2), of key]] by (simp add: load_rest_def key_at_def)
    then show ?thesis
      using run spec visible_load_gives [OF load_rest_private [OF assms(1) t(2), of fn key False]] load_public_visible [OF assms(1) t(2)]
      by (cases fPrivate; cases "EC_KEY_check_key E k") simp_all
  qed
qed

lemma visible_quieter:
  assumes "quieter quiet loud" and "visible loud = Some res" and "res \<noteq> Undefined"
  shows "visible quiet = Some res"
proof -
  obtain v k s' where l: "loud = Some (v, k, s')" using assms(2,3) by (cases loud) (auto simp: visible_def)
  then obtain t n where t: "quiet = Some (v, k, t)" "s' = (logged ^^ n) t" using assms(1) by (auto simp: quieter_def)
  have "lib_of ((logged ^^ n) t) = lib_of t" by (induction n) simp_all
  then have "visible (Some (v, k, t)) = visible (Some (v, k, s'))" by (simp add: visible_def t(2))
  then show ?thesis using l t(1) assms(2) by simp
qed

text \<open>Property C11: the loader of \<^verbatim>\<open>crypto_utils.c\<close> does what \<open>utils_spec\<close> says, when the allocations inside OpenSSL succeed.  With a certificate
  file the call gives the encoding of its key, with the private key added for a private load.  Without one it does not fail: it gives the encoding of the
  public key that it computes from a constant in the source, whatever the identifier.  The result is 1 with a buffer and its length, or 0 with a null
  pointer.  This holds at the debug level of the log for every file, and below it unless the outcome at the debug level is undefined.\<close>

theorem utils_loadKey_refines:
  assumes "alloc_ok E X k0" and "heap_fresh (lib_of s)" and "sca_FindDirInSKI (keyPath (lib_of s)) MAXPATHLEN (key_ski key) = Some fn"
    and "dbg \<or> utils_spec E X k0 fn fPrivate \<noteq> Undefined"
  shows "visible (utils_loadKey dbg E X key fPrivate s) = Some (utils_spec E X k0 fn fPrivate)"
proof (cases dbg)
  case True
  then show ?thesis using utils_debug_visible [OF assms(1-3)] by simp
next
  case False
  then show ?thesis using visible_quieter [OF quieter_loadKey utils_debug_visible [OF assms(1-3)]] assms(4) by simp
qed

definition empty_io :: key_io where
  "empty_io = sample_io\<lparr>stat_mode := (\<lambda>_. None)\<rparr>"

theorem utils_loadKey_refines_witness:
  "visible (utils_loadKey False sample_ssl empty_io sample_ski_key False sample_loader) = Some (Loaded ([0x30, 2] @ dummy_octets))"
proof -
  have spec: "utils_spec sample_ssl empty_io [] sample_file False = Loaded ([0x30, 2] @ dummy_octets)"
    by (simp add: utils_spec_def utils_key_def has_file_def file_is_key_def public_spec_def encode_spec_def empty_io_def sample_io_def sample_ssl_def dummy_octets_def)
  have "alloc_ok sample_ssl empty_io []" using sample_load(1) by (simp add: alloc_ok_def empty_io_def)
  from utils_loadKey_refines [OF this sample_load(2,3), of False False] show ?thesis using spec by simp
qed

end
