(* ===== verification/KeyParts.thy ===== *)
theory KeyParts
  imports BgpsecVerify
begin

text \<open>
  The functions on key containers of \<^verbatim>\<open>bgpsec_openssl-VariousKeyManipulation.c\<close>, \<^verbatim>\<open>EVP_PKEY_set_keys\<close> and
  \<^verbatim>\<open>dupEVP_PKEY\<close>, and the conversion of curve parameters of \<^verbatim>\<open>srxcryptoapi-VariousKeyManipulation.c\<close>,
  \<^verbatim>\<open>eckey_param2type\<close> and \<^verbatim>\<open>eckey_type2param\<close>.

  Here the sharing of key objects matters: an \<^verbatim>\<open>EVP_PKEY\<close> points to an \<^verbatim>\<open>EC_KEY\<close>, and both it and the
  callers hold counted references.  The heap has the containers and the key objects with their counts;
  a key object is freed with its last reference, and a use after that has the outcome \<open>None\<close>.  The
  properties: a duplicate is independent of its original, setting keys is balanced in references but
  not all-or-nothing, and parameters survive the two conversions.
\<close>

subsection \<open>Containers and key objects\<close>

record key_obj =
  eck :: EC_KEY
  cnt :: nat

record pkey_obj =
  ptype :: int
  pec :: ptr

record pk_heap =
  ekeys :: "key_obj store"
  pkeys :: "pkey_obj store"
  brk :: nat

text \<open>What the functions use of OpenSSL beyond the record \<open>openssl\<close>.  \<open>pt_decode\<close> is
  \<^verbatim>\<open>EC_POINT_oct2point\<close> on the group of a key.\<close>

record pk_env =
  EVP_PKEY_type :: "int \<Rightarrow> int"
  pt_decode :: "EC_KEY \<Rightarrow> bytes \<Rightarrow> EC_POINT option"
  BN_bin2bn :: "bytes \<Rightarrow> BIGNUM option"
  set_type_ok :: bool
  pkey_new_ok :: bool
  EC_KEY_dup :: "EC_KEY \<Rightarrow> EC_KEY option"

definition EVP_PKEY_NONE :: int where "EVP_PKEY_NONE = 0"
definition EVP_PKEY_EC :: int where "EVP_PKEY_EC = 408"

definition put_ec :: "nat \<Rightarrow> key_obj \<Rightarrow> pk_heap \<Rightarrow> pk_heap" where
  "put_ec a o' h = h\<lparr>ekeys := (ekeys h)(a \<mapsto> o')\<rparr>"

definition ec_up_ref :: "ptr \<Rightarrow> pk_heap \<Rightarrow> pk_heap option" where
  "ec_up_ref p h = do {
     a \<leftarrow> p;
     ko \<leftarrow> ekeys h a;
     Some (put_ec a (ko\<lparr>cnt := cnt ko + 1\<rparr>) h)
   }"

definition ec_free :: "ptr \<Rightarrow> pk_heap \<Rightarrow> pk_heap option" where
  "ec_free p h =
     (case p of
        None \<Rightarrow> Some h
      | Some a \<Rightarrow> do {
          ko \<leftarrow> ekeys h a;
          Some (if cnt ko \<le> 1 then h\<lparr>ekeys := (ekeys h)(a := None)\<rparr> else put_ec a (ko\<lparr>cnt := cnt ko - 1\<rparr>) h)
        })"

text \<open>\<^verbatim>\<open>EVP_PKEY_get1_EC_KEY\<close>: the pointer to the shared key object, with one more reference.\<close>

definition get1_EC_KEY :: "nat \<Rightarrow> pk_heap \<Rightarrow> (ptr \<times> pk_heap) option" where
  "get1_EC_KEY q h = do {
     po \<leftarrow> pkeys h q;
     if ptype po \<noteq> EVP_PKEY_EC then Some (NULL, h)
     else do { h \<leftarrow> ec_up_ref (pec po) h; Some (pec po, h) }
   }"

text \<open>\<^verbatim>\<open>EVP_PKEY_set1_EC_KEY\<close> first releases the key that the container has.\<close>

definition set1_EC_KEY :: "pk_env \<Rightarrow> nat \<Rightarrow> ptr \<Rightarrow> pk_heap \<Rightarrow> (bool \<times> pk_heap) option" where
  "set1_EC_KEY X q p h = do {
     po \<leftarrow> pkeys h q;
     h \<leftarrow> ec_free (pec po) h;
     if \<not> set_type_ok X then Some (False, h\<lparr>pkeys := (pkeys h)(q \<mapsto> po\<lparr>pec := NULL\<rparr>)\<rparr>)
     else do {
       h \<leftarrow> ec_up_ref p (h\<lparr>pkeys := (pkeys h)(q \<mapsto> po\<lparr>ptype := EVP_PKEY_EC, pec := p\<rparr>)\<rparr>);
       Some (True, h)
     }
   }"

text \<open>A setter on a key object; \<open>False\<close> is its failure.\<close>

definition upd_ec :: "(EC_KEY \<Rightarrow> EC_KEY option) \<Rightarrow> ptr \<Rightarrow> pk_heap \<Rightarrow> (bool \<times> pk_heap) option" where
  "upd_ec f p h = do {
     a \<leftarrow> p;
     ko \<leftarrow> ekeys h a;
     Some (case f (eck ko) of None \<Rightarrow> (False, h) | Some k \<Rightarrow> (True, put_ec a (ko\<lparr>eck := k\<rparr>) h))
   }"

subsection \<open>The code\<close>

definition EVP_PKEY_set_keys :: "openssl \<Rightarrow> pk_env \<Rightarrow> nat \<Rightarrow> bytes option \<Rightarrow> bytes option \<Rightarrow> pk_heap \<Rightarrow> (int \<times> pk_heap) option" where
  "EVP_PKEY_set_keys E X evp_pkey privkey pubkey h = do {
     po \<leftarrow> pkeys h evp_pkey;
     if EVP_PKEY_type X (ptype po) \<noteq> EVP_PKEY_EC then Some (0, h)
     else do {
       (p, h) \<leftarrow> get1_EC_KEY evp_pkey h;
       if p = NULL then Some (0, h)
       else do {
         (ok, h) \<leftarrow> (case pubkey of
             None \<Rightarrow> Some (True, h)
           | Some pub \<Rightarrow>
               if \<not> EC_POINT_new_ok E then Some (False, h)
               else upd_ec (\<lambda>k. Option.bind (pt_decode X k pub) (EC_KEY_set_public_key E k)) p h);
         (ok, h) \<leftarrow> (if \<not> ok then Some (False, h)
           else (case privkey of
               None \<Rightarrow> Some (True, h)
             | Some priv \<Rightarrow> upd_ec (\<lambda>k. Option.bind (BN_bin2bn X priv) (EC_KEY_set_private_key E k)) p h));
         (ok, h) \<leftarrow> (if \<not> ok then Some (False, h) else set1_EC_KEY X evp_pkey p h);
         h \<leftarrow> ec_free p h;
         Some (if ok then 1 else 0, h)
       }
     }
   }"

text \<open>The new container stays allocated on the error exit.\<close>

definition dupEVP_PKEY :: "pk_env \<Rightarrow> nat \<Rightarrow> pk_heap \<Rightarrow> (ptr \<times> pk_heap) option" where
  "dupEVP_PKEY X key h =
     (if \<not> pkey_new_ok X then Some (NULL, h)
      else do {
        let out = brk h;
        let h = h\<lparr>pkeys := (pkeys h)(out \<mapsto> \<lparr>ptype = EVP_PKEY_NONE, pec = NULL\<rparr>), brk := brk h + 1\<rparr>;
        po \<leftarrow> pkeys h key;
        if EVP_PKEY_type X (ptype po) \<noteq> EVP_PKEY_EC then Some (NULL, h)
        else do {
          (ec_in, h) \<leftarrow> get1_EC_KEY key h;
          if ec_in = NULL then Some (NULL, h)
          else do {
            a \<leftarrow> ec_in;
            ko \<leftarrow> ekeys h a;
            (case EC_KEY_dup X (eck ko) of
               None \<Rightarrow> do { h \<leftarrow> ec_free ec_in h; Some (NULL, h) }
             | Some k \<Rightarrow> do {
                 let ec_out = Some (brk h);
                 let h = (put_ec (brk h) \<lparr>eck = k, cnt = 1\<rparr> h)\<lparr>brk := brk h + 1\<rparr>;
                 (r, h) \<leftarrow> set1_EC_KEY X out ec_out h;
                 h \<leftarrow> ec_free ec_out h;
                 h \<leftarrow> ec_free ec_in h;
                 Some (Some out, h)
               })
          }
        }
      })"

text \<open>The parameters of a key as an ASN.1 type and value: the object identifier of a named curve, or the encoded
  explicit parameters.\<close>

type_synonym EC_GROUP = bytes
type_synonym ASN1_OBJECT = bytes

datatype pval = V_ASN1_OBJECT ASN1_OBJECT | V_ASN1_SEQUENCE bytes | V_ASN1_OTHER int

record param_env =
  EC_KEY_get0_group :: "EC_KEY \<Rightarrow> EC_GROUP option"
  EC_GROUP_get_asn1_flag :: "EC_GROUP \<Rightarrow> bool"
  EC_GROUP_get_curve_name :: "EC_GROUP \<Rightarrow> int"
  EC_GROUP_new_by_curve_name :: "int \<Rightarrow> EC_GROUP option"
  EC_GROUP_set_asn1_flag :: "EC_GROUP \<Rightarrow> EC_GROUP"
  EC_KEY_set_group :: "EC_KEY \<Rightarrow> EC_GROUP \<Rightarrow> EC_KEY option"
  EC_KEY_new :: "EC_KEY option"
  OBJ_nid2obj :: "int \<Rightarrow> ASN1_OBJECT"
  OBJ_obj2nid :: "ASN1_OBJECT \<Rightarrow> int"
  ASN1_STRING_new_ok :: bool
  i2d_ECParameters :: "EC_KEY \<Rightarrow> bytes option"
  d2i_ECParameters :: "bytes \<Rightarrow> EC_KEY option"

definition eckey_param2type :: "param_env \<Rightarrow> EC_KEY option \<Rightarrow> pval option" where
  "eckey_param2type P eckey =
     (case eckey of
        None \<Rightarrow> None
      | Some k \<Rightarrow>
          (case EC_KEY_get0_group P k of
             None \<Rightarrow> None
           | Some grp \<Rightarrow>
               if EC_GROUP_get_asn1_flag P grp \<and> EC_GROUP_get_curve_name P grp \<noteq> 0
               then Some (V_ASN1_OBJECT (OBJ_nid2obj P (EC_GROUP_get_curve_name P grp)))
               else if \<not> ASN1_STRING_new_ok P then None
               else (case i2d_ECParameters P k of None \<Rightarrow> None | Some pstr \<Rightarrow> Some (V_ASN1_SEQUENCE pstr))))"

definition eckey_type2param :: "param_env \<Rightarrow> pval \<Rightarrow> EC_KEY option" where
  "eckey_type2param P v =
     (case v of
        V_ASN1_SEQUENCE pstr \<Rightarrow> d2i_ECParameters P pstr
      | V_ASN1_OBJECT poid \<Rightarrow>
          (case EC_KEY_new P of
             None \<Rightarrow> None
           | Some eckey \<Rightarrow>
               (case EC_GROUP_new_by_curve_name P (OBJ_obj2nid P poid) of
                  None \<Rightarrow> None
                | Some grp \<Rightarrow> EC_KEY_set_group P eckey (EC_GROUP_set_asn1_flag P grp)))
      | V_ASN1_OTHER _ \<Rightarrow> None)"

subsection \<open>Setting keys\<close>

text \<open>A container with a key object that has \<open>n\<close> references, among them that of the container.\<close>

definition has_ec :: "pk_heap \<Rightarrow> nat \<Rightarrow> nat \<Rightarrow> EC_KEY \<Rightarrow> nat \<Rightarrow> bool" where
  "has_ec h q a k n \<longleftrightarrow> pkeys h q = Some \<lparr>ptype = EVP_PKEY_EC, pec = Some a\<rparr> \<and> ekeys h a = Some \<lparr>eck = k, cnt = n\<rparr> \<and> 0 < n"

text \<open>What setting the keys makes of a key, and whether it succeeds.\<close>

definition keys_set :: "openssl \<Rightarrow> pk_env \<Rightarrow> bytes option \<Rightarrow> bytes option \<Rightarrow> EC_KEY \<Rightarrow> bool \<times> EC_KEY" where
  "keys_set E X privkey pubkey k =
     (case (case pubkey of
              None \<Rightarrow> Some k
            | Some pub \<Rightarrow> if EC_POINT_new_ok E then Option.bind (pt_decode X k pub) (EC_KEY_set_public_key E k) else None) of
        None \<Rightarrow> (False, k)
      | Some k1 \<Rightarrow>
          (case (case privkey of None \<Rightarrow> Some k1 | Some priv \<Rightarrow> Option.bind (BN_bin2bn X priv) (EC_KEY_set_private_key E k1)) of
             None \<Rightarrow> (False, k1)
           | Some k2 \<Rightarrow> (True, k2)))"

lemma put_ec_simps [simp]:
  "pkeys (put_ec a ko h) = pkeys h" "ekeys (put_ec a ko h) = (ekeys h)(a \<mapsto> ko)" "brk (put_ec a ko h) = brk h"
  "put_ec a ko' (put_ec a ko h) = put_ec a ko' h"
  by (simp_all add: put_ec_def)

lemma get1_has_ec: "has_ec h q a k n \<Longrightarrow> get1_EC_KEY q h = Some (Some a, put_ec a \<lparr>eck = k, cnt = n + 1\<rparr> h)"
  by (simp add: get1_EC_KEY_def has_ec_def ec_up_ref_def)

lemma upd_ec_Some:
  "ekeys h a = Some \<lparr>eck = k, cnt = n\<rparr> \<Longrightarrow>
     upd_ec f (Some a) h = Some (case f k of None \<Rightarrow> (False, h) | Some k' \<Rightarrow> (True, put_ec a \<lparr>eck = k', cnt = n\<rparr> h))"
  by (simp add: upd_ec_def split: option.splits)

lemma free_put_ec:
  "0 < n \<Longrightarrow> ec_free (Some a) (put_ec a \<lparr>eck = k, cnt = n + 1\<rparr> h) = Some (put_ec a \<lparr>eck = k, cnt = n\<rparr> h)"
  by (simp add: ec_free_def)

text \<open>The container takes back its own key object; the reference taken before keeps it alive.\<close>

lemma set1_same:
  assumes "has_ec h q a k0 n" and "set_type_ok X"
  shows "set1_EC_KEY X q (Some a) (put_ec a \<lparr>eck = k, cnt = n + 1\<rparr> h) = Some (True, put_ec a \<lparr>eck = k, cnt = n + 1\<rparr> h)"
proof -
  have "(pkeys h)(q \<mapsto> \<lparr>ptype = EVP_PKEY_EC, pec = Some a\<rparr>) = pkeys h" using assms(1) by (auto simp: has_ec_def)
  then show ?thesis
    using assms by (cases h) (simp add: set1_EC_KEY_def has_ec_def ec_free_def ec_up_ref_def put_ec_def)
qed

lemma set_keys_effect:
  assumes "has_ec h q a k n" and "set_type_ok X" and "EVP_PKEY_type X EVP_PKEY_EC = EVP_PKEY_EC"
  shows "EVP_PKEY_set_keys E X q privkey pubkey h =
    Some (if fst (keys_set E X privkey pubkey k) then 1 else 0, put_ec a \<lparr>eck = snd (keys_set E X privkey pubkey k), cnt = n\<rparr> h)"
proof -
  define hk where "hk x = put_ec a \<lparr>eck = x, cnt = n + 1\<rparr> h" for x
  have free: "ec_free (Some a) (hk x) = Some (put_ec a \<lparr>eck = x, cnt = n\<rparr> h)" for x
    using free_put_ec [of n a x h] assms(1) by (simp add: hk_def has_ec_def)
  have get: "get1_EC_KEY q h = Some (Some a, hk k)" using get1_has_ec [OF assms(1)] by (simp add: hk_def)
  have upd: "upd_ec f (Some a) (hk x) = Some (case f x of None \<Rightarrow> (False, hk x) | Some x' \<Rightarrow> (True, hk x'))" for f x
    using upd_ec_Some [of "hk x" a x "n + 1"] by (simp add: hk_def split: option.splits)
  have set1: "set1_EC_KEY X q (Some a) (hk x) = Some (True, hk x)" for x
    using set1_same [OF assms(1,2)] by (simp add: hk_def)
  have po: "pkeys h q = Some \<lparr>ptype = EVP_PKEY_EC, pec = Some a\<rparr>" using assms(1) by (simp add: has_ec_def)
  show ?thesis
    using assms(3) po free get upd set1
    by (auto simp: EVP_PKEY_set_keys_def keys_set_def split: option.splits)
qed

lemma dup_has_ec:
  assumes "has_ec h q a k n" and "\<forall>x\<ge>brk h. ekeys h x = None \<and> pkeys h x = None" and "EC_KEY_dup X k = Some k'"
    and "pkey_new_ok X" and "set_type_ok X" and "EVP_PKEY_type X EVP_PKEY_EC = EVP_PKEY_EC"
  defines "out \<equiv> brk h" and "b \<equiv> brk h + 1"
  shows "dupEVP_PKEY X q h = Some (Some out, h\<lparr>pkeys := (pkeys h)(out \<mapsto> \<lparr>ptype = EVP_PKEY_EC, pec = Some b\<rparr>),
    ekeys := (ekeys h)(b \<mapsto> \<lparr>eck = k', cnt = 1\<rparr>), brk := brk h + 2\<rparr>)"
proof -
  have lt: "q < brk h" "a < brk h" using assms(1,2) unfolding has_ec_def by (metis not_le option.distinct(1))+
  define h1 where "h1 = h\<lparr>pkeys := (pkeys h)(out \<mapsto> \<lparr>ptype = EVP_PKEY_NONE, pec = NULL\<rparr>), brk := out + 1\<rparr>"
  have e1: "has_ec h1 q a k n" using assms(1) lt by (simp add: has_ec_def h1_def out_def)
  define h2 where "h2 = (put_ec b \<lparr>eck = k', cnt = 1\<rparr> (put_ec a \<lparr>eck = k, cnt = n + 1\<rparr> h1))\<lparr>brk := brk h + 2\<rparr>"
  define h3 where "h3 = h2\<lparr>pkeys := (pkeys h2)(out \<mapsto> \<lparr>ptype = EVP_PKEY_EC, pec = Some b\<rparr>)\<rparr>"
  have set1: "set1_EC_KEY X out (Some b) h2 = Some (True, put_ec b \<lparr>eck = k', cnt = 2\<rparr> h3)"
    using assms(5) by (simp add: set1_EC_KEY_def h2_def h1_def h3_def out_def ec_free_def ec_up_ref_def put_ec_def numeral_2_eq_2)
  have f1: "ec_free (Some b) (put_ec b \<lparr>eck = k', cnt = 2\<rparr> h3) = Some h3"
    by (simp add: ec_free_def h3_def h2_def put_ec_def)
  have f2: "ec_free (Some a) h3 = Some (put_ec a \<lparr>eck = k, cnt = n\<rparr> h3)"
    using assms(1) lt by (simp add: ec_free_def h3_def h2_def b_def has_ec_def)
  have "put_ec a \<lparr>eck = k, cnt = n\<rparr> h3 = h\<lparr>pkeys := (pkeys h)(out \<mapsto> \<lparr>ptype = EVP_PKEY_EC, pec = Some b\<rparr>),
    ekeys := (ekeys h)(b \<mapsto> \<lparr>eck = k', cnt = 1\<rparr>), brk := brk h + 2\<rparr>"
  proof -
    have "(ekeys h)(a \<mapsto> \<lparr>eck = k, cnt = n + 1\<rparr>, b \<mapsto> \<lparr>eck = k', cnt = 1\<rparr>, a \<mapsto> \<lparr>eck = k, cnt = n\<rparr>) =
        (ekeys h)(b \<mapsto> \<lparr>eck = k', cnt = 1\<rparr>)"
      using assms(1) lt by (auto simp: has_ec_def b_def fun_eq_iff)
    then show ?thesis by (simp add: h3_def h2_def h1_def put_ec_def)
  qed
  moreover have "(put_ec (brk h1) \<lparr>eck = k', cnt = 1\<rparr> (put_ec a \<lparr>eck = k, cnt = Suc n\<rparr> h1))\<lparr>brk := Suc (brk h1)\<rparr> = h2"
    by (simp add: h2_def h1_def b_def out_def)
  moreover have "pkeys h1 q = Some \<lparr>ptype = EVP_PKEY_EC, pec = Some a\<rparr>" using e1 by (simp add: has_ec_def)
  moreover have "brk h1 = b" by (simp add: h1_def b_def out_def)
  ultimately show ?thesis
    using assms(3,4,6) get1_has_ec [OF e1] set1 f1 f2
    unfolding dupEVP_PKEY_def Let_def out_def [symmetric] h1_def [symmetric] by simp
qed

subsection \<open>Properties\<close>

definition sample_pk :: pk_env where
  "sample_pk = \<lparr>EVP_PKEY_type = id, pt_decode = (\<lambda>_ b. if length b = 65 then Some b else None), BN_bin2bn = (\<lambda>b. if b = [] then None else Some b),
     set_type_ok = True, pkey_new_ok = True, EC_KEY_dup = Some\<rparr>"

definition sample_heap :: pk_heap where
  "sample_heap = \<lparr>ekeys = [1 \<mapsto> \<lparr>eck = [5], cnt = 2\<rparr>], pkeys = [0 \<mapsto> \<lparr>ptype = EVP_PKEY_EC, pec = Some 1\<rparr>], brk = 2\<rparr>"

lemma sample_has_ec: "has_ec sample_heap 0 1 [5] 2"
  by (simp add: has_ec_def sample_heap_def)

text \<open>A duplicate does not share its key with the original.  \<^verbatim>\<open>dupEVP_PKEY\<close> of a container gives a new
  container with a copy of the key that has one reference; setting keys in the duplicate changes that copy
  only: all containers, key objects and reference counts that were there before stay as they were.\<close>

theorem duplicate_is_independent:
  assumes "has_ec h q a k n" and "\<forall>x\<ge>brk h. ekeys h x = None \<and> pkeys h x = None" and "EC_KEY_dup X k = Some k'"
    and "pkey_new_ok X" and "set_type_ok X" and "EVP_PKEY_type X EVP_PKEY_EC = EVP_PKEY_EC"
  shows "\<exists>out b h' r h''. dupEVP_PKEY X q h = Some (Some out, h') \<and> EVP_PKEY_set_keys E X out privkey pubkey h' = Some (r, h'') \<and>
    has_ec h' out b k' 1 \<and> has_ec h'' out b (snd (keys_set E X privkey pubkey k')) 1 \<and>
    (\<forall>x. x \<notin> {out, b} \<longrightarrow> ekeys h'' x = ekeys h x \<and> pkeys h'' x = pkeys h x) \<and> pkeys h out = None \<and> ekeys h b = None"
proof -
  let ?out = "brk h" and ?b = "brk h + 1"
  define h' where "h' = h\<lparr>pkeys := (pkeys h)(?out \<mapsto> \<lparr>ptype = EVP_PKEY_EC, pec = Some ?b\<rparr>),
    ekeys := (ekeys h)(?b \<mapsto> \<lparr>eck = k', cnt = 1\<rparr>), brk := brk h + 2\<rparr>"
  have dup: "dupEVP_PKEY X q h = Some (Some ?out, h')" using dup_has_ec [OF assms] by (simp add: h'_def)
  have ec: "has_ec h' ?out ?b k' 1" by (simp add: has_ec_def h'_def)
  note set = set_keys_effect [OF ec assms(5,6), of E privkey pubkey]
  have "has_ec (put_ec ?b \<lparr>eck = snd (keys_set E X privkey pubkey k'), cnt = 1\<rparr> h') ?out ?b (snd (keys_set E X privkey pubkey k')) 1"
    by (simp add: has_ec_def h'_def)
  moreover have "\<forall>x. x \<notin> {?out, ?b} \<longrightarrow>
      ekeys (put_ec ?b \<lparr>eck = snd (keys_set E X privkey pubkey k'), cnt = 1\<rparr> h') x = ekeys h x \<and>
      pkeys (put_ec ?b \<lparr>eck = snd (keys_set E X privkey pubkey k'), cnt = 1\<rparr> h') x = pkeys h x"
    by (simp add: h'_def)
  moreover have "pkeys h ?out = None" "ekeys h ?b = None" using assms(2) by simp_all
  ultimately show ?thesis using dup set ec by blast
qed

theorem duplicate_is_independent_witness:
  "\<exists>out h' r h''. dupEVP_PKEY sample_pk 0 sample_heap = Some (Some out, h') \<and>
     EVP_PKEY_set_keys sample_ssl sample_pk out (Some [7]) None h' = Some (r, h'')"
proof -
  have "\<forall>x\<ge>brk sample_heap. ekeys sample_heap x = None \<and> pkeys sample_heap x = None" by (simp add: sample_heap_def)
  then show ?thesis
    using duplicate_is_independent [OF sample_has_ec, of sample_pk "[5]" sample_ssl "Some [7]" None] by (auto simp: sample_pk_def)
qed

text \<open>\<^verbatim>\<open>EVP_PKEY_set_keys\<close> is balanced but not all-or-nothing.  It never uses a freed key and keeps
  every reference count; it returns 1 exactly when both keys could be set.  When the private key
  cannot be set, it returns 0 although the public key of the container has been replaced.\<close>

theorem set_keys_not_atomic:
  assumes "has_ec h q a k n" and "set_type_ok X" and "EVP_PKEY_type X EVP_PKEY_EC = EVP_PKEY_EC"
    and "EC_POINT_new_ok E" and "pt_decode X k pub = Some pt" and "EC_KEY_set_public_key E k pt = Some k1"
  shows "EVP_PKEY_set_keys E X q (Some priv) (Some pub) h =
    (case Option.bind (BN_bin2bn X priv) (EC_KEY_set_private_key E k1) of
       None \<Rightarrow> Some (0, put_ec a \<lparr>eck = k1, cnt = n\<rparr> h)
     | Some k2 \<Rightarrow> Some (1, put_ec a \<lparr>eck = k2, cnt = n\<rparr> h))"
  using set_keys_effect [OF assms(1-3), of E "Some priv" "Some pub"] assms(4-6) by (simp add: keys_set_def split: option.splits)

theorem set_keys_not_atomic_witness:
  "EVP_PKEY_set_keys sample_ssl sample_pk 0 (Some []) (Some (replicate 65 4)) sample_heap =
     Some (0, put_ec 1 \<lparr>eck = replicate 65 4, cnt = 2\<rparr> sample_heap)"
  using set_keys_not_atomic [OF sample_has_ec, of sample_pk sample_ssl "replicate 65 4" "replicate 65 4" "replicate 65 4" "[]"]
  by (simp add: sample_pk_def sample_ssl_def)

text \<open>What the conversion of parameters relies on: object identifiers and curve names determine each other, a group
  made by name has that name, a key takes the group it is given, and encoded parameters decode to a
  key with the same group.\<close>

definition param_laws :: "param_env \<Rightarrow> bool" where
  "param_laws P \<longleftrightarrow> (\<forall>n. OBJ_obj2nid P (OBJ_nid2obj P n) = n) \<and>
     (\<forall>n g. EC_GROUP_new_by_curve_name P n = Some g \<longrightarrow> EC_GROUP_get_curve_name P (EC_GROUP_set_asn1_flag P g) = n) \<and>
     (\<forall>k g k'. EC_KEY_set_group P k g = Some k' \<longrightarrow> EC_KEY_get0_group P k' = Some g) \<and>
     (\<forall>k b k'. i2d_ECParameters P k = Some b \<longrightarrow> d2i_ECParameters P b = Some k' \<longrightarrow> EC_KEY_get0_group P k' = EC_KEY_get0_group P k)"

text \<open>The parameters of a key survive the conversion to a type and value and back: the new key has a group of
  the same curve name when the group is a named one, and the same group otherwise.\<close>

theorem params_roundtrip:
  assumes "param_laws P" and "eckey_param2type P (Some k) = Some v" and "eckey_type2param P v = Some k'"
  shows "\<exists>g g'. EC_KEY_get0_group P k = Some g \<and> EC_KEY_get0_group P k' = Some g' \<and>
    (if EC_GROUP_get_asn1_flag P g \<and> EC_GROUP_get_curve_name P g \<noteq> 0
     then EC_GROUP_get_curve_name P g' = EC_GROUP_get_curve_name P g else g' = g)"
proof -
  obtain g where g: "EC_KEY_get0_group P k = Some g" using assms(2) by (auto simp: eckey_param2type_def split: option.splits)
  note laws = assms(1) [unfolded param_laws_def]
  show ?thesis
  proof (cases "EC_GROUP_get_asn1_flag P g \<and> EC_GROUP_get_curve_name P g \<noteq> 0")
    case True
    then have "v = V_ASN1_OBJECT (OBJ_nid2obj P (EC_GROUP_get_curve_name P g))" using assms(2) g by (simp add: eckey_param2type_def)
    then show ?thesis using assms(3) laws g True by (auto simp: eckey_type2param_def split: option.splits)
  next
    case False
    then obtain b where "i2d_ECParameters P k = Some b" "v = V_ASN1_SEQUENCE b"
      using assms(2) g by (auto simp: eckey_param2type_def split: if_splits option.splits)
    then show ?thesis using assms(3) laws g False by (auto simp: eckey_type2param_def)
  qed
qed

text \<open>A key is its group here, and a group its flag and its name.\<close>

definition sample_params :: param_env where
  "sample_params = \<lparr>EC_KEY_get0_group = Some, EC_GROUP_get_asn1_flag = (\<lambda>g. g \<noteq> [] \<and> hd g = 1),
     EC_GROUP_get_curve_name = (\<lambda>g. if g = [] then 0 else foldr (\<lambda>b n. int (unat b) + 256 * n) (tl g) 0),
     EC_GROUP_new_by_curve_name = (\<lambda>n. if n = 159 then Some [0, 159] else None),
     EC_GROUP_set_asn1_flag = (\<lambda>g. 1 # tl g), EC_KEY_set_group = (\<lambda>_ g. Some g), EC_KEY_new = Some [],
     OBJ_nid2obj = (\<lambda>n. [of_bool (n < 0)] @ replicate (nat (abs n)) 1), OBJ_obj2nid = (\<lambda>b. (if hd b = 1 then -1 else 1) * int (length (tl b))),
     ASN1_STRING_new_ok = True, i2d_ECParameters = Some, d2i_ECParameters = Some\<rparr>"

theorem params_roundtrip_witness:
  "\<exists>k'. eckey_type2param sample_params (V_ASN1_OBJECT (OBJ_nid2obj sample_params 159)) = Some k' \<and>
     eckey_param2type sample_params (Some [1, 159]) = Some (V_ASN1_OBJECT (OBJ_nid2obj sample_params 159)) \<and>
     EC_KEY_get0_group sample_params k' \<noteq> None"
proof -
  have "param_laws sample_params" by (auto simp: param_laws_def sample_params_def)
  moreover have 1: "eckey_param2type sample_params (Some [1, 159]) = Some (V_ASN1_OBJECT (OBJ_nid2obj sample_params 159))"
    by (simp add: eckey_param2type_def sample_params_def)
  moreover have 2: "eckey_type2param sample_params (V_ASN1_OBJECT (OBJ_nid2obj sample_params 159)) = Some [1, 159]"
    by (simp add: eckey_type2param_def sample_params_def)
  ultimately show ?thesis using params_roundtrip [of sample_params "[1, 159]" _ "[1, 159]"] by fastforce
qed

end
