(* ===== verification/CryptoApi.thy ===== *)
theory CryptoApi
  imports SkiPath
begin

text \<open>
  The loader of \<^verbatim>\<open>srxcryptoapi-VariousKeyManipulation.c\<close>: \<^verbatim>\<open>srxCryptoInit\<close> reads a configuration,
  opens the library it names and binds ten methods of the API object to symbols of the library;
  \<^verbatim>\<open>srxCryptoUnbind\<close> closes the library.  The build without libltdl is modelled.

  The file system, libconfig and the dynamic linker are the record \<open>linker\<close>, an argument of every
  definition that uses them.  \<^verbatim>\<open>dlsym\<close> either finds a symbol, whose address may be \<^verbatim>\<open>NULL\<close>, or
  sets the error that the next \<^verbatim>\<open>dlerror\<close> reads and clears.  The ten method pointers of the C
  structure are a function from the names of the methods; a pointer is \<^verbatim>\<open>NULL\<close>, an internal wrapper or
  the address of a symbol.  The state keeps the list of libraries that are open, so that closing a
  library that is not open has the outcome \<open>None\<close>.

  The properties: every method is bound to the symbol configured, else to the default one, else to the
  wrapper; over any sequence of calls the library of the API object is open exactly while its handle is
  set; and the cases in which the function does not do what its messages say.
\<close>

subsection \<open>Constants\<close>

definition CRYPTO_CFG_FILE :: string where "CRYPTO_CFG_FILE = ''srxcryptoapi.conf''"
definition SYS_CFG_FILE :: string where "SYS_CFG_FILE = ''/etc/'' @ CRYPTO_CFG_FILE"
definition LOC_CFG_FILE :: string where "LOC_CFG_FILE = ''./'' @ CRYPTO_CFG_FILE"
definition SCA_KEY_VOLT :: string where "SCA_KEY_VOLT = ''key_volt''"
definition SCA_LIBRARY_NAME :: string where "SCA_LIBRARY_NAME = ''library_name''"
definition SCA_LIBRARY_CONF :: string where "SCA_LIBRARY_CONF = ''library_conf''"

datatype api_method = M_validate | M_extValidate | M_sign_with_key | M_sign_with_id | M_registerPrivateKey
  | M_unregisterPrivateKey | M_registerPublicKey | M_unregisterPublicKey | M_isExtended | M_isPrivateKeyStorage

text \<open>The configuration keys and the default symbols.\<close>

fun config_key :: "api_method \<Rightarrow> string" where
  "config_key M_validate = ''method_validate''"
| "config_key M_extValidate = ''method_exitValidate''"
| "config_key M_sign_with_key = ''method_sign_with_key''"
| "config_key M_sign_with_id = ''method_sign_with_id''"
| "config_key M_registerPrivateKey = ''method_registerPrivateKey''"
| "config_key M_unregisterPrivateKey = ''method_unregisterPrivateKey''"
| "config_key M_registerPublicKey = ''method_registerPublicKey''"
| "config_key M_unregisterPublicKey = ''method_unregisterPublicKey''"
| "config_key M_isExtended = ''method_isExtended''"
| "config_key M_isPrivateKeyStorage = ''method_isPrivateKeyStorage''"

fun default_symbol :: "api_method \<Rightarrow> string" where
  "default_symbol M_validate = ''validate''"
| "default_symbol M_extValidate = ''extValidate''"
| "default_symbol M_sign_with_key = ''sign_with_key''"
| "default_symbol M_sign_with_id = ''sign_with_id''"
| "default_symbol M_registerPrivateKey = ''registerPrivateKey''"
| "default_symbol M_unregisterPrivateKey = ''unregisterPrivateKey''"
| "default_symbol M_registerPublicKey = ''registerPublicKey''"
| "default_symbol M_unregisterPublicKey = ''unregisterPublicKey''"
| "default_symbol M_isExtended = ''isExtended''"
| "default_symbol M_isPrivateKeyStorage = ''isPrivateKeyStorage''"

text \<open>The results of the internal wrappers.\<close>

fun wrapper_result :: "api_method \<Rightarrow> int" where
  "wrapper_result M_validate = -1"
| "wrapper_result M_extValidate = -1"
| "wrapper_result M_sign_with_key = 0"
| "wrapper_result M_sign_with_id = 0"
| "wrapper_result M_registerPrivateKey = 0"
| "wrapper_result M_unregisterPrivateKey = 0"
| "wrapper_result M_registerPublicKey = 0"
| "wrapper_result M_unregisterPublicKey = 0"
| "wrapper_result M_isExtended = 1"
| "wrapper_result M_isPrivateKeyStorage = 1"

subsection \<open>Environment and state\<close>

record linker =
  fopen_ok :: "string \<Rightarrow> bool"
  config_read_file :: "string \<Rightarrow> bool"
  config_lookup_int :: "string \<Rightarrow> string \<Rightarrow> int option"
  config_lookup_string :: "string \<Rightarrow> string \<Rightarrow> string option"
  config_lookup :: "string \<Rightarrow> string \<Rightarrow> nat option"
  config_setting_lookup_string :: "nat \<Rightarrow> string \<Rightarrow> string option"
  dlopen :: "string option \<Rightarrow> nat option"
  dlsym :: "nat \<Rightarrow> string \<Rightarrow> nat option option"

text \<open>A function pointer other than \<^verbatim>\<open>NULL\<close>.\<close>

datatype fptr = Wrapper api_method | Symbol nat

record SRxCryptoAPI =
  libHandle :: "nat option"
  configFile :: "string option"
  methods :: "api_method \<Rightarrow> fptr option"

record sca =
  g_loglevel :: int
  term_debug :: int
  sca_keyPath :: string
  dl_error :: bool
  opened :: "nat list"

abbreviation set_method :: "api_method \<Rightarrow> fptr option \<Rightarrow> SRxCryptoAPI \<Rightarrow> SRxCryptoAPI" where
  "set_method m f api \<equiv> api\<lparr>methods := (methods api)(m := f)\<rparr>"

subsection \<open>Reading the configuration\<close>

definition checkConfigFile :: "linker \<Rightarrow> SRxCryptoAPI \<Rightarrow> bool \<times> SRxCryptoAPI" where
  "checkConfigFile E api =
     (if configFile api \<noteq> None then (True, api)
      else if fopen_ok E SYS_CFG_FILE then (True, api\<lparr>configFile := Some SYS_CFG_FILE\<rparr>)
      else if fopen_ok E LOC_CFG_FILE then (True, api\<lparr>configFile := Some LOC_CFG_FILE\<rparr>)
      else (False, api))"

record config =
  cfg_ret :: bool
  useLocal :: bool
  str_library_name :: "string option"
  str_method :: "api_method \<Rightarrow> string option"

definition empty_config :: config where
  "empty_config = \<lparr>cfg_ret = False, useLocal = False, str_library_name = None, str_method = (\<lambda>_. None)\<rparr>"

text \<open>The names in the setting of the library.\<close>

definition read_mapping :: "linker \<Rightarrow> nat \<Rightarrow> config" where
  "read_mapping E setting =
     \<lparr>cfg_ret = True, useLocal = False,
      str_library_name = config_setting_lookup_string E setting SCA_LIBRARY_NAME,
      str_method = (\<lambda>m. config_setting_lookup_string E setting (config_key m))\<rparr>"

text \<open>The log level is 3 (\<^verbatim>\<open>LOG_ERR\<close>) when it is not configured.\<close>

definition read_config :: "linker \<Rightarrow> string \<Rightarrow> sca \<Rightarrow> config \<times> sca" where
  "read_config E file g =
     (if \<not> config_read_file E file then (empty_config, g)
      else let
        level = (case config_lookup_int E file ''debug-type'' of Some n \<Rightarrow> n | None \<Rightarrow> 3);
        g = g\<lparr>g_loglevel := level, term_debug := level\<rparr>;
        g = (case config_lookup_string E file SCA_KEY_VOLT of
               None \<Rightarrow> g
             | Some key_volt \<Rightarrow> g\<lparr>sca_keyPath := snd (sca_SetKeyPath key_volt (sca_keyPath g))\<rparr>)
      in (case config_lookup_string E file SCA_LIBRARY_CONF of
            None \<Rightarrow> (empty_config\<lparr>useLocal := True\<rparr>, g)
          | Some str_library_conf \<Rightarrow>
              (case config_lookup E file str_library_conf of
                 None \<Rightarrow> (empty_config, g)
               | Some setting \<Rightarrow> (read_mapping E setting, g))))"

subsection \<open>Binding\<close>

text \<open>A call of \<^verbatim>\<open>dlsym\<close>: the address and the new error state.\<close>

definition call_dlsym :: "linker \<Rightarrow> nat \<Rightarrow> string \<Rightarrow> sca \<Rightarrow> fptr option \<times> sca" where
  "call_dlsym E h name g =
     (case dlsym E h name of
        None \<Rightarrow> (None, g\<lparr>dl_error := True\<rparr>)
      | Some p \<Rightarrow> (map_option Symbol p, g))"

text \<open>\<^verbatim>\<open>dlerror() != NULL\<close>, which also clears the error.\<close>

definition dlerror :: "sca \<Rightarrow> bool \<times> sca" where
  "dlerror g = (dl_error g, g\<lparr>dl_error := False\<rparr>)"

text \<open>The part that is the same for every method: the configured name, the default name, the wrapper.\<close>

definition bind_method :: "linker \<Rightarrow> nat \<Rightarrow> api_method \<Rightarrow> string option \<Rightarrow> SRxCryptoAPI \<times> sca \<Rightarrow> SRxCryptoAPI \<times> sca" where
  "bind_method E h m name ag =
     (let (api, g) = ag;
          (api, loadDefault, g) =
            (case name of
               None \<Rightarrow> (api, True, g)
             | Some n \<Rightarrow>
                 if length n > 0 then
                   let (p, g) = call_dlsym E h n g;
                       (err, g) = dlerror g;
                       (_, g) = dlerror g
                   in (set_method m p api, err, g)
                 else (api, True, g))
      in if loadDefault then
           let (p, g) = call_dlsym E h (default_symbol m) g;
               (err, g) = dlerror g;
               api = set_method m p api
           in if err then (set_method m (Some (Wrapper m)) api, g) else (api, g)
         else (api, g))"

definition bind_validate where "bind_validate E h c = bind_method E h M_validate (str_method c M_validate)"
definition bind_extValidate where "bind_extValidate E h c = bind_method E h M_extValidate (str_method c M_extValidate)"
definition bind_sign_with_id where "bind_sign_with_id E h c = bind_method E h M_sign_with_id (str_method c M_sign_with_id)"
definition bind_sign_with_key where "bind_sign_with_key E h c = bind_method E h M_sign_with_key (str_method c M_sign_with_key)"
definition bind_registerPrivateKey where
  "bind_registerPrivateKey E h c = bind_method E h M_registerPrivateKey (str_method c M_registerPrivateKey)"
definition bind_unregisterPrivateKey where
  "bind_unregisterPrivateKey E h c = bind_method E h M_unregisterPrivateKey (str_method c M_unregisterPrivateKey)"
definition bind_registerPublicKey where
  "bind_registerPublicKey E h c = bind_method E h M_registerPublicKey (str_method c M_registerPublicKey)"
definition bind_unregisterPublicKey where
  "bind_unregisterPublicKey E h c = bind_method E h M_unregisterPublicKey (str_method c M_unregisterPublicKey)"
definition bind_isExtended where "bind_isExtended E h c = bind_method E h M_isExtended (str_method c M_isExtended)"
definition bind_isPrivateKeyStorage where
  "bind_isPrivateKeyStorage E h c = bind_method E h M_isPrivateKeyStorage (str_method c M_isPrivateKeyStorage)"

definition bind_all :: "linker \<Rightarrow> nat \<Rightarrow> config \<Rightarrow> SRxCryptoAPI \<times> sca \<Rightarrow> SRxCryptoAPI \<times> sca" where
  "bind_all E h c ag =
     bind_isPrivateKeyStorage E h c (bind_isExtended E h c (bind_unregisterPublicKey E h c (bind_registerPublicKey E h c
       (bind_unregisterPrivateKey E h c (bind_registerPrivateKey E h c (bind_sign_with_key E h c (bind_sign_with_id E h c
         (bind_extValidate E h c (bind_validate E h c ag)))))))))"

text \<open>The local mapping sets five of the ten methods.\<close>

definition bind_local :: "SRxCryptoAPI \<Rightarrow> SRxCryptoAPI" where
  "bind_local api =
     set_method M_unregisterPrivateKey (Some (Wrapper M_unregisterPrivateKey))
       (set_method M_registerPrivateKey (Some (Wrapper M_registerPrivateKey))
         (set_method M_validate (Some (Wrapper M_validate))
           (set_method M_sign_with_key (Some (Wrapper M_sign_with_key))
             (set_method M_sign_with_id (Some (Wrapper M_sign_with_id)) api))))"

subsection \<open>Init and unbind\<close>

definition dlclose :: "nat \<Rightarrow> sca \<Rightarrow> sca option" where
  "dlclose h g = (if h \<in> set (opened g) then Some (g\<lparr>opened := remove1 h (opened g)\<rparr>) else None)"

definition srxCryptoUnbind :: "SRxCryptoAPI \<times> sca \<Rightarrow> (SRxCryptoAPI \<times> sca) option" where
  "srxCryptoUnbind ag = do {
     let (api, g) = ag;
     g \<leftarrow> (case libHandle api of None \<Rightarrow> Some g | Some h \<Rightarrow> dlclose h g);
     Some (api\<lparr>libHandle := None,
               methods := (methods api)(M_registerPrivateKey := None, M_unregisterPrivateKey := None,
                 M_sign_with_id := None, M_sign_with_key := None, M_validate := None)\<rparr>, g)
   }"

text \<open>The part after the configuration was read: open the library and bind, or use the local mapping.\<close>

definition load_library :: "linker \<Rightarrow> config \<Rightarrow> SRxCryptoAPI \<times> sca \<Rightarrow> bool \<times> SRxCryptoAPI \<times> sca" where
  "load_library E c ag =
     (let (api, g) = ag in
      if cfg_ret c then
        (case dlopen E (str_library_name c) of
           None \<Rightarrow> let (_, g) = dlerror (g\<lparr>dl_error := True\<rparr>) in (False, api\<lparr>libHandle := None\<rparr>, g)
         | Some h \<Rightarrow>
             let api = api\<lparr>libHandle := Some h\<rparr>;
                 (_, g) = dlerror (g\<lparr>opened := h # opened g\<rparr>)
             in (True, bind_all E h c (api, g)))
      else if useLocal c then (True, bind_local api, g)
      else (False, api, g))"

text \<open>The test of the handle comes before the test of the pointer to the API object.\<close>

definition srxCryptoInit :: "linker \<Rightarrow> SRxCryptoAPI option \<Rightarrow> sca \<Rightarrow> (int \<times> SRxCryptoAPI \<times> sca) option" where
  "srxCryptoInit E apip g = do {
     api \<leftarrow> apip;
     if libHandle api \<noteq> None then Some (0, api, g)
     else do {
       let api = api\<lparr>libHandle := None,
                     methods := (methods api)(M_registerPrivateKey := None, M_sign_with_id := None,
                       M_sign_with_key := None, M_validate := None)\<rparr>;
       let (found, api) = checkConfigFile E api;
       (retVal, api, g) \<leftarrow>
         (if \<not> found then Some (False, api, g)
          else do {
            file \<leftarrow> configFile api;
            let (c, g) = read_config E file g;
            Some (load_library E c (api, g))
          });
       if \<not> retVal then do {
         (api, g) \<leftarrow> srxCryptoUnbind (api, g);
         Some (0, api, g)
       }
       else Some (1, api, g)
     }
   }"

subsection \<open>What binding means\<close>

text \<open>The specification: the configured symbol if there is one, else the default symbol, else the wrapper.\<close>

definition resolve :: "linker \<Rightarrow> nat \<Rightarrow> api_method \<Rightarrow> string option \<Rightarrow> fptr option" where
  "resolve E h m name =
     (case filter (\<lambda>r. r \<noteq> None) (map (dlsym E h) ((case name of Some n \<Rightarrow> if n = [] then [] else [n] | None \<Rightarrow> []) @ [default_symbol m])) of
        Some p # _ \<Rightarrow> map_option Symbol p
      | _ \<Rightarrow> Some (Wrapper m))"

lemma bind_method_resolve:
  assumes "\<not> dl_error g"
  shows "bind_method E h m name (api, g) = (set_method m (resolve E h m name) api, g)"
proof -
  have "g\<lparr>dl_error := False\<rparr> = g" using assms by simp
  then show ?thesis
    using assms
    by (cases name; cases "dlsym E h (the name)"; cases "dlsym E h (default_symbol m)")
       (auto simp: bind_method_def resolve_def call_dlsym_def dlerror_def)
qed

lemmas bind_defs = bind_validate_def bind_extValidate_def bind_sign_with_id_def bind_sign_with_key_def
  bind_registerPrivateKey_def bind_unregisterPrivateKey_def bind_registerPublicKey_def bind_unregisterPublicKey_def
  bind_isExtended_def bind_isPrivateKeyStorage_def

lemma bind_all_resolve:
  assumes "\<not> dl_error g"
  shows "bind_all E h c (api, g) = (api\<lparr>methods := \<lambda>m. resolve E h m (str_method c m)\<rparr>, g)"
proof -
  have "fst (bind_all E h c (api, g)) = api\<lparr>methods := methods (fst (bind_all E h c (api, g)))\<rparr>"
    "snd (bind_all E h c (api, g)) = g"
    "methods (fst (bind_all E h c (api, g))) = (\<lambda>m. resolve E h m (str_method c m))"
    using assms by (simp_all add: bind_all_def bind_defs bind_method_resolve)
      (rule ext, rename_tac m, case_tac m; simp)
  then show ?thesis by (metis prod.collapse)
qed

lemma read_config_frame:
  "opened (snd (read_config E file g)) = opened g"
  "dl_error (snd (read_config E file g)) = dl_error g"
  by (auto simp: read_config_def Let_def split: option.splits)

lemma checkConfigFile_frame:
  "libHandle (snd (checkConfigFile E api)) = libHandle api"
  "methods (snd (checkConfigFile E api)) = methods api"
  "fst (checkConfigFile E api) \<Longrightarrow> \<exists>f. configFile (snd (checkConfigFile E api)) = Some f"
  by (auto simp: checkConfigFile_def split: if_splits)

text \<open>Loading keeps the rule that the library of the object is open exactly while the handle is set.\<close>

definition handle_inv :: "SRxCryptoAPI \<times> sca \<Rightarrow> bool" where
  "handle_inv ag \<longleftrightarrow> opened (snd ag) = (case libHandle (fst ag) of None \<Rightarrow> [] | Some h \<Rightarrow> [h])"

lemma load_library_inv:
  assumes "libHandle api = None" and "opened g = []"
  shows "handle_inv (snd (load_library E c (api, g)))"
proof (cases "cfg_ret c")
  case True
  then show ?thesis
    using assms by (cases "dlopen E (str_library_name c)")
      (simp_all add: load_library_def dlerror_def bind_all_resolve handle_inv_def)
next
  case False
  then show ?thesis using assms by (simp add: load_library_def handle_inv_def bind_local_def)
qed

lemma unbind_inv:
  assumes "handle_inv (api, g)"
  shows "\<exists>api' g'. srxCryptoUnbind (api, g) = Some (api', g') \<and> libHandle api' = None \<and> opened g' = [] \<and>
    (\<forall>m \<in> {M_validate, M_sign_with_id, M_sign_with_key, M_registerPrivateKey, M_unregisterPrivateKey}. methods api' m = None)"
  using assms by (cases "libHandle api") (simp_all add: srxCryptoUnbind_def handle_inv_def dlclose_def)

lemma init_inv:
  assumes "handle_inv (api, g)"
  shows "\<exists>r api' g'. srxCryptoInit E (Some api) g = Some (r, api', g') \<and> handle_inv (api', g')"
proof (cases "libHandle api")
  case (Some h)
  then show ?thesis using assms by (simp add: srxCryptoInit_def)
next
  case None
  define a1 where "a1 = api\<lparr>libHandle := None, methods := (methods api)(M_registerPrivateKey := None,
    M_sign_with_id := None, M_sign_with_key := None, M_validate := None)\<rparr>"
  obtain found a2 where a2: "checkConfigFile E a1 = (found, a2)" by fastforce
  have h2: "libHandle a2 = None" using checkConfigFile_frame(1) [of E a1] a2 by (simp add: a1_def)
  have g: "opened g = []" using assms None by (simp add: handle_inv_def)
  obtain r a3 g3 where l: "handle_inv (a3, g3)"
    "(if \<not> found then Some (False, a2, g)
      else do { f \<leftarrow> configFile a2; let (c, g) = read_config E f g; Some (load_library E c (a2, g)) }) = Some (r, a3, g3)"
  proof (cases found)
    case True
    then obtain cf where f: "configFile a2 = Some cf" using checkConfigFile_frame(3) [of E a1] a2 by auto
    obtain c g2 where c: "read_config E cf g = (c, g2)" by fastforce
    have "handle_inv (snd (load_library E c (a2, g2)))"
      using load_library_inv [OF h2] read_config_frame(1) [of E cf g] c g by simp
    with True f c that show ?thesis by (cases "load_library E c (a2, g2)") auto
  next
    case False
    with that [of a2 g False] h2 g show ?thesis by (simp add: handle_inv_def)
  qed
  have "srxCryptoInit E (Some api) g =
      (if r then Some (1, a3, g3) else do { (api, g) \<leftarrow> srxCryptoUnbind (a3, g3); Some (0, api, g) })"
    using None a2 l(2) by (simp add: srxCryptoInit_def a1_def [symmetric])
  moreover obtain a4 g4 where "srxCryptoUnbind (a3, g3) = Some (a4, g4)" "handle_inv (a4, g4)"
    using unbind_inv [OF l(1)] by (auto simp: handle_inv_def)
  ultimately show ?thesis using l(1) by auto
qed

subsection \<open>Properties\<close>

text \<open>The configuration of a library: the file is found and read, names a setting, and the library opens.\<close>

definition configured :: "linker \<Rightarrow> SRxCryptoAPI \<Rightarrow> string \<Rightarrow> nat \<Rightarrow> nat \<Rightarrow> bool" where
  "configured E api cf setting h \<longleftrightarrow>
     fst (checkConfigFile E api) \<and> configFile (snd (checkConfigFile E api)) = Some cf \<and> config_read_file E cf \<and>
     Option.bind (config_lookup_string E cf SCA_LIBRARY_CONF) (config_lookup E cf) = Some setting \<and>
     dlopen E (config_setting_lookup_string E setting SCA_LIBRARY_NAME) = Some h"

lemma checkConfigFile_cong:
  "configFile a = configFile b \<Longrightarrow> fst (checkConfigFile E a) = fst (checkConfigFile E b) \<and>
     configFile (snd (checkConfigFile E a)) = configFile (snd (checkConfigFile E b))"
  by (simp add: checkConfigFile_def)

lemma init_configured:
  assumes "libHandle api = None" and "configured E api cf setting h"
  obtains api' g' where "srxCryptoInit E (Some api) g = Some (1, api', g')" "libHandle api' = Some h"
    "opened g' = h # opened g" "methods api' = (\<lambda>m. resolve E h m (config_setting_lookup_string E setting (config_key m)))"
    "configFile api' = Some cf"
proof -
  define a1 where "a1 = api\<lparr>libHandle := None, methods := (methods api)(M_registerPrivateKey := None,
    M_sign_with_id := None, M_sign_with_key := None, M_validate := None)\<rparr>"
  obtain a2 where a2: "checkConfigFile E a1 = (True, a2)" "configFile a2 = Some cf"
    using assms(2) checkConfigFile_cong [of a1 api E]
    by (cases "checkConfigFile E a1") (auto simp: configured_def a1_def)
  obtain g2 where c: "read_config E cf g = (read_mapping E setting, g2)"
    using assms(2) by (auto simp: configured_def read_config_def Let_def split: option.splits bind_splits)
  have o: "opened g2 = opened g" using read_config_frame(1) [of E cf g] c by simp
  define g3 where "g3 = g2\<lparr>opened := h # opened g2, dl_error := False\<rparr>"
  have "load_library E (read_mapping E setting) (a2, g2) =
      (True, a2\<lparr>libHandle := Some h, methods := \<lambda>m. resolve E h m (config_setting_lookup_string E setting (config_key m))\<rparr>, g3)"
    using assms(2) bind_all_resolve [of g3]
    by (simp add: load_library_def read_mapping_def configured_def dlerror_def g3_def)
  then have "srxCryptoInit E (Some api) g = Some (1,
      a2\<lparr>libHandle := Some h, methods := \<lambda>m. resolve E h m (config_setting_lookup_string E setting (config_key m))\<rparr>, g3)"
    using assms(1) a2 c by (simp add: srxCryptoInit_def a1_def [symmetric])
  then show ?thesis by (rule that) (simp_all add: g3_def o a2)
qed

text \<open>Property C15: a configuration that names a library which opens is used in full.  The function returns 1,
  the handle is set, the library is open, and each of the ten methods is bound to the configured symbol
  if the library has it, else to the default symbol, else to the internal wrapper.  This covers settings in which parameters of
  methods are missing: a comment of the source says that the configuration requires all of them, the code only writes a message.\<close>

theorem init_binds_every_method:
  assumes "libHandle api = None" and "configured E api cf setting h"
  shows "\<exists>api' g'. srxCryptoInit E (Some api) g = Some (1, api', g') \<and> libHandle api' = Some h \<and>
    opened g' = h # opened g \<and>
    (\<forall>m. methods api' m = resolve E h m (config_setting_lookup_string E setting (config_key m)))"
  using init_configured [OF assms] by (metis (no_types, lifting))

definition sample_linker :: linker where
  "sample_linker =
    \<lparr>fopen_ok = (\<lambda>f. f = LOC_CFG_FILE), config_read_file = (\<lambda>_. True), config_lookup_int = (\<lambda>_ _. None),
     config_lookup_string = (\<lambda>_ k. if k = SCA_LIBRARY_CONF then Some ''bgpsec'' else None),
     config_lookup = (\<lambda>_ k. if k = ''bgpsec'' then Some 0 else None),
     config_setting_lookup_string = (\<lambda>_ k. if k = SCA_LIBRARY_NAME then Some ''lib.so''
        else if k = config_key M_validate then Some ''my_validate'' else None),
     dlopen = (\<lambda>n. if n = Some ''lib.so'' then Some 5 else None),
     dlsym = (\<lambda>_ n. if n = ''my_validate'' then Some (Some 100) else if n = ''extValidate'' then Some (Some 101) else None)\<rparr>"

definition sample_api :: SRxCryptoAPI where
  "sample_api = \<lparr>libHandle = None, configFile = None, methods = (\<lambda>_. None)\<rparr>"

definition sample_sca :: sca where
  "sample_sca = \<lparr>g_loglevel = 6, term_debug = 3, sca_keyPath = [], dl_error = False, opened = []\<rparr>"

lemma sample_configured: "configured sample_linker sample_api LOC_CFG_FILE 0 5"
  by (simp add: configured_def sample_linker_def sample_api_def checkConfigFile_def LOC_CFG_FILE_def SYS_CFG_FILE_def
      CRYPTO_CFG_FILE_def)

lemma sample_resolve:
  "resolve sample_linker 5 M_validate (config_setting_lookup_string sample_linker 0 (config_key M_validate)) = Some (Symbol 100)"
  "resolve sample_linker 5 M_extValidate (config_setting_lookup_string sample_linker 0 (config_key M_extValidate)) = Some (Symbol 101)"
  "resolve sample_linker 5 M_isExtended (config_setting_lookup_string sample_linker 0 (config_key M_isExtended)) = Some (Wrapper M_isExtended)"
  by (simp_all add: resolve_def sample_linker_def SCA_LIBRARY_NAME_def)

theorem init_binds_every_method_witness:
  "\<exists>api' g'. srxCryptoInit sample_linker (Some sample_api) sample_sca = Some (1, api', g') \<and> libHandle api' = Some 5 \<and>
     opened g' = [5] \<and> methods api' M_validate = Some (Symbol 100) \<and> methods api' M_extValidate = Some (Symbol 101) \<and>
     methods api' M_isExtended = Some (Wrapper M_isExtended)"
  using init_binds_every_method [OF _ sample_configured, of sample_sca] sample_resolve
  by (auto simp: sample_api_def sample_sca_def)

text \<open>The states of an API object under calls of the two functions.\<close>

inductive api_reachable :: "linker \<Rightarrow> SRxCryptoAPI \<times> sca \<Rightarrow> SRxCryptoAPI \<times> sca \<Rightarrow> bool" for E ag where
  api_start: "api_reachable E ag ag"
| api_init: "api_reachable E ag (api, g) \<Longrightarrow> srxCryptoInit E (Some api) g = Some (r, api', g') \<Longrightarrow> api_reachable E ag (api', g')"
| api_unbind: "api_reachable E ag s \<Longrightarrow> srxCryptoUnbind s = Some s' \<Longrightarrow> api_reachable E ag s'"

inductive_cases api_reachableE: "api_reachable E ag s"

lemma api_reachable_inv: "api_reachable E ag s \<Longrightarrow> handle_inv ag \<Longrightarrow> handle_inv s"
proof (induction rule: api_reachable.induct)
  case api_start
  then show ?case .
next
  case (api_init api g r api' g')
  then show ?case using init_inv [of api g E] by auto
next
  case (api_unbind s s')
  then show ?case using unbind_inv [of "fst s" "snd s"] by (auto simp: handle_inv_def)
qed

text \<open>Property C16: over any sequence of init and unbind calls, failed ones included, the library of the object is
  open exactly while its handle is set, at most once; every further call returns, and after an unbind
  nothing is open.\<close>

theorem api_lifecycle:
  assumes "libHandle api0 = None" and "opened g0 = []" and "api_reachable E (api0, g0) (api, g)"
  shows "opened g = (case libHandle api of None \<Rightarrow> [] | Some h \<Rightarrow> [h]) \<and>
    (\<exists>r api' g'. srxCryptoInit E (Some api) g = Some (r, api', g')) \<and>
    (\<exists>api' g'. srxCryptoUnbind (api, g) = Some (api', g') \<and> libHandle api' = None \<and> opened g' = [])"
proof -
  have inv: "handle_inv (api, g)"
    using api_reachable_inv [OF assms(3)] assms(1,2) by (simp add: handle_inv_def)
  show ?thesis using inv init_inv [OF inv, of E] unbind_inv [OF inv] by (auto simp: handle_inv_def)
qed

theorem api_lifecycle_witness:
  "\<exists>api g. srxCryptoInit sample_linker (Some sample_api) sample_sca = Some (1, api, g) \<and> opened g = [5] \<and>
     (\<exists>api' g'. srxCryptoUnbind (api, g) = Some (api', g') \<and> libHandle api' = None \<and> opened g' = [])"
proof -
  obtain api g where 1: "srxCryptoInit sample_linker (Some sample_api) sample_sca = Some (1, api, g)" "libHandle api = Some 5"
    using init_configured [OF _ sample_configured] by (metis sample_api_def SRxCryptoAPI.select_convs(1))
  have "api_reachable sample_linker (sample_api, sample_sca) (api, g)"
    using api_start 1(1) by (rule api_init)
  from api_lifecycle [OF _ _ this] show ?thesis using 1 by (simp add: sample_api_def sample_sca_def)
qed

text \<open>Without any configuration file the function announces the local settings, but binds nothing
  and reports failure: the five methods it resets stay \<^verbatim>\<open>NULL\<close>.\<close>

theorem no_config_binds_nothing:
  assumes "libHandle api = None" and "configFile api = None"
    and "\<not> fopen_ok E SYS_CFG_FILE" and "\<not> fopen_ok E LOC_CFG_FILE"
  shows "\<exists>api'. srxCryptoInit E (Some api) g = Some (0, api', g) \<and> libHandle api' = None \<and>
    (\<forall>m \<in> {M_validate, M_sign_with_id, M_sign_with_key, M_registerPrivateKey, M_unregisterPrivateKey}. methods api' m = None)"
  using assms by (simp add: srxCryptoInit_def checkConfigFile_def srxCryptoUnbind_def)

theorem no_config_binds_nothing_witness:
  "\<exists>api'. srxCryptoInit (sample_linker\<lparr>fopen_ok := \<lambda>_. False\<rparr>) (Some sample_api) sample_sca = Some (0, api', sample_sca) \<and>
     methods api' M_validate = None"
  using no_config_binds_nothing [of sample_api "sample_linker\<lparr>fopen_ok := \<lambda>_. False\<rparr>" sample_sca]
  by (auto simp: sample_api_def)

text \<open>Unbinding resets only five of the ten methods.  After a successful init and an unbind the other
  five still hold what was bound, so a symbol of the library, which is closed by then, remains reachable
  through the object.\<close>

theorem unbind_leaves_methods:
  assumes "libHandle api = None" and "opened g = []" and "configured E api cf setting h"
    and "m \<in> {M_extValidate, M_registerPublicKey, M_unregisterPublicKey, M_isExtended, M_isPrivateKeyStorage}"
  shows "\<exists>api1 g1 api2 g2. srxCryptoInit E (Some api) g = Some (1, api1, g1) \<and> srxCryptoUnbind (api1, g1) = Some (api2, g2) \<and>
    opened g2 = [] \<and> methods api2 m = resolve E h m (config_setting_lookup_string E setting (config_key m))"
proof -
  obtain api1 g1 where i: "srxCryptoInit E (Some api) g = Some (1, api1, g1)" "libHandle api1 = Some h" "opened g1 = [h]"
    "methods api1 = (\<lambda>m. resolve E h m (config_setting_lookup_string E setting (config_key m)))"
    using init_configured [OF assms(1,3), of g] assms(2) by metis
  then have "srxCryptoUnbind (api1, g1) = Some (api1\<lparr>libHandle := None,
               methods := (methods api1)(M_registerPrivateKey := None, M_unregisterPrivateKey := None,
                 M_sign_with_id := None, M_sign_with_key := None, M_validate := None)\<rparr>, g1\<lparr>opened := []\<rparr>)"
    by (simp add: srxCryptoUnbind_def dlclose_def)
  then show ?thesis using i(1,4) assms(4) by auto
qed

theorem unbind_leaves_methods_witness:
  "\<exists>api1 g1 api2 g2. srxCryptoInit sample_linker (Some sample_api) sample_sca = Some (1, api1, g1) \<and>
     srxCryptoUnbind (api1, g1) = Some (api2, g2) \<and> opened g2 = [] \<and> methods api2 M_extValidate = Some (Symbol 101)"
  using unbind_leaves_methods [OF _ _ sample_configured, of sample_sca M_extValidate] sample_resolve(2)
  by (simp add: sample_api_def sample_sca_def)

text \<open>The local mapping leaves five methods as they were.\<close>

lemma bind_local_partial:
  "methods (bind_local api) m =
     (if m \<in> {M_validate, M_sign_with_id, M_sign_with_key, M_registerPrivateKey, M_unregisterPrivateKey}
      then Some (Wrapper m) else methods api m)"
  by (cases m) (simp_all add: bind_local_def)

end
