(* ===== verification/GameOfChance.thy ===== *)
theory GameOfChance
  imports Prelude
begin

text \<open>
  The program \<^verbatim>\<open>game_of_chance.c\<close>: a menu over three games of chance, with the credits of the players
  kept in a data file.  The state has the player structure, the file as the list of its entries, the
  characters still to be read from the standard input, and the number of random numbers drawn; output
  is not kept.  The environment gives the user, the random numbers and whether the file can be
  created.

  \<^verbatim>\<open>scanf\<close> is modelled on the characters, with its failures: a conversion that does not match
  leaves the variable as it was.  The outcome \<open>None\<close> is again everything after which the C program
  has no defined continuation or never ends: a signed overflow, the use of an uninitialised variable, a
  call through an overwritten function pointer, the end of the input inside a loop that waits for
  more.  A call of \<^verbatim>\<open>fatal\<close>, which ends the program, is the value \<open>Inl\<close> of a sum.
\<close>

subsection \<open>Data\<close>

text \<open>The pointer to the current game: one of the games, the null pointer of a new structure, or octets
  written over it.\<close>

datatype game_ptr = G_null | G_pick | G_dealer | G_ace | G_octets string

record user =
  uid :: int
  credits :: int
  highscore :: int
  name :: string
  current_game :: game_ptr

record chance =
  player :: user
  datafile :: "user list option"
  stdin :: string
  draws :: nat

record chance_env =
  rand :: "nat \<Rightarrow> nat"
  getuid :: int
  create_ok :: bool

text \<open>The result of a signed addition: undefined outside 32 bits.\<close>

definition c_int :: "int \<Rightarrow> int option" where
  "c_int n = (if - (2 ^ 31) \<le> n \<and> n < 2 ^ 31 then Some n else None)"

abbreviation upd_player :: "(user \<Rightarrow> user) \<Rightarrow> chance \<Rightarrow> chance" where
  "upd_player f s \<equiv> s\<lparr>player := f (player s)\<rparr>"

definition add_credits :: "int \<Rightarrow> chance \<Rightarrow> chance option" where
  "add_credits n s = do { c \<leftarrow> c_int (credits (player s) + n); Some (upd_player (\<lambda>u. u\<lparr>credits := c\<rparr>) s) }"

subsection \<open>Input\<close>

lemma length_dropWhile_le: "length (dropWhile P xs) \<le> length xs"
  by (induction xs) auto

definition newline :: char where "newline = CHR 0x0A"

definition is_space :: "char \<Rightarrow> bool" where
  "is_space c \<longleftrightarrow> c \<in> {CHR '' '', CHR 0x09, CHR 0x0A, CHR 0x0B, CHR 0x0C, CHR 0x0D}"

definition is_digit :: "char \<Rightarrow> bool" where
  "is_digit c \<longleftrightarrow> c \<in> set ''0123456789''"

definition digit_value :: "char \<Rightarrow> int" where
  "digit_value c = int (of_char c) - 48"

text \<open>\<^verbatim>\<open>scanf("%d")\<close>: white space, a sign, digits.  The value is \<open>None\<close> when nothing matches; a number
  that does not fit is undefined.  The second component is the rest of the input.\<close>

definition scan_sign :: "string \<Rightarrow> bool \<times> string" where
  "scan_sign inp =
     (case inp of
        [] \<Rightarrow> (False, [])
      | c # cs \<Rightarrow> if c = CHR ''-'' then (True, cs) else if c = CHR ''+'' then (False, cs) else (False, inp))"

definition scan_int :: "string \<Rightarrow> (int option \<times> string) option" where
  "scan_int inp =
     (let (neg, inp) = scan_sign (dropWhile is_space inp);
          ds = takeWhile is_digit inp;
          rest = dropWhile is_digit inp
      in if ds = [] then Some (None, inp)
         else do {
           n \<leftarrow> c_int ((if neg then -1 else 1) * foldl (\<lambda>n c. 10 * n + digit_value c) 0 ds);
           Some (Some n, rest)
         })"

lemma scan_sign_le: "length (snd (scan_sign inp)) \<le> length inp"
  by (cases inp) (simp_all add: scan_sign_def)

lemma scan_int_length:
  shows scan_int_le: "scan_int inp = Some (v, rest) \<Longrightarrow> length rest \<le> length inp"
    and scan_int_less: "scan_int inp = Some (Some n, rest) \<Longrightarrow> length rest < length inp"
proof -
  obtain neg inp' where i: "scan_sign (dropWhile is_space inp) = (neg, inp')" by fastforce
  have "length inp' \<le> length (dropWhile is_space inp)"
    using scan_sign_le [of "dropWhile is_space inp"] i by simp
  then have le: "length inp' \<le> length inp" using length_dropWhile_le [of is_space inp] by simp
  have eq: "length inp' = length (takeWhile is_digit inp') + length (dropWhile is_digit inp')"
    by (metis length_append takeWhile_dropWhile_id)
  show "scan_int inp = Some (v, rest) \<Longrightarrow> length rest \<le> length inp"
    using le eq by (auto simp: scan_int_def i Let_def split: if_splits bind_splits)
  have "takeWhile is_digit inp' \<noteq> [] \<Longrightarrow> length (dropWhile is_digit inp') < length inp"
    using le eq length_greater_0_conv [of "takeWhile is_digit inp'"] by linarith
  then show "scan_int inp = Some (Some n, rest) \<Longrightarrow> length rest < length inp"
    by (auto simp: scan_int_def i Let_def split: if_splits bind_splits)
qed

text \<open>The loops that skip newlines with \<^verbatim>\<open>scanf("%c")\<close>; they never end at the end of the input.\<close>

fun skip_newlines :: "string \<Rightarrow> (char \<times> string) option" where
  "skip_newlines [] = None"
| "skip_newlines (c # cs) = (if c = newline then skip_newlines cs else Some (c, cs))"

fun read_name :: "char \<Rightarrow> string \<Rightarrow> (string \<times> string) option" where
  "read_name c [] = (if c = newline then Some ([], []) else None)"
| "read_name c (d # ds) =
     (if c = newline then Some ([], d # ds)
      else do { (l, rest) \<leftarrow> read_name d ds; Some (c # l, rest) })"

text \<open>The name field has 100 octets and the pointer after it 4.\<close>

definition store_name :: "string \<Rightarrow> user \<Rightarrow> user option" where
  "store_name line u =
     (if length line < 100 then Some (u\<lparr>name := line\<rparr>)
      else if length line < 104 then
        Some (u\<lparr>name := take 100 line, current_game := G_octets (drop 100 line @ [CHR 0x00])\<rparr>)
      else None)"

definition input_name :: "chance \<Rightarrow> chance option" where
  "input_name s = do {
     (c, inp) \<leftarrow> skip_newlines (stdin s);
     (line, inp) \<leftarrow> read_name c inp;
     u \<leftarrow> store_name line (player s);
     Some (s\<lparr>player := u, stdin := inp\<rparr>)
   }"

subsection \<open>The data file\<close>

fun find_entry :: "int \<Rightarrow> user list \<Rightarrow> user option" where
  "find_entry n [] = None"
| "find_entry n (entry # es) = (if uid entry \<noteq> n then find_entry n es else Some entry)"

definition get_player_data :: "chance_env \<Rightarrow> chance \<Rightarrow> int \<times> chance" where
  "get_player_data E s =
     (case datafile s of
        None \<Rightarrow> (-1, s)
      | Some es \<Rightarrow>
          (case find_entry (getuid E) es of
             None \<Rightarrow> (-1, s)
           | Some entry \<Rightarrow> (1, s\<lparr>player := entry\<rparr>)))"

definition register_new_player :: "chance_env \<Rightarrow> chance \<Rightarrow> (string + chance) option" where
  "register_new_player E s = do {
     s \<leftarrow> input_name s;
     let s = upd_player (\<lambda>u. u\<lparr>uid := getuid E, credits := 100, highscore := 100\<rparr>) s;
     if \<not> create_ok E then Some (Inl ''in register_new_player() while opening file'')
     else Some (Inr (s\<lparr>datafile := Some ((case datafile s of None \<Rightarrow> [] | Some es \<Rightarrow> es) @ [player s])\<rparr>))
   }"

text \<open>The search for the entry does not test the end of the file, so it never ends without an entry.\<close>

fun write_entry :: "user \<Rightarrow> user list \<Rightarrow> user list option" where
  "write_entry u [] = None"
| "write_entry u (e # es) =
     (if uid e \<noteq> uid u then do { es' \<leftarrow> write_entry u es; Some (e # es') }
      else Some (e\<lparr>credits := credits u, highscore := highscore u, name := name u\<rparr> # es))"

definition update_player_data :: "chance \<Rightarrow> (string + chance) option" where
  "update_player_data s =
     (case datafile s of
        None \<Rightarrow> Some (Inl ''in update_player_data() while opening file'')
      | Some es \<Rightarrow> do {
          es \<leftarrow> write_entry (player s) es;
          Some (Inr (s\<lparr>datafile := Some es\<rparr>))
        })"

text \<open>An \<^verbatim>\<open>int\<close> compared with an \<^verbatim>\<open>unsigned\<close>.\<close>

definition as_unsigned :: "int \<Rightarrow> int" where
  "as_unsigned n = n mod 2 ^ 32"

text \<open>The name of a better entry is copied to a buffer of 100 octets.\<close>

fun top_entry :: "int \<Rightarrow> string option \<Rightarrow> user list \<Rightarrow> (int \<times> string option) option" where
  "top_entry best nm [] = Some (best, nm)"
| "top_entry best nm (e # es) =
     (if as_unsigned (highscore e) > best then do {
        c_assert (length (name e) < 100);
        top_entry (as_unsigned (highscore e)) (Some (name e)) es
      }
      else top_entry best nm es)"

text \<open>The announced score and, when it is not the player's, the name of its holder.\<close>

definition show_highscore :: "chance \<Rightarrow> (string + (string option \<times> int)) option" where
  "show_highscore s =
     (case datafile s of
        None \<Rightarrow> Some (Inl ''in show_highscore() while opening file'')
      | Some es \<Rightarrow> do {
          (top_score, top_name) \<leftarrow> top_entry 0 None es;
          Some (Inr (if top_score > as_unsigned (highscore (player s)) then (top_name, top_score)
                     else (None, as_unsigned (highscore (player s)))))
        })"

subsection \<open>The games\<close>

definition draw :: "chance_env \<Rightarrow> chance \<Rightarrow> nat \<times> chance" where
  "draw E s = (rand E (draws s), s\<lparr>draws := draws s + 1\<rparr>)"

definition jackpot :: "chance \<Rightarrow> chance option" where
  "jackpot s = add_credits 100 s"

definition pick_a_number :: "chance_env \<Rightarrow> chance \<Rightarrow> (int \<times> chance) option" where
  "pick_a_number E s = do {
     let (r, s) = draw E s;
     let winning_number = int (r mod 20) + 1;
     if credits (player s) < 10 then Some (-1, s)
     else do {
       s \<leftarrow> add_credits (-10) s;
       (v, inp) \<leftarrow> scan_int (stdin s);
       pick \<leftarrow> v;
       let s = s\<lparr>stdin := inp\<rparr>;
       s \<leftarrow> (if pick = winning_number then jackpot s else Some s);
       Some (0, s)
     }
   }"

definition take_wager :: "int \<Rightarrow> int \<Rightarrow> chance \<Rightarrow> (int \<times> chance) option" where
  "take_wager available_credits previous_wager s = do {
     (v, inp) \<leftarrow> scan_int (stdin s);
     wager \<leftarrow> v;
     let s = s\<lparr>stdin := inp\<rparr>;
     if wager < 1 then Some (-1, s)
     else do {
       total_wager \<leftarrow> c_int (previous_wager + wager);
       if total_wager > available_credits then Some (-1, s) else Some (wager, s)
     }
   }"

lemma take_wager_stdin:
  "take_wager a p s = Some (w, s') \<Longrightarrow> \<exists>v rest. scan_int (stdin s) = Some (Some v, rest) \<and> s' = s\<lparr>stdin := rest\<rparr>"
  by (auto simp: take_wager_def Let_def split: if_splits bind_splits)

lemma take_wager_less: "take_wager a p s = Some (w, s') \<Longrightarrow> length (stdin s') < length (stdin s)"
proof -
  assume "take_wager a p s = Some (w, s')"
  then obtain v rest where r: "scan_int (stdin s) = Some (Some v, rest)" and "s' = s\<lparr>stdin := rest\<rparr>"
    using take_wager_stdin by blast
  then show ?thesis using scan_int_less [OF r] by simp
qed

text \<open>\<^verbatim>\<open>while(wager == -1) wager = take_wager(...)\<close>\<close>

function wager_loop :: "int \<Rightarrow> int \<Rightarrow> chance \<Rightarrow> (int \<times> chance) option" where
  "wager_loop a p s = do {
     (w, s') \<leftarrow> take_wager a p s;
     if w = -1 then wager_loop a p s' else Some (w, s')
   }"
  by pat_completeness auto
termination by (relation "measure (\<lambda>(a, p, s). length (stdin s))") (auto dest: take_wager_less)

declare wager_loop.simps [simp del]

text \<open>A match is searched among all pairs; the last one found is kept.\<close>

fun match_inner :: "int list \<Rightarrow> nat \<Rightarrow> int \<Rightarrow> nat list \<Rightarrow> int" where
  "match_inner numbers i match [] = match"
| "match_inner numbers i match (j # js) =
     match_inner numbers i (if numbers ! i = numbers ! j then numbers ! i else match) js"

definition find_match :: "int list \<Rightarrow> int" where
  "find_match numbers = foldl (\<lambda>match i. match_inner numbers i match [i + 1 ..< 16]) (-1) [0 ..< 15]"

fun deal :: "chance_env \<Rightarrow> nat \<Rightarrow> chance \<Rightarrow> int list \<times> chance" where
  "deal E 0 s = ([], s)"
| "deal E (Suc n) s =
     (let (r, s) = draw E s; (ns, s) = deal E n s in (int (r mod 100) # ns, s))"

definition dealer_no_match :: "chance_env \<Rightarrow> chance \<Rightarrow> (int \<times> chance) option" where
  "dealer_no_match E s =
     (if credits (player s) = 0 then Some (-1, s)
      else do {
        (wager, s) \<leftarrow> wager_loop (credits (player s)) 0 s;
        let (numbers, s) = deal E 16 s;
        s \<leftarrow> (if find_match numbers \<noteq> -1 then add_credits (- wager) s else add_credits wager s);
        Some (0, s)
      })"

text \<open>The selection of a card: a failed conversion leaves the pick, and the loop goes on only if it used up
  input.\<close>

function pick_loop :: "int \<Rightarrow> string \<Rightarrow> (int \<times> string) option" where
  "pick_loop pick inp =
     (if 1 \<le> pick \<and> pick \<le> 3 then Some (pick, inp)
      else do {
        (v, rest) \<leftarrow> scan_int inp;
        if v = None \<and> length rest = length inp then None
        else pick_loop (case v of None \<Rightarrow> pick | Some n \<Rightarrow> n) rest
      })"
  by pat_completeness auto
termination
proof (relation "measure (\<lambda>(pick, inp). length inp)", goal_cases)
  case (2 pick inp x v rest)
  then show ?case using scan_int_le [of inp v rest] scan_int_less [of inp _ rest] by (cases v) auto
qed simp

declare pick_loop.simps [simp del]

text \<open>\<^verbatim>\<open>while(i == ace || i == pick) i++\<close>\<close>

function first_other :: "nat \<Rightarrow> nat \<Rightarrow> nat \<Rightarrow> nat" where
  "first_other i ace pick = (if i = ace \<or> i = pick then first_other (i + 1) ace pick else i)"
  by pat_completeness auto
termination
  by (relation "measure (\<lambda>(i, ace, pick). (if i \<le> ace then 1 else 0) + (if i \<le> pick then 1 else 0))") auto

declare first_other.simps [simp del]

text \<open>\<^verbatim>\<open>while(i == pick || cards[i] == 'Q') i++\<close>, a read outside the three cards is undefined.\<close>

function other_card :: "nat \<Rightarrow> nat \<Rightarrow> string \<Rightarrow> nat option" where
  "other_card i pick cards =
     (if i = pick then other_card (i + 1) pick cards
      else do { c \<leftarrow> c_nth cards i; if c = CHR ''Q'' then other_card (i + 1) pick cards else Some i })"
  by pat_completeness auto
termination
  by (relation "measure (\<lambda>(i, pick, cards). (if i \<le> pick then 1 else 0) + (length cards - i))")
     (auto simp: c_nth_def split: if_splits)

declare other_card.simps [simp del]

text \<open>The choice between a second wager and another card: the pick, the second wager (or -1) and the rest of
  the input.\<close>

function second_choice :: "int \<Rightarrow> int \<Rightarrow> nat \<Rightarrow> string \<Rightarrow> chance \<Rightarrow> (nat \<times> int \<times> chance) option" where
  "second_choice avail wager_one pick cards s = do {
     (c, inp) \<leftarrow> skip_newlines (stdin s);
     let s' = s\<lparr>stdin := inp\<rparr>;
     if c = CHR ''i'' then do {
       (wager_two, s'') \<leftarrow> wager_loop avail wager_one s';
       Some (pick, wager_two, s'')
     }
     else if c = CHR ''c'' then do {
       i \<leftarrow> other_card 0 pick cards;
       Some (i, -1, s')
     }
     else second_choice avail wager_one pick cards s'
   }"
  by pat_completeness auto

lemma skip_newlines_less: "skip_newlines inp = Some (c, rest) \<Longrightarrow> length rest < length inp"
  by (induction inp) (auto split: if_splits)

termination second_choice
  by (relation "measure (\<lambda>(a, w, p, c, s). length (stdin s))") (auto dest: skip_newlines_less)

declare second_choice.simps [simp del]

definition find_the_ace :: "chance_env \<Rightarrow> chance \<Rightarrow> (int \<times> chance) option" where
  "find_the_ace E s = do {
     let (r, s) = draw E s;
     let ace = r mod 3;
     if credits (player s) = 0 then Some (-1, s)
     else do {
       (wager_one, s) \<leftarrow> wager_loop (credits (player s)) 0 s;
       (pick, inp) \<leftarrow> pick_loop (-1) (stdin s);
       let s = s\<lparr>stdin := inp\<rparr>;
       let pick = nat (pick - 1);
       let i = first_other 0 ace pick;
       c_assert (i < 3);
       let cards = ''XXX''[i := CHR ''Q''];
       (pick, wager_two, s) \<leftarrow> second_choice (credits (player s)) wager_one pick cards s;
       let sign = (if pick = ace then 1 else -1);
       s \<leftarrow> add_credits (sign * wager_one) s;
       s \<leftarrow> (if wager_two \<noteq> -1 then add_credits (sign * wager_two) s else Some s);
       Some (0, s)
     }
   }"

subsection \<open>The menu\<close>

definition call_current_game :: "chance_env \<Rightarrow> chance \<Rightarrow> (int \<times> chance) option" where
  "call_current_game E s =
     (case current_game (player s) of
        G_pick \<Rightarrow> pick_a_number E s
      | G_dealer \<Rightarrow> dealer_no_match E s
      | G_ace \<Rightarrow> find_the_ace E s
      | _ \<Rightarrow> None)"

definition new_highscore :: "user \<Rightarrow> user" where
  "new_highscore u = (if credits u > highscore u then u\<lparr>highscore := credits u\<rparr> else u)"

partial_function (option) play_the_game :: "chance_env \<Rightarrow> chance \<Rightarrow> (string + chance) option" where
  "play_the_game E s = do {
     (r, s) \<leftarrow> call_current_game E s;
     if r = -1 then Some (Inr s)
     else do {
       let s = upd_player new_highscore s;
       u \<leftarrow> update_player_data s;
       (case u of
          Inl msg \<Rightarrow> Some (Inl msg)
        | Inr s \<Rightarrow> do {
            (selection, inp) \<leftarrow> skip_newlines (stdin s);
            let s = s\<lparr>stdin := inp\<rparr>;
            if selection = CHR ''n'' then Some (Inr s) else play_the_game E s
          })
     }
   }"

definition game_of :: "int \<Rightarrow> game_ptr" where
  "game_of choice = (if choice = 1 then G_pick else if choice = 2 then G_dealer else G_ace)"

text \<open>One choice of the menu: the new \<^verbatim>\<open>last_game\<close> and the state.\<close>

definition menu_action :: "chance_env \<Rightarrow> int \<Rightarrow> int \<Rightarrow> chance \<Rightarrow> (string + int \<times> chance) option" where
  "menu_action E choice last_game s =
     (if choice < 1 \<or> choice > 7 then Some (Inr (last_game, s))
      else if choice < 4 then do {
        let s = (if choice \<noteq> last_game then upd_player (\<lambda>u. u\<lparr>current_game := game_of choice\<rparr>) s else s);
        let last_game = (if choice \<noteq> last_game then choice else last_game);
        r \<leftarrow> play_the_game E s;
        (case r of Inl msg \<Rightarrow> Some (Inl msg) | Inr s \<Rightarrow> Some (Inr (last_game, s)))
      }
      else if choice = 4 then
        do {
          r \<leftarrow> show_highscore s;
          (case r of Inl msg \<Rightarrow> Some (Inl msg) | Inr _ \<Rightarrow> Some (Inr (last_game, s)))
        }
      else if choice = 5 then do {
        s \<leftarrow> input_name s;
        Some (Inr (last_game, s))
      }
      else if choice = 6 then Some (Inr (last_game, upd_player (\<lambda>u. u\<lparr>credits := 100\<rparr>) s))
      else Some (Inr (last_game, s)))"

text \<open>The loop of \<^verbatim>\<open>main\<close>; \<^verbatim>\<open>choice\<close> and \<^verbatim>\<open>last_game\<close> have no initial value in the code and are
  arguments.  A conversion that does not match leaves \<^verbatim>\<open>choice\<close> as it was.\<close>

partial_function (option) menu_loop :: "chance_env \<Rightarrow> int \<Rightarrow> int \<Rightarrow> chance \<Rightarrow> (string + chance) option" where
  "menu_loop E choice last_game s =
     (if choice = 7 then Some (Inr s)
      else do {
        (v, inp) \<leftarrow> scan_int (stdin s);
        let choice = (case v of None \<Rightarrow> choice | Some n \<Rightarrow> n);
        r \<leftarrow> menu_action E choice last_game (s\<lparr>stdin := inp\<rparr>);
        (case r of
           Inl msg \<Rightarrow> Some (Inl msg)
         | Inr (last_game, s) \<Rightarrow> menu_loop E choice last_game s)
      })"

definition chance_main :: "chance_env \<Rightarrow> int \<Rightarrow> int \<Rightarrow> chance \<Rightarrow> (string + chance) option" where
  "chance_main E choice0 last0 s = do {
     let (r, s) = get_player_data E s;
     st \<leftarrow> (if r = -1 then register_new_player E s else Some (Inr s));
     (case st of
        Inl msg \<Rightarrow> Some (Inl msg)
      | Inr s \<Rightarrow> do {
          r \<leftarrow> menu_loop E choice0 last0 s;
          (case r of Inl msg \<Rightarrow> Some (Inl msg) | Inr s \<Rightarrow> update_player_data s)
        })
   }"

declare play_the_game.simps [code] menu_loop.simps [code]

subsection \<open>What a game does to the player\<close>

text \<open>A game changes nothing of the player but the credits.\<close>

definition only_credits :: "chance \<Rightarrow> chance \<Rightarrow> bool" where
  "only_credits s s' \<longleftrightarrow> player s' = (player s)\<lparr>credits := credits (player s')\<rparr> \<and> datafile s' = datafile s"

lemma only_credits_refl [simp]: "only_credits s s"
  by (simp add: only_credits_def)

lemma only_credits_stdin [simp]:
  "only_credits s (s'\<lparr>stdin := i\<rparr>) = only_credits s s'"
  "only_credits s (s'\<lparr>draws := n\<rparr>) = only_credits s s'"
  by (simp_all add: only_credits_def)

lemma add_credits_Some:
  "add_credits n s = Some s' \<Longrightarrow> s' = upd_player (\<lambda>u. u\<lparr>credits := credits (player s) + n\<rparr>) s"
  by (auto simp: add_credits_def c_int_def split: if_splits)

lemma wager_loop_Some:
  "wager_loop a p s = Some (w, s') \<Longrightarrow> 1 \<le> w \<and> p + w \<le> a \<and> (\<exists>rest. s' = s\<lparr>stdin := rest\<rparr>)"
proof (induction a p s arbitrary: w s' rule: wager_loop.induct)
  case (1 a p s)
  from 1(2) obtain v s1 where t: "take_wager a p s = Some (v, s1)"
    and l: "(if v = -1 then wager_loop a p s1 else Some (v, s1)) = Some (w, s')"
    by (subst (asm) wager_loop.simps) (auto split: bind_splits)
  obtain r where r: "s1 = s\<lparr>stdin := r\<rparr>" using take_wager_stdin [OF t] by blast
  show ?case
  proof (cases "v = -1")
    case True
    with 1(1) [OF t refl] l have "1 \<le> w \<and> p + w \<le> a \<and> (\<exists>rest. s' = s1\<lparr>stdin := rest\<rparr>)" by simp
    with r show ?thesis by auto
  next
    case False
    with l t r show ?thesis
      by (auto simp: take_wager_def Let_def c_int_def split: if_splits bind_splits)
  qed
qed

lemma second_choice_Some:
  "second_choice a w p cards s = Some (q, w2, s') \<Longrightarrow>
     (w2 = -1 \<or> 1 \<le> w2 \<and> w + w2 \<le> a) \<and> (\<exists>rest. s' = s\<lparr>stdin := rest\<rparr>)"
proof (induction a w p cards s arbitrary: q w2 s' rule: second_choice.induct)
  case (1 a w p cards s)
  from 1(2) obtain c inp where c: "skip_newlines (stdin s) = Some (c, inp)"
    by (subst (asm) second_choice.simps) (auto split: bind_splits)
  let ?s = "s\<lparr>stdin := inp\<rparr>"
  consider "c = CHR ''i''" | "c = CHR ''c''" | "c \<noteq> CHR ''i''" "c \<noteq> CHR ''c''" by blast
  then show ?case
  proof cases
    case 1
    with \<open>second_choice a w p cards s = Some (q, w2, s')\<close> c have "wager_loop a w ?s = Some (w2, s')"
      by (subst (asm) second_choice.simps) (auto split: bind_splits)
    from wager_loop_Some [OF this] show ?thesis by auto
  next
    case 2
    with \<open>second_choice a w p cards s = Some (q, w2, s')\<close> c show ?thesis
      by (subst (asm) second_choice.simps) (auto split: bind_splits)
  next
    case 3
    with \<open>second_choice a w p cards s = Some (q, w2, s')\<close> c have "second_choice a w p cards ?s = Some (q, w2, s')"
      by (subst (asm) second_choice.simps) (auto simp: Let_def)
    from 1(1) [OF c refl refl 3 this] show ?thesis by auto
  qed
qed

lemma deal_snd: "snd (deal E n s) = s\<lparr>draws := draws s + n\<rparr>"
  by (induction n arbitrary: s) (simp_all add: draw_def split_beta)

definition fair :: "chance \<Rightarrow> int \<Rightarrow> chance \<Rightarrow> bool" where
  "fair s r s' \<longleftrightarrow> only_credits s s' \<and> (0 \<le> credits (player s) \<longrightarrow> 0 \<le> credits (player s')) \<and>
     (r = -1 \<longrightarrow> player s' = player s)"

lemma pick_fair: "pick_a_number E s = Some (r, s') \<Longrightarrow> fair s r s'"
  by (auto simp: pick_a_number_def draw_def Let_def jackpot_def fair_def only_credits_def dest!: add_credits_Some
      split: if_splits bind_splits)

lemma dealer_fair: "dealer_no_match E s = Some (r, s') \<Longrightarrow> fair s r s'"
  using deal_snd [of E 16]
  by (auto simp: dealer_no_match_def Let_def split_beta fair_def only_credits_def dest!: wager_loop_Some add_credits_Some
      split: if_splits bind_splits)

lemma ace_fair:
  assumes "find_the_ace E s = Some (r, s')"
  shows "fair s r s'"
proof (cases "credits (player s) = 0")
  case True
  then show ?thesis using assms by (auto simp: find_the_ace_def draw_def fair_def only_credits_def)
next
  case False
  define s0 where "s0 = s\<lparr>draws := draws s + 1\<rparr>"
  obtain w1 s1 p inp i q w2 s2 where w: "wager_loop (credits (player s)) 0 s0 = Some (w1, s1)"
    and q: "second_choice (credits (player s1)) w1 p (''XXX''[i := CHR ''Q'']) (s1\<lparr>stdin := inp\<rparr>) = Some (q, w2, s2)"
    and rest: "do { let sign = (if q = rand E (draws s) mod 3 then 1 else -1);
       s \<leftarrow> add_credits (sign * w1) s2;
       s \<leftarrow> (if w2 \<noteq> -1 then add_credits (sign * w2) s else Some s);
       Some (0, s) } = Some (r, s')"
    using assms False
    by (auto simp: find_the_ace_def draw_def Let_def s0_def split: bind_splits if_splits)
  show ?thesis
    using wager_loop_Some [OF w] second_choice_Some [OF q] rest
    by (auto simp: Let_def s0_def fair_def only_credits_def dest!: add_credits_Some split: if_splits bind_splits)
qed

lemma call_fair: "call_current_game E s = Some (r, s') \<Longrightarrow> fair s r s'"
  by (auto simp: call_current_game_def pick_fair dealer_fair ace_fair split: game_ptr.splits)

subsection \<open>The account\<close>

text \<open>An account in good order, and a state whose player and file entries are.\<close>

definition good_user :: "user \<Rightarrow> bool" where
  "good_user u \<longleftrightarrow> 0 \<le> credits u \<and> credits u \<le> highscore u \<and> 100 \<le> highscore u"

definition good :: "chance \<Rightarrow> bool" where
  "good s \<longleftrightarrow> good_user (player s) \<and> (case datafile s of None \<Rightarrow> True | Some es \<Rightarrow> list_all good_user es)"

lemma write_entry_good: "write_entry u es = Some es' \<Longrightarrow> good_user u \<Longrightarrow> list_all good_user es \<Longrightarrow> list_all good_user es'"
  by (induction es arbitrary: es') (auto simp: good_user_def split: if_splits bind_splits)

lemma update_good: "update_player_data s = Some (Inr s') \<Longrightarrow> good s \<Longrightarrow> good s'"
  by (auto simp: update_player_data_def good_def dest: write_entry_good split: option.splits bind_splits)

lemma fair_good: "fair s r s' \<Longrightarrow> good s \<Longrightarrow> good (upd_player new_highscore s')"
proof -
  assume f: "fair s r s'" and g: "good s"
  define c where "c = credits (player s')"
  have "player s' = (player s)\<lparr>credits := c\<rparr>" "datafile s' = datafile s" "0 \<le> c"
    using f g by (auto simp: fair_def only_credits_def good_def good_user_def c_def)
  then show ?thesis using g by (auto simp: good_def good_user_def new_highscore_def split: option.splits)
qed

lemma good_stdin [simp]: "good (s\<lparr>stdin := i\<rparr>) = good s"
  by (simp add: good_def)

text \<open>What every game keeps, and what the update of the file keeps after it, the loop of the games keeps.\<close>

lemma play_preserves:
  assumes run: "play_the_game E s = Some r" and "P s"
    and game: "\<And>s s'. fair s (-1) s' \<Longrightarrow> P s \<Longrightarrow> P s'"
    and upd: "\<And>s v s1 s2. fair s v s1 \<Longrightarrow> P s \<Longrightarrow> update_player_data (upd_player new_highscore s1) = Some (Inr s2) \<Longrightarrow> P s2"
    and inp: "\<And>s i. P s \<Longrightarrow> P (s\<lparr>stdin := i\<rparr>)"
  shows "case r of Inl _ \<Rightarrow> True | Inr s' \<Rightarrow> P s'"
proof -
  have "P s \<longrightarrow> (case r of Inl _ \<Rightarrow> True | Inr s' \<Rightarrow> P s')"
  proof (rule play_the_game.raw_induct [OF _ run], intro impI)
    fix play E s r
    assume IH: "\<And>E s r. play E s = Some r \<Longrightarrow> P s \<longrightarrow> (case r of Inl _ \<Rightarrow> True | Inr s' \<Rightarrow> P s')"
      and body: "do { (r, s) \<leftarrow> call_current_game E s;
         if r = -1 then Some (Inr s)
         else do {
           let s = upd_player new_highscore s;
           u \<leftarrow> update_player_data s;
           (case u of Inl msg \<Rightarrow> Some (Inl msg)
            | Inr s \<Rightarrow> do {
                (selection, inp) \<leftarrow> skip_newlines (stdin s);
                let s = s\<lparr>stdin := inp\<rparr>;
                if selection = CHR ''n'' then Some (Inr s) else play E s }) } } = Some r"
      and g: "P s"
    from body obtain v s1 where c: "call_current_game E s = Some (v, s1)" by (auto split: bind_splits)
    note f = call_fair [OF c]
    show "case r of Inl _ \<Rightarrow> True | Inr s' \<Rightarrow> P s'"
    proof (cases "v = -1")
      case True
      with body c have "r = Inr s1" by simp
      with game [of s s1] f g True show ?thesis by simp
    next
      case False
      with body c obtain u where u: "update_player_data (upd_player new_highscore s1) = Some u" by (auto simp: Let_def split: bind_splits)
      show ?thesis
      proof (cases u)
        case (Inl msg)
        then show ?thesis using body c u False by (auto simp: Let_def)
      next
        case (Inr s2)
        from body c u False Inr obtain sel i where "skip_newlines (stdin s2) = Some (sel, i)"
          and "(if sel = CHR ''n'' then Some (Inr (s2\<lparr>stdin := i\<rparr>)) else play E (s2\<lparr>stdin := i\<rparr>)) = Some r"
          by (auto simp: Let_def split: bind_splits)
        moreover have "P (s2\<lparr>stdin := i\<rparr>)" using inp upd [OF f g] u Inr by blast
        ultimately show ?thesis using IH [of E "s2\<lparr>stdin := i\<rparr>" r] by (auto split: if_splits)
      qed
    qed
  qed
  with assms(2) show ?thesis by blast
qed

lemma play_good:
  assumes "play_the_game E s = Some r" and "good s"
  shows "case r of Inl _ \<Rightarrow> True | Inr s' \<Rightarrow> good s'"
proof (rule play_preserves [where P = good, OF assms])
  fix s s' assume "fair s (-1) s'" and "good s"
  then show "good s'" by (auto simp: fair_def only_credits_def good_def)
next
  fix s v s1 s2 assume "fair s v s1" and "good s" and "update_player_data (upd_player new_highscore s1) = Some (Inr s2)"
  then show "good s2" using fair_good update_good by blast
qed simp

lemma input_name_good: "input_name s = Some s' \<Longrightarrow> good s \<Longrightarrow> good s'"
  by (auto simp: input_name_def store_name_def good_def good_user_def split: bind_splits if_splits)

lemma menu_action_good:
  assumes "menu_action E choice lg s = Some (Inr (lg', s'))" and "good s"
  shows "good s'"
proof -
  consider "1 \<le> choice" "choice < 4" | "choice = 5" | "\<not> (1 \<le> choice \<and> choice < 4)" "choice \<noteq> 5" by linarith
  then show ?thesis
  proof cases
    case 1
    define s1 where "s1 = (if choice \<noteq> lg then upd_player (\<lambda>u. u\<lparr>current_game := game_of choice\<rparr>) s else s)"
    have "good s1" using assms(2) by (simp add: s1_def good_def good_user_def cong: option.case_cong)
    moreover have "play_the_game E s1 = Some (Inr s')"
      using assms(1) 1 by (auto simp: menu_action_def s1_def Let_def split: bind_splits sum.splits)
    ultimately show ?thesis using play_good by fastforce
  next
    case 2
    then show ?thesis using assms input_name_good by (auto simp: menu_action_def split: bind_splits)
  next
    case 3
    then show ?thesis
      using assms by (auto simp: menu_action_def good_def good_user_def split: if_splits bind_splits sum.splits option.splits)
  qed
qed

text \<open>The states at the menu.\<close>

inductive at_menu :: "chance_env \<Rightarrow> int \<Rightarrow> int \<Rightarrow> chance \<Rightarrow> int \<Rightarrow> int \<Rightarrow> chance \<Rightarrow> bool" for E c0 l0 s0 where
  menu_known: "get_player_data E s0 = (1, s) \<Longrightarrow> at_menu E c0 l0 s0 c0 l0 s"
| menu_new: "get_player_data E s0 = (-1, s) \<Longrightarrow> register_new_player E s = Some (Inr s') \<Longrightarrow> at_menu E c0 l0 s0 c0 l0 s'"
| menu_next: "at_menu E c0 l0 s0 c l s \<Longrightarrow> c \<noteq> 7 \<Longrightarrow> scan_int (stdin s) = Some (v, inp) \<Longrightarrow>
    c' = (case v of None \<Rightarrow> c | Some n \<Rightarrow> n) \<Longrightarrow> menu_action E c' l (s\<lparr>stdin := inp\<rparr>) = Some (Inr (l', s')) \<Longrightarrow>
    at_menu E c0 l0 s0 c' l' s'"

inductive_cases at_menuE: "at_menu E c0 l0 s0 c l s"

lemma find_entry_mem: "find_entry n es = Some e \<Longrightarrow> e \<in> set es \<and> uid e = n"
  by (induction es) (auto split: if_splits)

lemma get_player_good:
  assumes "get_player_data E s0 = (r, s)" and "case datafile s0 of None \<Rightarrow> True | Some es \<Rightarrow> list_all good_user es"
  shows "(r = 1 \<longrightarrow> good s) \<and> (r = -1 \<longrightarrow> s = s0)"
  using assms by (auto simp: get_player_data_def good_def list_all_iff dest: find_entry_mem split: option.splits)

lemma register_good:
  assumes "register_new_player E s = Some (Inr s')" and "case datafile s of None \<Rightarrow> True | Some es \<Rightarrow> list_all good_user es"
  shows "good s'"
proof -
  obtain s1 where i: "input_name s = Some s1" using assms(1) by (auto simp: register_new_player_def split: bind_splits)
  have "datafile s1 = datafile s" using i by (auto simp: input_name_def split: bind_splits)
  then show ?thesis
    using assms i by (auto simp: register_new_player_def Let_def good_def good_user_def split: if_splits option.splits)
qed

subsection \<open>Properties\<close>

text \<open>Property C17: accounts stay in good order.  Started on a data file whose accounts are in good order (credits
  not negative and at most the high score, which is at least 100), the program is in such a state
  each time it comes to the menu, whatever the input and the random numbers: no game or wager takes the
  credits below zero, and no gain is missing from the high score.\<close>

theorem credits_in_good_order:
  assumes "at_menu E c0 l0 s0 c l s" and "case datafile s0 of None \<Rightarrow> True | Some es \<Rightarrow> list_all good_user es"
  shows "good_user (player s) \<and> (case datafile s of None \<Rightarrow> True | Some es \<Rightarrow> list_all good_user es)"
proof -
  have "good s"
    using assms
  proof (induction rule: at_menu.induct)
    case (menu_known s)
    then show ?case using get_player_good by blast
  next
    case (menu_new s s')
    then show ?case using get_player_good register_good by metis
  next
    case (menu_next c l s v inp c' l' s')
    then show ?case using menu_action_good by fastforce
  qed
  then show ?thesis by (simp add: good_def)
qed

definition sample_env :: chance_env where
  "sample_env = \<lparr>rand = (\<lambda>_. 4), getuid = 1000, create_ok = True\<rparr>"

definition sample_chance :: "string \<Rightarrow> chance" where
  "sample_chance inp = \<lparr>player = \<lparr>uid = 0, credits = 0, highscore = 0, name = [], current_game = G_null\<rparr>,
     datafile = Some [\<lparr>uid = 1000, credits = 50, highscore = 120, name = ''joe'', current_game = G_null\<rparr>],
     stdin = inp, draws = 0\<rparr>"

text \<open>A known user picks the winning number 5 and returns to the menu.\<close>

definition one_game :: string where "one_game = ''1 5'' @ [newline] @ ''n''"

theorem credits_in_good_order_witness:
  "\<exists>c l s. at_menu sample_env 0 0 (sample_chance one_game) c l s \<and> credits (player s) = 140 \<and> good_user (player s)"
proof -
  let ?u = "\<lparr>uid = 1000, credits = 50, highscore = 120, name = ''joe'', current_game = G_null\<rparr>"
  let ?v = "\<lparr>uid = 1000, credits = 140, highscore = 140, name = ''joe'', current_game = G_pick\<rparr>"
  let ?s = "\<lparr>player = ?v, datafile = Some [?v\<lparr>current_game := G_null\<rparr>], stdin = [], draws = 1\<rparr>"
  have "get_player_data sample_env (sample_chance one_game) = (1, (sample_chance one_game)\<lparr>player := ?u\<rparr>)"
    by code_simp
  then have 1: "at_menu sample_env 0 0 (sample_chance one_game) 0 0 ((sample_chance one_game)\<lparr>player := ?u\<rparr>)"
    by (rule menu_known)
  have "scan_int (stdin ((sample_chance one_game)\<lparr>player := ?u\<rparr>)) = Some (Some 1, (tl one_game))" by code_simp
  moreover have "menu_action sample_env 1 0 ((sample_chance one_game)\<lparr>player := ?u, stdin := (tl one_game)\<rparr>) = Some (Inr (1, ?s))"
    by code_simp
  ultimately have "at_menu sample_env 0 0 (sample_chance one_game) 1 1 ?s"
    by (intro menu_next [OF 1, of "Some 1"]) (simp_all add: sample_chance_def)
  moreover have "case datafile (sample_chance one_game) of None \<Rightarrow> True | Some es \<Rightarrow> list_all good_user es" by code_simp
  ultimately show ?thesis using credits_in_good_order by fastforce
qed

text \<open>The matches of the dealer.\<close>

lemma match_inner_iff:
  assumes "numbers ! i \<noteq> -1"
  shows "match_inner numbers i match js \<noteq> -1 \<longleftrightarrow> match \<noteq> -1 \<or> (\<exists>j\<in>set js. numbers ! i = numbers ! j)"
  using assms by (induction js arbitrary: match) auto

lemma find_match_fold:
  assumes "\<forall>i\<in>set is. numbers ! i \<noteq> -1"
  shows "foldl (\<lambda>match i. match_inner numbers i match [i + 1 ..< 16]) m is \<noteq> -1 \<longleftrightarrow>
    m \<noteq> -1 \<or> (\<exists>i\<in>set is. \<exists>j\<in>{i + 1 ..< 16}. numbers ! i = numbers ! j)"
  using assms
proof (induction "is" arbitrary: m)
  case Nil
  then show ?case by simp
next
  case (Cons a as)
  have "foldl (\<lambda>match i. match_inner numbers i match [i + 1 ..< 16]) m (a # as) \<noteq> -1 \<longleftrightarrow>
      match_inner numbers a m [a + 1 ..< 16] \<noteq> -1 \<or> (\<exists>i\<in>set as. \<exists>j\<in>{i + 1 ..< 16}. numbers ! i = numbers ! j)"
    using Cons by simp
  also have "match_inner numbers a m [a + 1 ..< 16] \<noteq> -1 \<longleftrightarrow> m \<noteq> -1 \<or> (\<exists>j\<in>{a + 1 ..< 16}. numbers ! a = numbers ! j)"
    using match_inner_iff [of numbers a m "[a + 1 ..< 16]"] Cons.prems by simp
  finally show ?case by auto
qed

lemma find_match_distinct:
  assumes "length numbers = 16" and "\<forall>n\<in>set numbers. 0 \<le> n"
  shows "find_match numbers = -1 \<longleftrightarrow> distinct numbers"
proof -
  have ne: "\<forall>i\<in>set [0 ..< 15]. numbers ! i \<noteq> -1"
  proof
    fix i assume "i \<in> set [0 ..< 15]"
    then have "numbers ! i \<in> set numbers" using assms(1) by simp
    with assms(2) show "numbers ! i \<noteq> -1" by force
  qed
  have "find_match numbers \<noteq> -1 \<longleftrightarrow> (\<exists>i\<in>set [0 ..< 15]. \<exists>j\<in>{i + 1 ..< 16}. numbers ! i = numbers ! j)"
    by (simp only: find_match_def find_match_fold [OF ne] simp_thms)
  also have "\<dots> \<longleftrightarrow> (\<exists>i<15. \<exists>j\<in>{i + 1 ..< 16}. numbers ! i = numbers ! j)" by (simp add: Bex_def)
  also have "\<dots> \<longleftrightarrow> \<not> distinct numbers"
  proof
    assume "\<exists>i<15. \<exists>j\<in>{i + 1 ..< 16}. numbers ! i = numbers ! j"
    then obtain i j where "i < j" "j < 16" "numbers ! i = numbers ! j"
      by (auto simp: Suc_le_eq)
    then show "\<not> distinct numbers" using nth_eq_iff_index_eq [of numbers i j] assms(1) by auto
  next
    assume "\<not> distinct numbers"
    then obtain i j where "i < 16" "j < 16" "i < j" "numbers ! i = numbers ! j"
      using assms(1) by (metis distinct_conv_nth linorder_neqE_nat)
    then show "\<exists>i<15. \<exists>j\<in>{i + 1 ..< 16}. numbers ! i = numbers ! j" by (intro exI [of _ i]) auto
  qed
  finally show ?thesis by blast
qed

lemma deal_fst: "fst (deal E n s) = map (\<lambda>k. int (rand E (draws s + k) mod 100)) [0 ..< n]"
proof (induction n arbitrary: s)
  case (Suc n)
  have "[0 ..< Suc n] = 0 # map Suc [0 ..< n]" by (simp add: upt_conv_Cons map_Suc_upt del: upt_Suc)
  with Suc [of "s\<lparr>draws := draws s + 1\<rparr>"] show ?case by (simp add: draw_def split_beta)
qed simp

text \<open>The dealer wins exactly when two of the 16 numbers agree.  Once the wager is made, the player
  gains it if the 16 random numbers are different from each other and loses it otherwise, and nothing else
  changes but the number of draws.\<close>

theorem dealer_outcome:
  assumes "credits (player s) \<noteq> 0" and "wager_loop (credits (player s)) 0 s = Some (w, s1)"
    and "0 \<le> credits (player s)" and "credits (player s) + w < 2 ^ 31"
    and "numbers = map (\<lambda>k. int (rand E (draws s + k) mod 100)) [0 ..< 16]"
  shows "dealer_no_match E s = Some (0, s\<lparr>stdin := stdin s1, draws := draws s + 16,
    player := (player s)\<lparr>credits := credits (player s) + (if distinct numbers then w else - w)\<rparr>\<rparr>)"
proof -
  obtain rest where w: "1 \<le> w" "w \<le> credits (player s)" and s1: "s1 = s\<lparr>stdin := rest\<rparr>"
    using wager_loop_Some [OF assms(2)] by auto
  have d: "deal E 16 s1 = (numbers, s1\<lparr>draws := draws s + 16\<rparr>)"
  proof -
    have "draws s1 = draws s" by (simp add: s1)
    then show ?thesis by (intro prod_eqI) (simp_all only: deal_fst deal_snd fst_conv snd_conv assms(5))
  qed
  have "length numbers = 16" "\<forall>n\<in>set numbers. 0 \<le> n" unfolding assms(5) by auto
  then have m: "find_match numbers = -1 \<longleftrightarrow> distinct numbers" by (rule find_match_distinct)
  have c: "c_int (credits (player s) + (if distinct numbers then w else - w)) =
      Some (credits (player s) + (if distinct numbers then w else - w))"
    using w assms(3,4) by (auto simp: c_int_def)
  show ?thesis
    using assms(1,2) d m c by (cases "distinct numbers") (simp_all add: dealer_no_match_def add_credits_def s1)
qed

theorem dealer_outcome_witness:
  "dealer_no_match (sample_env\<lparr>rand := \<lambda>k. k\<rparr>) (upd_player (\<lambda>u. u\<lparr>credits := 50\<rparr>) (sample_chance ''20'')) =
     Some (0, upd_player (\<lambda>u. u\<lparr>credits := 70\<rparr>) (sample_chance [])\<lparr>draws := 16\<rparr>)"
proof -
  let ?s = "upd_player (\<lambda>u. u\<lparr>credits := 50\<rparr>) (sample_chance ''20'')" and ?E = "sample_env\<lparr>rand := \<lambda>k. k\<rparr>"
  let ?n = "map (\<lambda>k. int (rand ?E (draws ?s + k) mod 100)) [0 ..< 16]"
  have w: "wager_loop (credits (player ?s)) 0 ?s = Some (20, ?s\<lparr>stdin := []\<rparr>)" by code_simp
  have "distinct ?n" by code_simp
  then have "dealer_no_match ?E ?s = Some (0, ?s\<lparr>stdin := [], draws := 16, player := (player ?s)\<lparr>credits := 70\<rparr>\<rparr>)"
    using dealer_outcome [OF _ w, of ?n ?E] by (simp add: sample_chance_def)
  then show ?thesis by (simp add: sample_chance_def)
qed

text \<open>The cards of Find the Ace.\<close>

lemma less_3_cases: "(n :: nat) < 3 \<Longrightarrow> n = 0 \<or> n = 1 \<or> n = 2"
  by linarith

lemma first_other_spec:
  assumes "ace < 3" and "pick < 3"
  shows "first_other 0 ace pick < 3 \<and> first_other 0 ace pick \<noteq> ace \<and> first_other 0 ace pick \<noteq> pick"
proof -
  have "first_other 0 0 0 = 1" "first_other 0 0 1 = 2" "first_other 0 0 2 = 1"
    "first_other 0 1 0 = 2" "first_other 0 1 1 = 0" "first_other 0 1 2 = 0"
    "first_other 0 2 0 = 1" "first_other 0 2 1 = 0" "first_other 0 2 2 = 0" by code_simp+
  then show ?thesis using less_3_cases [OF assms(1)] less_3_cases [OF assms(2)] by auto
qed

lemma other_card_spec:
  assumes "i < 3" and "pick < 3" and "i \<noteq> pick"
  shows "other_card 0 pick (''XXX''[i := CHR ''Q'']) = Some (3 - i - pick)"
proof -
  have "other_card 0 1 ''QXX'' = Some 2" "other_card 0 2 ''QXX'' = Some 1" "other_card 0 0 ''XQX'' = Some 2"
    "other_card 0 2 ''XQX'' = Some 0" "other_card 0 0 ''XXQ'' = Some 1" "other_card 0 1 ''XXQ'' = Some 0" by code_simp+
  then show ?thesis using less_3_cases [OF assms(1)] less_3_cases [OF assms(2)] assms(3)
    by (auto simp: numeral_2_eq_2)
qed

lemma pick_loop_range: "pick_loop pick inp = Some (p, rest) \<Longrightarrow> 1 \<le> p \<and> p \<le> 3"
proof (induction pick inp rule: pick_loop.induct)
  case (1 pick inp)
  show ?case
  proof (cases "1 \<le> pick \<and> pick \<le> 3")
    case True
    with 1(2) show ?thesis by (simp add: pick_loop.simps)
  next
    case False
    with 1(2) obtain v rest' where "scan_int inp = Some (v, rest')" "\<not> (v = None \<and> length rest' = length inp)"
      "pick_loop (case v of None \<Rightarrow> pick | Some n \<Rightarrow> n) rest' = Some (p, rest)"
      by (subst (asm) pick_loop.simps) (auto split: bind_splits if_splits)
    with 1(1) [OF False] show ?thesis by blast
  qed
qed

text \<open>In Find the Ace it is better to change the card.  A player who wagers, picks a card and then
  changes the pick wins exactly when the first pick was not the ace; the loops that look for the queen
  to reveal and for the other card stay inside the three cards.\<close>

theorem changing_wins_iff_first_pick_wrong:
  assumes "0 < credits (player s)" and "s0 = s\<lparr>draws := draws s + 1\<rparr>"
    and "wager_loop (credits (player s)) 0 s0 = Some (w, s1)" and "pick_loop (-1) (stdin s1) = Some (p, inp)"
    and "skip_newlines inp = Some (CHR ''c'', rest)" and "credits (player s) + w < 2 ^ 31"
  shows "find_the_ace E s = Some (0, s0\<lparr>stdin := rest,
    player := (player s)\<lparr>credits := credits (player s) + (if nat (p - 1) \<noteq> rand E (draws s) mod 3 then w else - w)\<rparr>\<rparr>)"
proof -
  define ace pick i where "ace = rand E (draws s) mod 3" and "pick = nat (p - 1)" and "i = first_other 0 ace pick"
  have ap: "ace < 3" "pick < 3" using pick_loop_range [OF assms(4)] by (auto simp: ace_def pick_def)
  have i: "i < 3" "i \<noteq> ace" "i \<noteq> pick" using first_other_spec [OF ap] by (simp_all add: i_def)
  define cards q where "cards = ''XXX''[i := CHR ''Q'']" and "q = 3 - i - pick"
  have oc: "other_card 0 pick cards = Some q" using i ap other_card_spec by (simp add: cards_def q_def)
  have other: "q = ace \<longleftrightarrow> pick \<noteq> ace"
    using less_3_cases [OF ap(1)] less_3_cases [OF ap(2)] less_3_cases [OF i(1)] i(2,3) by (auto simp: q_def)
  obtain r1 where w: "1 \<le> w" "w \<le> credits (player s)" and s1: "s1 = s0\<lparr>stdin := r1\<rparr>"
    using wager_loop_Some [OF assms(3)] by auto
  define c where "c = credits (player s) + (if pick \<noteq> ace then w else - w)"
  have c: "c_int (credits (player s) + (if q = ace then 1 else -1) * w) = Some c"
    using w assms(6) other by (auto simp: c_int_def c_def)
  have sc: "second_choice (credits (player s)) w pick cards (s1\<lparr>stdin := inp\<rparr>) = Some (q, -1, s1\<lparr>stdin := rest\<rparr>)"
    using assms(5) oc by (subst second_choice.simps) simp
  have "find_the_ace E s = Some (0, s0\<lparr>stdin := rest, player := (player s)\<lparr>credits := c\<rparr>\<rparr>)"
    using assms(1,3,4) sc i(1) c
    by (simp add: find_the_ace_def draw_def assms(2) s1 ace_def [symmetric] pick_def [symmetric] i_def [symmetric]
        cards_def [symmetric] add_credits_def del: list_update.simps list_update_code)
  then show ?thesis by (simp only: c_def ace_def pick_def)
qed

theorem changing_wins_iff_first_pick_wrong_witness:
  "find_the_ace sample_env (upd_player (\<lambda>u. u\<lparr>credits := 50\<rparr>) (sample_chance ''20 1c'')) =
     Some (0, upd_player (\<lambda>u. u\<lparr>credits := 70\<rparr>) (sample_chance [])\<lparr>draws := 1\<rparr>)"
proof -
  let ?s = "upd_player (\<lambda>u. u\<lparr>credits := 50\<rparr>) (sample_chance ''20 1c'')"
  let ?t = "?s\<lparr>draws := draws ?s + 1\<rparr>"
  have 1: "wager_loop (credits (player ?s)) 0 ?t = Some (20, ?t\<lparr>stdin := '' 1c''\<rparr>)" by code_simp
  have 2: "pick_loop (-1) (stdin (?t\<lparr>stdin := '' 1c''\<rparr>)) = Some (1, ''c'')" by code_simp
  have 3: "skip_newlines ''c'' = Some (CHR ''c'', [])" by code_simp
  have "find_the_ace sample_env ?s = Some (0, ?t\<lparr>stdin := [], player := (player ?s)\<lparr>credits := credits (player ?s) +
      (if nat (1 - 1) \<noteq> rand sample_env (draws ?s) mod 3 then 20 else - 20)\<rparr>\<rparr>)"
    by (rule changing_wins_iff_first_pick_wrong [OF _ refl 1 2 3]) (simp_all add: sample_chance_def)
  then show ?thesis by (simp add: sample_chance_def sample_env_def)
qed

text \<open>The data file.\<close>

lemma write_entry_find:
  assumes "find_entry (uid u) es = Some e"
  shows "\<exists>es'. write_entry u es = Some es' \<and>
    find_entry (uid u) es' = Some (e\<lparr>credits := credits u, highscore := highscore u, name := name u\<rparr>) \<and>
    (\<forall>n. n \<noteq> uid u \<longrightarrow> find_entry n es' = find_entry n es)"
  using assms
proof (induction es)
  case Nil
  then show ?case by simp
next
  case (Cons x es)
  then show ?case by (cases "uid x = uid u") auto
qed

text \<open>Saving and loading fit together.  If the file has an entry of the player,
  \<^verbatim>\<open>update_player_data\<close> ends, and a later \<^verbatim>\<open>get_player_data\<close> of the same user gives back the
  credits, the high score and the name that were saved; the first entries of all other users are as before.\<close>

theorem save_then_load:
  assumes "datafile s = Some es" and "find_entry (uid (player s)) es \<noteq> None" and "getuid E = uid (player s)"
  shows "\<exists>s' u es'. update_player_data s = Some (Inr s') \<and> datafile s' = Some es' \<and>
    get_player_data E (s'\<lparr>player := v\<rparr>) = (1, s'\<lparr>player := u\<rparr>) \<and>
    uid u = uid (player s) \<and> credits u = credits (player s) \<and> highscore u = highscore (player s) \<and> name u = name (player s) \<and>
    (\<forall>n. n \<noteq> uid (player s) \<longrightarrow> find_entry n es' = find_entry n es)"
proof -
  obtain e where e: "find_entry (uid (player s)) es = Some e" using assms(2) by blast
  have ue: "uid e = uid (player s)" using find_entry_mem [OF e] by simp
  obtain es' where es': "write_entry (player s) es = Some es'"
    "find_entry (uid (player s)) es' =
       Some (e\<lparr>credits := credits (player s), highscore := highscore (player s), name := name (player s)\<rparr>)"
    "\<forall>n. n \<noteq> uid (player s) \<longrightarrow> find_entry n es' = find_entry n es"
    using write_entry_find [OF e] by blast
  have "update_player_data s = Some (Inr (s\<lparr>datafile := Some es'\<rparr>))"
    using assms(1) es'(1) by (simp add: update_player_data_def)
  then show ?thesis
    using es'(2,3) ue assms(3) by (auto simp: get_player_data_def)
qed

theorem save_then_load_witness:
  "\<exists>s' u. update_player_data (sample_chance []\<lparr>player := \<lparr>uid = 1000, credits = 7, highscore = 130, name = ''jo'', current_game = G_ace\<rparr>\<rparr>) =
      Some (Inr s') \<and> get_player_data sample_env s' = (1, s'\<lparr>player := u\<rparr>) \<and> credits u = 7 \<and> name u = ''jo''"
proof -
  let ?p = "\<lparr>uid = 1000, credits = 7, highscore = 130, name = ''jo'', current_game = G_ace\<rparr>"
  let ?s = "sample_chance []\<lparr>player := ?p\<rparr>"
  obtain s' u where 1: "update_player_data ?s = Some (Inr s')" "get_player_data sample_env (s'\<lparr>player := ?p\<rparr>) = (1, s'\<lparr>player := u\<rparr>)"
    "credits u = 7" "name u = ''jo''"
    using save_then_load [of ?s "the (datafile ?s)" sample_env ?p] by (auto simp: sample_chance_def sample_env_def)
  have "s'\<lparr>player := ?p\<rparr> = s'" using 1(1) by (auto simp: update_player_data_def sample_chance_def)
  with 1 show ?thesis by metis
qed

text \<open>The account of the user is in the file as long as the program runs.\<close>

definition enrolled :: "int \<Rightarrow> chance \<Rightarrow> bool" where
  "enrolled n s \<longleftrightarrow> uid (player s) = n \<and> (\<exists>es. datafile s = Some es \<and> find_entry n es \<noteq> None)"

lemma enrolled_stdin [simp]: "enrolled n (s\<lparr>stdin := i\<rparr>) = enrolled n s"
  by (simp add: enrolled_def)

lemma update_enrolled:
  assumes "enrolled n s"
  shows "\<exists>es e. update_player_data s = Some (Inr (s\<lparr>datafile := Some es\<rparr>)) \<and> find_entry n es = Some e \<and>
    credits e = credits (player s) \<and> highscore e = highscore (player s) \<and> name e = name (player s)"
proof -
  obtain es e where "datafile s = Some es" "find_entry (uid (player s)) es = Some e"
    using assms by (auto simp: enrolled_def)
  with write_entry_find [of "player s" es e] show ?thesis
    using assms by (fastforce simp: update_player_data_def enrolled_def)
qed

lemma play_enrolled:
  assumes "play_the_game E s = Some r" and "enrolled n s"
  shows "case r of Inl _ \<Rightarrow> True | Inr s' \<Rightarrow> enrolled n s'"
proof (rule play_preserves [where P = "enrolled n", OF assms])
  fix s s' assume "fair s (-1) s'" and "enrolled n s"
  then show "enrolled n s'" by (auto simp: fair_def only_credits_def enrolled_def)
next
  fix s v s1 s2 assume f: "fair s v s1" and e: "enrolled n s"
    and u: "update_player_data (upd_player new_highscore s1) = Some (Inr s2)"
  have "player s1 = (player s)\<lparr>credits := credits (player s1)\<rparr>" "datafile s1 = datafile s"
    using f by (simp_all add: fair_def only_credits_def)
  then have "uid (player s1) = uid (player s)" by (metis user.select_convs(1) user.surjective user.update_convs(2))
  then have "enrolled n (upd_player new_highscore s1)"
    using e \<open>datafile s1 = datafile s\<close> by (simp add: enrolled_def new_highscore_def)
  from update_enrolled [OF this] u e show "enrolled n s2"
    using \<open>enrolled n (upd_player new_highscore s1)\<close> by (auto simp: enrolled_def)
qed simp

lemma menu_action_enrolled:
  assumes "menu_action E choice lg s = Some (Inr (lg', s'))" and "enrolled n s"
  shows "enrolled n s'"
proof (cases "1 \<le> choice \<and> choice < 4")
  case True
  define s1 where "s1 = (if choice \<noteq> lg then upd_player (\<lambda>u. u\<lparr>current_game := game_of choice\<rparr>) s else s)"
  have "enrolled n s1" using assms(2) by (simp add: s1_def enrolled_def)
  moreover have "play_the_game E s1 = Some (Inr s')"
    using assms(1) True by (auto simp: menu_action_def s1_def Let_def split: bind_splits sum.splits)
  ultimately show ?thesis using play_enrolled by fastforce
next
  case False
  then show ?thesis
    using assms by (auto simp: menu_action_def input_name_def store_name_def enrolled_def split: if_splits bind_splits sum.splits)
qed

lemma find_entry_append:
  "find_entry n (es @ es') = (case find_entry n es of None \<Rightarrow> find_entry n es' | Some e \<Rightarrow> Some e)"
  by (induction es) auto

lemma at_menu_enrolled: "at_menu E c0 l0 s0 c l s \<Longrightarrow> enrolled (getuid E) s"
proof (induction rule: at_menu.induct)
  case (menu_known s)
  then show ?case
    by (auto simp: get_player_data_def enrolled_def dest: find_entry_mem split: option.splits)
next
  case (menu_new s s')
  then show ?case
    by (auto simp: register_new_player_def enrolled_def Let_def find_entry_append split: option.splits bind_splits if_splits)
next
  case (menu_next c l s v inp c' l' s')
  then show ?case using menu_action_enrolled by fastforce
qed

text \<open>From a state at the menu the program goes on as \<^verbatim>\<open>main\<close> does.\<close>

lemma at_menu_main:
  "at_menu E c0 l0 s0 c l s \<Longrightarrow>
     chance_main E c0 l0 s0 = do { r \<leftarrow> menu_loop E c l s; (case r of Inl msg \<Rightarrow> Some (Inl msg) | Inr s \<Rightarrow> update_player_data s) }"
proof (induction rule: at_menu.induct)
  case (menu_known s)
  then show ?case by (simp add: chance_main_def)
next
  case (menu_new s s')
  then show ?case by (simp add: chance_main_def)
next
  case (menu_next c l s v inp c' l' s')
  then have "menu_loop E c l s = menu_loop E c' l' s'" by (subst menu_loop.simps) simp
  with menu_next.IH show ?case by simp
qed

text \<open>The menu can always be left, and then the account is saved.  Whenever the program
  is at the menu and the user types 7, it ends without an error, and the file has the credits, the
  high score and the name the user had at the menu; this needs no assumption on the earlier input, the
  games played or the data file the program was started on.\<close>

theorem quit_saves_account:
  assumes "at_menu E c0 l0 s0 c l s" and "c \<noteq> 7" and "scan_int (stdin s) = Some (Some 7, rest)"
  shows "\<exists>es e. chance_main E c0 l0 s0 = Some (Inr (s\<lparr>stdin := rest, datafile := Some es\<rparr>)) \<and>
    find_entry (getuid E) es = Some e \<and> credits e = credits (player s) \<and> highscore e = highscore (player s) \<and> name e = name (player s)"
proof -
  let ?s = "s\<lparr>stdin := rest\<rparr>"
  have "menu_loop E c l s = menu_loop E 7 l ?s"
    using assms(2,3) by (subst menu_loop.simps) (simp add: menu_action_def)
  also have "\<dots> = Some (Inr ?s)" by (subst menu_loop.simps) simp
  finally have "chance_main E c0 l0 s0 = update_player_data ?s" using at_menu_main [OF assms(1)] by simp
  then show ?thesis using update_enrolled [of "getuid E" ?s] at_menu_enrolled [OF assms(1)] by simp
qed

theorem quit_saves_account_witness:
  "\<exists>s es e. chance_main sample_env 0 0 (sample_chance ''6 7'') = Some (Inr s) \<and> datafile s = Some es \<and>
     find_entry 1000 es = Some e \<and> credits e = 100"
proof -
  let ?u = "\<lparr>uid = 1000, credits = 50, highscore = 120, name = ''joe'', current_game = G_null\<rparr>"
  let ?s = "(sample_chance ''6 7'')\<lparr>player := ?u\<rparr>"
  let ?t = "?s\<lparr>stdin := '' 7'', player := ?u\<lparr>credits := 100\<rparr>\<rparr>"
  have 1: "at_menu sample_env 0 0 (sample_chance ''6 7'') 0 0 ?s" by (rule menu_known) code_simp
  have 2: "scan_int (stdin ?s) = Some (Some 6, '' 7'')" by code_simp
  have 3: "menu_action sample_env 6 0 (?s\<lparr>stdin := '' 7''\<rparr>) = Some (Inr (0, ?t))" by code_simp
  have 4: "at_menu sample_env 0 0 (sample_chance ''6 7'') 6 0 ?t" by (rule menu_next [OF 1 _ 2 _ 3]) simp_all
  have 5: "scan_int (stdin ?t) = Some (Some 7, [])" by code_simp
  show ?thesis using quit_saves_account [OF 4 _ 5] by (fastforce simp: sample_env_def)
qed

text \<open>The name.\<close>

lemma read_name_newline [simp]: "read_name newline rest = Some ([], rest)"
  by (cases rest) simp_all

lemma read_name_line:
  "newline \<notin> set (c # line) \<Longrightarrow> read_name c (line @ newline # rest) = Some (c # line, rest)"
  by (induction line arbitrary: c) auto

lemma input_name_line:
  assumes "stdin s = line @ newline # rest" and "line \<noteq> []" and "newline \<notin> set line"
  shows "input_name s = do { u \<leftarrow> store_name line (player s); Some (s\<lparr>player := u, stdin := rest\<rparr>) }"
  using assms by (cases line) (auto simp: input_name_def read_name_line)

text \<open>The name can overwrite the function pointer after it.  A name of less than 100 characters is
  stored and leaves the pointer alone; one of 100 to 103 characters replaces the pointer by the
  characters after the hundredth, and choosing the game that was played last then calls through it.\<close>

theorem long_name_overwrites_game:
  assumes "stdin s = line @ newline # rest" and "line \<noteq> []" and "newline \<notin> set line" and "1 \<le> g" and "g \<le> 3"
  shows "(length line < 100 \<longrightarrow> menu_action E 5 g s = Some (Inr (g, s\<lparr>player := (player s)\<lparr>name := line\<rparr>, stdin := rest\<rparr>))) \<and>
    (100 \<le> length line \<and> length line < 104 \<longrightarrow> (\<exists>s'. menu_action E 5 g s = Some (Inr (g, s')) \<and>
       current_game (player s') = G_octets (drop 100 line @ [CHR 0x00]) \<and> menu_action E g g s' = None))"
proof (intro conjI impI)
  note i = input_name_line [OF assms(1-3)]
  show "menu_action E 5 g s = Some (Inr (g, s\<lparr>player := (player s)\<lparr>name := line\<rparr>, stdin := rest\<rparr>))" if "length line < 100"
    using that i by (simp add: menu_action_def store_name_def)
  assume l: "100 \<le> length line \<and> length line < 104"
  let ?s = "s\<lparr>player := (player s)\<lparr>name := take 100 line, current_game := G_octets (drop 100 line @ [CHR 0x00])\<rparr>, stdin := rest\<rparr>"
  have "menu_action E 5 g s = Some (Inr (g, ?s))"
    using l i by (simp add: menu_action_def store_name_def)
  moreover have "play_the_game E ?s = None" by (subst play_the_game.simps) (simp add: call_current_game_def)
  then have "menu_action E g g ?s = None" using assms(4,5) by (simp add: menu_action_def)
  ultimately show "\<exists>s'. menu_action E 5 g s = Some (Inr (g, s')) \<and>
       current_game (player s') = G_octets (drop 100 line @ [CHR 0x00]) \<and> menu_action E g g s' = None"
    by (intro exI [of _ ?s]) simp
qed

theorem long_name_overwrites_game_witness:
  "\<exists>s'. menu_action sample_env 5 1 (sample_chance (replicate 102 (CHR ''A'') @ [newline])) = Some (Inr (1, s')) \<and>
     current_game (player s') = G_octets [CHR ''A'', CHR ''A'', CHR 0x00] \<and> menu_action sample_env 1 1 s' = None"
  using long_name_overwrites_game [of "sample_chance (replicate 102 (CHR ''A'') @ [newline])" "replicate 102 (CHR ''A'')" "[]" 1 sample_env]
  by (auto simp: sample_chance_def newline_def numeral_2_eq_2)

end
