(* ===== verification/EventQueue.thy ===== *)
theory EventQueue
  imports Prelude
begin

text \<open>
  The event queue of the example server \<^verbatim>\<open>io_epoll\<close> (\<^verbatim>\<open>mng_io.c\<close>, \<^verbatim>\<open>io_epoll_pthread.h\<close>): an array of 200
  descriptors with a start index, an end index and a counter, protected by a mutex and a condition
  variable.  The model keeps whether the mutex is held and whether the worker waits on the condition
  variable.  Taking a mutex that is held never ends in a single thread, so it has the outcome \<open>None\<close>, as
  have the reads outside the array.

  The locale \<open>fifo_queue\<close> is the contract a thread expects of a queue; its interpretation on the code's
  operations has the bound that the code needs: the start index is never set back, so the contract holds
  for the first 200 events taken from the queue.
\<close>

subsection \<open>The code\<close>

definition MAX_EVENT_QUEUE :: nat where "MAX_EVENT_QUEUE = 200"

record evlist =
  i1_ev :: nat
  i2_ev :: nat
  n_ev :: nat
  q_ev :: "int list"
  ev_locked :: bool
  ev_waiting :: bool

text \<open>The memory is allocated with \<^verbatim>\<open>calloc\<close>.\<close>

definition new_evlist :: evlist where
  "new_evlist = \<lparr>i1_ev = 0, i2_ev = 0, n_ev = 0, q_ev = replicate MAX_EVENT_QUEUE 0, ev_locked = False, ev_waiting = False\<rparr>"

definition ev_lock :: "evlist \<Rightarrow> evlist option" where
  "ev_lock evl = (if ev_locked evl then None else Some (evl\<lparr>ev_locked := True\<rparr>))"

definition ev_unlock :: "evlist \<Rightarrow> evlist" where
  "ev_unlock evl = evl\<lparr>ev_locked := False\<rparr>"

definition ev_signal :: "evlist \<Rightarrow> evlist" where
  "ev_signal evl = evl\<lparr>ev_waiting := False\<rparr>"

text \<open>Both error exits return with the mutex held.\<close>

definition push_evlist :: "int \<Rightarrow> evlist \<Rightarrow> (int \<times> evlist) option" where
  "push_evlist fd evl = do {
     evl \<leftarrow> ev_lock evl;
     if n_ev evl = MAX_EVENT_QUEUE then Some (-1, evl)
     else do {
       let evl = (if i2_ev evl = MAX_EVENT_QUEUE then evl\<lparr>i2_ev := 0\<rparr> else evl);
       c_assert (i2_ev evl < length (q_ev evl));
       let evl = evl\<lparr>q_ev := (q_ev evl)[i2_ev evl := fd], i2_ev := i2_ev evl + 1\<rparr>;
       let evl = evl\<lparr>n_ev := n_ev evl + 1\<rparr>;
       let evl = (if n_ev evl = 1 then ev_signal evl else evl);
       Some (0, ev_unlock evl)
     }
   }"

definition pop_evlist :: "evlist \<Rightarrow> (int \<times> evlist) option" where
  "pop_evlist evl = do {
     evl \<leftarrow> ev_lock evl;
     if n_ev evl = 0 then Some (-1, evl)
     else do {
       ret \<leftarrow> c_nth (q_ev evl) (i1_ev evl);
       let evl = evl\<lparr>i1_ev := i1_ev evl + 1\<rparr>;
       let evl = evl\<lparr>n_ev := n_ev evl - 1\<rparr>;
       Some (ret, ev_unlock evl)
     }
   }"

subsection \<open>The contract of a queue\<close>

datatype 'a qop = Put 'a | Get

text \<open>A sequence of operations: what is taken out, in order, and the contents left.  The specification
  has no result when a full queue gets an element or an empty one is asked for one.\<close>

fun spec_ops :: "nat \<Rightarrow> 'a qop list \<Rightarrow> 'a list \<Rightarrow> ('a list \<times> 'a list) option" where
  "spec_ops cap [] xs = Some ([], xs)"
| "spec_ops cap (Put x # ops) xs = (if length xs < cap then spec_ops cap ops (xs @ [x]) else None)"
| "spec_ops cap (Get # ops) [] = None"
| "spec_ops cap (Get # ops) (x # xs) = do { (out, ys) \<leftarrow> spec_ops cap ops xs; Some (x # out, ys) }"

fun run_ops :: "('a \<Rightarrow> 'q \<Rightarrow> (int \<times> 'q) option) \<Rightarrow> ('q \<Rightarrow> ('a \<times> 'q) option) \<Rightarrow> 'a qop list \<Rightarrow> 'q \<Rightarrow> ('a list \<times> 'q) option" where
  "run_ops put get [] q = Some ([], q)"
| "run_ops put get (Put x # ops) q = do {
     (r, q) \<leftarrow> put x q;
     if r = 0 then run_ops put get ops q else None
   }"
| "run_ops put get (Get # ops) q = do {
     (x, q) \<leftarrow> get q;
     (out, q) \<leftarrow> run_ops put get ops q;
     Some (x # out, q)
   }"

definition gets :: "'a qop list \<Rightarrow> nat" where
  "gets ops = length (filter (\<lambda>op. op = Get) ops)"

text \<open>\<open>holds n xs q\<close>: the queue has the contents \<open>xs\<close> after \<open>n\<close> elements were taken.\<close>

locale fifo_queue =
  fixes put :: "'a \<Rightarrow> 'q \<Rightarrow> (int \<times> 'q) option"
    and get :: "'q \<Rightarrow> ('a \<times> 'q) option"
    and holds :: "nat \<Rightarrow> 'a list \<Rightarrow> 'q \<Rightarrow> bool"
    and cap :: nat
    and lim :: nat
  assumes put_ok: "holds n xs q \<Longrightarrow> length xs < cap \<Longrightarrow> \<exists>q'. put x q = Some (0, q') \<and> holds n (xs @ [x]) q'"
    and get_ok: "holds n (x # xs) q \<Longrightarrow> n < lim \<Longrightarrow> \<exists>q'. get q = Some (x, q') \<and> holds (n + 1) xs q'"
begin

lemma run_refines:
  assumes "holds n xs q" and "spec_ops cap ops xs = Some (out, ys)" and "n + gets ops \<le> lim"
  shows "\<exists>q'. run_ops put get ops q = Some (out, q') \<and> holds (n + gets ops) ys q'"
  using assms
proof (induction ops arbitrary: n xs q out)
  case Nil
  then show ?case by (auto simp: gets_def)
next
  case (Cons op ops)
  show ?case
  proof (cases op)
    case (Put x)
    then have s: "length xs < cap" "spec_ops cap ops (xs @ [x]) = Some (out, ys)" using Cons.prems(2) by (auto split: if_splits)
    then obtain q' where "put x q = Some (0, q')" "holds n (xs @ [x]) q'" using put_ok Cons.prems(1) by blast
    moreover have "gets (op # ops) = gets ops" by (simp add: gets_def Put)
    ultimately show ?thesis using Cons.IH [of n "xs @ [x]" q' out] s(2) Cons.prems(3) Put by simp
  next
    case Get
    then obtain x xs' out' where o: "xs = x # xs'" "spec_ops cap ops xs' = Some (out', ys)" "out = x # out'"
      using Cons.prems(2) by (cases xs) (auto split: bind_splits)
    have g: "gets (op # ops) = gets ops + 1" by (simp add: gets_def Get)
    obtain q' where q': "get q = Some (x, q')" "holds (n + 1) xs' q'"
      using get_ok [of n x xs' q] Cons.prems(1,3) o(1) g by auto
    then show ?thesis using Cons.IH [OF q'(2) o(2)] Cons.prems(3) Get o(3) g by auto
  qed
qed

end

subsection \<open>The queue of the code\<close>

text \<open>The contents are in the array from the start index on, around its end.\<close>

definition ring :: "nat \<Rightarrow> int list \<Rightarrow> evlist \<Rightarrow> bool" where
  "ring n xs evl \<longleftrightarrow> i1_ev evl = n \<and> n \<le> 200 \<and> i2_ev evl \<le> 200 \<and> n_ev evl = length xs \<and> length xs \<le> 200 \<and>
     length (q_ev evl) = 200 \<and> i2_ev evl mod 200 = (n + length xs) mod 200 \<and>
     (\<forall>j<length xs. q_ev evl ! ((n + j) mod 200) = xs ! j) \<and> \<not> ev_locked evl"

lemma mod_neq_less: "j < l \<Longrightarrow> l < m \<Longrightarrow> (n + j) mod m \<noteq> (n + l) mod (m :: nat)"
proof
  assume "j < l" "l < m" "(n + j) mod m = (n + l) mod m"
  then have "m dvd (n + l) - (n + j)" using mod_eq_dvd_iff_nat [of "n + j" "n + l" m] by simp
  with \<open>j < l\<close> \<open>l < m\<close> show False by (simp add: nat_dvd_not_less)
qed

lemma ring_new: "ring 0 [] new_evlist"
  by (simp add: ring_def new_evlist_def MAX_EVENT_QUEUE_def)

lemma ring_waiting [simp]: "ring n xs (evl\<lparr>ev_waiting := b\<rparr>) = ring n xs evl"
  by (simp add: ring_def)

lemma push_ring:
  assumes "ring n xs evl" and "length xs < 200"
  shows "\<exists>evl'. push_evlist fd evl = Some (0, evl') \<and> ring n (xs @ [fd]) evl' \<and>
    ev_waiting evl' = (ev_waiting evl \<and> xs \<noteq> [])"
proof -
  note r = assms(1) [unfolded ring_def]
  define i where "i = (if i2_ev evl = 200 then 0 else i2_ev evl)"
  have i: "i < 200" "i = (n + length xs) mod 200"
  proof -
    show "i < 200" using r by (simp add: i_def)
    then show "i = (n + length xs) mod 200" using r by (auto simp: i_def)
  qed
  define evl' where "evl' = evl\<lparr>q_ev := (q_ev evl)[i := fd], i2_ev := i + 1, n_ev := length xs + 1,
    ev_waiting := ev_waiting evl \<and> xs \<noteq> []\<rparr>"
  have "push_evlist fd evl = Some (0, evl')"
    using r i assms(2)
    by (cases evl) (auto simp: push_evlist_def ev_lock_def ev_unlock_def ev_signal_def MAX_EVENT_QUEUE_def Let_def i_def evl'_def)
  moreover have "ring n (xs @ [fd]) evl'"
  proof -
    have "(i + 1) mod 200 = (n + length xs + 1) mod 200" by (simp add: i(2) mod_Suc_eq)
    moreover have "(q_ev evl)[i := fd] ! ((n + j) mod 200) = (xs @ [fd]) ! j" if "j < length xs + 1" for j
      using that r i mod_neq_less [of j "length xs" 200 n] assms(2) by (auto simp: nth_append less_Suc_eq nth_list_update)
    ultimately show ?thesis using r i(1) assms(2) by (simp add: ring_def evl'_def)
  qed
  ultimately show ?thesis by (simp add: evl'_def)
qed

lemma pop_ring:
  assumes "ring n (x # xs) evl" and "n < 200"
  shows "\<exists>evl'. pop_evlist evl = Some (x, evl') \<and> ring (n + 1) xs evl' \<and> ev_waiting evl' = ev_waiting evl"
proof -
  note r = assms(1) [unfolded ring_def]
  have "q_ev evl ! ((n + 0) mod 200) = (x # xs) ! 0" using r by (metis length_greater_0_conv list.distinct(1))
  then have x: "q_ev evl ! n = x" using assms(2) by simp
  define evl' where "evl' = evl\<lparr>i1_ev := n + 1, n_ev := length xs\<rparr>"
  have "pop_evlist evl = Some (x, evl')"
    using r x assms(2) by (cases evl) (auto simp: pop_evlist_def ev_lock_def ev_unlock_def evl'_def)
  moreover have "ring (n + 1) xs evl'"
  proof -
    have "q_ev evl ! ((n + 1 + j) mod 200) = xs ! j" if "j < length xs" for j
      using r that by (metis add.assoc add.commute Suc_less_eq length_Cons nth_Cons_Suc plus_1_eq_Suc)
    then show ?thesis using r assms(2) by (simp add: ring_def evl'_def)
  qed
  ultimately show ?thesis by (simp add: evl'_def)
qed

interpretation eq: fifo_queue push_evlist pop_evlist ring 200 200
proof
  show "\<exists>q'. push_evlist x q = Some (0, q') \<and> ring n (xs @ [x]) q'" if "ring n xs q" "length xs < 200" for n xs q x
    using push_ring [OF that] by blast
  show "\<exists>q'. pop_evlist q = Some (x, q') \<and> ring (n + 1) xs q'" if "ring n (x # xs) q" "n < 200" for n x xs q
    using pop_ring [OF that] by blast
qed

subsection \<open>Properties\<close>

text \<open>Property C30: the queue is first-in first-out for the first 200 events taken.  Every sequence of
  \<^verbatim>\<open>push_evlist\<close> and \<^verbatim>\<open>pop_evlist\<close> on a new queue that never overflows or underflows and takes at most 200
  events returns what an ideal queue returns and leaves its contents.\<close>

theorem evlist_is_fifo:
  assumes "spec_ops MAX_EVENT_QUEUE ops [] = Some (out, ys)" and "gets ops \<le> MAX_EVENT_QUEUE"
  shows "\<exists>evl. run_ops push_evlist pop_evlist ops new_evlist = Some (out, evl) \<and> n_ev evl = length ys \<and>
    (ys \<noteq> [] \<and> gets ops < MAX_EVENT_QUEUE \<longrightarrow> map_option fst (pop_evlist evl) = Some (hd ys))"
proof -
  obtain evl where evl: "run_ops push_evlist pop_evlist ops new_evlist = Some (out, evl)" "ring (gets ops) ys evl"
    using eq.run_refines [OF ring_new, of ops out ys] assms by (auto simp: MAX_EVENT_QUEUE_def)
  moreover have "map_option fst (pop_evlist evl) = Some (hd ys)" if "ys \<noteq> []" "gets ops < 200"
    using pop_ring [of "gets ops" "hd ys" "tl ys" evl] evl(2) that by auto
  moreover have "n_ev evl = length ys" using evl(2) by (simp add: ring_def)
  ultimately show ?thesis by (auto simp: MAX_EVENT_QUEUE_def)
qed

theorem evlist_is_fifo_witness:
  "\<exists>evl. run_ops push_evlist pop_evlist [Put 5, Put 7, Get, Put 9, Get] new_evlist = Some ([5, 7], evl) \<and> n_ev evl = 1"
proof -
  have "spec_ops MAX_EVENT_QUEUE [Put 5, Put 7, Get, Put 9, Get] [] = Some ([5, 7], [9 :: int])" by (simp add: MAX_EVENT_QUEUE_def)
  from evlist_is_fifo [OF this] show ?thesis by (auto simp: gets_def MAX_EVENT_QUEUE_def)
qed

text \<open>The 201st event is not found.  After 200 events have been taken, in whatever order they were put in,
  \<^verbatim>\<open>pop_evlist\<close> of a queue that is not empty reads outside the array.\<close>

theorem pop_beyond_end:
  assumes "spec_ops MAX_EVENT_QUEUE ops [] = Some (out, ys)" and "gets ops = MAX_EVENT_QUEUE" and "ys \<noteq> []"
  shows "\<exists>evl. run_ops push_evlist pop_evlist ops new_evlist = Some (out, evl) \<and> n_ev evl \<noteq> 0 \<and> pop_evlist evl = None"
proof -
  obtain evl where evl: "run_ops push_evlist pop_evlist ops new_evlist = Some (out, evl)" "ring 200 ys evl"
    using eq.run_refines [OF ring_new, of ops out ys] assms(1,2) by (auto simp: MAX_EVENT_QUEUE_def)
  then have "pop_evlist evl = None" using assms(3) by (simp add: pop_evlist_def ev_lock_def ring_def c_nth_def)
  then show ?thesis using evl assms(3) by (auto simp: ring_def)
qed

lemma spec_put_get: "0 < cap \<Longrightarrow> spec_ops cap (concat (map (\<lambda>x. [Put x, Get]) xs) @ ops) [] =
    (case spec_ops cap ops [] of None \<Rightarrow> None | Some (out, ys) \<Rightarrow> Some (xs @ out, ys))"
  by (induction xs) (auto split: option.splits)

lemma gets_put_get: "gets (concat (map (\<lambda>x. [Put x, Get]) xs) @ ops) = length xs + gets ops"
  by (induction xs) (auto simp: gets_def)

theorem pop_beyond_end_witness:
  "\<exists>evl. run_ops push_evlist pop_evlist (concat (map (\<lambda>x. [Put x, Get]) (replicate 200 8)) @ [Put 9]) new_evlist =
     Some (replicate 200 8, evl) \<and> pop_evlist evl = None"
proof -
  let ?ops = "concat (map (\<lambda>x. [Put x, Get]) (replicate 200 8)) @ [Put 9] :: int qop list"
  have "spec_ops MAX_EVENT_QUEUE ?ops [] = Some (replicate 200 8, [9])"
    by (simp only: spec_put_get MAX_EVENT_QUEUE_def zero_less_numeral) (simp add: MAX_EVENT_QUEUE_def)
  moreover have "gets ?ops = MAX_EVENT_QUEUE" by (simp only: gets_put_get) (simp add: gets_def MAX_EVENT_QUEUE_def)
  ultimately show ?thesis using pop_beyond_end by blast
qed

text \<open>An overflow or underflow blocks the queue for good.  \<^verbatim>\<open>push_evlist\<close> on a full queue and
  \<^verbatim>\<open>pop_evlist\<close> on an empty one return an error with the mutex held; no later call on the queue returns.\<close>

theorem error_keeps_lock:
  assumes "\<not> ev_locked evl" and "r = (if full then push_evlist fd evl else pop_evlist evl)"
    and "n_ev evl = (if full then MAX_EVENT_QUEUE else 0)"
  shows "\<exists>evl'. r = Some (-1, evl') \<and> (\<forall>fd'. push_evlist fd' evl' = None) \<and> pop_evlist evl' = None"
  using assms by (cases full) (simp_all add: push_evlist_def pop_evlist_def ev_lock_def)

theorem error_keeps_lock_witness:
  "\<exists>evl'. pop_evlist new_evlist = Some (-1, evl') \<and> (\<forall>fd'. push_evlist fd' evl' = None) \<and> pop_evlist evl' = None"
  by (rule error_keeps_lock [of new_evlist _ False]) (simp_all add: new_evlist_def)

end
