(* ===== verification/EventPool.thy ===== *)
theory EventPool
  imports EventQueue
begin

text \<open>
  The threads of the example server \<^verbatim>\<open>io_epoll\<close> (\<^verbatim>\<open>mng_io.c\<close>, \<^verbatim>\<open>mng_thread.c\<close>, \<^verbatim>\<open>io_epoll_pthread.c\<close>): the
  listener accepts clients and registers their descriptors with \<^verbatim>\<open>epoll\<close>, the poller sends the ready
  descriptors through a message queue to the scheduler, which deals them out to the queues of four workers
  in turn; a worker takes the events of its queue and receives from the descriptor of the client slot.

  The first part models the functions, the second the threads as the relations \<open>other_step\<close> and \<open>worker_step\<close>, whose steps are
  the parts of the threads between the points where they can be interrupted: a whole critical section, or a
  read of shared memory without the mutex.  The list of registered descriptors stands for the kernel's
  \<^verbatim>\<open>epoll\<close> object; the results of \<^verbatim>\<open>accept\<close>, \<^verbatim>\<open>epoll_wait\<close> and \<^verbatim>\<open>recv\<close> are arbitrary.  Two auxiliary lists
  per worker keep the events given to it and the events it handled, with the descriptor passed to
  \<^verbatim>\<open>recv\<close>.  A wait on a condition variable can end without a signal.  The messages are those of a machine
  on which \<^verbatim>\<open>long\<close> has the size of \<^verbatim>\<open>int\<close>: the code puts the message type into the first \<^verbatim>\<open>int\<close> of its buffer.

  The properties: every worker handles its events in order and exactly once and never sleeps on a non-empty
  queue, in all interleavings; the scheduler is fair; a round of a worker handles half of its events;
  and two interleavings, one in which a new client is lost and one in which the leaving of the last client ends the
  server.
\<close>

subsection \<open>Connections\<close>

definition DFL_OPEN_MAX_FILES :: nat where "DFL_OPEN_MAX_FILES = 1024"
definition MAX_WORKER_THREAD :: nat where "MAX_WORKER_THREAD = 4"

record conninfo =
  cur_open_files :: int
  max_open_files :: int
  conn_locked :: bool
  conn_waiting :: bool

record epoll_state =
  conn :: conninfo
  interest :: "int list"

definition conn_lock :: "epoll_state \<Rightarrow> epoll_state option" where
  "conn_lock s = (if conn_locked (conn s) then None else Some (s\<lparr>conn := (conn s)\<lparr>conn_locked := True\<rparr>\<rparr>))"

definition conn_unlock :: "epoll_state \<Rightarrow> epoll_state" where
  "conn_unlock s = s\<lparr>conn := (conn s)\<lparr>conn_locked := False\<rparr>\<rparr>"

text \<open>\<open>ok\<close> says whether the kernel accepts the call of \<^verbatim>\<open>epoll_ctl\<close>; it never accepts a descriptor twice, nor
  the removal of one that is not registered.  A refused call returns with the mutex held.\<close>

definition add_efd :: "bool \<Rightarrow> int \<Rightarrow> epoll_state \<Rightarrow> (int \<times> epoll_state) option" where
  "add_efd ok fd s = do {
     s \<leftarrow> conn_lock s;
     if cur_open_files (conn s) \<ge> max_open_files (conn s) then Some (-1, conn_unlock s)
     else if \<not> ok \<or> fd \<in> set (interest s) then Some (-1, s)
     else do {
       let s = s\<lparr>interest := fd # interest s, conn := (conn s)\<lparr>cur_open_files := cur_open_files (conn s) + 1\<rparr>\<rparr>;
       let s = (if cur_open_files (conn s) = 1 then s\<lparr>conn := (conn s)\<lparr>conn_waiting := False\<rparr>\<rparr> else s);
       Some (0, conn_unlock s)
     }
   }"

definition del_efd :: "bool \<Rightarrow> int \<Rightarrow> epoll_state \<Rightarrow> (int \<times> epoll_state) option" where
  "del_efd ok fd s = do {
     s \<leftarrow> conn_lock s;
     if \<not> ok \<or> fd \<notin> set (interest s) then Some (-1, s)
     else Some (0, conn_unlock (s\<lparr>interest := remove1 fd (interest s), conn := (conn s)\<lparr>cur_open_files := cur_open_files (conn s) - 1\<rparr>\<rparr>))
   }"

text \<open>\<^verbatim>\<open>get_fdlistbyfd\<close> and the macros \<^verbatim>\<open>ADD_FDLIST\<close> and \<^verbatim>\<open>DEL_FDLIST\<close>: the field \<^verbatim>\<open>fd\<close> of a client slot.\<close>

definition get_fdlistbyfd :: "int \<Rightarrow> int list \<Rightarrow> int option" where
  "get_fdlistbyfd fd fdl = (if fd < 0 then None else c_nth fdl (nat fd))"

definition ADD_FDLIST :: "int \<Rightarrow> int list \<Rightarrow> int list option" where
  "ADD_FDLIST fd fdl = do { _ \<leftarrow> get_fdlistbyfd fd fdl; Some (fdl[nat fd := fd]) }"

definition DEL_FDLIST :: "int \<Rightarrow> int list \<Rightarrow> int list option" where
  "DEL_FDLIST fd fdl = do { _ \<leftarrow> get_fdlistbyfd fd fdl; Some (fdl[nat fd := -1]) }"

subsection \<open>The scheduler\<close>

text \<open>\<^verbatim>\<open>start_iosched\<close>: the events of one message; \<^verbatim>\<open>idx_rr\<close> is the next worker.  The result of \<^verbatim>\<open>push_evlist\<close> is
  only reported.\<close>

definition next_worker :: "nat \<Rightarrow> nat" where
  "next_worker idx_rr = (if idx_rr = MAX_WORKER_THREAD then 0 else idx_rr)"

fun distribute :: "nat \<Rightarrow> int list \<Rightarrow> evlist list \<Rightarrow> (nat \<times> evlist list) option" where
  "distribute idx_rr [] evls = Some (idx_rr, evls)"
| "distribute idx_rr (ev # evs) evls = do {
     let w = next_worker idx_rr;
     evl \<leftarrow> c_nth evls w;
     (r, evl) \<leftarrow> push_evlist ev evl;
     distribute (w + 1) evs (evls[w := evl])
   }"

text \<open>\<^verbatim>\<open>start_poller\<close>: the message of one poll.  A ready descriptor is an event with the flag \<^verbatim>\<open>EPOLLIN\<close> or
  without; the place of an event without it keeps what was there.  The buffer has 200 places for events.\<close>

fun poll_message :: "(int \<times> bool) list \<Rightarrow> nat \<Rightarrow> int list \<Rightarrow> int list option" where
  "poll_message [] i buf = Some (take i buf)"
| "poll_message ((fd, epollin) # evs) i buf =
     (if epollin then do { c_assert (i < length buf); poll_message evs (i + 1) (buf[i := fd]) }
      else poll_message evs (i + 1) buf)"

definition start_poller :: "int list \<Rightarrow> (int \<times> bool) list \<Rightarrow> int list option" where
  "start_poller a_mq_buf evs = do {
     c_assert (length evs \<le> MAX_EVENT_QUEUE);
     poll_message evs 0 a_mq_buf
   }"

subsection \<open>A worker\<close>

lemma pop_n_ev: "pop_evlist evl = Some (fd, evl') \<Longrightarrow> n_ev evl' = n_ev evl - 1"
  by (auto simp: pop_evlist_def ev_lock_def ev_unlock_def split: if_splits bind_splits)

text \<open>The loop over the events of a round, without other threads: \<open>i\<close> counts up while \<^verbatim>\<open>pop_evlist\<close> counts the
  events down.\<close>

function worker_loop :: "nat \<Rightarrow> evlist \<Rightarrow> (int list \<times> evlist) option" where
  "worker_loop i evl =
     (if i < n_ev evl then do {
        (fd, evl') \<leftarrow> pop_evlist evl;
        (fds, evl'') \<leftarrow> worker_loop (i + 1) evl';
        Some (fd # fds, evl'')
      }
      else Some ([], evl))"
  by pat_completeness auto

termination by (relation "measure (\<lambda>(i, evl). n_ev evl)") (auto dest: pop_n_ev)

declare worker_loop.simps [simp del]

text \<open>What a worker does with the descriptor of a slot: \<open>n_recv\<close> is the result of \<^verbatim>\<open>recv\<close>, and a connection that
  is closed is removed.  A failed removal ends the program.\<close>

definition handle_event :: "int \<Rightarrow> int \<Rightarrow> epoll_state \<Rightarrow> int list \<Rightarrow> (epoll_state \<times> int list) option" where
  "handle_event n_recv d s fdl =
     (if n_recv = 0 then do {
        (r, s) \<leftarrow> del_efd True d s;
        c_assert (r = 0);
        fdl \<leftarrow> DEL_FDLIST d fdl;
        Some (s, fdl)
      }
      else Some (s, fdl))"

subsection \<open>The threads\<close>

text \<open>The poller is at the top of its loop, waits for a connection, is about to call \<^verbatim>\<open>epoll_wait\<close>, is inside the call
  with the given maximum of events, or has ended the program because the call failed.\<close>

datatype poller_pc = P_top | P_wait | P_call | P_epoll int | P_exit

datatype worker_pc = W_top | W_wait | W_loop nat | W_pop nat | W_recv nat int

record server =
  ep :: epoll_state
  fdl :: "int list"
  evls :: "evlist list"
  wpc :: "worker_pc list"
  ppc :: poller_pc
  rr :: nat
  mq :: "int list list"
  pending :: "int list"
  accepted :: "int option"
  given :: "int list list"
  handled :: "(int \<times> int) list list"

text \<open>After \<^verbatim>\<open>alloc_resources\<close> and \<^verbatim>\<open>make_threads\<close>.\<close>

definition server_init :: "int \<Rightarrow> server" where
  "server_init open_max =
     \<lparr>ep = \<lparr>conn = \<lparr>cur_open_files = 0, max_open_files = min open_max (int DFL_OPEN_MAX_FILES), conn_locked = False,
                    conn_waiting = False\<rparr>, interest = []\<rparr>,
      fdl = replicate DFL_OPEN_MAX_FILES 0,
      evls = replicate MAX_WORKER_THREAD new_evlist, wpc = replicate MAX_WORKER_THREAD W_top,
      ppc = P_top, rr = 0, mq = [], pending = [], accepted = None,
      given = replicate MAX_WORKER_THREAD [], handled = replicate MAX_WORKER_THREAD []\<rparr>"

text \<open>The listener registers a descriptor and then fills its slot.  The poller sleeps without connections, reads their
  number again, without the mutex, for the call of \<^verbatim>\<open>epoll_wait\<close>, which fails unless it is positive, and
  sends a message, which can get lost when the message queue is full.  The scheduler takes a message and deals out
  its events.\<close>

inductive other_step :: "server \<Rightarrow> server \<Rightarrow> bool" where
  listen_add: "accepted s = None \<Longrightarrow> add_efd ok fd (ep s) = Some (0, e) \<Longrightarrow> other_step s (s\<lparr>ep := e, accepted := Some fd\<rparr>)"
| listen_slot: "accepted s = Some fd \<Longrightarrow> ADD_FDLIST fd (fdl s) = Some l \<Longrightarrow> other_step s (s\<lparr>fdl := l, accepted := None\<rparr>)"
| p_sleep: "ppc s = P_top \<Longrightarrow> \<not> conn_locked (conn (ep s)) \<Longrightarrow> cur_open_files (conn (ep s)) = 0 \<Longrightarrow>
    other_step s (s\<lparr>ppc := P_wait, ep := (ep s)\<lparr>conn := (conn (ep s))\<lparr>conn_waiting := True\<rparr>\<rparr>\<rparr>)"
| p_start: "ppc s = P_top \<Longrightarrow> \<not> conn_locked (conn (ep s)) \<Longrightarrow> cur_open_files (conn (ep s)) \<noteq> 0 \<Longrightarrow> other_step s (s\<lparr>ppc := P_call\<rparr>)"
| p_wake: "ppc s = P_wait \<Longrightarrow> \<not> conn_locked (conn (ep s)) \<Longrightarrow>
    other_step s (s\<lparr>ppc := P_call, ep := (ep s)\<lparr>conn := (conn (ep s))\<lparr>conn_waiting := False\<rparr>\<rparr>\<rparr>)"
| p_call: "ppc s = P_call \<Longrightarrow> other_step s (s\<lparr>ppc := P_epoll (cur_open_files (conn (ep s)))\<rparr>)"
| p_fail: "ppc s = P_epoll n \<Longrightarrow> n \<le> 0 \<Longrightarrow> other_step s (s\<lparr>ppc := P_exit\<rparr>)"
| poll: "ppc s = P_epoll n \<Longrightarrow> evs \<noteq> [] \<Longrightarrow> int (length evs) \<le> n \<Longrightarrow> fst ` set evs \<subseteq> set (interest (ep s)) \<Longrightarrow>
    length buf = MAX_EVENT_QUEUE \<Longrightarrow> start_poller buf evs = Some m \<Longrightarrow> ms = mq s @ [m] \<or> ms = mq s \<Longrightarrow>
    other_step s (s\<lparr>ppc := P_top, mq := ms\<rparr>)"
| receive: "pending s = [] \<Longrightarrow> mq s = m # ms \<Longrightarrow> other_step s (s\<lparr>pending := m, mq := ms\<rparr>)"
| deal: "pending s = fd # fds \<Longrightarrow> w = next_worker (rr s) \<Longrightarrow> w < length (evls s) \<Longrightarrow> push_evlist fd (evls s ! w) = Some (r, evl) \<Longrightarrow>
    other_step s (s\<lparr>pending := fds, rr := w + 1, evls := (evls s)[w := evl], given := (given s)[w := given s ! w @ [fd]]\<rparr>)"

text \<open>A worker: it locks its queue and sleeps when it is empty, wakes up, tests the counter without the mutex, takes
  an event, handles it, and ends its round.\<close>

inductive worker_step :: "nat \<Rightarrow> server \<Rightarrow> server \<Rightarrow> bool" for w where
  w_sleep: "wpc s ! w = W_top \<Longrightarrow> \<not> ev_locked (evls s ! w) \<Longrightarrow> n_ev (evls s ! w) = 0 \<Longrightarrow>
    worker_step w s (s\<lparr>wpc := (wpc s)[w := W_wait], evls := (evls s)[w := (evls s ! w)\<lparr>ev_waiting := True\<rparr>]\<rparr>)"
| w_start: "wpc s ! w = W_top \<Longrightarrow> \<not> ev_locked (evls s ! w) \<Longrightarrow> n_ev (evls s ! w) \<noteq> 0 \<Longrightarrow>
    worker_step w s (s\<lparr>wpc := (wpc s)[w := W_loop 0]\<rparr>)"
| w_wake: "wpc s ! w = W_wait \<Longrightarrow> \<not> ev_locked (evls s ! w) \<Longrightarrow>
    worker_step w s (s\<lparr>wpc := (wpc s)[w := W_loop 0], evls := (evls s)[w := (evls s ! w)\<lparr>ev_waiting := False\<rparr>]\<rparr>)"
| w_test: "wpc s ! w = W_loop i \<Longrightarrow> i < n_ev (evls s ! w) \<Longrightarrow> worker_step w s (s\<lparr>wpc := (wpc s)[w := W_pop i]\<rparr>)"
| w_round: "wpc s ! w = W_loop i \<Longrightarrow> \<not> i < n_ev (evls s ! w) \<Longrightarrow> \<not> ev_locked (evls s ! w) \<Longrightarrow>
    worker_step w s (s\<lparr>wpc := (wpc s)[w := W_top]\<rparr>)"
| w_pop: "wpc s ! w = W_pop i \<Longrightarrow> pop_evlist (evls s ! w) = Some (fd, evl) \<Longrightarrow>
    worker_step w s (s\<lparr>wpc := (wpc s)[w := W_recv i fd], evls := (evls s)[w := evl]\<rparr>)"
| w_recv: "wpc s ! w = W_recv i fd \<Longrightarrow> get_fdlistbyfd fd (fdl s) = Some d \<Longrightarrow> handle_event n_recv d (ep s) (fdl s) = Some (e, l) \<Longrightarrow>
    worker_step w s (s\<lparr>wpc := (wpc s)[w := W_loop (i + 1)], ep := e, fdl := l, handled := (handled s)[w := handled s ! w @ [(fd, d)]]\<rparr>)"

inductive server_reach :: "int \<Rightarrow> server \<Rightarrow> bool" for open_max where
  reach_init: "server_reach open_max (server_init open_max)"
| reach_other: "server_reach open_max s \<Longrightarrow> other_step s s' \<Longrightarrow> server_reach open_max s'"
| reach_worker: "server_reach open_max s \<Longrightarrow> w < MAX_WORKER_THREAD \<Longrightarrow> worker_step w s s' \<Longrightarrow> server_reach open_max s'"

inductive_cases worker_stepE: "worker_step w s s'"
inductive_cases other_stepE: "other_step s s'"

subsection \<open>The invariant of a worker\<close>

text \<open>The events a worker has taken: those it handled and the one it is handling.\<close>

definition taken :: "worker_pc \<Rightarrow> (int \<times> int) list \<Rightarrow> int list" where
  "taken pc hs = map fst hs @ (case pc of W_recv i fd \<Rightarrow> [fd] | _ \<Rightarrow> [])"

definition good_worker :: "evlist \<Rightarrow> worker_pc \<Rightarrow> int list \<Rightarrow> (int \<times> int) list \<Rightarrow> bool" where
  "good_worker evl pc gs hs \<longleftrightarrow>
     (\<exists>xs. gs = taken pc hs @ xs \<and> ring (length (taken pc hs)) xs evl \<and>
        (ev_waiting evl \<longrightarrow> xs = [] \<and> pc = W_wait) \<and> (\<forall>i. pc = W_pop i \<longrightarrow> xs \<noteq> []))"

lemma good_worker_push:
  assumes "good_worker evl pc gs hs" and "push_evlist fd evl = Some (r, evl')" and "length gs < 200"
  shows "good_worker evl' pc (gs @ [fd]) hs"
proof -
  obtain xs where xs: "gs = taken pc hs @ xs" "ring (length (taken pc hs)) xs evl" "ev_waiting evl \<longrightarrow> xs = [] \<and> pc = W_wait"
    "\<forall>i. pc = W_pop i \<longrightarrow> xs \<noteq> []" using assms(1) by (auto simp: good_worker_def)
  have "length xs < 200" using assms(3) xs(1) by simp
  from push_ring [OF xs(2) this, of fd] assms(2) have "ring (length (taken pc hs)) (xs @ [fd]) evl'" "ev_waiting evl' = (ev_waiting evl \<and> xs \<noteq> [])"
    by auto
  then show ?thesis using xs by (auto simp: good_worker_def)
qed

lemma good_worker_pop:
  assumes "good_worker evl (W_pop i) gs hs" and "pop_evlist evl = Some (fd, evl')" and "length gs \<le> 200"
  shows "good_worker evl' (W_recv i fd) gs hs"
proof -
  obtain xs where xs: "gs = map fst hs @ xs" "ring (length hs) xs evl" "\<not> ev_waiting evl" "xs \<noteq> []"
    using assms(1) by (auto simp: good_worker_def taken_def)
  obtain x ys where x: "xs = x # ys" using xs(4) by (cases xs) auto
  have "length hs < 200" using assms(3) xs(1) x by simp
  from pop_ring [OF xs(2) [unfolded x] this] assms(2) xs(3)
  have "fd = x" "ring (length hs + 1) ys evl'" "\<not> ev_waiting evl'" by auto
  then show ?thesis using xs(1) x by (auto simp: good_worker_def taken_def)
qed

definition server_inv :: "server \<Rightarrow> bool" where
  "server_inv s \<longleftrightarrow> length (evls s) = 4 \<and> length (wpc s) = 4 \<and> length (given s) = 4 \<and> length (handled s) = 4 \<and> rr s \<le> 4 \<and>
     (\<forall>w<4. length (given s ! w) \<le> 200 \<longrightarrow> good_worker (evls s ! w) (wpc s ! w) (given s ! w) (handled s ! w))"

lemma server_inv_init: "server_inv (server_init n)"
  using ring_new by (auto simp: server_inv_def server_init_def MAX_WORKER_THREAD_def good_worker_def taken_def new_evlist_def)

lemma server_inv_other: "other_step s s' \<Longrightarrow> server_inv s \<Longrightarrow> server_inv s'"
proof (induction rule: other_step.induct)
  case (deal s fd fds w r evl)
  have w: "w < 4" using deal(3,5) by (simp add: server_inv_def)
  show ?case
    using deal(5) w good_worker_push [OF _ deal(4), of "wpc s ! w" "given s ! w" "handled s ! w"]
    by (auto simp: server_inv_def nth_list_update)
qed (auto simp: server_inv_def)

text \<open>A step of a worker changes only its own part of the state.\<close>

lemma server_inv_worker_part:
  assumes "server_inv s" and "w < 4" and "evls s' = (evls s)[w := evl]" and "wpc s' = (wpc s)[w := pc]" and "given s' = given s"
    and "handled s' = (handled s)[w := hs]" and "rr s' = rr s"
    and "length (given s ! w) \<le> 200 \<Longrightarrow> good_worker (evls s ! w) (wpc s ! w) (given s ! w) (handled s ! w) \<Longrightarrow> good_worker evl pc (given s ! w) hs"
  shows "server_inv s'"
  using assms by (auto simp: server_inv_def nth_list_update)

lemma server_inv_worker:
  assumes "worker_step w s s'" and "server_inv s" and "w < 4"
  shows "server_inv s'"
  using assms
proof (cases rule: worker_step.cases)
  case w_sleep
  then show ?thesis
    by (intro server_inv_worker_part [OF assms(2,3), where evl = "(evls s ! w)\<lparr>ev_waiting := True\<rparr>" and pc = W_wait and hs = "handled s ! w"])
      (auto simp: good_worker_def taken_def ring_def)
next
  case w_start
  then show ?thesis
    by (intro server_inv_worker_part [OF assms(2,3), where evl = "evls s ! w" and pc = "W_loop 0" and hs = "handled s ! w"])
      (auto simp: good_worker_def taken_def)
next
  case w_wake
  then show ?thesis
    by (intro server_inv_worker_part [OF assms(2,3), where evl = "(evls s ! w)\<lparr>ev_waiting := False\<rparr>" and pc = "W_loop 0" and hs = "handled s ! w"])
      (auto simp: good_worker_def taken_def)
next
  case (w_test i)
  then show ?thesis
    by (intro server_inv_worker_part [OF assms(2,3), where evl = "evls s ! w" and pc = "W_pop i" and hs = "handled s ! w"])
      (auto simp: good_worker_def taken_def ring_def)
next
  case (w_round i)
  then show ?thesis
    by (intro server_inv_worker_part [OF assms(2,3), where evl = "evls s ! w" and pc = W_top and hs = "handled s ! w"])
      (auto simp: good_worker_def taken_def)
next
  case (w_pop i fd evl)
  then show ?thesis
    using good_worker_pop [OF _ w_pop(3)]
    by (intro server_inv_worker_part [OF assms(2,3), where evl = evl and pc = "W_recv i fd" and hs = "handled s ! w"]) auto
next
  case (w_recv i fd d n e l)
  then show ?thesis
    by (intro server_inv_worker_part [OF assms(2,3), where evl = "evls s ! w" and pc = "W_loop (i + 1)" and hs = "handled s ! w @ [(fd, d)]"])
      (auto simp: good_worker_def taken_def)
qed

lemma server_inv_reach: "server_reach n s \<Longrightarrow> server_inv s"
  by (induction rule: server_reach.induct) (auto simp: server_inv_init server_inv_other server_inv_worker MAX_WORKER_THREAD_def)

subsection \<open>Runs\<close>

text \<open>Steps as actions, to compute the state after a run.\<close>

datatype action = A_listen int | A_slot | A_poller | A_poll "(int \<times> bool) list" | A_receive | A_deal | A_work nat int

fun exec :: "action \<Rightarrow> server \<Rightarrow> server option" where
  "exec (A_listen fd) s = do {
     c_assert (accepted s = None);
     (r, e) \<leftarrow> add_efd True fd (ep s);
     c_assert (r = 0);
     Some (s\<lparr>ep := e, accepted := Some fd\<rparr>)
   }"
| "exec A_slot s = do {
     fd \<leftarrow> accepted s;
     l \<leftarrow> ADD_FDLIST fd (fdl s);
     Some (s\<lparr>fdl := l, accepted := None\<rparr>)
   }"
| "exec A_poller s =
     (let c = conn (ep s) in
      case ppc s of
        P_top \<Rightarrow>
          if conn_locked c then None
          else if cur_open_files c = 0 then Some (s\<lparr>ppc := P_wait, ep := (ep s)\<lparr>conn := c\<lparr>conn_waiting := True\<rparr>\<rparr>\<rparr>)
          else Some (s\<lparr>ppc := P_call\<rparr>)
      | P_wait \<Rightarrow>
          if conn_locked c then None else Some (s\<lparr>ppc := P_call, ep := (ep s)\<lparr>conn := c\<lparr>conn_waiting := False\<rparr>\<rparr>\<rparr>)
      | P_call \<Rightarrow> Some (s\<lparr>ppc := P_epoll (cur_open_files c)\<rparr>)
      | P_epoll n \<Rightarrow> if n \<le> 0 then Some (s\<lparr>ppc := P_exit\<rparr>) else None
      | P_exit \<Rightarrow> None)"
| "exec (A_poll evs) s =
     (case ppc s of
        P_epoll n \<Rightarrow> do {
          c_assert (evs \<noteq> [] \<and> int (length evs) \<le> n \<and> list_all (\<lambda>ev. fst ev \<in> set (interest (ep s))) evs);
          m \<leftarrow> start_poller (replicate MAX_EVENT_QUEUE 0) evs;
          Some (s\<lparr>ppc := P_top, mq := mq s @ [m]\<rparr>)
        }
      | _ \<Rightarrow> None)"
| "exec A_receive s = (case (pending s, mq s) of ([], m # ms) \<Rightarrow> Some (s\<lparr>pending := m, mq := ms\<rparr>) | _ \<Rightarrow> None)"
| "exec A_deal s =
     (case pending s of
        [] \<Rightarrow> None
      | fd # fds \<Rightarrow> do {
          let w = next_worker (rr s);
          c_assert (w < length (evls s));
          (r, evl) \<leftarrow> push_evlist fd (evls s ! w);
          Some (s\<lparr>pending := fds, rr := w + 1, evls := (evls s)[w := evl], given := (given s)[w := given s ! w @ [fd]]\<rparr>)
        })"
| "exec (A_work w n_recv) s =
     (case wpc s ! w of
        W_top \<Rightarrow>
          if ev_locked (evls s ! w) then None
          else if n_ev (evls s ! w) = 0
          then Some (s\<lparr>wpc := (wpc s)[w := W_wait], evls := (evls s)[w := (evls s ! w)\<lparr>ev_waiting := True\<rparr>]\<rparr>)
          else Some (s\<lparr>wpc := (wpc s)[w := W_loop 0]\<rparr>)
      | W_wait \<Rightarrow>
          if ev_locked (evls s ! w) then None
          else Some (s\<lparr>wpc := (wpc s)[w := W_loop 0], evls := (evls s)[w := (evls s ! w)\<lparr>ev_waiting := False\<rparr>]\<rparr>)
      | W_loop i \<Rightarrow>
          if i < n_ev (evls s ! w) then Some (s\<lparr>wpc := (wpc s)[w := W_pop i]\<rparr>)
          else if ev_locked (evls s ! w) then None
          else Some (s\<lparr>wpc := (wpc s)[w := W_top]\<rparr>)
      | W_pop i \<Rightarrow> do {
          (fd, evl) \<leftarrow> pop_evlist (evls s ! w);
          Some (s\<lparr>wpc := (wpc s)[w := W_recv i fd], evls := (evls s)[w := evl]\<rparr>)
        }
      | W_recv i fd \<Rightarrow> do {
          d \<leftarrow> get_fdlistbyfd fd (fdl s);
          (e, l) \<leftarrow> handle_event n_recv d (ep s) (fdl s);
          Some (s\<lparr>wpc := (wpc s)[w := W_loop (i + 1)], ep := e, fdl := l, handled := (handled s)[w := handled s ! w @ [(fd, d)]]\<rparr>)
        })"

fun exec_all :: "action list \<Rightarrow> server \<Rightarrow> server option" where
  "exec_all [] s = Some s"
| "exec_all (a # as) s = do { s \<leftarrow> exec a s; exec_all as s }"

lemma exec_work: "exec (A_work w n_recv) s = Some s' \<Longrightarrow> worker_step w s s'"
  by (auto split: worker_pc.splits if_splits bind_splits intro: worker_step.intros worker_step.intros [simplified])

lemma exec_other: "exec a s = Some s' \<Longrightarrow> (\<And>w n_recv. a \<noteq> A_work w n_recv) \<Longrightarrow> other_step s s'"
proof (cases a)
  case (A_poll evs)
  then show "exec a s = Some s' \<Longrightarrow> other_step s s'"
    by (auto split: bind_splits if_splits poller_pc.splits simp: list_all_iff intro!: other_step.poll)
next
  case A_poller
  then show "exec a s = Some s' \<Longrightarrow> other_step s s'"
    using other_step.p_call [of s] by (auto simp: Let_def split: if_splits poller_pc.splits intro: other_step.intros)
qed (auto simp: Let_def split: bind_splits if_splits list.splits intro: other_step.intros other_step.intros [simplified])

lemma exec_reach:
  assumes "server_reach n s" and "exec_all as s = Some s'" and "\<forall>w r. A_work w r \<in> set as \<longrightarrow> w < MAX_WORKER_THREAD"
  shows "server_reach n s'"
  using assms
proof (induction as arbitrary: s)
  case Nil
  then show ?case by simp
next
  case (Cons a as)
  then obtain s1 where s1: "exec a s = Some s1" "exec_all as s1 = Some s'" by (auto split: bind_splits)
  have "server_reach n s1"
  proof (cases "\<exists>w r. a = A_work w r")
    case True
    then show ?thesis using Cons.prems(1,3) s1(1) exec_work reach_worker by (metis list.set_intros(1))
  next
    case False
    then show ?thesis using Cons.prems(1) s1(1) exec_other reach_other by blast
  qed
  then show ?case using Cons.IH [OF _ s1(2)] Cons.prems(3) by fastforce
qed

text \<open>A client connects, sends, and its event is on its way to the first worker.\<close>

definition sample_run :: "action list" where
  "sample_run = [A_listen 5, A_slot, A_work 0 1, A_poller, A_poller, A_poll [(5, True)], A_receive, A_deal, A_work 0 1]"

lemma sample_reach:
  obtains s where "exec_all sample_run (server_init 1024) = Some s" "server_reach 1024 s" "given s ! 0 = [5]"
    "handled s ! 0 = []" "wpc s ! 0 = W_loop 0"
proof -
  have "map_option (\<lambda>s. (given s ! 0, handled s ! 0, wpc s ! 0)) (exec_all sample_run (server_init 1024)) = Some ([5], [], W_loop 0)"
    by code_simp
  then obtain s where s: "exec_all sample_run (server_init 1024) = Some s" "given s ! 0 = [5]" "handled s ! 0 = []" "wpc s ! 0 = W_loop 0"
    by auto
  moreover have "server_reach 1024 s"
    by (rule exec_reach [OF reach_init s(1)]) (auto simp: sample_run_def MAX_WORKER_THREAD_def)
  ultimately show thesis using that by blast
qed

subsection \<open>Properties\<close>

text \<open>Property C18: in all interleavings of the threads every worker handles the events given to it in the order in which they
  were given, each once: as long as it was given at most 200 events, what it has taken and what is
  in its queue are together the events given to it; its mutex is free, and it never takes an event from an
  empty queue.\<close>

theorem workers_lose_nothing:
  assumes "server_reach open_max s" and "w < MAX_WORKER_THREAD" and "length (given s ! w) \<le> MAX_EVENT_QUEUE"
  shows "prefix (taken (wpc s ! w) (handled s ! w)) (given s ! w) \<and>
    n_ev (evls s ! w) = length (given s ! w) - length (taken (wpc s ! w) (handled s ! w)) \<and>
    (n_ev (evls s ! w) \<noteq> 0 \<longrightarrow> map_option fst (pop_evlist (evls s ! w)) = Some (given s ! w ! length (taken (wpc s ! w) (handled s ! w)))) \<and>
    \<not> ev_locked (evls s ! w) \<and> (\<forall>i. wpc s ! w = W_pop i \<longrightarrow> n_ev (evls s ! w) \<noteq> 0)"
proof -
  have "good_worker (evls s ! w) (wpc s ! w) (given s ! w) (handled s ! w)"
    using server_inv_reach [OF assms(1)] assms(2,3) by (simp add: server_inv_def MAX_WORKER_THREAD_def MAX_EVENT_QUEUE_def)
  then obtain xs where xs: "given s ! w = taken (wpc s ! w) (handled s ! w) @ xs" "ring (length (taken (wpc s ! w) (handled s ! w))) xs (evls s ! w)"
    "\<forall>i. wpc s ! w = W_pop i \<longrightarrow> xs \<noteq> []" by (auto simp: good_worker_def)
  have "map_option fst (pop_evlist (evls s ! w)) = Some (hd xs)" if "xs \<noteq> []"
    using pop_ring [of "length (taken (wpc s ! w) (handled s ! w))" "hd xs" "tl xs" "evls s ! w"] xs(2) that
      arg_cong [OF xs(1), of length] assms(3)
    by (cases xs) (auto simp: MAX_EVENT_QUEUE_def)
  then show ?thesis using xs by (auto simp: ring_def hd_conv_nth nth_append)
qed

theorem workers_lose_nothing_witness:
  "\<exists>s. server_reach 1024 s \<and> given s ! 0 = [5] \<and> n_ev (evls s ! 0) = 1 \<and> map_option fst (pop_evlist (evls s ! 0)) = Some 5"
proof -
  obtain s where s: "server_reach 1024 s" "given s ! 0 = [5]" "handled s ! 0 = []" "wpc s ! 0 = W_loop 0" by (rule sample_reach)
  show ?thesis using workers_lose_nothing [OF s(1), of 0] s by (auto simp: taken_def MAX_WORKER_THREAD_def MAX_EVENT_QUEUE_def)
qed

text \<open>Property C19: no worker sleeps over its work, as long as it was given at most 200 events.  If such a worker has events that it has not taken, it can take a step, unless it
  is handling an event at the moment; in particular the signal of the scheduler is never lost, although
  it is sent only for the first event of an empty queue.  From the 201st event on this is not so, because the start index of the queue leaves the array.\<close>

theorem worker_makes_progress:
  assumes "server_reach open_max s" and "w < MAX_WORKER_THREAD" and "length (given s ! w) \<le> MAX_EVENT_QUEUE"
    and "taken (wpc s ! w) (handled s ! w) \<noteq> given s ! w" and "\<forall>i fd. wpc s ! w \<noteq> W_recv i fd"
  shows "(\<exists>s'. worker_step w s s') \<and> \<not> ev_waiting (evls s ! w)"
proof -
  have "good_worker (evls s ! w) (wpc s ! w) (given s ! w) (handled s ! w)"
    using server_inv_reach [OF assms(1)] assms(2,3) by (simp add: server_inv_def MAX_WORKER_THREAD_def MAX_EVENT_QUEUE_def)
  then obtain xs where xs: "given s ! w = taken (wpc s ! w) (handled s ! w) @ xs" "ring (length (taken (wpc s ! w) (handled s ! w))) xs (evls s ! w)"
    "ev_waiting (evls s ! w) \<longrightarrow> xs = []" by (auto simp: good_worker_def)
  have ne: "xs \<noteq> []" using assms(4) xs(1) by auto
  then obtain x ys where x: "xs = x # ys" by (cases xs) auto
  have free: "\<not> ev_locked (evls s ! w)" using xs(2) by (simp add: ring_def)
  have "length (taken (wpc s ! w) (handled s ! w)) < 200"
    using arg_cong [OF xs(1), of length] x assms(3) by (simp add: MAX_EVENT_QUEUE_def)
  then obtain evl where pop: "pop_evlist (evls s ! w) = Some (x, evl)" using pop_ring [OF xs(2) [unfolded x]] by auto
  have "\<exists>s'. worker_step w s s'"
  proof (cases "wpc s ! w")
    case W_top
    then show ?thesis using free w_start [of s w] w_sleep [of s w] by blast
  next
    case (W_loop i)
    then show ?thesis using free w_test [of s w i] w_round [of s w i] by blast
  next
    case (W_pop i)
    then show ?thesis using w_pop [OF _ pop] by blast
  qed (use free w_wake assms(5) in blast)+
  then show ?thesis using xs(3) ne by blast
qed

theorem worker_makes_progress_witness:
  "\<exists>s s'. server_reach 1024 s \<and> given s ! 0 = [5] \<and> worker_step 0 s s'"
proof -
  obtain s where s: "server_reach 1024 s" "given s ! 0 = [5]" "handled s ! 0 = []" "wpc s ! 0 = W_loop 0" by (rule sample_reach)
  show ?thesis using worker_makes_progress [OF s(1), of 0] s by (auto simp: taken_def MAX_WORKER_THREAD_def MAX_EVENT_QUEUE_def)
qed

text \<open>A new client can be lost.  There is an interleaving in which the event of a client that was just
  accepted is handled before the listener has filled the slot of the client: the worker receives from
  descriptor 0, and the event, which is reported once, is consumed.\<close>

theorem new_client_lost:
  "\<exists>s fd. server_reach 1024 s \<and> accepted s = Some fd \<and> fd \<noteq> 0 \<and> (fd, 0) \<in> set (handled s ! 0) \<and> n_ev (evls s ! 0) = 0"
proof -
  let ?run = "[A_listen 5, A_poller, A_poller, A_poll [(5, True)], A_receive, A_deal, A_work 0 1, A_work 0 1, A_work 0 1, A_work 0 (-1)]"
  have "map_option (\<lambda>s. (accepted s, handled s ! 0, n_ev (evls s ! 0))) (exec_all ?run (server_init 1024)) = Some (Some 5, [(5, 0)], 0)"
    by code_simp
  then obtain s where s: "exec_all ?run (server_init 1024) = Some s" "accepted s = Some 5" "handled s ! 0 = [(5, 0)]" "n_ev (evls s ! 0) = 0"
    by auto
  moreover have "server_reach 1024 s" by (rule exec_reach [OF reach_init s(1)]) (auto simp: MAX_WORKER_THREAD_def)
  ultimately show ?thesis by (intro exI [of _ s] exI [of _ 5]) auto
qed

text \<open>The server can end when its last client leaves.  There is an interleaving, without any failing
  system call before, in which the poller has seen a connection, a worker then removes it, and the poller calls
  \<^verbatim>\<open>epoll_wait\<close> for at most 0 events, which fails and ends the program.\<close>

theorem last_client_ends_server:
  "\<exists>s. server_reach 1024 s \<and> ppc s = P_epoll 0 \<and> interest (ep s) = [] \<and> other_step s (s\<lparr>ppc := P_exit\<rparr>)"
proof -
  let ?run = "[A_listen 5, A_slot, A_poller, A_poller, A_poll [(5, True)], A_poller, A_receive, A_deal,
    A_work 0 0, A_work 0 0, A_work 0 0, A_work 0 0, A_poller]"
  have "map_option (\<lambda>s. (ppc s, interest (ep s))) (exec_all ?run (server_init 1024)) = Some (P_epoll 0, [])"
    by code_simp
  then obtain s where s: "exec_all ?run (server_init 1024) = Some s" "ppc s = P_epoll 0" "interest (ep s) = []" by auto
  moreover have "server_reach 1024 s" by (rule exec_reach [OF reach_init s(1)]) (auto simp: MAX_WORKER_THREAD_def)
  ultimately show ?thesis using other_step.p_fail [OF s(2)] by auto
qed

text \<open>The connections.\<close>

definition conn_inv :: "epoll_state \<Rightarrow> bool" where
  "conn_inv e \<longleftrightarrow> distinct (interest e) \<and> cur_open_files (conn e) = int (length (interest e)) \<and> \<not> conn_locked (conn e)"

lemma add_efd_inv:
  "add_efd ok fd e = Some (0, e') \<Longrightarrow> conn_inv e \<Longrightarrow>
     conn_inv e' \<and> cur_open_files (conn e') \<le> max_open_files (conn e') \<and> max_open_files (conn e') = max_open_files (conn e)"
  by (auto simp: add_efd_def conn_inv_def conn_lock_def conn_unlock_def Let_def split: if_splits)

lemma del_efd_inv:
  "del_efd ok fd e = Some (0, e') \<Longrightarrow> conn_inv e \<Longrightarrow>
     conn_inv e' \<and> cur_open_files (conn e') = cur_open_files (conn e) - 1 \<and> max_open_files (conn e') = max_open_files (conn e)"
  by (auto simp: del_efd_def conn_inv_def conn_lock_def conn_unlock_def length_remove1 split: if_splits)
    (metis One_nat_def Suc_leI length_pos_if_in_set of_nat_1 of_nat_diff)

lemma handle_event_inv:
  "handle_event n_recv d e sl = Some (e', sl') \<Longrightarrow> conn_inv e \<Longrightarrow>
     conn_inv e' \<and> cur_open_files (conn e') \<le> cur_open_files (conn e) \<and> max_open_files (conn e') = max_open_files (conn e)"
  by (auto simp: handle_event_def split: if_splits bind_splits dest!: del_efd_inv)

lemma conn_inv_reach:
  assumes "server_reach n s" and "0 \<le> n"
  shows "conn_inv (ep s) \<and> cur_open_files (conn (ep s)) \<le> max_open_files (conn (ep s)) \<and> max_open_files (conn (ep s)) = min n 1024"
  using assms(1)
proof (induction rule: server_reach.induct)
  case reach_init
  then show ?case using assms(2) by (simp add: server_init_def conn_inv_def DFL_OPEN_MAX_FILES_def)
next
  case (reach_other s s')
  from reach_other(2,3) show ?case by (cases rule: other_step.cases) (auto simp: conn_inv_def dest: add_efd_inv [unfolded conn_inv_def])
next
  case (reach_worker s w s')
  from reach_worker(3,4) show ?case by (cases rule: worker_step.cases) (auto dest: handle_event_inv)
qed

text \<open>The number of connections is right.  In all interleavings \<^verbatim>\<open>cur_open_files\<close> is the number of registered
  descriptors, no descriptor is registered twice, and there are never more than the limit; the mutex of the
  connections is free whenever no thread is in a critical section.\<close>

theorem connections_counted:
  assumes "server_reach open_max s" and "0 \<le> open_max"
  shows "cur_open_files (conn (ep s)) = int (length (interest (ep s))) \<and> distinct (interest (ep s)) \<and>
    length (interest (ep s)) \<le> DFL_OPEN_MAX_FILES \<and> int (length (interest (ep s))) \<le> open_max \<and> \<not> conn_locked (conn (ep s))"
  using conn_inv_reach [OF assms] by (auto simp: conn_inv_def DFL_OPEN_MAX_FILES_def)

theorem connections_counted_witness:
  "\<exists>s. server_reach 1024 s \<and> cur_open_files (conn (ep s)) = int (length (interest (ep s))) \<and> given s ! 0 = [5]"
proof -
  obtain s where s: "server_reach 1024 s" "given s ! 0 = [5]" by (rule sample_reach)
  show ?thesis using connections_counted [OF s(1)] s by auto
qed

text \<open>The share of a worker in the events of a message: those whose position is its own, modulo the number of
  workers.\<close>

fun share :: "nat \<Rightarrow> nat \<Rightarrow> 'a list \<Rightarrow> 'a list" where
  "share idx w [] = []"
| "share idx w (e # es) = (if idx mod 4 = w then [e] else []) @ share (idx + 1) w es"

lemma share_cong: "idx mod 4 = idx' mod 4 \<Longrightarrow> share idx w es = share idx' w es"
proof (induction es arbitrary: idx idx')
  case (Cons e es)
  then have "(idx + 1) mod 4 = (idx' + 1) mod 4" by (metis mod_add_left_eq)
  then show ?case using Cons by (metis share.simps(2))
qed simp

lemma share_four: "w < 4 \<Longrightarrow> length (share idx w (a # b # c # d # es)) = Suc (length (share idx w es))"
proof -
  assume w: "w < 4"
  have "share (Suc (Suc (Suc (Suc idx)))) w es = share idx w es" by (rule share_cong) simp
  moreover have "idx mod 4 = 0 \<or> idx mod 4 = 1 \<or> idx mod 4 = 2 \<or> idx mod 4 = 3" by linarith
  moreover have "w = 0 \<or> w = 1 \<or> w = 2 \<or> w = 3" using w by linarith
  ultimately show ?thesis by (elim disjE) (simp_all add: mod_Suc)
qed

text \<open>The shares of the workers differ by at most one event.\<close>

lemma share_fair: "w < 4 \<Longrightarrow> length es div 4 \<le> length (share idx w es) \<and> length (share idx w es) \<le> (length es + 3) div 4"
proof (induction es rule: length_induct)
  case (1 es)
  show ?case
  proof (cases "length es < 4")
    case True
    then consider "es = []" | a where "es = [a]" | a b where "es = [a, b]" | a b c where "es = [a, b, c]"
      by (cases es; cases "tl es"; cases "tl (tl es)"; cases "tl (tl (tl es))") auto
    then show ?thesis by cases (auto simp: mod_Suc)
  next
    case False
    then obtain a b c d es' where es: "es = a # b # c # d # es'"
      by (cases es; cases "tl es"; cases "tl (tl es)"; cases "tl (tl (tl es))") auto
    then have "length es' div 4 \<le> length (share idx w es') \<and> length (share idx w es') \<le> (length es' + 3) div 4" using 1 by auto
    moreover have "length es = 4 + length es'" "length es + 3 = 4 + (length es' + 3)" using es by simp_all
    then have "length es div 4 = Suc (length es' div 4)" "(length es + 3) div 4 = Suc ((length es' + 3) div 4)"
      by (simp_all add: div_add_self1 del: add_Suc)
    ultimately show ?thesis using share_four [OF 1(2), of idx a b c d es'] es by simp
  qed
qed

lemma distribute_ring:
  assumes "length qs = 4" and "\<forall>w<4. ring (n w) (xs w) (qs ! w) \<and> length (xs w) + length (share idx w es) \<le> 200" and "idx \<le> 4"
  shows "\<exists>idx' qs'. distribute idx es qs = Some (idx', qs') \<and> idx' \<le> 4 \<and> length qs' = 4 \<and>
    idx' mod 4 = (idx + length es) mod 4 \<and> (\<forall>w<4. ring (n w) (xs w @ share idx w es) (qs' ! w))"
  using assms
proof (induction es arbitrary: idx xs qs)
  case (Cons e es)
  define w where "w = next_worker idx"
  have w: "w < 4" "w = idx mod 4" using Cons.prems(3) by (auto simp: w_def next_worker_def MAX_WORKER_THREAD_def)
  have m: "(w + 1) mod 4 = (idx + 1) mod 4" by (simp add: w(2) mod_Suc_eq)
  have room: "length (xs w) < 200" using Cons.prems(2) w by fastforce
  obtain evl where evl: "push_evlist e (qs ! w) = Some (0, evl)" "ring (n w) (xs w @ [e]) evl"
    using push_ring [OF _ room, of "n w" "qs ! w" e] Cons.prems(2) w(1) by blast
  define xs' where "xs' = xs(w := xs w @ [e])"
  have sh: "share (w + 1) v es = share (idx + 1) v es" for v by (rule share_cong [OF m])
  have cap: "\<forall>v<4. ring (n v) (xs' v) (qs[w := evl] ! v) \<and> length (xs' v) + length (share (w + 1) v es) \<le> 200"
  proof (intro allI impI)
    fix v :: nat assume v: "v < 4"
    then have "ring (n v) (xs v) (qs ! v)" "length (xs v) + length (share idx v (e # es)) \<le> 200" using Cons.prems(2) by auto
    then show "ring (n v) (xs' v) (qs[w := evl] ! v) \<and> length (xs' v) + length (share (w + 1) v es) \<le> 200"
      unfolding sh using v w(1) w(2) [symmetric] evl(2) Cons.prems(1) by (cases "v = w") (auto simp: xs'_def)
  qed
  have "\<exists>idx' qs'. distribute (w + 1) es (qs[w := evl]) = Some (idx', qs') \<and> idx' \<le> 4 \<and> length qs' = 4 \<and>
      idx' mod 4 = (w + 1 + length es) mod 4 \<and> (\<forall>v<4. ring (n v) (xs' v @ share (w + 1) v es) (qs' ! v))"
    using Cons.prems(1) w(1) cap by (intro Cons.IH) simp_all
  then obtain idx' qs' where d: "distribute (w + 1) es (qs[w := evl]) = Some (idx', qs')" "idx' \<le> 4" "length qs' = 4"
    "idx' mod 4 = (w + 1 + length es) mod 4" "\<forall>v<4. ring (n v) (xs' v @ share (w + 1) v es) (qs' ! v)" by blast
  have "(w + 1 + length es) mod 4 = (idx + length (e # es)) mod 4"
    using m by (metis add.assoc length_Cons mod_add_left_eq plus_1_eq_Suc)
  moreover have "\<forall>v<4. ring (n v) (xs v @ share idx v (e # es)) (qs' ! v)" using d(5) w(2) sh by (auto simp: xs'_def)
  moreover have "distribute idx (e # es) qs = Some (idx', qs')"
    using evl(1) d(1) w(1) Cons.prems(1) by (simp add: w_def [symmetric])
  ultimately show ?case using d(2,3,4) by auto
qed simp

text \<open>The scheduler is fair.  The events of a message are dealt out in turn, beginning with the worker after the
  last one: a worker gets the events of its positions in their order, behind what it had, and the numbers
  of events of two workers differ by at most one.\<close>

theorem distribute_fair:
  assumes "length qs = MAX_WORKER_THREAD" and "idx \<le> MAX_WORKER_THREAD"
    and "\<forall>w<MAX_WORKER_THREAD. ring (n w) (xs w) (qs ! w) \<and> length (xs w) + (length es + 3) div 4 \<le> MAX_EVENT_QUEUE"
  shows "\<exists>idx' qs'. distribute idx es qs = Some (idx', qs') \<and>
    (\<forall>w<MAX_WORKER_THREAD. ring (n w) (xs w @ share idx w es) (qs' ! w) \<and>
       length es div 4 \<le> length (share idx w es) \<and> length (share idx w es) \<le> (length es + 3) div 4)"
proof -
  have "\<forall>w<4. ring (n w) (xs w) (qs ! w) \<and> length (xs w) + length (share idx w es) \<le> 200"
  proof (intro allI impI)
    fix w :: nat assume "w < 4"
    then show "ring (n w) (xs w) (qs ! w) \<and> length (xs w) + length (share idx w es) \<le> 200"
      using assms(3) share_fair [of w es idx] by (auto simp: MAX_WORKER_THREAD_def MAX_EVENT_QUEUE_def intro: le_trans)
  qed
  then obtain idx' qs' where "distribute idx es qs = Some (idx', qs')" "\<forall>w<4. ring (n w) (xs w @ share idx w es) (qs' ! w)"
    using distribute_ring [of qs n xs idx es] assms(1,2) by (auto simp: MAX_WORKER_THREAD_def)
  then show ?thesis using share_fair by (intro exI conjI) (auto simp: MAX_WORKER_THREAD_def)
qed

theorem distribute_fair_witness:
  "\<exists>idx' qs'. distribute 3 [10, 11, 12] (replicate 4 new_evlist) = Some (idx', qs') \<and> ring 0 [10] (qs' ! 3) \<and> ring 0 [11] (qs' ! 0)"
proof -
  have "\<exists>idx' qs'. distribute 3 [10, 11, 12] (replicate 4 new_evlist) = Some (idx', qs') \<and>
    (\<forall>w<MAX_WORKER_THREAD. ring 0 ([] @ share 3 w [10, 11, 12]) (qs' ! w) \<and>
       length [10, 11, 12 :: int] div 4 \<le> length (share 3 w [10, 11, 12 :: int]) \<and> length (share 3 w [10, 11, 12 :: int]) \<le> (length [10, 11, 12 :: int] + 3) div 4)"
    by (rule distribute_fair) (simp_all add: MAX_WORKER_THREAD_def MAX_EVENT_QUEUE_def ring_new)
  then obtain idx' qs' where d: "distribute 3 [10, 11, 12] (replicate 4 new_evlist) = Some (idx', qs')"
    "\<forall>w<4. ring 0 (share 3 w [10, 11, 12]) (qs' ! w)" by (auto simp: MAX_WORKER_THREAD_def)
  have "share 3 3 [10, 11, 12] = [10 :: int]" "share 3 0 [10, 11, 12] = [11 :: int]" by simp_all
  then have "ring 0 [10] (qs' ! 3)" "ring 0 [11] (qs' ! 0)" using d(2) [rule_format, of 3] d(2) [rule_format, of 0] by simp_all
  then show ?thesis using d(1) by blast
qed

lemma worker_loop_ring:
  assumes "ring n xs evl" and "n + (length xs - i + 1) div 2 \<le> 200"
  shows "\<exists>evl'. worker_loop i evl = Some (take ((length xs - i + 1) div 2) xs, evl') \<and>
    ring (n + (length xs - i + 1) div 2) (drop ((length xs - i + 1) div 2) xs) evl'"
  using assms
proof (induction "length xs" arbitrary: n xs i evl rule: less_induct)
  case less
  have n: "n_ev evl = length xs" using less.prems(1) by (simp add: ring_def)
  show ?case
  proof (cases "i < length xs")
    case False
    then have "(length xs - i + 1) div 2 = 0" by simp
    then show ?thesis using less.prems(1) False n by (subst worker_loop.simps) simp
  next
    case True
    then obtain x ys where x: "xs = x # ys" by (cases xs) auto
    have k: "(length xs - i + 1) div 2 = Suc ((length ys - (i + 1) + 1) div 2)" using True x by (cases "i < length ys") auto
    obtain e where e: "pop_evlist evl = Some (x, e)" "ring (n + 1) ys e"
      using pop_ring [of n x ys evl] less.prems x k by auto
    then obtain e' where "worker_loop (i + 1) e = Some (take ((length ys - (i + 1) + 1) div 2) ys, e')"
      "ring (n + 1 + (length ys - (i + 1) + 1) div 2) (drop ((length ys - (i + 1) + 1) div 2) ys) e'"
      using less.hyps [of ys "n + 1" e "i + 1"] less.prems(2) x k by auto
    then show ?thesis using True n e(1) x k by (subst worker_loop.simps) simp
  qed
qed

text \<open>A round ends, and handles half of the queue.  The loop of a worker compares its counter with the number of
  events left, which each event decreases: of \<open>m\<close> waiting events one round handles the first
  \<open>(m + 1) div 2\<close> in order, and leaves the others for the next round.\<close>

theorem round_handles_half:
  assumes "ring n xs evl" and "n + length xs \<le> MAX_EVENT_QUEUE"
  shows "\<exists>evl'. worker_loop 0 evl = Some (take ((length xs + 1) div 2) xs, evl') \<and> n_ev evl' = length xs div 2"
proof -
  have "n + (length xs - 0 + 1) div 2 \<le> 200" using assms(2) by (simp add: MAX_EVENT_QUEUE_def)
  moreover have "length xs - (length xs + 1) div 2 = length xs div 2" by linarith
  ultimately show ?thesis using worker_loop_ring [OF assms(1), of 0] by (auto simp: ring_def)
qed

theorem round_handles_half_witness:
  "\<exists>evl evl'. run_ops push_evlist pop_evlist [Put 5, Put 7, Put 9] new_evlist = Some ([], evl) \<and>
     worker_loop 0 evl = Some ([5, 7], evl') \<and> n_ev evl' = 1"
proof -
  have "spec_ops 200 [Put 5, Put 7, Put 9] [] = Some ([], [5, 7, 9 :: int])" by simp
  then obtain evl where evl: "run_ops push_evlist pop_evlist [Put 5, Put 7, Put 9] new_evlist = Some ([], evl)" "ring 0 [5, 7, 9] evl"
    using eq.run_refines [OF ring_new] by (fastforce simp: gets_def)
  then show ?thesis using round_handles_half [OF evl(2)] by (simp add: MAX_EVENT_QUEUE_def)
qed

end
