(* ===== verification/SocketList.thy ===== *)
theory SocketList
  imports Prelude "HOL-Library.Multiset"
begin

text \<open>
  The lists of sockets that the example servers \<^verbatim>\<open>io_poll\<close> and \<^verbatim>\<open>io_select2\<close> keep: an array of 255 entries and a
  counter.  A new descriptor goes to the end; a removed one is replaced by the last.

  The loop of \<^verbatim>\<open>del_socket\<close> is the same in both programs up to the type of an entry, so it is modelled
  once, over the descriptor \<open>key\<close> of an entry and the function \<open>clear\<close> that invalidates it.  The locale
  \<open>socket_list\<close> is the contract that the servers rely on; its lemmas are proved from the contract alone,
  and each program interprets it.
\<close>

subsection \<open>The loop of del_socket\<close>

definition MAX_FD_SOCKET :: nat where "MAX_FD_SOCKET = 255"

text \<open>The indices of the loop, the number of sockets, the array and the flag.  The loop does not stop at the first
  descriptor that it finds.\<close>

fun del_loop :: "('e \<Rightarrow> int) \<Rightarrow> ('e \<Rightarrow> 'e) \<Rightarrow> int \<Rightarrow> nat \<Rightarrow> nat list \<Rightarrow> 'e list \<Rightarrow> bool \<Rightarrow> ('e list \<times> bool) option" where
  "del_loop key clear fd cnt [] es flag = Some (es, flag)"
| "del_loop key clear fd cnt (i # is) es flag = do {
     e \<leftarrow> c_nth es i;
     if key e = fd then do {
       last \<leftarrow> c_nth es (cnt - 1);
       let es = (if i \<noteq> cnt - 1 then es[i := last] else es);
       let es = es[cnt - 1 := clear (es ! (cnt - 1))];
       del_loop key clear fd cnt is es True
     }
     else del_loop key clear fd cnt is es flag
   }"

lemma del_loop_skip:
  "(\<forall>i\<in>set is. i < length es \<and> key (es ! i) \<noteq> fd) \<Longrightarrow> del_loop key clear fd cnt is es flag = Some (es, flag)"
  by (induction "is") auto

text \<open>The entry at a position is replaced by the last one.\<close>

definition swap_out :: "nat \<Rightarrow> 'a list \<Rightarrow> 'a list" where
  "swap_out j xs = (if j = length xs - 1 then butlast xs else (butlast xs)[j := last xs])"

lemma length_swap_out [simp]: "length (swap_out j xs) = length xs - 1"
  by (simp add: swap_out_def)

lemma mset_swap_out:
  assumes "j < length xs"
  shows "mset (swap_out j xs) = mset xs - {#xs ! j#}"
proof -
  have ne: "xs \<noteq> []" using assms by auto
  then have split: "mset xs = mset (butlast xs) + {#last xs#}"
    by (metis append_butlast_last_id mset_append mset_single_iff_right)
  show ?thesis
  proof (cases "j = length xs - 1")
    case True
    then show ?thesis using split ne by (simp add: swap_out_def last_conv_nth)
  next
    case False
    then have j: "j < length (butlast xs)" using assms by simp
    then have "mset ((butlast xs)[j := last xs]) = add_mset (last xs) (mset (butlast xs) - {#butlast xs ! j#})"
      by (rule mset_update)
    moreover have "butlast xs ! j = xs ! j" using j by (simp add: nth_butlast)
    moreover have "xs ! j \<in># mset (butlast xs)" using nth_mem [OF j] calculation(2) by simp
    ultimately show ?thesis using split False by (simp add: swap_out_def)
  qed
qed

lemma set_swap_out: "j < length xs \<Longrightarrow> distinct xs \<Longrightarrow> set (swap_out j xs) = set xs - {xs ! j}"
  using mset_swap_out [of j xs] by (metis distinct_count_atmost_1 distinct_remove1 mset_remove1 set_mset_mset set_remove1_eq)

lemma distinct_swap_out: "j < length xs \<Longrightarrow> distinct xs \<Longrightarrow> distinct (swap_out j xs)"
  using mset_swap_out [of j xs] by (metis distinct_remove1 mset_eq_imp_distinct_iff mset_remove1)

lemma map_swap_out: "map f (swap_out j xs) = swap_out j (map f xs)"
  by (cases "xs = []") (auto simp: swap_out_def map_butlast map_update last_map)

text \<open>What is left to look at after the entry at the current position was removed: the entries behind it.\<close>

lemma drop_swap_out:
  assumes "j < length xs"
  shows "mset (drop j (swap_out j xs)) = mset (drop (Suc j) xs)"
proof (cases "j = length xs - 1")
  case True
  then show ?thesis by (simp add: swap_out_def)
next
  case False
  then have j: "Suc j < length xs" using assms by simp
  then have "drop j (swap_out j xs) = last xs # drop (Suc j) (butlast xs)"
    using False by (simp add: swap_out_def drop_update_swap Cons_nth_drop_Suc [symmetric] nth_butlast)
  moreover have "drop (Suc j) xs = drop (Suc j) (butlast xs) @ [last xs]"
    using j by (metis append_butlast_last_id butlast_drop drop_eq_Nil last_drop not_le)
  ultimately show ?thesis by simp
qed

lemma take_swap_out: "j < length xs \<Longrightarrow> k \<le> j \<Longrightarrow> take k (swap_out j xs) = take k xs"
  by (auto simp: swap_out_def take_butlast)

text \<open>The list after an entry was written behind its end.\<close>

lemma take_Suc_write: "i < length xs \<Longrightarrow> take (Suc i) (xs[i := x]) = take i xs @ [x]"
  by (simp add: take_Suc_conv_app_nth)

lemma del_loop_append:
  "del_loop key clear fd cnt (is @ js) es flag = do {
     (es, flag) \<leftarrow> del_loop key clear fd cnt is es flag;
     del_loop key clear fd cnt js es flag }"
  by (induction "is" arbitrary: es flag) (auto simp: Let_def split: bind_splits)

lemma del_loop_found:
  assumes cnt: "cnt \<le> length es" and j: "j < cnt" "key (es ! j) = fd" and uniq: "\<And>i. i < cnt \<Longrightarrow> key (es ! i) = fd \<Longrightarrow> i = j"
    and clear: "\<And>e. key (clear e) \<noteq> fd"
  shows "\<exists>es'. del_loop key clear fd cnt [0..<cnt] es False = Some (es', True) \<and> length es' = length es \<and>
    take (cnt - 1) es' = swap_out j (take cnt es)"
proof -
  have split: "[0..<cnt] = [0..<j] @ j # [Suc j..<cnt]"
    using j(1) by (metis le_add1 less_imp_add_positive upt_add_eq_append upt_conv_Cons zero_le)
  define es1 where "es1 = (if j \<noteq> cnt - 1 then es[j := es ! (cnt - 1)] else es)"
  define es2 where "es2 = es1[cnt - 1 := clear (es1 ! (cnt - 1))]"
  have len: "length es2 = length es" by (simp add: es2_def es1_def)
  have "del_loop key clear fd cnt [0..<j] es False = Some (es, False)"
    using cnt j(1) uniq less_trans by (intro del_loop_skip) (auto, blast)
  moreover have "key (es2 ! i) \<noteq> fd" if "j < i" "i < cnt" for i
    using that cnt uniq [of i] clear by (auto simp: es2_def es1_def nth_list_update)
  then have "del_loop key clear fd cnt [Suc j..<cnt] es2 True = Some (es2, True)"
    using cnt len by (intro del_loop_skip) auto
  ultimately have "del_loop key clear fd cnt [0..<cnt] es False = Some (es2, True)"
    using cnt j by (simp add: split del_loop_append es2_def es1_def Let_def split: if_splits)
  moreover have "last (take cnt es) = es ! (cnt - 1)" using cnt j(1) by (cases cnt) (auto simp: take_Suc_conv_app_nth)
  then have "take (cnt - 1) es2 = swap_out j (take cnt es)"
    using cnt j(1) by (auto simp: es2_def es1_def swap_out_def butlast_take take_update_swap list_update_beyond)
  ultimately show ?thesis using len by blast
qed

lemma del_loop_missing:
  "cnt \<le> length es \<Longrightarrow> (\<And>i. i < cnt \<Longrightarrow> key (es ! i) \<noteq> fd) \<Longrightarrow> del_loop key clear fd cnt [0..<cnt] es False = Some (es, False)"
  by (rule del_loop_skip) auto

subsection \<open>The contract\<close>

text \<open>Operations on the list: a descriptor that \<^verbatim>\<open>accept\<close> gave is added, another one is removed.\<close>

datatype sock_op = Add int | Del int

fun run_socks :: "(int \<Rightarrow> 's \<Rightarrow> (int \<times> 's) option) \<Rightarrow> (int \<Rightarrow> 's \<Rightarrow> (int \<times> 's) option) \<Rightarrow> sock_op list \<Rightarrow> 's \<Rightarrow> 's option" where
  "run_socks add del [] s = Some s"
| "run_socks add del (Add fd # ops) s = do { (r, s) \<leftarrow> add fd s; run_socks add del ops s }"
| "run_socks add del (Del fd # ops) s = do { (r, s) \<leftarrow> del fd s; run_socks add del ops s }"

text \<open>The set of sockets, of at most \<open>cap\<close> elements.  The kernel never gives out a descriptor that is in use.\<close>

fun set_ops :: "nat \<Rightarrow> sock_op list \<Rightarrow> int set \<Rightarrow> int set" where
  "set_ops cap [] S = S"
| "set_ops cap (Add fd # ops) S = set_ops cap ops (if card S < cap then insert fd S else S)"
| "set_ops cap (Del fd # ops) S = set_ops cap ops (S - {fd})"

fun fresh_ops :: "nat \<Rightarrow> sock_op list \<Rightarrow> int set \<Rightarrow> bool" where
  "fresh_ops cap [] S \<longleftrightarrow> True"
| "fresh_ops cap (Add fd # ops) S \<longleftrightarrow> 0 \<le> fd \<and> fd \<notin> S \<and> fresh_ops cap ops (if card S < cap then insert fd S else S)"
| "fresh_ops cap (Del fd # ops) S \<longleftrightarrow> 0 \<le> fd \<and> fresh_ops cap ops (S - {fd})"

locale socket_list =
  fixes fds :: "'s \<Rightarrow> int list" and inv :: "'s \<Rightarrow> bool"
    and add :: "int \<Rightarrow> 's \<Rightarrow> (int \<times> 's) option" and del :: "int \<Rightarrow> 's \<Rightarrow> (int \<times> 's) option" and cap :: nat
  assumes fds_ok: "inv s \<Longrightarrow> distinct (fds s) \<and> length (fds s) \<le> cap"
    and add_law: "inv s \<Longrightarrow> 0 \<le> fd \<Longrightarrow> fd \<notin> set (fds s) \<Longrightarrow> length (fds s) < cap \<Longrightarrow>
      \<exists>s'. add fd s = Some (int (length (fds s)) + 1, s') \<and> inv s' \<and> fds s' = fds s @ [fd]"
    and add_full: "inv s \<Longrightarrow> length (fds s) = cap \<Longrightarrow> add fd s = Some (-1, s)"
    and del_law: "inv s \<Longrightarrow> j < length (fds s) \<Longrightarrow>
      \<exists>s'. del (fds s ! j) s = Some (int (length (fds s)), s') \<and> inv s' \<and> fds s' = swap_out j (fds s)"
    and del_missing: "inv s \<Longrightarrow> 0 \<le> fd \<Longrightarrow> fd \<notin> set (fds s) \<Longrightarrow> \<exists>s'. del fd s = Some (-1, s') \<and> inv s' \<and> fds s' = fds s"
begin

lemma card_fds: "inv s \<Longrightarrow> card (set (fds s)) = length (fds s)"
  using fds_ok distinct_card by blast

lemma del_set:
  assumes "inv s" and "0 \<le> fd"
  shows "\<exists>r s'. del fd s = Some (r, s') \<and> inv s' \<and> set (fds s') = set (fds s) - {fd} \<and> (r = -1 \<longleftrightarrow> fd \<notin> set (fds s))"
proof (cases "fd \<in> set (fds s)")
  case True
  then obtain j where j: "j < length (fds s)" "fds s ! j = fd" by (auto simp: in_set_conv_nth)
  from del_law [OF assms(1) j(1)] obtain s' where "del fd s = Some (int (length (fds s)), s')" "inv s'" "fds s' = swap_out j (fds s)"
    unfolding j(2) by blast
  then show ?thesis using set_swap_out [OF j(1)] fds_ok [OF assms(1)] j True by auto
next
  case False
  then show ?thesis using del_missing [OF assms] by fastforce
qed

lemma add_set:
  assumes "inv s" and "0 \<le> fd" and "fd \<notin> set (fds s)"
  shows "\<exists>r s'. add fd s = Some (r, s') \<and> inv s' \<and> set (fds s') = (if card (set (fds s)) < cap then insert fd (set (fds s)) else set (fds s))"
proof (cases "length (fds s) < cap")
  case True
  then show ?thesis using add_law [OF assms] card_fds [OF assms(1)] by auto
next
  case False
  then show ?thesis using add_full [OF assms(1)] fds_ok [OF assms(1)] card_fds [OF assms(1)] assms(1) by auto
qed

text \<open>Every sequence of operations behaves as on a bounded set.\<close>

lemma run_set:
  "inv s \<Longrightarrow> fresh_ops cap ops (set (fds s)) \<Longrightarrow>
   \<exists>s'. run_socks add del ops s = Some s' \<and> inv s' \<and> set (fds s') = set_ops cap ops (set (fds s))"
proof (induction ops arbitrary: s)
  case (Cons op ops)
  show ?case
  proof (cases op)
    case (Add fd)
    then have "0 \<le> fd" "fd \<notin> set (fds s)" using Cons.prems(2) by simp_all
    from add_set [OF Cons.prems(1) this] obtain r s1 where "add fd s = Some (r, s1)" "inv s1"
      "set (fds s1) = (if card (set (fds s)) < cap then insert fd (set (fds s)) else set (fds s))" by blast
    then show ?thesis using Cons.IH [of s1] Cons.prems(2) Add by simp
  next
    case (Del fd)
    then have "0 \<le> fd" using Cons.prems(2) by simp
    from del_set [OF Cons.prems(1) this] obtain r s1 where "del fd s = Some (r, s1)" "inv s1"
      "set (fds s1) = set (fds s) - {fd}" by blast
    then show ?thesis using Cons.IH [of s1] Cons.prems(2) Del by simp
  qed
qed auto

text \<open>The first entry, the listening socket, stays first as long as it is not removed.\<close>

lemma del_first:
  assumes "inv s" and "0 < j" and "j < length (fds s)"
  shows "\<exists>r s'. del (fds s ! j) s = Some (r, s') \<and> fds s' ! 0 = fds s ! 0 \<and> fds s' \<noteq> []"
proof -
  obtain s' where s': "del (fds s ! j) s = Some (int (length (fds s)), s')" "fds s' = swap_out j (fds s)"
    using del_law [OF assms(1,3)] by blast
  have "take 1 (fds s') = take 1 (fds s)" unfolding s'(2) using assms(2,3) by (intro take_swap_out) auto
  moreover have "0 < length (fds s')" using assms(2,3) by (simp add: s'(2))
  ultimately have "fds s' ! 0 = fds s ! 0" by (metis nth_take less_numeral_extra(1))
  then show ?thesis using s'(1) \<open>0 < length (fds s')\<close> by auto
qed

end

end
