(* ===== verification/PollServer.thy ===== *)
theory PollServer
  imports SocketList
begin

text \<open>
  The server of \<^verbatim>\<open>io_poll.c\<close>: one thread that waits in \<^verbatim>\<open>poll\<close>, accepts all waiting connections or reads once from
  every readable socket, and removes the sockets that the peer has closed while it walks over the list.

  The kernel is a parameter: the descriptors that \<^verbatim>\<open>accept\<close> gives before it fails, what \<^verbatim>\<open>poll\<close> returns and
  writes, and the result of each \<^verbatim>\<open>recv\<close> as a function of the calls made before.  The program is the build without
  \<^verbatim>\<open>ENABLE_MSG_OOB\<close>; what it prints is not modelled.
\<close>

subsection \<open>The state\<close>

definition POLLIN :: "16 word" where "POLLIN = 0x1"
definition POLLERR :: "16 word" where "POLLERR = 0x8"
definition POLLNVAL :: "16 word" where "POLLNVAL = 0x20"

record pollfd =
  pfd :: int
  pevents :: "16 word"
  prevents :: "16 word"

record poll_state =
  pollfds :: "pollfd list"
  poll_cnt :: nat
  poll_closed :: "int list"

definition poll_init :: poll_state where
  "poll_init = \<lparr>pollfds = replicate MAX_FD_SOCKET \<lparr>pfd = 0, pevents = 0, prevents = 0\<rparr>, poll_cnt = 0, poll_closed = []\<rparr>"

subsection \<open>add_socket and del_socket\<close>

definition poll_add_socket :: "int \<Rightarrow> poll_state \<Rightarrow> (int \<times> poll_state) option" where
  "poll_add_socket fd s =
     (if poll_cnt s < MAX_FD_SOCKET then do {
        e \<leftarrow> c_nth (pollfds s) (poll_cnt s);
        let s' = s\<lparr>pollfds := (pollfds s)[poll_cnt s := e\<lparr>pfd := fd, pevents := POLLIN\<rparr>], poll_cnt := poll_cnt s + 1\<rparr>;
        Some (int (poll_cnt s'), s')
      } else Some (-1, s))"

definition poll_del_socket :: "int \<Rightarrow> poll_state \<Rightarrow> (int \<times> poll_state) option" where
  "poll_del_socket fd s = do {
     let s = s\<lparr>poll_closed := poll_closed s @ [fd]\<rparr>;
     (es, flag) \<leftarrow> del_loop pfd (pfd_update (\<lambda>_. -1)) fd (poll_cnt s) [0..<poll_cnt s] (pollfds s) False;
     let i = int (poll_cnt s);
     let s = s\<lparr>pollfds := es\<rparr>;
     if \<not> flag then Some (-1, s) else Some (i, s\<lparr>poll_cnt := poll_cnt s - 1\<rparr>)
   }"

subsection \<open>The main loop\<close>

text \<open>The descriptors that \<^verbatim>\<open>accept\<close> gives before it returns -1, with any \<^verbatim>\<open>errno\<close>.\<close>

fun poll_accept :: "int list \<Rightarrow> poll_state \<Rightarrow> poll_state option" where
  "poll_accept [] s = Some s"
| "poll_accept (fd # fds) s = do { (r, s) \<leftarrow> poll_add_socket fd s; poll_accept fds s }"

text \<open>The loop over the sockets behind the listener, with the calls of \<^verbatim>\<open>recv\<close> made so far and their results.\<close>

function poll_serve :: "((int \<times> int) list \<Rightarrow> int \<Rightarrow> int) \<Rightarrow> nat \<Rightarrow> int \<Rightarrow> poll_state \<Rightarrow> (int \<times> int) list \<Rightarrow>
    (poll_state \<times> (int \<times> int) list) option" where
  "poll_serve recv i ret_poll s log =
     (if i < poll_cnt s \<and> 0 < ret_poll then do {
        e \<leftarrow> c_nth (pollfds s) i;
        if prevents e AND POLLIN \<noteq> 0 then do {
          let n_recv = recv log (pfd e);
          let log = log @ [(pfd e, n_recv)];
          if n_recv = 0 then do {
            (r, s) \<leftarrow> poll_del_socket (pfd e) s;
            poll_serve recv i (ret_poll - 1) s log
          }
          else poll_serve recv (i + 1) (ret_poll - 1) s log
        }
        else if prevents e AND POLLERR \<noteq> 0 then poll_serve recv (i + 1) (ret_poll - 1) s log
        else if prevents e AND POLLNVAL \<noteq> 0 then poll_serve recv (i + 1) (ret_poll - 1) s log
        else poll_serve recv (i + 1) ret_poll s log
      }
      else Some (s, log))"
  by pat_completeness auto
termination
  by (relation "inv_image (measure nat <*lex*> measure id) (\<lambda>(recv, i, ret_poll, s, log). (ret_poll, poll_cnt s - i))")
     (auto simp: c_nth_def)

declare poll_serve.simps [simp del]

text \<open>\<^verbatim>\<open>poll\<close> writes the \<^verbatim>\<open>revents\<close> of the first \<open>poll_cnt\<close> entries.\<close>

definition poll_write :: "(int \<Rightarrow> 16 word) \<Rightarrow> poll_state \<Rightarrow> poll_state" where
  "poll_write re s = s\<lparr>pollfds := map (\<lambda>e. e\<lparr>prevents := re (pfd e)\<rparr>) (take (poll_cnt s) (pollfds s)) @ drop (poll_cnt s) (pollfds s)\<rparr>"

text \<open>One iteration of the main loop.\<close>

definition poll_round :: "int \<Rightarrow> (int \<Rightarrow> 16 word) \<Rightarrow> int list \<Rightarrow> ((int \<times> int) list \<Rightarrow> int \<Rightarrow> int) \<Rightarrow> poll_state \<Rightarrow>
    (poll_state \<times> (int \<times> int) list) option" where
  "poll_round ret_poll re accepted recv s = do {
     let s = poll_write re s;
     e \<leftarrow> c_nth (pollfds s) 0;
     if prevents e AND POLLIN \<noteq> 0 then do { s \<leftarrow> poll_accept accepted s; Some (s, []) }
     else poll_serve recv 1 ret_poll s []
   }"

subsection \<open>The list of sockets\<close>

definition entries :: "poll_state \<Rightarrow> pollfd list" where
  "entries s = take (poll_cnt s) (pollfds s)"

definition poll_fds :: "poll_state \<Rightarrow> int list" where
  "poll_fds s = map pfd (entries s)"

definition poll_inv :: "poll_state \<Rightarrow> bool" where
  "poll_inv s \<longleftrightarrow> length (pollfds s) = MAX_FD_SOCKET \<and> poll_cnt s \<le> MAX_FD_SOCKET \<and> distinct (poll_fds s) \<and> (\<forall>fd\<in>set (poll_fds s). 0 \<le> fd)"

lemma length_entries: "poll_inv s \<Longrightarrow> length (entries s) = poll_cnt s"
  by (simp add: poll_inv_def entries_def)

lemma length_poll_fds [simp]: "poll_inv s \<Longrightarrow> length (poll_fds s) = poll_cnt s"
  by (simp add: poll_fds_def length_entries)

lemma nth_entries: "poll_inv s \<Longrightarrow> i < poll_cnt s \<Longrightarrow> c_nth (pollfds s) i = Some (entries s ! i)"
  by (simp add: entries_def poll_inv_def)

lemma nth_poll_fds: "poll_inv s \<Longrightarrow> i < poll_cnt s \<Longrightarrow> poll_fds s ! i = pfd (entries s ! i)"
  by (simp add: poll_fds_def length_entries)

lemma poll_add_room:
  assumes "poll_inv s" and "0 \<le> fd" and "fd \<notin> set (poll_fds s)" and "poll_cnt s < MAX_FD_SOCKET"
  shows "\<exists>s'. poll_add_socket fd s = Some (int (poll_cnt s) + 1, s') \<and> poll_inv s' \<and> poll_fds s' = poll_fds s @ [fd] \<and> poll_closed s' = poll_closed s"
  using assms by (auto simp: poll_add_socket_def poll_inv_def poll_fds_def entries_def Let_def take_Suc_write)

lemma poll_del_entry:
  assumes inv: "poll_inv s" and j: "j < poll_cnt s"
  shows "\<exists>s'. poll_del_socket (pfd (entries s ! j)) s = Some (int (poll_cnt s), s') \<and> poll_inv s' \<and> poll_cnt s' = poll_cnt s - 1 \<and>
    entries s' = swap_out j (entries s) \<and> poll_closed s' = poll_closed s @ [pfd (entries s ! j)]"
proof -
  let ?fd = "pfd (entries s ! j)" and ?clear = "pfd_update (\<lambda>_. -1)"
  have len: "poll_cnt s \<le> length (pollfds s)" using inv by (simp add: poll_inv_def)
  have fd: "0 \<le> ?fd" using inv j nth_poll_fds [OF inv j] by (metis length_poll_fds nth_mem poll_inv_def)
  have e: "pfd (pollfds s ! i) = poll_fds s ! i" if "i < poll_cnt s" for i
    using that len by (simp add: poll_fds_def entries_def)
  have d: "distinct (poll_fds s)" using inv by (simp add: poll_inv_def)
  have "\<exists>es'. del_loop pfd ?clear ?fd (poll_cnt s) [0..<poll_cnt s] (pollfds s) False = Some (es', True) \<and> length es' = length (pollfds s) \<and>
      take (poll_cnt s - 1) es' = swap_out j (take (poll_cnt s) (pollfds s))"
  proof (rule del_loop_found)
    show "pfd (pollfds s ! j) = ?fd" using j by (simp add: entries_def)
    show "i = j" if "i < poll_cnt s" "pfd (pollfds s ! i) = ?fd" for i
      using that j e nth_poll_fds [OF inv j] length_poll_fds [OF inv] by (metis d nth_eq_iff_index_eq)
    show "pfd (?clear x) \<noteq> ?fd" for x :: pollfd using fd by simp
  qed (use len j in auto)
  then obtain es' where es': "del_loop pfd ?clear ?fd (poll_cnt s) [0..<poll_cnt s] (pollfds s) False = Some (es', True)"
      "length es' = length (pollfds s)" "take (poll_cnt s - 1) es' = swap_out j (entries s)"
    unfolding entries_def by blast
  have fds: "map pfd (swap_out j (entries s)) = swap_out j (poll_fds s)" by (simp add: map_swap_out poll_fds_def)
  have jl: "j < length (poll_fds s)" using inv j by simp
  let ?s' = "s\<lparr>poll_closed := poll_closed s @ [?fd], pollfds := es', poll_cnt := poll_cnt s - 1\<rparr>"
  have "poll_inv ?s'" using inv es' set_swap_out [OF jl d] distinct_swap_out [OF jl d]
    by (auto simp: poll_inv_def poll_fds_def entries_def fds [unfolded poll_fds_def entries_def])
  then show ?thesis using es' by (simp add: poll_del_socket_def entries_def)
qed

lemma poll_del_absent:
  assumes "poll_inv s" and "fd \<notin> set (poll_fds s)"
  shows "poll_del_socket fd s = Some (-1, s\<lparr>poll_closed := poll_closed s @ [fd]\<rparr>)"
proof -
  have "pfd (pollfds s ! i) \<noteq> fd" if "i < poll_cnt s" for i
    using that assms length_poll_fds [OF assms(1)] nth_poll_fds [OF assms(1) that] by (metis entries_def nth_mem nth_take)
  then have "del_loop pfd (pfd_update (\<lambda>_. -1)) fd (poll_cnt s) [0..<poll_cnt s] (pollfds s) False = Some (pollfds s, False)"
    using assms(1) by (intro del_loop_missing) (auto simp: poll_inv_def)
  then show ?thesis by (simp add: poll_del_socket_def)
qed

interpretation poll: socket_list poll_fds poll_inv poll_add_socket poll_del_socket MAX_FD_SOCKET
proof
  fix s fd assume inv: "poll_inv s"
  show "distinct (poll_fds s) \<and> length (poll_fds s) \<le> MAX_FD_SOCKET" using inv by (auto simp: poll_inv_def poll_fds_def entries_def)
  show "poll_add_socket fd s = Some (-1, s)" if "length (poll_fds s) = MAX_FD_SOCKET"
    using that inv by (simp add: poll_add_socket_def)
  show "\<exists>s'. poll_add_socket fd s = Some (int (length (poll_fds s)) + 1, s') \<and> poll_inv s' \<and> poll_fds s' = poll_fds s @ [fd]"
    if "0 \<le> fd" "fd \<notin> set (poll_fds s)" "length (poll_fds s) < MAX_FD_SOCKET"
    using poll_add_room [OF inv that(1,2)] that(3) inv by auto
  show "\<exists>s'. poll_del_socket fd s = Some (-1, s') \<and> poll_inv s' \<and> poll_fds s' = poll_fds s" if "0 \<le> fd" "fd \<notin> set (poll_fds s)"
    using poll_del_absent [OF inv that(2)] inv by (auto simp: poll_inv_def poll_fds_def entries_def)
  show "\<exists>s'. poll_del_socket (poll_fds s ! j) s = Some (int (length (poll_fds s)), s') \<and> poll_inv s' \<and> poll_fds s' = swap_out j (poll_fds s)"
    if "j < length (poll_fds s)" for j
    using poll_del_entry [OF inv, of j] that inv length_entries [OF inv] by (auto simp: map_swap_out poll_fds_def)
qed

subsection \<open>One walk over the list\<close>

definition readable :: "pollfd \<Rightarrow> bool" where
  "readable e \<longleftrightarrow> prevents e AND POLLIN \<noteq> 0"

definition signalled :: "pollfd \<Rightarrow> bool" where
  "signalled e \<longleftrightarrow> prevents e \<noteq> 0"

lemma readable_signalled: "readable e \<Longrightarrow> signalled e"
  by (auto simp: readable_def signalled_def)

text \<open>A sequence of calls of \<^verbatim>\<open>recv\<close> with the results that it gave.\<close>

fun recv_calls :: "((int \<times> int) list \<Rightarrow> int \<Rightarrow> int) \<Rightarrow> (int \<times> int) list \<Rightarrow> (int \<times> int) list \<Rightarrow> bool" where
  "recv_calls recv log [] \<longleftrightarrow> True"
| "recv_calls recv log ((fd, n) # sv) \<longleftrightarrow> n = recv log fd \<and> recv_calls recv (log @ [(fd, n)]) sv"

definition ended :: "(int \<times> int) list \<Rightarrow> int list" where
  "ended sv = map fst (filter (\<lambda>(fd, n). n = 0) sv)"

lemma ended_simps [simp]: "ended [] = []" "ended ((fd, n) # sv) = (if n = 0 then [fd] else []) @ ended sv"
  by (simp_all add: ended_def)

text \<open>What the loop does from an index on: it reads each readable entry at most once, and all of them if \<open>full\<close>.\<close>

definition serves :: "bool \<Rightarrow> ((int \<times> int) list \<Rightarrow> int \<Rightarrow> int) \<Rightarrow> nat \<Rightarrow> poll_state \<Rightarrow> (int \<times> int) list \<Rightarrow> (poll_state \<times> (int \<times> int) list) option \<Rightarrow> bool" where
  "serves full recv i s log r \<longleftrightarrow> (\<exists>s' sv. r = Some (s', log @ sv) \<and> poll_inv s' \<and> take i (poll_fds s') = take i (poll_fds s) \<and>
     recv_calls recv log sv \<and> mset (map fst sv) \<subseteq># image_mset pfd (filter_mset readable (mset (drop i (entries s)))) \<and>
     (full \<longrightarrow> mset (map fst sv) = image_mset pfd (filter_mset readable (mset (drop i (entries s))))) \<and>
     set (poll_fds s') = set (poll_fds s) - set (ended sv) \<and> poll_closed s' = poll_closed s @ ended sv)"

lemma serves_stop: "poll_inv s \<Longrightarrow> (full \<longrightarrow> filter_mset readable (mset (drop i (entries s))) = {#}) \<Longrightarrow> serves full recv i s log (Some (s, log))"
  by (auto simp: serves_def)

lemma drop_entries: "poll_inv s \<Longrightarrow> i < poll_cnt s \<Longrightarrow> mset (drop i (entries s)) = add_mset (entries s ! i) (mset (drop (Suc i) (entries s)))"
  by (metis Cons_nth_drop_Suc length_entries mset.simps(2))

lemma take_eq_le: "take (Suc i) xs = take (Suc i) ys \<Longrightarrow> take i xs = take i ys"
  by (metis le_Suc_eq min.absorb1 order_refl take_take)

lemma serves_skip:
  assumes "serves full recv (Suc i) s log r" and "poll_inv s" and "i < poll_cnt s" and "\<not> readable (entries s ! i)"
  shows "serves full recv i s log r"
proof -
  have "filter_mset readable (mset (drop i (entries s))) = filter_mset readable (mset (drop (Suc i) (entries s)))"
    using assms by (simp add: drop_entries)
  then show ?thesis using assms(1) take_eq_le unfolding serves_def by metis
qed

lemma serves_read:
  assumes r: "serves full recv (Suc i) s (log @ [(fd, n)]) r" and inv: "poll_inv s" and i: "i < poll_cnt s" "readable (entries s ! i)"
    and fd: "fd = pfd (entries s ! i)" "n = recv log fd" "n \<noteq> 0"
  shows "serves full recv i s log r"
proof -
  obtain s' sv where sv: "r = Some (s', (log @ [(fd, n)]) @ sv)" "poll_inv s'" "take (Suc i) (poll_fds s') = take (Suc i) (poll_fds s)"
      "recv_calls recv (log @ [(fd, n)]) sv" "mset (map fst sv) \<subseteq># image_mset pfd (filter_mset readable (mset (drop (Suc i) (entries s))))"
      "full \<longrightarrow> mset (map fst sv) = image_mset pfd (filter_mset readable (mset (drop (Suc i) (entries s))))"
      "set (poll_fds s') = set (poll_fds s) - set (ended sv)" "poll_closed s' = poll_closed s @ ended sv"
    using r unfolding serves_def by blast
  then show ?thesis unfolding serves_def
    using take_eq_le [OF sv(3)] fd i drop_entries [OF inv i(1)] by (intro exI [of _ s'] exI [of _ "(fd, n) # sv"]) auto
qed

lemma serves_close:
  assumes r: "serves full recv i s1 (log @ [(fd, 0)]) r" and inv: "poll_inv s" and i: "i < poll_cnt s" "readable (entries s ! i)"
    and fd: "fd = pfd (entries s ! i)" "recv log fd = 0"
    and s1: "entries s1 = swap_out i (entries s)" "poll_closed s1 = poll_closed s @ [fd]"
  shows "serves full recv i s log r"
proof -
  obtain s' sv where sv: "r = Some (s', (log @ [(fd, 0)]) @ sv)" "poll_inv s'" "take i (poll_fds s') = take i (poll_fds s1)"
      "recv_calls recv (log @ [(fd, 0)]) sv" "mset (map fst sv) \<subseteq># image_mset pfd (filter_mset readable (mset (drop i (entries s1))))"
      "full \<longrightarrow> mset (map fst sv) = image_mset pfd (filter_mset readable (mset (drop i (entries s1))))"
      "set (poll_fds s') = set (poll_fds s1) - set (ended sv)" "poll_closed s' = poll_closed s1 @ ended sv"
    using r unfolding serves_def by blast
  have il: "i < length (poll_fds s)" "i < length (entries s)" using i(1) inv by (simp_all add: length_entries)
  have fds: "poll_fds s1 = swap_out i (poll_fds s)" by (simp add: poll_fds_def s1 map_swap_out)
  have "set (poll_fds s1) = set (poll_fds s) - {fd}"
    using set_swap_out [OF il(1)] poll.fds_ok [OF inv] nth_poll_fds [OF inv i(1)] by (simp add: fds fd(1))
  moreover have "mset (drop i (entries s1)) = mset (drop (Suc i) (entries s))" using drop_swap_out [OF il(2)] by (simp add: s1)
  moreover have "take i (poll_fds s1) = take i (poll_fds s)" using take_swap_out [OF il(1)] by (simp add: fds)
  ultimately show ?thesis unfolding serves_def
    using sv fd i s1(2) drop_entries [OF inv i(1)] by (intro exI [of _ s'] exI [of _ "(fd, 0) # sv"]) auto
qed

text \<open>The loop ends for every result of \<^verbatim>\<open>poll\<close>.  When \<^verbatim>\<open>poll\<close> counts no fewer entries than those that have an
  event, every readable entry is read.\<close>

lemma poll_serve_spec:
  "poll_inv s \<Longrightarrow> (full \<longrightarrow> int (size (filter_mset signalled (mset (drop i (entries s))))) \<le> ret_poll) \<Longrightarrow> serves full recv i s log (poll_serve recv i ret_poll s log)"
proof (induction recv i ret_poll s log rule: poll_serve.induct)
  case (1 recv i ret_poll s log)
  note inv = "1.prems"(1) and ret = "1.prems"(2)
  let ?e = "entries s ! i" and ?rest = "filter_mset signalled (mset (drop (Suc i) (entries s)))"
  show ?case
  proof (cases "i < poll_cnt s \<and> 0 < ret_poll")
    case False
    then have "full \<longrightarrow> filter_mset signalled (mset (drop i (entries s))) = {#}"
      using ret inv by (cases "i < poll_cnt s") (auto simp: length_entries simp flip: size_eq_0_iff_empty)
    then have "full \<longrightarrow> filter_mset readable (mset (drop i (entries s))) = {#}"
      using readable_signalled by (auto simp: filter_mset_eq_conv filter_empty_conv simp flip: mset_filter)
    then show ?thesis using False serves_stop [OF inv] by (subst poll_serve.simps) auto
  next
    case True
    then have i: "i < poll_cnt s" by simp
    note e = nth_entries [OF inv i]
    have cnt: "full \<longrightarrow> int (size ?rest) \<le> ret_poll" "signalled ?e \<Longrightarrow> full \<longrightarrow> int (size ?rest) < ret_poll"
      using ret drop_entries [OF inv i] by (auto split: if_splits)
    consider (close) "readable ?e" "recv log (pfd ?e) = 0" | (read) "readable ?e" "recv log (pfd ?e) \<noteq> 0"
      | (err) "\<not> readable ?e" "prevents ?e AND POLLERR \<noteq> 0" | (nval) "\<not> readable ?e" "prevents ?e AND POLLERR = 0" "prevents ?e AND POLLNVAL \<noteq> 0"
      | (none) "\<not> readable ?e" "prevents ?e AND POLLERR = 0" "prevents ?e AND POLLNVAL = 0" by blast
    then show ?thesis
    proof cases
      case close
      obtain s1 where s1: "poll_del_socket (pfd ?e) s = Some (int (poll_cnt s), s1)" "poll_inv s1" "entries s1 = swap_out i (entries s)"
          "poll_closed s1 = poll_closed s @ [pfd ?e]" using poll_del_entry [OF inv i] by blast
      have "full \<longrightarrow> int (size (filter_mset signalled (mset (drop i (entries s1))))) \<le> ret_poll - 1"
        using cnt close(1) readable_signalled drop_swap_out [of i "entries s"] i inv by (auto simp: s1(3) length_entries)
      then have "serves full recv i s1 (log @ [(pfd ?e, 0)]) (poll_serve recv i (ret_poll - 1) s1 (log @ [(pfd ?e, 0)]))"
        using 1(1) [OF True e _ refl refl _ s1(1) refl s1(2)] close by (simp add: readable_def)
      then show ?thesis using serves_close [where recv = recv and log = log, OF _ inv i close(1) refl close(2) s1(3,4)] True e s1(1) close
        by (subst poll_serve.simps) (simp add: readable_def)
    next
      case read
      then have "serves full recv (Suc i) s (log @ [(pfd ?e, recv log (pfd ?e))]) (poll_serve recv (i + 1) (ret_poll - 1) s (log @ [(pfd ?e, recv log (pfd ?e))]))"
        using 1(2) [OF True e _ refl refl _ inv] cnt readable_signalled by (simp add: readable_def)
      then show ?thesis using serves_read [where recv = recv and log = log, OF _ inv i read(1) refl refl read(2)] True e read by (subst poll_serve.simps) (simp add: readable_def)
    next
      case err
      then have "signalled ?e" by (auto simp: signalled_def)
      then have "serves full recv (Suc i) s log (poll_serve recv (i + 1) (ret_poll - 1) s log)"
        using 1(3) [OF True e _ err(2) inv] err(1) cnt by (simp add: readable_def)
      then show ?thesis using serves_skip [OF _ inv i err(1)] True e err by (subst poll_serve.simps) (simp add: readable_def)
    next
      case nval
      then have "signalled ?e" by (auto simp: signalled_def)
      then have "serves full recv (Suc i) s log (poll_serve recv (i + 1) (ret_poll - 1) s log)"
        using 1(4) [OF True e _ _ nval(3) inv] nval(1,2) cnt by (simp add: readable_def)
      then show ?thesis using serves_skip [OF _ inv i nval(1)] True e nval by (subst poll_serve.simps) (simp add: readable_def)
    next
      case none
      then have "serves full recv (Suc i) s log (poll_serve recv (i + 1) ret_poll s log)"
        using 1(5) [OF True e _ _ _ inv] cnt by (simp add: readable_def split: if_splits)
      then show ?thesis using serves_skip [OF _ inv i none(1)] True e none by (subst poll_serve.simps) (simp add: readable_def)
    qed
  qed
qed

subsection \<open>One round\<close>

text \<open>The documented result of \<^verbatim>\<open>poll\<close>: the number of entries that have an event.\<close>

definition poll_result :: "(int \<Rightarrow> 16 word) \<Rightarrow> int list \<Rightarrow> int" where
  "poll_result re fds = int (length (filter (\<lambda>fd. re fd \<noteq> 0) fds))"

lemma entries_poll_write: "entries (poll_write re s) = map (\<lambda>e. e\<lparr>prevents := re (pfd e)\<rparr>) (entries s)"
  by (simp add: entries_def poll_write_def min_def)

lemma poll_write_simps [simp]: "poll_cnt (poll_write re s) = poll_cnt s" "poll_closed (poll_write re s) = poll_closed s"
    "poll_fds (poll_write re s) = poll_fds s"
  by (auto simp: poll_fds_def entries_poll_write) (simp_all add: poll_write_def)

lemma poll_write_inv [simp]: "poll_inv s \<Longrightarrow> poll_inv (poll_write re s)"
  by (auto simp: poll_inv_def) (simp add: poll_write_def)

lemma entries_eq_fds: "map (\<lambda>e. P (re (pfd e))) (entries s) = map (\<lambda>fd. P (re fd)) (poll_fds s)"
  by (simp add: poll_fds_def)

lemma size_signalled:
  "int (size (filter_mset signalled (mset (drop 1 (entries (poll_write re s)))))) \<le> poll_result re (poll_fds s)"
proof -
  let ?s = "poll_write re s"
  have "size (filter_mset signalled (mset (drop 1 (entries ?s)))) = length (filter signalled (drop 1 (entries ?s)))"
    by (simp flip: mset_filter)
  also have "\<dots> = length (filter (\<lambda>fd. re fd \<noteq> 0) (drop 1 (poll_fds s)))"
    by (simp add: entries_poll_write poll_fds_def drop_map filter_map o_def signalled_def)
  also have "\<dots> \<le> length (filter (\<lambda>fd. re fd \<noteq> 0) (poll_fds s))" by (cases "poll_fds s") simp_all
  finally show ?thesis by (simp add: poll_result_def)
qed

lemma poll_round_unfold:
  assumes inv: "poll_inv s" and cnt: "0 < poll_cnt s"
  shows "poll_round ret_poll re accepted recv s =
    (if re (poll_fds s ! 0) AND POLLIN \<noteq> 0 then do { s \<leftarrow> poll_accept accepted (poll_write re s); Some (s, []) }
     else poll_serve recv 1 ret_poll (poll_write re s) [])"
proof -
  let ?s = "poll_write re s"
  have "c_nth (pollfds ?s) 0 = Some (entries ?s ! 0)" "prevents (entries ?s ! 0) = re (poll_fds s ! 0)"
    using nth_entries [OF poll_write_inv [OF inv]] cnt inv by (simp_all add: entries_poll_write length_entries nth_poll_fds)
  then show ?thesis by (simp add: poll_round_def)
qed

lemma poll_round_serves:
  assumes "poll_inv s" and "0 < poll_cnt s" and "re (poll_fds s ! 0) AND POLLIN = 0" and "full \<longrightarrow> ret_poll = poll_result re (poll_fds s)"
  shows "serves full recv 1 (poll_write re s) [] (poll_round ret_poll re accepted recv s)"
  using assms size_signalled [of re s] by (simp add: poll_round_unfold poll_serve_spec)

text \<open>Property C20: a round of the server without a new connection.  If \<^verbatim>\<open>poll\<close> returns the number of entries that have an
  event and the listener is not readable, then the round ends; \<^verbatim>\<open>recv\<close> is called exactly once for each readable socket
  behind the listener and for no other descriptor, in spite of the removals that rearrange the list during the walk; exactly
  the sockets whose \<^verbatim>\<open>recv\<close> returned 0 are closed, once each, and removed; the listener stays at index 0 and the
  list without duplicates.\<close>

theorem poll_round_reads_once:
  assumes "poll_inv s" and "0 < poll_cnt s" and "re (poll_fds s ! 0) AND POLLIN = 0"
  shows "\<exists>s' log. poll_round (poll_result re (poll_fds s)) re accepted recv s = Some (s', log) \<and> poll_inv s' \<and>
    mset (map fst log) = mset (filter (\<lambda>fd. re fd AND POLLIN \<noteq> 0) (tl (poll_fds s))) \<and> recv_calls recv [] log \<and>
    set (poll_fds s') = set (poll_fds s) - set (ended log) \<and> poll_closed s' = poll_closed s @ ended log \<and>
    poll_fds s' ! 0 = poll_fds s ! 0"
proof -
  obtain s' log where r: "poll_round (poll_result re (poll_fds s)) re accepted recv s = Some (s', log)" "poll_inv s'"
      "take 1 (poll_fds s') = take 1 (poll_fds s)" "recv_calls recv [] log"
      "mset (map fst log) = image_mset pfd (filter_mset readable (mset (drop 1 (entries (poll_write re s)))))"
      "set (poll_fds s') = set (poll_fds s) - set (ended log)" "poll_closed s' = poll_closed s @ ended log"
    using poll_round_serves [where re = re and full = True, OF assms, of "poll_result re (poll_fds s)" recv accepted] unfolding serves_def by auto
  have "mset (map fst log) = mset (filter (\<lambda>fd. re fd AND POLLIN \<noteq> 0) (tl (poll_fds s)))"
  proof -
    have "mset (map fst log) = mset (map pfd (filter readable (drop 1 (entries (poll_write re s)))))" using r(5) by simp
    also have "\<dots> = mset (filter (\<lambda>fd. re fd AND POLLIN \<noteq> 0) (tl (poll_fds s)))"
      by (simp add: entries_poll_write poll_fds_def drop_map filter_map o_def readable_def drop_Suc del: mset_map mset_filter flip: map_tl)
    finally show ?thesis .
  qed
  moreover have "0 < length (poll_fds s)" using assms by simp
  then have "poll_fds s' \<noteq> []" "poll_fds s' ! 0 = poll_fds s ! 0"
    using r(3) by (cases "poll_fds s"; cases "poll_fds s'"; simp)+
  ultimately show ?thesis using r by blast
qed

definition sample_poll :: poll_state where
  "sample_poll = \<lparr>pollfds = map (\<lambda>fd. \<lparr>pfd = fd, pevents = POLLIN, prevents = 0\<rparr>) ([3, 4, 5, 6] @ replicate 251 0), poll_cnt = 4, poll_closed = []\<rparr>"

text \<open>Sockets 4, 5 and 6 behind listener 3; 4 and 6 were closed by their peers, so 6 moves to the place of 4.\<close>

theorem poll_round_reads_once_witness:
  "\<exists>s' log. poll_round (poll_result (\<lambda>fd. if fd = 3 then 0 else 1) (poll_fds sample_poll)) (\<lambda>fd. if fd = 3 then 0 else 1) [] (\<lambda>_ fd. if fd = 5 then 7 else 0) sample_poll = Some (s', log) \<and>
     poll_inv s' \<and> mset (map fst log) = {#4, 5, 6#}"
proof -
  have fds: "poll_fds sample_poll = [3, 4, 5, 6]" by (simp add: sample_poll_def poll_fds_def entries_def)
  then have "poll_inv sample_poll" by (simp add: poll_inv_def) (simp add: sample_poll_def MAX_FD_SOCKET_def)
  from poll_round_reads_once [where re = "\<lambda>fd. if fd = 3 then 0 else 1", OF this, of "[]" "\<lambda>_ fd. if fd = 5 then 7 else 0"]
  show ?thesis by (auto simp: fds) (auto simp: sample_poll_def POLLIN_def)
qed

subsection \<open>The whole run\<close>

lemma poll_accept_spec:
  assumes "poll_inv s" and "distinct accepted" and "\<forall>fd\<in>set accepted. 0 \<le> fd" and "set accepted \<inter> set (poll_fds s) = {}"
  shows "\<exists>s'. poll_accept accepted s = Some s' \<and> poll_inv s' \<and> poll_fds s' = poll_fds s @ take (MAX_FD_SOCKET - poll_cnt s) accepted \<and> poll_closed s' = poll_closed s"
  using assms
proof (induction accepted arbitrary: s)
  case (Cons fd fds)
  show ?case
  proof (cases "poll_cnt s < MAX_FD_SOCKET")
    case True
    obtain s1 where s1: "poll_add_socket fd s = Some (int (poll_cnt s) + 1, s1)" "poll_inv s1" "poll_fds s1 = poll_fds s @ [fd]" "poll_closed s1 = poll_closed s"
      using poll_add_room [OF Cons.prems(1) _ _ True, of fd] Cons.prems by auto
    have "poll_cnt s1 = Suc (poll_cnt s)" using s1(2,3) Cons.prems(1) by (metis length_append_singleton length_poll_fds)
    then have "MAX_FD_SOCKET - poll_cnt s = Suc (MAX_FD_SOCKET - poll_cnt s1)" using True by simp
    then show ?thesis using Cons.IH [of s1] Cons.prems s1 by auto
  next
    case False
    then have "poll_add_socket fd s = Some (-1, s)" by (simp add: poll_add_socket_def)
    then show ?thesis using Cons.IH [of s] Cons.prems False by simp
  qed
qed simp

text \<open>The server and the descriptors that its process has open: it starts with the listener, \<^verbatim>\<open>accept\<close> opens a descriptor
  that is not open, \<^verbatim>\<open>close\<close> ends one.\<close>

definition closed_in :: "poll_state \<Rightarrow> poll_state \<Rightarrow> int set" where
  "closed_in s s' = set (drop (length (poll_closed s)) (poll_closed s'))"

inductive poll_reach :: "int \<Rightarrow> poll_state \<Rightarrow> int set \<Rightarrow> bool" for listener where
  start: "0 \<le> listener \<Longrightarrow> poll_add_socket listener poll_init = Some (r, s) \<Longrightarrow> poll_reach listener s {listener}"
| connect: "poll_reach listener s opened \<Longrightarrow> re listener AND POLLIN \<noteq> 0 \<Longrightarrow> distinct accepted \<Longrightarrow> \<forall>fd\<in>set accepted. 0 \<le> fd \<and> fd \<notin> opened \<Longrightarrow>
    poll_round ret_poll re accepted recv s = Some (s', log) \<Longrightarrow> poll_reach listener s' (opened \<union> set accepted)"
| data: "poll_reach listener s opened \<Longrightarrow> re listener AND POLLIN = 0 \<Longrightarrow>
    poll_round ret_poll re [] recv s = Some (s', log) \<Longrightarrow> poll_reach listener s' (opened - closed_in s s')"

definition poll_ok :: "int \<Rightarrow> poll_state \<Rightarrow> int set \<Rightarrow> bool" where
  "poll_ok listener s opened \<longleftrightarrow> poll_inv s \<and> 0 < poll_cnt s \<and> poll_fds s ! 0 = listener \<and> set (poll_fds s) \<subseteq> opened"

lemma poll_ok_connect:
  assumes "poll_ok listener s opened" and "re listener AND POLLIN \<noteq> 0" and "distinct accepted" and "\<forall>fd\<in>set accepted. 0 \<le> fd \<and> fd \<notin> opened"
  shows "\<exists>s'. poll_round ret_poll re accepted recv s = Some (s', []) \<and> poll_ok listener s' (opened \<union> set accepted) \<and>
    poll_fds s' = poll_fds s @ take (MAX_FD_SOCKET - poll_cnt s) accepted"
proof -
  let ?w = "poll_write re s"
  have inv: "poll_inv s" "0 < poll_cnt s" "poll_fds s ! 0 = listener" "set (poll_fds s) \<subseteq> opened" using assms(1) by (auto simp: poll_ok_def)
  then have ne: "0 < length (poll_fds s)" by simp
  obtain s' where s': "poll_accept accepted ?w = Some s'" "poll_inv s'" "poll_fds s' = poll_fds s @ take (MAX_FD_SOCKET - poll_cnt s) accepted"
    using poll_accept_spec [of ?w accepted] assms inv by auto
  then have "poll_cnt s' = poll_cnt s + length (take (MAX_FD_SOCKET - poll_cnt s) accepted)" using inv(1) by (metis length_append length_poll_fds)
  moreover have "set (take (MAX_FD_SOCKET - poll_cnt s) accepted) \<subseteq> set accepted" by (rule set_take_subset)
  ultimately have "poll_ok listener s' (opened \<union> set accepted)" using s' inv ne by (auto simp: poll_ok_def nth_append)
  then show ?thesis using s' inv assms(2) by (simp add: poll_round_unfold)
qed

lemma poll_ok_data:
  assumes "poll_ok listener s opened" and "re listener AND POLLIN = 0"
  shows "\<exists>s' log. poll_round ret_poll re accepted recv s = Some (s', log) \<and> poll_ok listener s' (opened - closed_in s s') \<and>
    set (poll_fds s') = set (poll_fds s) - closed_in s s'"
proof -
  have inv: "poll_inv s" "0 < poll_cnt s" "poll_fds s ! 0 = listener" "set (poll_fds s) \<subseteq> opened" using assms(1) by (auto simp: poll_ok_def)
  obtain s' log where r: "poll_round ret_poll re accepted recv s = Some (s', log)" "poll_inv s'" "take 1 (poll_fds s') = take 1 (poll_fds s)"
      "set (poll_fds s') = set (poll_fds s) - set (ended log)" "poll_closed s' = poll_closed s @ ended log"
    using poll_round_serves [where re = re and full = False, OF inv(1,2), of ret_poll recv accepted] assms(2) inv(3) unfolding serves_def by auto
  have "0 < length (poll_fds s)" using inv by simp
  then have "0 < length (poll_fds s')" "poll_fds s' ! 0 = listener"
    using r(3) inv(3) by (cases "poll_fds s"; cases "poll_fds s'"; simp)+
  then show ?thesis using r inv by (auto simp: poll_ok_def closed_in_def)
qed

lemma poll_ok_start: "0 \<le> listener \<Longrightarrow> \<exists>s. poll_add_socket listener poll_init = Some (1, s) \<and> poll_ok listener s {listener}"
proof -
  assume "0 \<le> listener"
  have "poll_inv poll_init" "poll_fds poll_init = []" "poll_cnt poll_init = 0"
    by (simp_all add: poll_inv_def poll_fds_def entries_def poll_init_def)
  with poll_add_room [of poll_init listener] \<open>0 \<le> listener\<close> obtain s where
    "poll_add_socket listener poll_init = Some (1, s)" "poll_inv s" "poll_fds s = [listener]" by (auto simp: MAX_FD_SOCKET_def)
  then show ?thesis by (auto simp: poll_ok_def) (metis length_Cons length_poll_fds zero_less_Suc)
qed

lemma poll_reach_ok: "poll_reach listener s opened \<Longrightarrow> poll_ok listener s opened"
proof (induction rule: poll_reach.induct)
  case (start r s)
  then show ?case using poll_ok_start by force
next
  case (connect s opened re accepted ret_poll recv s' log)
  then show ?case using poll_ok_connect [where re = re, OF connect.IH connect.hyps(2-4), of ret_poll recv] by force
next
  case (data s opened re ret_poll recv s' log)
  then show ?case using poll_ok_data [where re = re, OF data.IH data.hyps(2), of ret_poll "[]" recv] by force
qed

text \<open>Property C21: in every state that the poll server reaches, whatever \<^verbatim>\<open>poll\<close>, \<^verbatim>\<open>accept\<close> and \<^verbatim>\<open>recv\<close> returned, the
  list holds at most 255 different descriptors, all of them open, and the listener is the first; and the next round never reads
  or writes outside the array and ends, for every result of the kernel.\<close>

theorem poll_server_invariant:
  assumes "poll_reach listener s opened" and "distinct accepted" and "\<forall>fd\<in>set accepted. 0 \<le> fd \<and> fd \<notin> opened"
  shows "distinct (poll_fds s) \<and> length (poll_fds s) \<le> 255 \<and> set (poll_fds s) \<subseteq> opened \<and> poll_fds s ! 0 = listener \<and>
    (\<exists>s' log. poll_round ret_poll re accepted recv s = Some (s', log))"
proof -
  have ok: "poll_ok listener s opened" using assms(1) by (rule poll_reach_ok)
  then have "poll_inv s" by (simp add: poll_ok_def)
  from poll.fds_ok [OF this] have "distinct (poll_fds s) \<and> length (poll_fds s) \<le> 255" by (simp add: MAX_FD_SOCKET_def)
  moreover have "\<exists>s' log. poll_round ret_poll re accepted recv s = Some (s', log)"
    using poll_ok_connect [where re = re, OF ok _ assms(2,3)] poll_ok_data [where re = re, OF ok] by (cases "re listener AND POLLIN = 0") blast+
  ultimately show ?thesis using ok by (simp add: poll_ok_def)
qed

theorem poll_server_invariant_witness:
  "\<exists>s. poll_reach 3 s {3} \<and> length (poll_fds s) \<le> 255 \<and> (\<exists>s' log. poll_round 1 (\<lambda>_. 1) [4, 5] (\<lambda>_ _. 0) s = Some (s', log))"
proof -
  obtain s where "poll_add_socket 3 poll_init = Some (1, s)" using poll_ok_start [of 3] by auto
  then have "poll_reach 3 s {3}" by (intro poll_reach.start) auto
  with poll_server_invariant [OF this, of "[4, 5]" 1 "\<lambda>_. 1" "\<lambda>_ _. 0"] show ?thesis by auto
qed

end
