(* ===== verification/SelectServer.thy ===== *)
theory SelectServer
  imports PollServer
begin

text \<open>
  The servers of \<^verbatim>\<open>io_select.c\<close> and \<^verbatim>\<open>io_select2.c\<close>: the same list of sockets without the events, a set of descriptors of
  1024 bits that is rebuilt before every \<^verbatim>\<open>select\<close>, and a walk over the list that, unlike that of \<^verbatim>\<open>io_poll.c\<close>, goes on
  with the next index after a removal.  The two programs differ in how they accept connections: one for each round, or all
  that wait.

  \<^verbatim>\<open>FD_SET\<close> and \<^verbatim>\<open>FD_ISSET\<close> are undefined for a descriptor that does not fit the set.
\<close>

subsection \<open>The list\<close>

record select_state =
  fd_socket :: "int list"
  select_cnt :: nat
  select_closed :: "int list"

definition select_init :: select_state where
  "select_init = \<lparr>fd_socket = replicate MAX_FD_SOCKET (-1), select_cnt = 0, select_closed = []\<rparr>"

definition select_add_socket :: "int \<Rightarrow> select_state \<Rightarrow> (int \<times> select_state) option" where
  "select_add_socket fd s =
     (if select_cnt s < MAX_FD_SOCKET then do {
        c_nth (fd_socket s) (select_cnt s);
        let s' = s\<lparr>fd_socket := (fd_socket s)[select_cnt s := fd], select_cnt := select_cnt s + 1\<rparr>;
        Some (int (select_cnt s'), s')
      } else Some (-1, s))"

definition select_del_socket :: "int \<Rightarrow> select_state \<Rightarrow> (int \<times> select_state) option" where
  "select_del_socket fd s = do {
     let s = s\<lparr>select_closed := select_closed s @ [fd]\<rparr>;
     (es, flag) \<leftarrow> del_loop (\<lambda>e. e) (\<lambda>_. -1) fd (select_cnt s) [0..<select_cnt s] (fd_socket s) False;
     let i = int (select_cnt s);
     let s = s\<lparr>fd_socket := es\<rparr>;
     if \<not> flag then Some (-1, s) else Some (i, s\<lparr>select_cnt := select_cnt s - 1\<rparr>)
   }"

subsection \<open>Sets of descriptors\<close>

definition FD_SETSIZE :: nat where "FD_SETSIZE = 1024"

definition FD_ZERO :: "bool list" where "FD_ZERO = replicate FD_SETSIZE False"

definition FD_SET :: "int \<Rightarrow> bool list \<Rightarrow> bool list option" where
  "FD_SET fd fds = (if 0 \<le> fd \<and> nat fd < length fds then Some (fds[nat fd := True]) else None)"

definition FD_ISSET :: "int \<Rightarrow> bool list \<Rightarrow> bool option" where
  "FD_ISSET fd fds = (if 0 \<le> fd then c_nth fds (nat fd) else None)"

fun mk_loop :: "int list \<Rightarrow> int \<Rightarrow> bool list \<Rightarrow> (int \<times> bool list) option" where
  "mk_loop [] fd_max fds = Some (fd_max, fds)"
| "mk_loop (fd # rest) fd_max fds = do { fds \<leftarrow> FD_SET fd fds; mk_loop rest (max fd_max fd) fds }"

definition mk_fds :: "select_state \<Rightarrow> (int \<times> bool list) option" where
  "mk_fds s = do { used \<leftarrow> c_take (select_cnt s) (fd_socket s); mk_loop used (-1) FD_ZERO }"

subsection \<open>The main loops\<close>

lemma select_del_cnt: "select_del_socket fd s = Some (r, s') \<Longrightarrow> select_cnt s' \<le> select_cnt s"
  by (auto simp: select_del_socket_def Let_def split: bind_splits if_splits)

text \<open>The loop over the sockets behind the listener: after a removal it goes on with the next index.\<close>

function select_serve :: "((int \<times> int) list \<Rightarrow> int \<Rightarrow> int) \<Rightarrow> bool list \<Rightarrow> nat \<Rightarrow> select_state \<Rightarrow> (int \<times> int) list \<Rightarrow>
    (select_state \<times> (int \<times> int) list) option" where
  "select_serve recv fds i s log =
     (if i < select_cnt s then do {
        fd \<leftarrow> c_nth (fd_socket s) i;
        set \<leftarrow> FD_ISSET fd fds;
        if set then do {
          let n_recv = recv log fd;
          let log = log @ [(fd, n_recv)];
          if n_recv = 0 then do {
            (r, s) \<leftarrow> select_del_socket fd s;
            select_serve recv fds (i + 1) s log
          }
          else select_serve recv fds (i + 1) s log
        }
        else select_serve recv fds (i + 1) s log
      }
      else Some (s, log))"
  by pat_completeness auto
termination
  by (relation "measure (\<lambda>(recv, fds, i, s, log). select_cnt s - i)") (auto dest!: select_del_cnt)

declare select_serve.simps [simp del]

text \<open>\<^verbatim>\<open>io_select.c\<close> accepts one connection, \<^verbatim>\<open>io_select2.c\<close> all: the results of \<^verbatim>\<open>accept\<close> before it fails
  with \<^verbatim>\<open>EAGAIN\<close>, -1 for another error.\<close>

definition select_accept_one :: "int \<Rightarrow> select_state \<Rightarrow> select_state option" where
  "select_accept_one fd s = (if fd = -1 then Some s else do { (r, s) \<leftarrow> select_add_socket fd s; Some s })"

fun select_accept :: "int list \<Rightarrow> select_state \<Rightarrow> select_state option" where
  "select_accept [] s = Some s"
| "select_accept (fd # fds) s = do { (r, s) \<leftarrow> select_add_socket fd s; select_accept fds s }"

text \<open>One iteration, with what \<^verbatim>\<open>select\<close> makes of the set.\<close>

definition select1_round :: "int \<Rightarrow> (int \<Rightarrow> bool list \<Rightarrow> bool list) \<Rightarrow> int \<Rightarrow> ((int \<times> int) list \<Rightarrow> int \<Rightarrow> int) \<Rightarrow> select_state \<Rightarrow>
    (select_state \<times> (int \<times> int) list) option" where
  "select1_round fd_listener select fd recv s = do {
     (fd_biggest, fds) \<leftarrow> mk_fds s;
     let fds = select (fd_biggest + 1) fds;
     new \<leftarrow> FD_ISSET fd_listener fds;
     if new then do { s \<leftarrow> select_accept_one fd s; Some (s, []) }
     else select_serve recv fds 1 s []
   }"

definition select2_round :: "int \<Rightarrow> (int \<Rightarrow> bool list \<Rightarrow> bool list) \<Rightarrow> int list \<Rightarrow> ((int \<times> int) list \<Rightarrow> int \<Rightarrow> int) \<Rightarrow> select_state \<Rightarrow>
    (select_state \<times> (int \<times> int) list) option" where
  "select2_round fd_listener select accepted recv s = do {
     (fd_biggest, fds) \<leftarrow> mk_fds s;
     let fds = select (fd_biggest + 1) fds;
     new \<leftarrow> FD_ISSET fd_listener fds;
     if new then do { s \<leftarrow> select_accept accepted s; Some (s, []) }
     else select_serve recv fds 1 s []
   }"

subsection \<open>The contract of the list\<close>

definition select_fds :: "select_state \<Rightarrow> int list" where
  "select_fds s = take (select_cnt s) (fd_socket s)"

definition select_inv :: "select_state \<Rightarrow> bool" where
  "select_inv s \<longleftrightarrow> length (fd_socket s) = MAX_FD_SOCKET \<and> select_cnt s \<le> MAX_FD_SOCKET \<and> distinct (select_fds s) \<and> (\<forall>fd\<in>set (select_fds s). 0 \<le> fd)"

lemma length_select_fds [simp]: "select_inv s \<Longrightarrow> length (select_fds s) = select_cnt s"
  by (simp add: select_fds_def select_inv_def)

lemma nth_select_fds: "select_inv s \<Longrightarrow> i < select_cnt s \<Longrightarrow> c_nth (fd_socket s) i = Some (select_fds s ! i)"
  by (simp add: select_fds_def select_inv_def)

lemma select_del_entry:
  assumes inv: "select_inv s" and j: "j < select_cnt s"
  shows "\<exists>s'. select_del_socket (select_fds s ! j) s = Some (int (select_cnt s), s') \<and> select_inv s' \<and>
    select_fds s' = swap_out j (select_fds s) \<and> select_closed s' = select_closed s @ [select_fds s ! j]"
proof -
  let ?fd = "select_fds s ! j"
  have jl: "j < length (select_fds s)" and len: "select_cnt s \<le> length (fd_socket s)" and d: "distinct (select_fds s)"
    using inv j by (simp_all add: select_inv_def)
  have e: "fd_socket s ! i = select_fds s ! i" if "i < select_cnt s" for i using that by (simp add: select_fds_def)
  have "\<exists>es'. del_loop (\<lambda>e. e) (\<lambda>_. -1) ?fd (select_cnt s) [0..<select_cnt s] (fd_socket s) False = Some (es', True) \<and> length es' = length (fd_socket s) \<and>
      take (select_cnt s - 1) es' = swap_out j (take (select_cnt s) (fd_socket s))"
  proof (rule del_loop_found)
    show "i = j" if "i < select_cnt s" "fd_socket s ! i = ?fd" for i
      using that j e length_select_fds [OF inv] by (metis d nth_eq_iff_index_eq)
    show "- 1 \<noteq> ?fd" using inv nth_mem [OF jl] by (auto simp: select_inv_def)
  qed (use len j e in auto)
  then obtain es' where es': "del_loop (\<lambda>e. e) (\<lambda>_. -1) ?fd (select_cnt s) [0..<select_cnt s] (fd_socket s) False = Some (es', True)"
      "length es' = length (fd_socket s)" "take (select_cnt s - 1) es' = swap_out j (select_fds s)"
    unfolding select_fds_def by blast
  let ?s' = "s\<lparr>select_closed := select_closed s @ [?fd], fd_socket := es', select_cnt := select_cnt s - 1\<rparr>"
  have "select_fds ?s' = swap_out j (select_fds s)" using es'(3) by (simp add: select_fds_def)
  moreover from this have "select_inv ?s'" using inv es'(2) set_swap_out [OF jl d] distinct_swap_out [OF jl d]
    by (auto simp: select_inv_def)
  ultimately show ?thesis using es'(1) by (simp add: select_del_socket_def)
qed

lemma select_add_room:
  assumes "select_inv s" and "select_cnt s < MAX_FD_SOCKET"
  shows "\<exists>s'. select_add_socket fd s = Some (int (select_cnt s) + 1, s') \<and> select_fds s' = select_fds s @ [fd] \<and> length (fd_socket s') = MAX_FD_SOCKET \<and>
    select_cnt s' = select_cnt s + 1 \<and> select_closed s' = select_closed s"
  using assms by (simp add: select_add_socket_def select_fds_def select_inv_def take_Suc_write)

lemma select_del_absent:
  assumes "select_inv s" and "fd \<notin> set (select_fds s)"
  shows "select_del_socket fd s = Some (-1, s\<lparr>select_closed := select_closed s @ [fd]\<rparr>)"
proof -
  have "fd_socket s ! i \<noteq> fd" if "i < select_cnt s" for i
    using that assms length_select_fds [OF assms(1)] by (metis nth_mem nth_take select_fds_def)
  then have "del_loop (\<lambda>e. e) (\<lambda>_. -1) fd (select_cnt s) [0..<select_cnt s] (fd_socket s) False = Some (fd_socket s, False)"
    using assms(1) by (intro del_loop_missing) (auto simp: select_inv_def)
  then show ?thesis by (simp add: select_del_socket_def)
qed

interpretation select: socket_list select_fds select_inv select_add_socket select_del_socket MAX_FD_SOCKET
proof
  fix s fd assume inv: "select_inv s"
  show "distinct (select_fds s) \<and> length (select_fds s) \<le> MAX_FD_SOCKET" using inv by (auto simp: select_inv_def select_fds_def)
  show "select_add_socket fd s = Some (-1, s)" if "length (select_fds s) = MAX_FD_SOCKET"
    using that inv by (simp add: select_add_socket_def)
  show "\<exists>s'. select_add_socket fd s = Some (int (length (select_fds s)) + 1, s') \<and> select_inv s' \<and> select_fds s' = select_fds s @ [fd]"
    if "0 \<le> fd" "fd \<notin> set (select_fds s)" "length (select_fds s) < MAX_FD_SOCKET"
    using select_add_room [OF inv, of fd] that inv by (fastforce simp: select_inv_def)
  show "\<exists>s'. select_del_socket fd s = Some (-1, s') \<and> select_inv s' \<and> select_fds s' = select_fds s" if "0 \<le> fd" "fd \<notin> set (select_fds s)"
    using select_del_absent [OF inv that(2)] inv by (auto simp: select_inv_def select_fds_def)
  show "\<exists>s'. select_del_socket (select_fds s ! j) s = Some (int (length (select_fds s)), s') \<and> select_inv s' \<and> select_fds s' = swap_out j (select_fds s)"
    if "j < length (select_fds s)" for j
    using select_del_entry [OF inv, of j] that inv by auto
qed

subsection \<open>The set for select\<close>

lemma mk_loop_spec:
  "\<forall>fd\<in>set xs. 0 \<le> fd \<and> nat fd < length fds \<Longrightarrow>
   \<exists>fds'. mk_loop xs m fds = Some (foldl max m xs, fds') \<and> length fds' = length fds \<and>
     (\<forall>k < length fds. fds' ! k \<longleftrightarrow> fds ! k \<or> int k \<in> set xs)"
proof (induction xs arbitrary: m fds)
  case (Cons fd xs)
  then have fd: "0 \<le> fd" "nat fd < length fds" by auto
  let ?fds = "fds[nat fd := True]"
  obtain fds' where r: "mk_loop xs (max m fd) ?fds = Some (foldl max (max m fd) xs, fds')" "length fds' = length fds"
      "\<forall>k < length fds. fds' ! k \<longleftrightarrow> ?fds ! k \<or> int k \<in> set xs" using Cons.IH [of ?fds "max m fd"] Cons.prems by auto
  have "fds' ! k \<longleftrightarrow> fds ! k \<or> int k \<in> set (fd # xs)" if "k < length fds" for k
    using r(3) that fd by (cases "k = nat fd") auto
  then show ?case using r fd by (simp add: FD_SET_def)
qed simp

lemma foldl_max_ge: "(m::int) \<le> foldl max m xs \<and> (\<forall>x\<in>set xs. x \<le> foldl max m xs)"
  by (induction xs arbitrary: m) (auto simp: max_def, (metis order_trans linear)+)

lemma mk_fds_spec:
  assumes "select_inv s" and "\<forall>fd\<in>set (select_fds s). fd < 1024"
  shows "\<exists>fds. mk_fds s = Some (foldl max (-1) (select_fds s), fds) \<and> length fds = 1024 \<and> (\<forall>k < 1024. fds ! k \<longleftrightarrow> int k \<in> set (select_fds s))"
proof -
  have "c_take (select_cnt s) (fd_socket s) = Some (select_fds s)" using assms(1) by (simp add: select_inv_def select_fds_def)
  moreover have "\<forall>fd\<in>set (select_fds s). 0 \<le> fd \<and> nat fd < length FD_ZERO"
    using assms by (auto simp: select_inv_def FD_ZERO_def FD_SETSIZE_def nat_less_iff)
  from mk_loop_spec [OF this, of "-1"] obtain fds where "mk_loop (select_fds s) (-1) FD_ZERO = Some (foldl max (-1) (select_fds s), fds)"
      "length fds = 1024" "\<forall>k < 1024. fds ! k \<longleftrightarrow> int k \<in> set (select_fds s)" by (auto simp: FD_ZERO_def FD_SETSIZE_def)
  ultimately show ?thesis by (simp add: mk_fds_def)
qed

lemma mk_loop_bad: "fd \<in> set xs \<Longrightarrow> fd < 0 \<Longrightarrow> mk_loop xs m fds = None"
  by (induction xs m fds rule: mk_loop.induct) (auto simp: FD_SET_def split: bind_splits)

subsection \<open>One walk over the list\<close>

definition member :: "bool list \<Rightarrow> int \<Rightarrow> bool" where
  "member fds fd \<longleftrightarrow> 0 \<le> fd \<and> nat fd < length fds \<and> fds ! nat fd"

lemma FD_ISSET_member: "0 \<le> fd \<Longrightarrow> nat fd < length fds \<Longrightarrow> FD_ISSET fd fds = Some (member fds fd)"
  by (simp add: FD_ISSET_def member_def)

definition select_fits :: "bool list \<Rightarrow> select_state \<Rightarrow> bool" where
  "select_fits fds s \<longleftrightarrow> select_inv s \<and> (\<forall>fd\<in>set (select_fds s). nat fd < length fds)"

lemma select_fits_isset: "select_fits fds s \<Longrightarrow> i < select_cnt s \<Longrightarrow> FD_ISSET (select_fds s ! i) fds = Some (member fds (select_fds s ! i))"
  unfolding select_fits_def select_inv_def by (metis FD_ISSET_member length_select_fds nth_mem select_inv_def)

lemma drop_select_fds: "select_inv s \<Longrightarrow> i < select_cnt s \<Longrightarrow> mset (drop i (select_fds s)) = add_mset (select_fds s ! i) (mset (drop (Suc i) (select_fds s)))"
  by (metis Cons_nth_drop_Suc length_select_fds mset.simps(2))

text \<open>The walk reads members of the set at most once each, and each removal hides at most one of them.\<close>

definition walks :: "((int \<times> int) list \<Rightarrow> int \<Rightarrow> int) \<Rightarrow> bool list \<Rightarrow> nat \<Rightarrow> select_state \<Rightarrow> (int \<times> int) list \<Rightarrow> (select_state \<times> (int \<times> int) list) option \<Rightarrow> bool" where
  "walks recv fds i s log r \<longleftrightarrow> (\<exists>s' sv. r = Some (s', log @ sv) \<and> select_inv s' \<and> take i (select_fds s') = take i (select_fds s) \<and> recv_calls recv log sv \<and>
     mset (map fst sv) \<subseteq># filter_mset (member fds) (mset (drop i (select_fds s))) \<and>
     size (filter_mset (member fds) (mset (drop i (select_fds s)))) \<le> length sv + length (ended sv) \<and>
     set (select_fds s') = set (select_fds s) - set (ended sv) \<and> select_closed s' = select_closed s @ ended sv)"

lemma walks_skip:
  assumes "walks recv fds (Suc i) s log r" and "select_inv s" and "i < select_cnt s" and "\<not> member fds (select_fds s ! i)"
  shows "walks recv fds i s log r"
proof -
  have "filter_mset (member fds) (mset (drop i (select_fds s))) = filter_mset (member fds) (mset (drop (Suc i) (select_fds s)))"
    using assms by (simp add: drop_select_fds)
  then show ?thesis using assms(1) take_eq_le unfolding walks_def by metis
qed

lemma walks_read:
  assumes r: "walks recv fds (Suc i) s (log @ [(fd, n)]) r" and inv: "select_inv s" and i: "i < select_cnt s" "member fds fd"
    and fd: "fd = select_fds s ! i" "n = recv log fd" "n \<noteq> 0"
  shows "walks recv fds i s log r"
proof -
  obtain s' sv where sv: "r = Some (s', (log @ [(fd, n)]) @ sv)" "select_inv s'" "take (Suc i) (select_fds s') = take (Suc i) (select_fds s)"
      "recv_calls recv (log @ [(fd, n)]) sv" "mset (map fst sv) \<subseteq># filter_mset (member fds) (mset (drop (Suc i) (select_fds s)))"
      "size (filter_mset (member fds) (mset (drop (Suc i) (select_fds s)))) \<le> length sv + length (ended sv)"
      "set (select_fds s') = set (select_fds s) - set (ended sv)" "select_closed s' = select_closed s @ ended sv"
    using r unfolding walks_def by blast
  then show ?thesis unfolding walks_def
    using take_eq_le [OF sv(3)] fd i drop_select_fds [OF inv i(1)] by (intro exI [of _ s'] exI [of _ "(fd, n) # sv"]) auto
qed

lemma walks_close:
  assumes r: "walks recv fds (Suc i) s1 (log @ [(fd, 0)]) r" and inv: "select_inv s" and i: "i < select_cnt s" "member fds fd"
    and fd: "fd = select_fds s ! i" "recv log fd = 0"
    and s1: "select_fds s1 = swap_out i (select_fds s)" "select_closed s1 = select_closed s @ [fd]"
  shows "walks recv fds i s log r"
proof -
  let ?M = "\<lambda>xs. filter_mset (member fds) (mset xs)"
  obtain s' sv where sv: "r = Some (s', (log @ [(fd, 0)]) @ sv)" "select_inv s'" "take (Suc i) (select_fds s') = take (Suc i) (select_fds s1)"
      "recv_calls recv (log @ [(fd, 0)]) sv" "mset (map fst sv) \<subseteq># ?M (drop (Suc i) (select_fds s1))"
      "size (?M (drop (Suc i) (select_fds s1))) \<le> length sv + length (ended sv)"
      "set (select_fds s') = set (select_fds s1) - set (ended sv)" "select_closed s' = select_closed s1 @ ended sv"
    using r unfolding walks_def by blast
  have il: "i < length (select_fds s)" using i(1) inv by simp
  have "set (select_fds s1) = set (select_fds s) - {fd}"
    using set_swap_out [OF il] select.fds_ok [OF inv] by (simp add: s1(1) fd(1))
  moreover have "take i (select_fds s1) = take i (select_fds s)" using take_swap_out [OF il] by (simp add: s1(1))
  moreover have rest: "mset (drop i (select_fds s1)) = mset (drop (Suc i) (select_fds s))" using drop_swap_out [OF il] by (simp add: s1(1))
  have "mset (drop i (select_fds s1)) = mset (take 1 (drop i (select_fds s1))) + mset (drop (Suc i) (select_fds s1))"
    by (metis One_nat_def append_take_drop_id drop_drop mset_append plus_1_eq_Suc)
  then have "?M (drop (Suc i) (select_fds s)) = ?M (take 1 (drop i (select_fds s1))) + ?M (drop (Suc i) (select_fds s1))" using rest by simp
  moreover have "size (?M (take 1 (drop i (select_fds s1)))) \<le> 1" by (cases "drop i (select_fds s1)") auto
  ultimately show ?thesis unfolding walks_def
    using sv take_eq_le [OF sv(3)] fd i s1(2) drop_select_fds [OF inv i(1)]
    by (intro exI [of _ s'] exI [of _ "(fd, 0) # sv"]) (auto intro: subset_mset.order_trans)
qed

lemma select_serve_spec: "select_fits fds s \<Longrightarrow> walks recv fds i s log (select_serve recv fds i s log)"
proof (induction recv fds i s log rule: select_serve.induct)
  case (1 recv fds i s log)
  note fits = "1.prems"
  then have inv: "select_inv s" by (simp add: select_fits_def)
  let ?fd = "select_fds s ! i"
  show ?case
  proof (cases "i < select_cnt s")
    case False
    then show ?thesis using inv by (subst select_serve.simps) (auto simp: walks_def)
  next
    case True
    note e = nth_select_fds [OF inv True] select_fits_isset [OF fits True]
    consider (close) "member fds ?fd" "recv log ?fd = 0" | (read) "member fds ?fd" "recv log ?fd \<noteq> 0" | (none) "\<not> member fds ?fd" by blast
    then show ?thesis
    proof cases
      case close
      obtain s1 where s1: "select_del_socket ?fd s = Some (int (select_cnt s), s1)" "select_inv s1" "select_fds s1 = swap_out i (select_fds s)"
          "select_closed s1 = select_closed s @ [?fd]" using select_del_entry [OF inv True] by blast
      have "select_fits fds s1" using fits s1 True inv set_swap_out [of i "select_fds s"] select.fds_ok [OF inv]
        by (simp add: select_fits_def)
      then have "walks recv fds (Suc i) s1 (log @ [(?fd, 0)]) (select_serve recv fds (i + 1) s1 (log @ [(?fd, 0)]))"
        using 1(1) [OF True e _ refl refl _ s1(1) refl] close by simp
      then show ?thesis using walks_close [where recv = recv and log = log, OF _ inv True close(1) refl close(2) s1(3,4)] True e s1(1) close
        by (subst select_serve.simps) simp
    next
      case read
      then have "walks recv fds (Suc i) s (log @ [(?fd, recv log ?fd)]) (select_serve recv fds (i + 1) s (log @ [(?fd, recv log ?fd)]))"
        using 1(2) [OF True e _ refl refl _ fits] by simp
      then show ?thesis using walks_read [where recv = recv and log = log, OF _ inv True read(1) refl refl read(2)] True e read
        by (subst select_serve.simps) simp
    next
      case none
      then have "walks recv fds (Suc i) s log (select_serve recv fds (i + 1) s log)" using 1(3) [OF True e _ fits] by simp
      then show ?thesis using walks_skip [OF _ inv True none] True e none by (subst select_serve.simps) simp
    qed
  qed
qed

subsection \<open>One round\<close>

text \<open>The documented effect of \<^verbatim>\<open>select\<close>: of the descriptors in the set that are below the bound, the ready ones stay.\<close>

definition kernel_select :: "(int \<Rightarrow> bool) \<Rightarrow> int \<Rightarrow> bool list \<Rightarrow> bool list" where
  "kernel_select ready nfds fds = map (\<lambda>k. fds ! k \<and> int k < nfds \<and> ready (int k)) [0..<length fds]"

lemma select_prepared:
  assumes "select_inv s" and "\<forall>fd\<in>set (select_fds s). fd < 1024"
  shows "\<exists>n fds. mk_fds s = Some (n, fds) \<and> select_fits (kernel_select ready (n + 1) fds) s \<and>
    (\<forall>fd\<in>set (select_fds s). FD_ISSET fd (kernel_select ready (n + 1) fds) = Some (ready fd) \<and> member (kernel_select ready (n + 1) fds) fd = ready fd)"
proof -
  obtain fds where fds: "mk_fds s = Some (foldl max (-1) (select_fds s), fds)" "length fds = 1024" "\<forall>k < 1024. fds ! k \<longleftrightarrow> int k \<in> set (select_fds s)"
    using mk_fds_spec [OF assms] by blast
  let ?k = "kernel_select ready (foldl max (-1) (select_fds s) + 1) fds"
  have len: "length ?k = 1024" using fds(2) by (simp add: kernel_select_def)
  have fd: "0 \<le> fd" "nat fd < 1024" if "fd \<in> set (select_fds s)" for fd using that assms by (auto simp: select_inv_def nat_less_iff)
  have "member ?k fd = ready fd" if "fd \<in> set (select_fds s)" for fd
    using that fd [OF that] fds(2,3) foldl_max_ge [of "-1" "select_fds s"] by (auto simp: member_def kernel_select_def zle_add1_eq_le)
  then show ?thesis using fds(1) fd len assms(1) by (auto simp: select_fits_def FD_ISSET_member)
qed

lemma select_round_walks:
  assumes inv: "select_inv s" and cnt: "0 < select_cnt s" and small: "\<forall>fd\<in>set (select_fds s). fd < 1024" and lst: "\<not> ready (select_fds s ! 0)"
  shows "\<exists>fds r. select1_round (select_fds s ! 0) (kernel_select ready) new recv s = r \<and> select2_round (select_fds s ! 0) (kernel_select ready) accepted recv s = r \<and>
    r = select_serve recv fds 1 s [] \<and> select_fits fds s \<and> (\<forall>fd\<in>set (select_fds s). member fds fd = ready fd)"
proof -
  obtain n fds where f: "mk_fds s = Some (n, fds)" "select_fits (kernel_select ready (n + 1) fds) s"
      "\<forall>fd\<in>set (select_fds s). FD_ISSET fd (kernel_select ready (n + 1) fds) = Some (ready fd) \<and> member (kernel_select ready (n + 1) fds) fd = ready fd"
    using select_prepared [OF inv small] by blast
  moreover have "select_fds s ! 0 \<in> set (select_fds s)" using cnt inv by simp
  ultimately show ?thesis using lst by (intro exI [of _ "kernel_select ready (n + 1) fds"]) (simp add: select1_round_def select2_round_def)
qed

lemma filter_member_tl:
  assumes "\<forall>fd\<in>set xs. member fds fd = ready fd"
  shows "filter_mset (member fds) (mset (drop 1 xs)) = mset (filter ready (tl xs))"
proof -
  have "filter (member fds) (tl xs) = filter ready (tl xs)" using assms by (cases xs) (auto intro: filter_cong)
  then show ?thesis by (simp add: drop_Suc flip: mset_filter)
qed

text \<open>Property C22: a round of either select server without a new connection.  The round ends, \<^verbatim>\<open>recv\<close> is called at most
  once for each socket and only for ready ones; exactly the sockets whose \<^verbatim>\<open>recv\<close> returned 0 are closed and removed; the
  listener stays first; and at most as many ready sockets are passed over as sockets were removed, so that without a removal every
  ready socket is read.\<close>

theorem select_round_reads:
  assumes "select_inv s" and "0 < select_cnt s" and "\<forall>fd\<in>set (select_fds s). fd < 1024" and "\<not> ready (select_fds s ! 0)"
  shows "\<exists>s' log. select1_round (select_fds s ! 0) (kernel_select ready) new recv s = Some (s', log) \<and>
    select2_round (select_fds s ! 0) (kernel_select ready) accepted recv s = Some (s', log) \<and> select_inv s' \<and>
    mset (map fst log) \<subseteq># mset (filter ready (tl (select_fds s))) \<and> recv_calls recv [] log \<and>
    length (filter ready (tl (select_fds s))) \<le> length log + length (ended log) \<and>
    set (select_fds s') = set (select_fds s) - set (ended log) \<and> select_closed s' = select_closed s @ ended log \<and>
    select_fds s' ! 0 = select_fds s ! 0"
proof -
  obtain fds r where w: "select1_round (select_fds s ! 0) (kernel_select ready) new recv s = r" "select2_round (select_fds s ! 0) (kernel_select ready) accepted recv s = r"
      "r = select_serve recv fds 1 s []" "select_fits fds s" "\<forall>fd\<in>set (select_fds s). member fds fd = ready fd"
    using select_round_walks [where ready = ready, OF assms] by blast
  note M = filter_member_tl [OF w(5)]
  have n: "length (filter ready (tl (select_fds s))) = size (mset (filter ready (tl (select_fds s))))" by (rule size_mset [symmetric])
  obtain s' log where r: "r = Some (s', log)" "select_inv s'" "take 1 (select_fds s') = take 1 (select_fds s)" "recv_calls recv [] log"
      "mset (map fst log) \<subseteq># mset (filter ready (tl (select_fds s)))" "size (mset (filter ready (tl (select_fds s)))) \<le> length log + length (ended log)"
      "set (select_fds s') = set (select_fds s) - set (ended log)" "select_closed s' = select_closed s @ ended log"
    using select_serve_spec [OF w(4), of recv 1 "[]"] unfolding walks_def M w(3) by auto
  have "0 < length (select_fds s)" using assms by simp
  then have "select_fds s' ! 0 = select_fds s ! 0" using r(3) by (cases "select_fds s"; cases "select_fds s'"; simp)
  then show ?thesis unfolding n using r w(1,2) by (intro exI [of _ s'] exI [of _ log]) simp
qed

definition sample_select :: select_state where
  "sample_select = \<lparr>fd_socket = [3, 4, 5, 6] @ replicate 251 (-1), select_cnt = 4, select_closed = []\<rparr>"

lemma sample_select_ok: "select_fds sample_select = [3, 4, 5, 6]" "select_inv sample_select" "select_cnt sample_select = 4"
  by (auto simp: select_inv_def select_fds_def sample_select_def MAX_FD_SOCKET_def)

theorem select_round_reads_witness:
  "\<exists>s' log. select2_round 3 (kernel_select (\<lambda>fd. fd \<noteq> 3)) [] (\<lambda>_ _. 10) sample_select = Some (s', log) \<and> select_inv s' \<and> length log + length (ended log) \<ge> 3"
proof -
  have "0 < select_cnt sample_select" "\<forall>fd\<in>set (select_fds sample_select). fd < 1024" "\<not> select_fds sample_select ! 0 \<noteq> 3" by (simp_all add: sample_select_ok)
  from select_round_reads [where ready = "\<lambda>fd. fd \<noteq> 3", OF sample_select_ok(2) this, of "-1" "\<lambda>_ _. 10" "[]"]
  obtain s' log where "select2_round 3 (kernel_select (\<lambda>fd. fd \<noteq> 3)) [] (\<lambda>_ _. 10) sample_select = Some (s', log)" "select_inv s'"
    "length (filter (\<lambda>fd. fd \<noteq> 3) (tl (select_fds sample_select))) \<le> length log + length (ended log)" by (auto simp: sample_select_ok)
  then show ?thesis by (auto simp: sample_select_ok)
qed

text \<open>The walk of the select servers does not look at the socket that a removal moves forward.  When the first client
  has closed its connection, the socket at the end of the list takes its place and is not read in that round, even if it is
  ready.\<close>

theorem select_passes_over_moved:
  assumes "select_inv s" and "2 < select_cnt s" and "\<forall>fd\<in>set (select_fds s). fd < 1024" and "\<not> ready (select_fds s ! 0)"
    and "ready (select_fds s ! 1)" and "recv [] (select_fds s ! 1) = 0"
  shows "\<exists>s' log. select2_round (select_fds s ! 0) (kernel_select ready) accepted recv s = Some (s', log) \<and>
    last (select_fds s) \<notin> set (map fst log) \<and> last (select_fds s) \<in> set (select_fds s')"
proof -
  let ?fd = "select_fds s ! 1" and ?l = "last (select_fds s)" and ?xs = "select_fds s"
  have cnt: "0 < select_cnt s" "1 < select_cnt s" using assms(2) by auto
  obtain fds r where w: "select2_round (select_fds s ! 0) (kernel_select ready) accepted recv s = r"
      "r = select_serve recv fds 1 s []" "select_fits fds s" "\<forall>fd\<in>set ?xs. member fds fd = ready fd"
    using select_round_walks [where ready = ready, OF assms(1) cnt(1) assms(3,4)] by blast
  obtain s1 where s1: "select_del_socket ?fd s = Some (int (select_cnt s), s1)" "select_inv s1" "select_fds s1 = swap_out 1 ?xs"
    using select_del_entry [OF assms(1) cnt(2)] by blast
  have len: "2 < length ?xs" and d: "distinct ?xs" using assms(1,2) select.fds_ok by auto
  have set1: "set (select_fds s1) = set ?xs - {?fd}" using set_swap_out [of 1 ?xs] len d by (simp add: s1(3))
  then have fits: "select_fits fds s1" using w(3) s1(2) by (auto simp: select_fits_def)
  have "?fd \<in> set ?xs" using len by simp
  then have "r = select_serve recv fds 2 s1 [(?fd, 0)]"
    using w(2,4) cnt nth_select_fds [OF assms(1) cnt(2)] select_fits_isset [OF w(3) cnt(2)] s1(1) assms(5,6)
    by (subst (asm) select_serve.simps) (simp add: numeral_2_eq_2)
  with select_serve_spec [OF fits, of recv 2 "[(?fd, 0)]"] obtain s' sv where sv: "r = Some (s', [(?fd, 0)] @ sv)"
      "mset (map fst sv) \<subseteq># filter_mset (member fds) (mset (drop 2 (select_fds s1)))" "set (select_fds s') = set (select_fds s1) - set (ended sv)"
    unfolding walks_def by auto
  have sub: "set (map fst sv) \<subseteq> set (drop 2 (select_fds s1))" using set_mset_mono [OF sv(2)] by auto
  have l: "?l = ?xs ! (length ?xs - 1)" using len by (intro last_conv_nth) auto
  have at1: "select_fds s1 ! 1 = ?l" "1 < length (select_fds s1)" using len by (auto simp: s1(3) swap_out_def)
  have "distinct (select_fds s1)" using select.fds_ok [OF s1(2)] by simp
  then have "?l \<notin> set (drop 2 (select_fds s1))" using at1 by (auto simp: in_set_conv_nth nth_eq_iff_index_eq simp flip: at1(1))
  with sub have no: "?l \<notin> set (map fst sv)" by blast
  moreover have "?l \<noteq> ?fd" unfolding l using len d by (simp add: nth_eq_iff_index_eq)
  moreover have "set (ended sv) \<subseteq> set (map fst sv)" by (auto simp: ended_def)
  moreover have "?l \<in> set (select_fds s1)" using at1 by (metis nth_mem)
  ultimately show ?thesis using sv w(1) by (intro exI [of _ s'] exI [of _ "[(?fd, 0)] @ sv"]) auto
qed

theorem select_passes_over_moved_witness:
  "\<exists>s' log. select2_round 3 (kernel_select (\<lambda>fd. fd \<noteq> 3)) [] (\<lambda>_ fd. if fd = 4 then 0 else 10) sample_select = Some (s', log) \<and> 6 \<notin> set (map fst log)"
  using select_passes_over_moved [OF sample_select_ok(2), where ready = "\<lambda>fd. fd \<noteq> 3" and recv = "\<lambda>_ fd. if fd = 4 then 0 else 10" and accepted = "[]"]
  by (auto simp: sample_select_ok)

text \<open>When \<^verbatim>\<open>accept\<close> fails in \<^verbatim>\<open>io_select2.c\<close> with an error other than \<^verbatim>\<open>EAGAIN\<close> and the list has room, its result
  -1 is added to the list, and the next round calls \<^verbatim>\<open>FD_SET\<close> with -1, which is undefined, whatever the kernel
  does then.  \<^verbatim>\<open>io_select.c\<close> leaves the list unchanged.\<close>

theorem select_accept_error:
  assumes "select_inv s" and "select_cnt s < 255"
  shows "select_accept_one (-1) s = Some s \<and>
    (\<exists>s'. select_accept [-1] s = Some s' \<and> mk_fds s' = None \<and> select2_round fd_listener select accepted recv s' = None)"
proof -
  obtain s' where s': "select_add_socket (-1) s = Some (int (select_cnt s) + 1, s')" "select_fds s' = select_fds s @ [-1]"
      "length (fd_socket s') = MAX_FD_SOCKET" "select_cnt s' = select_cnt s + 1"
    using select_add_room [OF assms(1)] assms(2) by (auto simp: MAX_FD_SOCKET_def)
  have "c_take (select_cnt s') (fd_socket s') = Some (select_fds s')" using s' assms(2) by (simp add: select_fds_def MAX_FD_SOCKET_def)
  then have "mk_fds s' = None" using s'(2) mk_loop_bad [of "-1"] by (simp add: mk_fds_def)
  then show ?thesis using s'(1) by (simp add: select_accept_one_def select2_round_def)
qed

theorem select_accept_error_witness:
  "\<exists>s'. select_accept [-1] sample_select = Some s' \<and> select2_round 3 (kernel_select (\<lambda>_. True)) [] (\<lambda>_ _. 0) s' = None"
  using select_accept_error [OF sample_select_ok(2), of 3 "kernel_select (\<lambda>_. True)" "[]" "\<lambda>_ _. 0"] by (auto simp: sample_select_ok)

text \<open>Property C23: the socket lists of the poll server and of the select servers refine a bounded set of descriptors.  For every
  sequence of additions of descriptors that are not in the list and of removals, the two implementations end without leaving
  their arrays, and the list holds the elements of a set to which the same operations were applied and which
  ignores additions beyond 255 elements.\<close>

theorem socket_lists_refine_set:
  assumes "fresh_ops 255 ops {}"
  shows "(\<exists>s. run_socks poll_add_socket poll_del_socket ops poll_init = Some s \<and> poll_inv s \<and> set (poll_fds s) = set_ops 255 ops {}) \<and>
    (\<exists>s. run_socks select_add_socket select_del_socket ops select_init = Some s \<and> select_inv s \<and> set (select_fds s) = set_ops 255 ops {})"
proof -
  have p: "poll_inv poll_init" "poll_fds poll_init = []"
    by (simp_all add: poll_inv_def poll_fds_def entries_def poll_init_def)
  have s: "select_inv select_init" "select_fds select_init = []"
    by (simp_all add: select_inv_def select_fds_def select_init_def)
  show ?thesis using poll.run_set [OF p(1), of ops] select.run_set [OF s(1), of ops] assms by (simp add: p s MAX_FD_SOCKET_def)
qed

theorem socket_lists_refine_set_witness:
  "\<exists>s. run_socks poll_add_socket poll_del_socket [Add 3, Add 4, Add 5, Del 4, Del 7] poll_init = Some s \<and> set (poll_fds s) = {3, 5}"
proof -
  have "fresh_ops 255 [Add 3, Add 4, Add 5, Del 4, Del 7] {}" by simp
  from socket_lists_refine_set [OF this] show ?thesis by auto
qed

end
