(* ===== verification/JobQueue.thy ===== *)
theory JobQueue
  imports Prelude "HOL-Library.Signed_Division"
begin

text \<open>
  The job queue of \<^verbatim>\<open>pthread_cond_rts.c\<close> (and of \<^verbatim>\<open>pthread_cond.c\<close>, built with several consumers): thread A reads octets from
  a FIFO and inserts them into a shared array of 20 items, the threads B take items and sleep.  A mutex guards the
  array; the consumers wait on a condition variable while it is empty.

  The threads are interleaved in steps: each acquisition and release of the mutex, each critical section and each call
  that blocks is a step of its own, \<^verbatim>\<open>pthread_cond_wait\<close> releases the mutex and sleeps in one step and may wake up
  without a signal.  Calls of the mutex and of the condition variable do not fail.  The real-time signal that reports the end of a
  job is output only.
\<close>

subsection \<open>The shared data\<close>

definition MAX_Q_SIZE :: nat where "MAX_Q_SIZE = 20"

record share_data =
  job_queue :: "int list"
  job_idx :: nat
  job_cnt :: nat

definition share_init :: share_data where
  "share_init = \<lparr>job_queue = replicate MAX_Q_SIZE 0, job_idx = 0, job_cnt = 0\<rparr>"

text \<open>The loop of thread A over the octets that it has read.  The position starts at \<^verbatim>\<open>idx\<close>, where the consumers read.\<close>

fun insert_items :: "bytes \<Rightarrow> nat \<Rightarrow> int list \<Rightarrow> nat \<Rightarrow> (int list \<times> nat) option" where
  "insert_items [] j q c = Some (q, c)"
| "insert_items (b # bs) j q c =
     (let j = (if j = MAX_Q_SIZE then 0 else j) in
      if c = MAX_Q_SIZE then Some (q, c)
      else if b = 10 then Some (q, c)
      else do { c_nth q j; insert_items bs (j + 1) (q[j := sint b]) (c + 1) })"

definition insert_job :: "bytes \<Rightarrow> share_data \<Rightarrow> share_data option" where
  "insert_job buf d = do {
     (q, c) \<leftarrow> insert_items (take MAX_Q_SIZE buf) (job_idx d) (job_queue d) (job_cnt d);
     Some (d\<lparr>job_queue := q, job_cnt := c\<rparr>)
   }"

text \<open>A consumer takes an item.\<close>

definition take_job :: "share_data \<Rightarrow> (int \<times> share_data) option" where
  "take_job d = do {
     let i = (if job_idx d = MAX_Q_SIZE then 0 else job_idx d);
     item \<leftarrow> c_nth (job_queue d) i;
     Some (item, d\<lparr>job_idx := i + 1, job_cnt := job_cnt d - 1\<rparr>)
   }"

text \<open>The time that \<^verbatim>\<open>process_job\<close> sleeps: the remainder of C is converted to the unsigned argument.\<close>

definition process_job :: "int \<Rightarrow> 32 word" where
  "process_job item = word_of_int (item smod 5)"

subsection \<open>The threads\<close>

datatype a_pc = A_read | A_lock bytes | A_insert bytes | A_unlock bool | A_signal | A_exit

datatype b_pc = B_lock | B_check | B_wait | B_wake | B_take | B_unlock int | B_job int

text \<open>The owner of the mutex is 0 for thread A and \<open>k + 1\<close> for consumer \<open>k\<close>.  The last three fields record the items that were
  inserted and taken, and whether items were inserted into a queue that was not empty.\<close>

record jobs =
  shr :: share_data
  owner :: "nat option"
  apc :: a_pc
  bpcs :: "b_pc list"
  given :: "int list"
  took :: "int list"
  overlap :: bool

definition jobs_init :: "nat \<Rightarrow> jobs" where
  "jobs_init n = \<lparr>shr = share_init, owner = None, apc = A_read, bpcs = replicate n B_lock, given = [], took = [], overlap = False\<rparr>"

text \<open>Thread A, apart from the return of \<^verbatim>\<open>read\<close>.\<close>

fun a_step :: "a_pc \<Rightarrow> jobs \<Rightarrow> jobs option" where
  "a_step (A_lock buf) s = (if owner s = None then Some (s\<lparr>owner := Some 0, apc := A_insert buf\<rparr>) else None)"
| "a_step (A_insert buf) s = do {
     let flag_empty = (job_cnt (shr s) = 0);
     d \<leftarrow> insert_job buf (shr s);
     let new = job_cnt d - job_cnt (shr s);
     Some (s\<lparr>shr := d, apc := A_unlock flag_empty, given := given s @ map sint (take new buf), overlap := (overlap s \<or> \<not> flag_empty \<and> 0 < new)\<rparr>)
   }"
| "a_step (A_unlock flag_empty) s = Some (s\<lparr>owner := None, apc := (if flag_empty then A_signal else A_read)\<rparr>)"
| "a_step A_signal s = Some (s\<lparr>bpcs := map (\<lambda>p. if p = B_wait then B_wake else p) (bpcs s), apc := A_read\<rparr>)"
| "a_step A_read s = None"
| "a_step A_exit s = None"

text \<open>\<^verbatim>\<open>read\<close> returns octets; at its failure and at the end of the FIFO the program exits.\<close>

definition a_read :: "bytes option \<Rightarrow> jobs \<Rightarrow> jobs option" where
  "a_read r s =
     (if apc s = A_read then
        (case r of
           None \<Rightarrow> Some (s\<lparr>apc := A_exit\<rparr>)
         | Some buf \<Rightarrow>
             if buf = [] then Some (s\<lparr>apc := A_exit\<rparr>)
             else if length buf \<le> 255 then Some (s\<lparr>apc := A_lock buf\<rparr>)
             else None)
      else None)"

text \<open>A consumer.\<close>

fun b_step :: "nat \<Rightarrow> b_pc \<Rightarrow> jobs \<Rightarrow> jobs option" where
  "b_step k B_lock s = (if owner s = None then Some (s\<lparr>owner := Some (Suc k), bpcs := (bpcs s)[k := B_check]\<rparr>) else None)"
| "b_step k B_check s =
     (if job_cnt (shr s) = 0 then Some (s\<lparr>owner := None, bpcs := (bpcs s)[k := B_wait]\<rparr>)
      else Some (s\<lparr>bpcs := (bpcs s)[k := B_take]\<rparr>))"
| "b_step k B_wait s = None"
| "b_step k B_wake s = (if owner s = None then Some (s\<lparr>owner := Some (Suc k), bpcs := (bpcs s)[k := B_take]\<rparr>) else None)"
| "b_step k B_take s =
     (if job_cnt (shr s) > 0 then do {
        (item, d) \<leftarrow> take_job (shr s);
        Some (s\<lparr>shr := d, bpcs := (bpcs s)[k := B_unlock item], took := took s @ [item]\<rparr>)
      } else Some (s\<lparr>bpcs := (bpcs s)[k := B_check]\<rparr>))"
| "b_step k (B_unlock item) s = Some (s\<lparr>owner := None, bpcs := (bpcs s)[k := B_job item]\<rparr>)"
| "b_step k (B_job item) s = Some (s\<lparr>bpcs := (bpcs s)[k := B_lock]\<rparr>)"

datatype job_act = Read "bytes option" | A_run | B_run nat | Spurious nat

fun job_exec :: "job_act \<Rightarrow> jobs \<Rightarrow> jobs option" where
  "job_exec (Read r) s = a_read r s"
| "job_exec A_run s = a_step (apc s) s"
| "job_exec (B_run k) s = (if apc s \<noteq> A_exit \<and> k < length (bpcs s) then b_step k (bpcs s ! k) s else None)"
| "job_exec (Spurious k) s = (if apc s \<noteq> A_exit \<and> k < length (bpcs s) \<and> bpcs s ! k = B_wait then Some (s\<lparr>bpcs := (bpcs s)[k := B_wake]\<rparr>) else None)"

inductive job_reach :: "nat \<Rightarrow> jobs \<Rightarrow> bool" for n where
  init: "job_reach n (jobs_init n)"
| step: "job_reach n s \<Longrightarrow> job_exec a s = Some s' \<Longrightarrow> job_reach n s'"

subsection \<open>Insertion and removal\<close>

text \<open>How many octets are inserted.\<close>

definition inserted :: "bytes \<Rightarrow> nat \<Rightarrow> nat" where
  "inserted bs c = min (length (takeWhile (\<lambda>b. b \<noteq> 10) bs)) (MAX_Q_SIZE - c)"

lemma insert_items_spec:
  "j \<le> MAX_Q_SIZE \<Longrightarrow> length q = MAX_Q_SIZE \<Longrightarrow> c \<le> MAX_Q_SIZE \<Longrightarrow>
   \<exists>q'. insert_items bs j q c = Some (q', c + inserted bs c) \<and> length q' = MAX_Q_SIZE \<and>
     (\<forall>i < inserted bs c. q' ! ((j + i) mod MAX_Q_SIZE) = sint (bs ! i)) \<and>
     (\<forall>p < MAX_Q_SIZE. (\<forall>i < inserted bs c. p \<noteq> (j + i) mod MAX_Q_SIZE) \<longrightarrow> q' ! p = q ! p)"
proof (induction bs arbitrary: j q c)
  case Nil
  then show ?case by (simp add: inserted_def)
next
  case (Cons b bs)
  show ?case
  proof (cases "c = MAX_Q_SIZE \<or> b = 10")
    case True
    then show ?thesis using Cons.prems by (auto simp: inserted_def)
  next
    case False
    then have c: "c + 1 \<le> MAX_Q_SIZE" and ins: "inserted (b # bs) c = Suc (inserted bs (c + 1))"
      using Cons.prems by (auto simp: inserted_def)
    define j0 where "j0 = (if j = MAX_Q_SIZE then 0 else j)"
    have j0: "j0 < MAX_Q_SIZE" "j0 = j mod MAX_Q_SIZE" using Cons.prems(1) by (auto simp: j0_def MAX_Q_SIZE_def)
    let ?q = "q[j0 := sint b]" and ?m = "inserted bs (c + 1)"
    obtain q' where q': "insert_items bs (j0 + 1) ?q (c + 1) = Some (q', c + 1 + ?m)" "length q' = MAX_Q_SIZE"
        "\<forall>i < ?m. q' ! ((j0 + 1 + i) mod MAX_Q_SIZE) = sint (bs ! i)"
        "\<forall>p < MAX_Q_SIZE. (\<forall>i < ?m. p \<noteq> (j0 + 1 + i) mod MAX_Q_SIZE) \<longrightarrow> q' ! p = ?q ! p"
      using Cons.IH [of "j0 + 1" ?q "c + 1"] Cons.prems j0 c by auto
    have pos: "(j + Suc i) mod MAX_Q_SIZE = (j0 + 1 + i) mod MAX_Q_SIZE" for i 
      using mod_add_left_eq [of j MAX_Q_SIZE "Suc i"] by (simp add: j0(2))
    have m: "?m < MAX_Q_SIZE" using c by (auto simp: inserted_def MAX_Q_SIZE_def)
    have "j0 \<noteq> (j0 + 1 + i) mod MAX_Q_SIZE" if "i < ?m" for i
      using that m j0(1) by (auto simp: MAX_Q_SIZE_def mod_if split: if_splits)
    then have first: "q' ! j0 = sint b" using q'(4) j0(1) Cons.prems(2) by simp
    have "q' ! ((j + i) mod MAX_Q_SIZE) = sint ((b # bs) ! i)" if "i < Suc ?m" for i
      using that first j0(2) q'(3) pos by (cases i) auto
    moreover have "q' ! p = q ! p" if "p < MAX_Q_SIZE" "\<forall>i < Suc ?m. p \<noteq> (j + i) mod MAX_Q_SIZE" for p
    proof -
      have "p \<noteq> j0" using that(2) j0(2) by (metis add.right_neutral zero_less_Suc)
      moreover have "\<forall>i < ?m. p \<noteq> (j0 + 1 + i) mod MAX_Q_SIZE" using that(2) pos by (metis Suc_less_eq)
      ultimately show ?thesis using q'(4) that(1) by simp
    qed
    moreover have "insert_items (b # bs) j q c = Some (q', c + inserted (b # bs) c)"
      using False q'(1) j0(1) Cons.prems(2) by (simp add: ins Let_def flip: j0_def)
    ultimately show ?thesis using q'(2) unfolding ins by blast
  qed
qed

definition share_ok :: "share_data \<Rightarrow> bool" where
  "share_ok d \<longleftrightarrow> length (job_queue d) = MAX_Q_SIZE \<and> job_idx d \<le> MAX_Q_SIZE \<and> job_cnt d \<le> MAX_Q_SIZE"

text \<open>The items that the consumers will read next.\<close>

definition unread :: "share_data \<Rightarrow> int list" where
  "unread d = map (\<lambda>i. job_queue d ! ((job_idx d + i) mod MAX_Q_SIZE)) [0..<job_cnt d]"

lemma length_unread [simp]: "length (unread d) = job_cnt d"
  by (simp add: unread_def)

lemma nth_unread: "i < job_cnt d \<Longrightarrow> unread d ! i = job_queue d ! ((job_idx d + i) mod MAX_Q_SIZE)"
  by (simp add: unread_def)

lemma insert_job_spec:
  fixes buf :: bytes
  assumes "share_ok d"
  defines "m \<equiv> inserted (take MAX_Q_SIZE buf) (job_cnt d)"
  shows "\<exists>d'. insert_job buf d = Some d' \<and> share_ok d' \<and> job_idx d' = job_idx d \<and> job_cnt d' = job_cnt d + m \<and>
    take m (unread d') = map sint (take m buf) \<and> (m = 0 \<longrightarrow> d' = d)"
proof -
  obtain q' where q': "insert_items (take MAX_Q_SIZE buf) (job_idx d) (job_queue d) (job_cnt d) = Some (q', job_cnt d + m)" "length q' = MAX_Q_SIZE"
      "\<forall>i < m. q' ! ((job_idx d + i) mod MAX_Q_SIZE) = sint (take MAX_Q_SIZE buf ! i)" "m = 0 \<longrightarrow> (\<forall>p < MAX_Q_SIZE. q' ! p = job_queue d ! p)"
    using insert_items_spec [of "job_idx d" "job_queue d" "job_cnt d" "take MAX_Q_SIZE buf"] assms by (auto simp: share_ok_def)
  let ?d = "d\<lparr>job_queue := q', job_cnt := job_cnt d + m\<rparr>"
  have m: "m \<le> MAX_Q_SIZE - job_cnt d" "m \<le> length (take MAX_Q_SIZE buf)"
    using length_takeWhile_le [of "\<lambda>b. b \<noteq> 10" "take MAX_Q_SIZE buf"] by (auto simp: m_def inserted_def)
  have "take m (unread ?d) = map sint (take m buf)"
    using m q'(3) by (auto simp: list_eq_iff_nth_eq nth_unread)
  moreover have "?d = d" if "m = 0"
  proof -
    have "q' = job_queue d" using that q'(2,4) assms by (simp add: share_ok_def list_eq_iff_nth_eq)
    then show ?thesis using that by simp
  qed
  ultimately show ?thesis using q' m assms by (auto simp: insert_job_def share_ok_def)
qed

lemma take_job_spec:
  assumes "share_ok d" and "0 < job_cnt d"
  shows "\<exists>d'. take_job d = Some (hd (unread d), d') \<and> share_ok d' \<and> unread d' = tl (unread d) \<and> job_cnt d' = job_cnt d - 1"
proof -
  define i where "i = (if job_idx d = MAX_Q_SIZE then 0 else job_idx d)"
  have i: "i < MAX_Q_SIZE" "i = job_idx d mod MAX_Q_SIZE" using assms(1) by (auto simp: i_def share_ok_def MAX_Q_SIZE_def)
  let ?d = "d\<lparr>job_idx := i + 1, job_cnt := job_cnt d - 1\<rparr>"
  have "hd (unread d) = job_queue d ! i" using assms(2) i(2) by (simp add: unread_def upt_conv_Cons)
  moreover have "unread ?d ! k = tl (unread d) ! k" if "k < job_cnt d - 1" for k
    using that mod_add_left_eq [of "job_idx d" MAX_Q_SIZE "Suc k"] by (simp add: nth_unread nth_tl i(2))
  then have "unread ?d = tl (unread d)" by (simp add: list_eq_iff_nth_eq)
  ultimately show ?thesis using assms i(1) by (auto simp: take_job_def share_ok_def i_def [symmetric])
qed

subsection \<open>The invariant of all interleavings\<close>

definition a_holds :: "a_pc \<Rightarrow> bool" where
  "a_holds p \<longleftrightarrow> (case p of A_insert _ \<Rightarrow> True | A_unlock _ \<Rightarrow> True | _ \<Rightarrow> False)"

definition b_holds :: "b_pc \<Rightarrow> bool" where
  "b_holds p \<longleftrightarrow> (case p of B_check \<Rightarrow> True | B_take \<Rightarrow> True | B_unlock _ \<Rightarrow> True | _ \<Rightarrow> False)"

definition lock_ok :: "jobs \<Rightarrow> bool" where
  "lock_ok s \<longleftrightarrow> (a_holds (apc s) \<longleftrightarrow> owner s = Some 0) \<and> (\<forall>k < length (bpcs s). b_holds (bpcs s ! k) \<longleftrightarrow> owner s = Some (Suc k)) \<and>
     (\<forall>k. owner s = Some (Suc k) \<longrightarrow> k < length (bpcs s))"

text \<open>A consumer that sleeps while there are items is about to be woken.\<close>

definition wake_ok :: "jobs \<Rightarrow> bool" where
  "wake_ok s \<longleftrightarrow> (B_wait \<in> set (bpcs s) \<and> 0 < job_cnt (shr s) \<longrightarrow> apc s = A_unlock True \<or> apc s = A_signal)"

definition order_ok :: "jobs \<Rightarrow> bool" where
  "order_ok s \<longleftrightarrow> length (given s) = length (took s) + job_cnt (shr s) \<and> (\<not> overlap s \<longrightarrow> given s = took s @ unread (shr s))"

definition jobs_ok :: "nat \<Rightarrow> jobs \<Rightarrow> bool" where
  "jobs_ok n s \<longleftrightarrow> length (bpcs s) = n \<and> share_ok (shr s) \<and> lock_ok s \<and> wake_ok s \<and> order_ok s"

lemma jobs_ok_init: "jobs_ok n (jobs_init n)"
  by (simp add: jobs_ok_def jobs_init_def share_ok_def share_init_def lock_ok_def wake_ok_def order_ok_def a_holds_def b_holds_def MAX_Q_SIZE_def unread_def)

lemmas jobs_defs = jobs_ok_def lock_ok_def wake_ok_def order_ok_def a_holds_def b_holds_def

lemma jobs_ok_insert:
  assumes ok: "jobs_ok n s" and pc: "apc s = A_insert buf"
  shows "\<exists>s'. a_step (A_insert buf) s = Some s' \<and> jobs_ok n s'"
proof -
  let ?m = "inserted (take MAX_Q_SIZE buf) (job_cnt (shr s))"
  obtain d' where d': "insert_job buf (shr s) = Some d'" "share_ok d'" "job_cnt d' = job_cnt (shr s) + ?m"
      "take ?m (unread d') = map sint (take ?m buf)" "?m = 0 \<longrightarrow> d' = shr s"
    using insert_job_spec [of "shr s" buf] ok by (auto simp: jobs_ok_def)
  have m: "?m \<le> length buf" using length_takeWhile_le [of "\<lambda>b. b \<noteq> 10" "take MAX_Q_SIZE buf"] by (auto simp: inserted_def)
  let ?s = "s\<lparr>shr := d', apc := A_unlock (job_cnt (shr s) = 0), given := given s @ map sint (take ?m buf), overlap := (overlap s \<or> job_cnt (shr s) \<noteq> 0 \<and> 0 < ?m)\<rparr>"
  have "a_step (A_insert buf) s = Some ?s" using d' by simp
  moreover have "order_ok ?s"
  proof (cases "job_cnt (shr s) = 0")
    case True
    then have "unread (shr s) = []" "unread d' = map sint (take ?m buf)" using d'(3,4) by (simp_all add: unread_def)
    then show ?thesis using ok True m d'(3) by (simp add: jobs_ok_def order_ok_def)
  next
    case False
    then show ?thesis using ok m d'(3,5) by (auto simp: jobs_ok_def order_ok_def)
  qed
  ultimately show ?thesis using ok pc d' by (auto simp: jobs_defs)
qed

lemma lock_ok_b: "lock_ok s \<Longrightarrow> k < length (bpcs s) \<Longrightarrow> b_holds (bpcs s ! k) \<longleftrightarrow> owner s = Some (Suc k)"
  by (simp add: lock_ok_def)

text \<open>A consumer moves to a program counter that holds the mutex or not.\<close>

lemma lock_ok_move:
  assumes "lock_ok s" and "k < length (bpcs s)" and "\<not> a_holds (apc s) \<or> \<not> b_holds p" and "owner s = None \<or> owner s = Some (Suc k) \<or> \<not> b_holds p \<and> o' = owner s"
    and "o' = (if b_holds p then Some (Suc k) else if owner s = Some (Suc k) then None else owner s)"
  shows "lock_ok (s\<lparr>owner := o', bpcs := (bpcs s)[k := p]\<rparr>)"
  using assms by (auto simp: lock_ok_def nth_list_update)

lemma wait_update: "B_wait \<in> set (ps[k := p]) \<Longrightarrow> p \<noteq> B_wait \<Longrightarrow> B_wait \<in> set ps"
  using set_update_subset_insert [of ps k p] by auto

lemma wake_ok_move: "wake_ok s \<Longrightarrow> p \<noteq> B_wait \<or> job_cnt (shr s) = 0 \<Longrightarrow> wake_ok (s\<lparr>owner := o', bpcs := (bpcs s)[k := p]\<rparr>)"
  unfolding wake_ok_def using wait_update by fastforce

text \<open>All moves of a consumer that do not touch the queue.\<close>

lemma jobs_ok_move:
  assumes "jobs_ok n s" and "k < n" and "p \<noteq> B_wait \<or> job_cnt (shr s) = 0"
    and "owner s = None \<or> owner s = Some (Suc k) \<or> \<not> b_holds p"
    and "o' = (if b_holds p then Some (Suc k) else if owner s = Some (Suc k) then None else owner s)"
  shows "jobs_ok n (s\<lparr>owner := o', bpcs := (bpcs s)[k := p]\<rparr>)"
proof -
  have "\<not> a_holds (apc s) \<or> \<not> b_holds p" using assms(1,4) by (auto simp: jobs_ok_def lock_ok_def)
  then have "lock_ok (s\<lparr>owner := o', bpcs := (bpcs s)[k := p]\<rparr>)" using assms by (intro lock_ok_move) (auto simp: jobs_ok_def)
  then show ?thesis using assms wake_ok_move [of s p k o'] by (auto simp: jobs_ok_def order_ok_def)
qed

lemma jobs_ok_stay:
  assumes ok: "jobs_ok n s" and k: "k < n" and p: "p \<noteq> B_wait" "b_holds p = b_holds (bpcs s ! k)"
  shows "jobs_ok n (s\<lparr>bpcs := (bpcs s)[k := p]\<rparr>)"
proof -
  have "b_holds p \<longleftrightarrow> owner s = Some (Suc k)" using ok k p(2) lock_ok_b [of s k] by (simp add: jobs_ok_def)
  then have "jobs_ok n (s\<lparr>owner := owner s, bpcs := (bpcs s)[k := p]\<rparr>)" using p(1) by (intro jobs_ok_move [OF ok k]) auto
  then show ?thesis by simp
qed

lemma jobs_ok_take:
  assumes ok: "jobs_ok n s" and k: "k < n" "bpcs s ! k = B_take" and cnt: "0 < job_cnt (shr s)"
  shows "\<exists>s'. b_step k B_take s = Some s' \<and> jobs_ok n s'"
proof -
  obtain d' where d': "take_job (shr s) = Some (hd (unread (shr s)), d')" "share_ok d'" "unread d' = tl (unread (shr s))" "job_cnt d' = job_cnt (shr s) - 1"
    using take_job_spec [of "shr s"] ok cnt by (auto simp: jobs_ok_def)
  let ?x = "hd (unread (shr s))"
  let ?s = "s\<lparr>owner := Some (Suc k), bpcs := (bpcs s)[k := B_unlock ?x]\<rparr>"
  have own: "owner s = Some (Suc k)" using ok k lock_ok_b [of s k] by (simp add: jobs_ok_def b_holds_def)
  then have ok': "jobs_ok n ?s" using ok k by (intro jobs_ok_move) (auto simp: b_holds_def)
  have ne: "unread (shr s) \<noteq> []" using cnt length_unread [of "shr s"] by (metis length_0_conv less_numeral_extra(3))
  have "jobs_ok n (?s\<lparr>shr := d', took := took s @ [?x]\<rparr>)"
    using ok' d' cnt ne by (auto simp: jobs_defs)
  moreover have "?s\<lparr>shr := d', took := took s @ [?x]\<rparr> = s\<lparr>shr := d', bpcs := (bpcs s)[k := B_unlock ?x], took := took s @ [?x]\<rparr>"
    using own by simp
  ultimately show ?thesis using d'(1) cnt by simp
qed

lemma jobs_ok_b_step:
  assumes ok: "jobs_ok n s" and k: "k < n" and r: "b_step k (bpcs s ! k) s = Some s'"
  shows "jobs_ok n s'"
proof -
  have own: "b_holds (bpcs s ! k) \<longleftrightarrow> owner s = Some (Suc k)" using ok k lock_ok_b [of s k] by (simp add: jobs_ok_def)
  have mv: "jobs_ok n (s\<lparr>owner := o', bpcs := (bpcs s)[k := p]\<rparr>)"
    if "p \<noteq> B_wait \<or> job_cnt (shr s) = 0" "owner s = None \<or> owner s = Some (Suc k) \<or> \<not> b_holds p"
      "o' = (if b_holds p then Some (Suc k) else if owner s = Some (Suc k) then None else owner s)" for o' p
    using that by (rule jobs_ok_move [OF ok k])
  show ?thesis
  proof (cases "bpcs s ! k")
    case B_check
    then show ?thesis using r own mv [of B_wait None] jobs_ok_stay [OF ok k, of B_take] by (auto simp: b_holds_def split: if_splits)
  next
    case B_take
    then show ?thesis using r own jobs_ok_stay [OF ok k, of B_check] jobs_ok_take [OF ok k B_take] by (cases "0 < job_cnt (shr s)") (auto simp: b_holds_def)
  next
    case (B_job item)
    then show ?thesis using r own jobs_ok_stay [OF ok k, of B_lock] by (auto simp: b_holds_def)
  qed (use r own mv [of B_check "Some (Suc k)"] mv [of B_take "Some (Suc k)"] mv [of "B_job _" None] in \<open>auto simp: b_holds_def split: if_splits\<close>)
qed

lemma jobs_ok_a_step:
  assumes ok: "jobs_ok n s" and r: "a_step (apc s) s = Some s'"
  shows "jobs_ok n s'"
proof (cases "apc s")
  case (A_insert buf)
  then show ?thesis using jobs_ok_insert [OF ok A_insert] r by auto
next
  case A_signal
  then have s': "s' = s\<lparr>bpcs := map (\<lambda>p. if p = B_wait then B_wake else p) (bpcs s), apc := A_read\<rparr>" using r by simp
  have "b_holds (if p = B_wait then B_wake else p) = b_holds p" for p by (simp add: b_holds_def)
  then show ?thesis using ok A_signal unfolding s' by (auto simp: jobs_ok_def lock_ok_def wake_ok_def order_ok_def a_holds_def)
qed (use ok r in \<open>auto simp: jobs_defs split: if_splits\<close>)

lemma jobs_ok_exec: "jobs_ok n s \<Longrightarrow> job_exec a s = Some s' \<Longrightarrow> jobs_ok n s'"
proof (induction a s rule: job_exec.induct)
  case (1 r s)
  then show ?case by (auto simp: a_read_def jobs_defs split: if_splits option.splits)
next
  case (2 s)
  then show ?case using jobs_ok_a_step by simp
next
  case (3 k s)
  then show ?case using jobs_ok_b_step [of n s k] by (auto simp: jobs_ok_def split: if_splits)
next
  case (4 k s)
  then have "k < n" "bpcs s ! k = B_wait" "s' = s\<lparr>bpcs := (bpcs s)[k := B_wake]\<rparr>" by (auto simp: jobs_ok_def split: if_splits)
  then show ?case using jobs_ok_stay [OF 4(1), of k B_wake] by (auto simp: b_holds_def)
qed

lemma job_reach_ok: "job_reach n s \<Longrightarrow> jobs_ok n s"
  by (induction rule: job_reach.induct) (auto intro: jobs_ok_init jobs_ok_exec)

subsection \<open>Properties\<close>

text \<open>Property C31: in every interleaving of thread A with any number of consumers the indices and the counter of the queue stay in
  range, at most one thread is in its critical section, and the number of inserted items is the number of taken items
  plus the counter.  As long as items were inserted only into an empty queue, the consumers take exactly the inserted items in
  order: what was inserted is what was taken followed by what the queue still holds.\<close>

theorem job_queue_invariant:
  assumes "job_reach n s"
  shows "length (job_queue (shr s)) = 20 \<and> job_idx (shr s) \<le> 20 \<and> job_cnt (shr s) \<le> 20 \<and>
    (\<forall>k < n. \<not> (a_holds (apc s) \<and> b_holds (bpcs s ! k)) \<and> (\<forall>l < n. b_holds (bpcs s ! k) \<and> b_holds (bpcs s ! l) \<longrightarrow> k = l)) \<and>
    length (given s) = length (took s) + job_cnt (shr s) \<and> (\<not> overlap s \<longrightarrow> given s = took s @ unread (shr s))"
  using job_reach_ok [OF assms] by (auto simp: jobs_ok_def share_ok_def lock_ok_def order_ok_def MAX_Q_SIZE_def)

fun job_run :: "job_act list \<Rightarrow> jobs \<Rightarrow> jobs option" where
  "job_run [] s = Some s"
| "job_run (a # as) s = do { s \<leftarrow> job_exec a s; job_run as s }"

lemma job_run_reach: "job_run as s = Some s' \<Longrightarrow> job_reach n s \<Longrightarrow> job_reach n s'"
  by (induction as arbitrary: s) (auto split: bind_splits intro: job_reach.step)

definition job_sample :: "job_act list" where
  "job_sample = [B_run 0, B_run 0, Read (Some [97, 98]), A_run, A_run, A_run, A_run, B_run 0, B_run 0]"

lemma job_sample_run: "\<exists>s. job_run job_sample (jobs_init 2) = Some s \<and> took s = [97] \<and> \<not> overlap s \<and> job_cnt (shr s) = 1 \<and> apc s = A_read"
proof -
  have "map_option (\<lambda>s. (took s, overlap s, job_cnt (shr s), apc s)) (job_run job_sample (jobs_init 2)) = Some ([97], False, 1, A_read)" by code_simp
  then show ?thesis by auto
qed

theorem job_queue_invariant_witness: "\<exists>s. job_reach 2 s \<and> given s = took s @ unread (shr s) \<and> took s = [97]"
proof -
  obtain s where s: "job_run job_sample (jobs_init 2) = Some s" "took s = [97]" "\<not> overlap s" using job_sample_run by blast
  then have "job_reach 2 s" using job_run_reach job_reach.init by blast
  with job_queue_invariant [OF this] s show ?thesis by blast
qed

text \<open>Property C32: no wake-up is lost and no thread is stuck.  In every reachable state of the running program in which the queue has
  an item, each sleeping consumer is woken by at most the next two steps of thread A, which nothing can block; the
  thread that holds the mutex can always do its next step; and when the mutex is free, so can every consumer that does not
  sleep.\<close>

theorem consumers_are_woken:
  assumes "job_reach n s" and "apc s \<noteq> A_exit" and "0 < job_cnt (shr s)"
  shows "(\<forall>k < n. bpcs s ! k = B_wait \<longrightarrow> (\<exists>s1. job_exec A_run s = Some s1 \<and>
      (bpcs s1 ! k = B_wake \<or> (\<exists>s2. job_exec A_run s1 = Some s2 \<and> bpcs s2 ! k = B_wake)))) \<and>
    (owner s = Some 0 \<longrightarrow> job_exec A_run s \<noteq> None) \<and>
    (\<forall>k. owner s = Some (Suc k) \<longrightarrow> k < n \<and> job_exec (B_run k) s \<noteq> None) \<and>
    (owner s = None \<longrightarrow> (\<forall>k < n. bpcs s ! k \<noteq> B_wait \<longrightarrow> job_exec (B_run k) s \<noteq> None))"
proof -
  have ok: "jobs_ok n s" using assms(1) by (rule job_reach_ok)
  then have len: "length (bpcs s) = n" and lock: "lock_ok s" and wake: "wake_ok s" by (simp_all add: jobs_ok_def)
  have w: "\<exists>s1. job_exec A_run s = Some s1 \<and> (bpcs s1 ! k = B_wake \<or> (\<exists>s2. job_exec A_run s1 = Some s2 \<and> bpcs s2 ! k = B_wake))"
    if "k < n" "bpcs s ! k = B_wait" for k
  proof -
    have "B_wait \<in> set (bpcs s)" using that len by (metis nth_mem)
    then have "apc s = A_unlock True \<or> apc s = A_signal" using wake assms(3) by (simp add: wake_ok_def)
    then show ?thesis using that len by auto
  qed
  have a: "job_exec A_run s \<noteq> None" if "owner s = Some 0"
  proof -
    have "a_holds (apc s)" using that lock by (simp add: lock_ok_def)
    then consider buf where "apc s = A_insert buf" | f where "apc s = A_unlock f" by (cases "apc s") (auto simp: a_holds_def)
    then show ?thesis using jobs_ok_insert [OF ok] by cases force+
  qed
  have b: "k < n \<and> job_exec (B_run k) s \<noteq> None" if "owner s = Some (Suc k)" for k
  proof -
    have k: "k < n" "b_holds (bpcs s ! k)" using that lock len by (auto simp: lock_ok_def)
    then show ?thesis using assms(2,3) len jobs_ok_take [OF ok k(1)] by (cases "bpcs s ! k") (auto simp: b_holds_def)
  qed
  have "job_exec (B_run k) s \<noteq> None" if "owner s = None" "k < n" "bpcs s ! k \<noteq> B_wait" for k
  proof -
    have "\<not> b_holds (bpcs s ! k)" using that lock len by (simp add: lock_ok_def)
    then show ?thesis using that assms(2) len by (cases "bpcs s ! k") (auto simp: b_holds_def)
  qed
  with w a b show ?thesis by blast
qed

theorem consumers_are_woken_witness:
  "\<exists>s. job_reach 2 s \<and> 0 < job_cnt (shr s) \<and> (owner s = None \<longrightarrow> (\<forall>k < 2. bpcs s ! k \<noteq> B_wait \<longrightarrow> job_exec (B_run k) s \<noteq> None))"
proof -
  obtain s where s: "job_run job_sample (jobs_init 2) = Some s" "apc s \<noteq> A_exit" "0 < job_cnt (shr s)" using job_sample_run by auto
  then have "job_reach 2 s" using job_run_reach job_reach.init by blast
  then show ?thesis using consumers_are_woken [OF _ s(2,3), of 2] s(3) by (intro exI [of _ s]) simp
qed

text \<open>Items that are inserted into a queue that is not empty overwrite the unread ones.  Thread A starts to write where the
  consumers read, so that the new item replaces the oldest unread item, which no consumer will ever see, and the
  item behind the last one is an old value of the array.\<close>

theorem insert_overwrites_unread:
  assumes "share_ok d" and "0 < job_cnt d" and "job_cnt d < 20" and "b \<noteq> 10"
  shows "\<exists>d'. insert_job [b] d = Some d' \<and> unread d' = sint b # tl (unread d) @ [job_queue d ! ((job_idx d + job_cnt d) mod 20)]"
proof -
  define j where "j = (if job_idx d = 20 then 0 else job_idx d)"
  have j: "j < length (job_queue d)" "j = job_idx d mod 20" using assms(1) by (auto simp: j_def share_ok_def MAX_Q_SIZE_def)
  let ?d = "d\<lparr>job_queue := (job_queue d)[j := sint b], job_cnt := job_cnt d + 1\<rparr>"
  have "insert_job [b] d = Some ?d" using assms j(1) by (simp add: insert_job_def MAX_Q_SIZE_def j_def [symmetric])
  moreover have "unread ?d ! i = (sint b # tl (unread d) @ [job_queue d ! ((job_idx d + job_cnt d) mod 20)]) ! i" if i: "i < job_cnt d + 1" for i
  proof (cases i)
    case 0
    then show ?thesis using j assms(1) by (simp add: nth_unread MAX_Q_SIZE_def)
  next
    case (Suc k)
    have "(job_idx d + i) mod 20 = (if j + i < 20 then j + i else j + i - 20)"
      using mod_add_left_eq [of "job_idx d" 20 i] j i assms(1,3) by (auto simp: share_ok_def MAX_Q_SIZE_def mod_if)
    then have "(job_idx d + i) mod 20 \<noteq> j" using Suc i assms(3) by (auto split: if_splits)
    then have "unread ?d ! i = job_queue d ! ((job_idx d + i) mod 20)" using i by (simp add: nth_unread MAX_Q_SIZE_def)
    moreover have "(sint b # tl (unread d) @ [job_queue d ! ((job_idx d + job_cnt d) mod 20)]) ! i = job_queue d ! ((job_idx d + i) mod 20)"
    proof (cases "i = job_cnt d")
      case True
      then show ?thesis using assms(2) by (simp add: nth_append)
    next
      case False
      then have "k < job_cnt d - 1" using Suc i by simp
      then show ?thesis using Suc by (simp add: nth_append nth_tl nth_unread MAX_Q_SIZE_def)
    qed
    ultimately show ?thesis by simp
  qed
  then have "unread ?d = sint b # tl (unread d) @ [job_queue d ! ((job_idx d + job_cnt d) mod 20)]"
    using assms(2) by (intro nth_equalityI) simp_all
  ultimately show ?thesis by blast
qed

theorem insert_overwrites_unread_witness:
  "\<exists>d'. insert_job [99] \<lparr>job_queue = 97 # 98 # replicate 18 0, job_idx = 0, job_cnt = 2\<rparr> = Some d' \<and> unread d' = [99, 98, 0]"
proof -
  let ?d = "\<lparr>job_queue = 97 # 98 # replicate 18 0, job_idx = 0, job_cnt = 2\<rparr>"
  have "share_ok ?d" by (simp add: share_ok_def MAX_Q_SIZE_def)
  from insert_overwrites_unread [OF this, of 99] show ?thesis by (simp add: unread_def upt_rec MAX_Q_SIZE_def)
qed

text \<open>The time that a job sleeps.  For an item from 0 to 127 it is below five seconds; an octet from 128 on gives a
  negative item, and unless that is a multiple of five the job sleeps for more than 136 years.\<close>

theorem process_job_time:
  "(if 0 \<le> item then unat (process_job item) < 5
    else item smod 5 = 0 \<or> 2 ^ 32 - 4 \<le> unat (process_job item))"
proof (cases "0 \<le> item")
  case True
  then show ?thesis using smod_int_compares(1,2) [of item 5] by (simp add: process_job_def unat_eq_nat_uint uint_word_of_int)
next
  case False
  then have r: "-5 < item smod 5" "item smod 5 \<le> 0" using smod_int_compares(3,4) [of item 5] by auto
  show ?thesis
  proof (cases "item smod 5 = 0")
    case False
    have "(item smod 5) mod 2 ^ 32 = (item smod 5 + 2 ^ 32) mod 2 ^ 32" by simp
    also have "\<dots> = item smod 5 + 2 ^ 32" using r False by (intro mod_pos_pos_trivial) auto
    finally have "uint (process_job item) = item smod 5 + 2 ^ 32" by (simp add: process_job_def uint_word_of_int)
    then show ?thesis using r \<open>\<not> 0 \<le> item\<close> by (simp add: unat_eq_nat_uint nat_le_iff le_nat_iff)
  qed (use \<open>\<not> 0 \<le> item\<close> in simp)
qed

end
