(* ===== verification/Notes.thy ===== *)
theory Notes
  imports Prelude
begin

text \<open>
  The note programs of \<^verbatim>\<open>hacking_the_art_of_exploitation_booksrc\<close>: \<^verbatim>\<open>notetaker.c\<close> appends a note to the file
  \<^verbatim>\<open>/var/notes\<close>, \<^verbatim>\<open>notesearch.c\<close> prints the notes of the user that contain a keyword.  A record of the file is the
  user id as four octets, a newline, the text and a newline.

  The file is its sequence of octets; an open file is the part behind the read position.  The undefined outcomes are
  the overflows of the buffers of 100 octets, a format directive in a note that is printed, and the use of \<^verbatim>\<open>length\<close>
  before it is set.  Debug output and the message of \<^verbatim>\<open>notetaker\<close> are not modelled, and the calls of \<^verbatim>\<open>read\<close> return what the file has.
\<close>

subsection \<open>Octets of an int\<close>

definition int_octets :: "32 word \<Rightarrow> bytes" where
  "int_octets w = map (\<lambda>k. ucast (drop_bit (8 * k) w)) [0..<4]"

definition octets_int :: "bytes \<Rightarrow> 32 word" where
  "octets_int bs = foldr (\<lambda>b w. ucast b OR push_bit 8 w) bs 0"

subsection \<open>notetaker\<close>

datatype taker_exit = Saved | Usage | Fatal

text \<open>What the system does: whether memory is available, whether \<^verbatim>\<open>open\<close> and \<^verbatim>\<open>close\<close> succeed, and what the calls of \<^verbatim>\<open>write\<close>,
  numbered from 1, return for a number of octets: -1, or how many of them they write.\<close>

record note_os =
  memory_ok :: bool
  open_ok :: bool
  wrote :: "nat \<Rightarrow> nat \<Rightarrow> int"
  close_ok :: bool

definition append_octets :: "note_os \<Rightarrow> nat \<Rightarrow> bytes \<Rightarrow> bytes \<Rightarrow> bytes" where
  "append_octets S k bs file = file @ take (nat (wrote S k (length bs))) bs"

text \<open>The results of the second and the fourth \<^verbatim>\<open>write\<close> are ignored, and a short write is not noticed.\<close>

definition notetaker :: "note_os \<Rightarrow> 32 word \<Rightarrow> bytes option \<Rightarrow> bytes \<Rightarrow> (taker_exit \<times> bytes) option" where
  "notetaker S userid argv1 file =
     (if \<not> memory_ok S then Some (Fatal, file)
      else (case argv1 of
        None \<Rightarrow> Some (Usage, file)
      | Some note \<Rightarrow> do {
          c_assert (length note + 1 \<le> 100);
          if \<not> open_ok S then Some (Fatal, file)
          else if wrote S 1 4 = -1 then Some (Fatal, file)
          else do {
            let file = append_octets S 1 (int_octets userid) file;
            let file = append_octets S 2 [10] file;
            if wrote S 3 (length note) = -1 then Some (Fatal, file)
            else do {
              let file = append_octets S 3 note file;
              let file = append_octets S 4 [10] file;
              Some (if close_ok S then Saved else Fatal, file)
            }
          }
        }))"

subsection \<open>notesearch\<close>

text \<open>The number of octets up to the end of the line, with the newline.\<close>

fun line_length :: "bytes \<Rightarrow> nat option" where
  "line_length [] = None"
| "line_length (b # bs) = (if b = 10 then Some 1 else map_option Suc (line_length bs))"

lemma line_length_pos: "line_length bs = Some n \<Longrightarrow> 0 < n \<and> n \<le> length bs"
  by (induction bs arbitrary: n) (auto split: if_splits)

text \<open>The loop that looks for a record of the user: the length of its text and the open file at its beginning, or -1 at the
  end of the file.\<close>

function find_loop :: "32 word \<Rightarrow> bytes \<Rightarrow> int \<times> bytes" where
  "find_loop user_uid bs =
     (if length bs < 4 then (-1, [])
      else if length bs < 5 then (-1, [])
      else let note_uid = octets_int (take 4 bs); bs = drop 5 bs in
        case line_length bs of
          None \<Rightarrow> (-1, [])
        | Some n \<Rightarrow> if note_uid = user_uid then (int n, bs) else find_loop user_uid (drop n bs))"
  by pat_completeness auto
termination
  by (relation "measure (\<lambda>(u, bs). length bs)") auto

declare find_loop.simps [simp del]

text \<open>\<^verbatim>\<open>note_uid\<close> starts as -1, so that for this user the length is used before it is set.\<close>

definition find_user_note :: "32 word \<Rightarrow> bytes \<Rightarrow> (int \<times> bytes) option" where
  "find_user_note user_uid bs = (if user_uid = -1 then None else Some (find_loop user_uid bs))"

fun search_loop :: "bytes \<Rightarrow> bytes \<Rightarrow> nat \<Rightarrow> bool option" where
  "search_loop keyword [] match = Some False"
| "search_loop keyword (b # bs) match = do {
     k \<leftarrow> c_nth (keyword @ [0]) match;
     k0 \<leftarrow> c_nth (keyword @ [0]) 0;
     let match = (if b = k then match + 1 else if b = k0 then 1 else 0);
     if match = length keyword then Some True else search_loop keyword bs match
   }"

definition search_note :: "bytes \<Rightarrow> bytes \<Rightarrow> bool option" where
  "search_note note keyword = (if length keyword = 0 then Some True else search_loop keyword note 0)"

text \<open>\<^verbatim>\<open>printf\<close> of a string without arguments: every directive except \<^verbatim>\<open>%%\<close> would read an argument that is not there.\<close>

fun printf_note :: "bytes \<Rightarrow> bytes option" where
  "printf_note [] = Some []"
| "printf_note (b # bs) =
     (if b = 37 then (case bs of c # cs \<Rightarrow> if c = 37 then map_option ((#) 37) (printf_note cs) else None | [] \<Rightarrow> None)
      else map_option ((#) b) (printf_note bs))"

text \<open>The string in a buffer ends at the first NUL.\<close>

definition c_str :: "bytes \<Rightarrow> bytes" where
  "c_str bs = takeWhile (\<lambda>b. b \<noteq> 0) bs"

text \<open>One note: what is printed and the open file behind it, or \<open>None\<close> inside for the end of the file.\<close>

definition print_notes :: "32 word \<Rightarrow> bytes \<Rightarrow> bytes \<Rightarrow> (bytes \<times> bytes) option option" where
  "print_notes uid searchstring bs = do {
     (note_length, bs) \<leftarrow> find_user_note uid bs;
     if note_length = -1 then Some None
     else do {
       let n = nat note_length;
       c_assert (n < 100);
       let note_buffer = c_str (take n bs @ [0]);
       found \<leftarrow> search_note note_buffer searchstring;
       out \<leftarrow> (if found then printf_note note_buffer else Some []);
       Some (Some (out, drop n bs))
     }
   }"

lemma find_loop_rest: "find_loop uid bs = (l, bs') \<Longrightarrow> l = -1 \<or> 0 < l \<and> nat l \<le> length bs' \<and> length bs' \<le> length bs"
proof (induction uid bs rule: find_loop.induct)
  case (1 uid bs)
  show ?case
  proof (cases "length bs < 5 \<or> line_length (drop 5 bs) = None")
    case True
    then show ?thesis using "1.prems" by (subst (asm) find_loop.simps) (auto simp: Let_def split: if_splits)
  next
    case False
    then obtain m where m: "\<not> length bs < 5" "line_length (drop 5 bs) = Some m" by auto
    then have r: "find_loop uid bs = (if octets_int (take 4 bs) = uid then (int m, drop 5 bs) else find_loop uid (drop m (drop 5 bs)))"
      by (subst find_loop.simps) (simp add: Let_def)
    show ?thesis
    proof (cases "octets_int (take 4 bs) = uid")
      case True
      then show ?thesis using r "1.prems" line_length_pos [OF m(2)] by auto
    next
      case False
      have "l = -1 \<or> 0 < l \<and> nat l \<le> length bs' \<and> length bs' \<le> length (drop m (drop 5 bs))"
        using 1(1) [OF _ m(1) refl refl m(2) False] r "1.prems" m(1) False by simp
      then show ?thesis by auto
    qed
  qed
qed

lemma print_notes_rest:
  assumes "print_notes uid kw bs = Some (Some (out, rest))"
  shows "length rest < length bs"
proof -
  obtain l bs' where f: "find_loop uid bs = (l, bs')" by force
  then have "l \<noteq> -1" "rest = drop (nat l) bs'" using assms by (auto simp: print_notes_def find_user_note_def Let_def split: bind_splits if_splits)
  then show ?thesis using find_loop_rest [OF f] by auto
qed

function notes_loop :: "32 word \<Rightarrow> bytes \<Rightarrow> bytes \<Rightarrow> bytes option" where
  "notes_loop userid searchstring bs =
     (case print_notes userid searchstring bs of
        None \<Rightarrow> None
      | Some None \<Rightarrow> Some []
      | Some (Some (out, rest)) \<Rightarrow> map_option ((@) out) (notes_loop userid searchstring rest))"
  by pat_completeness auto
termination
  by (relation "measure (\<lambda>(u, k, bs). length bs)") (auto dest: print_notes_rest)

declare notes_loop.simps [simp del]

definition end_line :: bytes where
  "end_line = map of_char ''-------[ end of note data ]-------'' @ [10]"

text \<open>The program: the argument and the file, which may be missing.  The outcome inside is \<open>None\<close> for the fatal error.\<close>

definition notesearch :: "32 word \<Rightarrow> bytes option \<Rightarrow> bytes option \<Rightarrow> bytes option option" where
  "notesearch userid argv1 file = do {
     let searchstring = (case argv1 of None \<Rightarrow> [] | Some a \<Rightarrow> a);
     c_assert (length searchstring + 1 \<le> 100);
     case file of
       None \<Rightarrow> Some None
     | Some bs \<Rightarrow> map_option (\<lambda>out. Some (out @ end_line)) (notes_loop userid searchstring bs)
   }"

subsection \<open>Searching a note\<close>

lemma sublist_skip: "sublist xs ys \<Longrightarrow> sublist xs (p @ ys)"
  unfolding sublist_def by (metis append.assoc)

text \<open>The part of the keyword that was matched is the end of what was read.\<close>

lemma search_loop_sound:
  "search_loop kw bs m = Some True \<Longrightarrow> m < length kw \<Longrightarrow> sublist kw (take m kw @ bs)"
proof (induction bs arbitrary: m)
  case (Cons b bs)
  let ?k = "kw ! m" and ?h = "kw ! 0"
  define m' where "m' = (if b = ?k then Suc m else if b = ?h then 1 else 0)"
  have ks: "c_nth (kw @ [0]) m = Some ?k" "c_nth (kw @ [0]) 0 = Some ?h" using Cons.prems(2) by (auto simp: c_nth_def nth_append)
  then have step: "search_loop kw (b # bs) m = (if m' = length kw then Some True else search_loop kw bs m')"
    by (simp add: m'_def Let_def)
  have le: "m' \<le> length kw" using Cons.prems(2) by (auto simp: m'_def)
  have suf: "suffix (take m' kw) (take m kw @ [b])"
  proof (cases "b = ?k")
    case True
    then show ?thesis using Cons.prems(2) by (simp add: m'_def take_Suc_conv_app_nth)
  next
    case False
    moreover have "take 1 kw = [?h]" using Cons.prems(2) by (cases kw) simp_all
    ultimately show ?thesis by (simp add: m'_def)
  qed
  then obtain p where p: "take m kw @ [b] = p @ take m' kw" by (auto simp: suffix_def)
  have "sublist kw (take m' kw @ bs)"
  proof (cases "m' = length kw")
    case True
    then show ?thesis by simp
  next
    case False
    then show ?thesis using Cons.IH [of m'] Cons.prems(1) step le by simp
  qed
  then have "sublist kw (p @ take m' kw @ bs)" by (rule sublist_skip)
  moreover have "take m kw @ b # bs = p @ take m' kw @ bs" using arg_cong [OF p, of "\<lambda>xs. xs @ bs"] by simp
  ultimately show ?case by metis
qed (use sublist_length_le in fastforce)

text \<open>If its first octet does not occur again in the keyword, no match can start inside another one.\<close>

lemma sublist_drop_prefix:
  assumes occ: "sublist kw (take m kw @ rest)" and m: "m < length kw" and hd: "kw ! 0 \<notin> set (tl kw)" and no: "\<not> prefix (drop m kw) rest"
  shows "sublist kw rest"
proof -
  obtain p q where pq: "take m kw @ rest = p @ kw @ q" using occ by (auto simp: sublist_def)
  have "\<not> length p < m"
  proof
    assume p: "length p < m"
    then have "(take m kw @ rest) ! length p = kw ! length p" using m by (simp add: nth_append)
    moreover have "(p @ kw @ q) ! length p = kw ! 0" using m by (cases kw) simp_all
    ultimately have eq: "kw ! length p = kw ! 0" using pq by simp
    show False
    proof (cases "length p")
      case 0
      then have "take m kw @ rest = take m kw @ drop m kw @ q" using pq by simp
      then show False using no by auto
    next
      case (Suc j)
      then have "kw ! length p \<in> set (tl kw)" using p m by (cases kw) auto
      then show False using eq hd by simp
    qed
  qed
  then have "rest = drop m p @ kw @ q" using arg_cong [OF pq, of "drop m"] m by simp
  then show ?thesis by (auto simp: sublist_def)
qed

lemma search_loop_complete:
  "m < length kw \<Longrightarrow> kw ! 0 \<notin> set (tl kw) \<Longrightarrow> search_loop kw bs m = Some (sublist kw (take m kw @ bs))"
proof (induction bs arbitrary: m)
  case Nil
  then show ?case using sublist_length_le [of kw "take m kw"] by fastforce
next
  case (Cons b bs)
  let ?k = "kw ! m" and ?h = "kw ! 0"
  have ks: "c_nth (kw @ [0]) m = Some ?k" "c_nth (kw @ [0]) 0 = Some ?h" using Cons.prems(1) by (auto simp: c_nth_def nth_append)
  have t1: "take 1 kw = [?h]" "drop m kw = ?k # drop (Suc m) kw" using Cons.prems(1) by (cases kw, simp_all add: Cons_nth_drop_Suc)
  consider (next_octet) "b = ?k" | (again) "b \<noteq> ?k" "b = ?h" | (none) "b \<noteq> ?k" "b \<noteq> ?h" by blast
  then show ?case
  proof cases
    case next_octet
    then have eq: "take m kw @ b # bs = take (Suc m) kw @ bs" using Cons.prems(1) by (simp add: take_Suc_conv_app_nth)
    show ?thesis
    proof (cases "Suc m = length kw")
      case True
      moreover from this have "sublist kw (take m kw @ b # bs)" unfolding eq by simp
      ultimately show ?thesis using ks next_octet by (simp add: Let_def)
    next
      case False
      then show ?thesis using ks next_octet Cons.IH [of "Suc m"] Cons.prems unfolding eq by (simp add: Let_def)
    qed
  next
    case again
    then have "sublist kw (take m kw @ b # bs) \<longleftrightarrow> sublist kw (b # bs)"
      using sublist_drop_prefix [of kw m "b # bs"] Cons.prems t1(2) sublist_skip by auto
    then show ?thesis using ks again Cons.IH [of 1] Cons.prems t1(1) by (cases "length kw = 1") (auto simp: Let_def length_Suc_conv)
  next
    case none
    then have "sublist kw (take m kw @ b # bs) \<longleftrightarrow> sublist kw (b # bs)"
      using sublist_drop_prefix [of kw m "b # bs"] Cons.prems t1(2) sublist_skip by auto
    also have "\<dots> \<longleftrightarrow> sublist kw bs" using none(2) Cons.prems(1) by (cases kw) (auto simp: sublist_Cons_right)
    finally show ?thesis using ks none Cons.IH [of 0] Cons.prems by (auto simp: Let_def)
  qed
qed

lemma search_loop_ends: "m < length kw \<Longrightarrow> search_loop kw bs m \<noteq> None"
proof (induction bs arbitrary: m)
  case (Cons b bs)
  then have "c_nth (kw @ [0]) m = Some (kw ! m)" "c_nth (kw @ [0]) 0 = Some (kw ! 0)" by (auto simp: c_nth_def nth_append)
  then show ?case using Cons by (auto simp: Let_def)
qed simp

lemma search_note_ends: "\<exists>r. search_note n kw = Some r"
  using search_loop_ends [of 0 kw n] by (cases "kw = []") (auto simp: search_note_def)

text \<open>The keyword search of \<^verbatim>\<open>notesearch\<close>: if the first octet of the keyword does not occur in it again, it reports a match
  exactly when the keyword is a part of the note.\<close>

lemma search_note_exact:
  assumes "keyword \<noteq> [] \<longrightarrow> hd keyword \<notin> set (tl keyword)"
  shows "search_note note keyword = Some (sublist keyword note)"
proof (cases "keyword = []")
  case False
  then show ?thesis using search_loop_complete [of 0 keyword "note"] assms by (simp add: search_note_def hd_conv_nth)
qed (simp add: search_note_def)

text \<open>For every keyword and every note the search of \<^verbatim>\<open>notesearch\<close> ends without reading outside the keyword, and
  a reported match is one.  The converse fails: after a partial match it does not go back, and misses \<^verbatim>\<open>aab\<close> in \<^verbatim>\<open>aaab\<close>.\<close>

theorem search_note_sound:
  "(\<exists>r. search_note note keyword = Some r \<and> (r \<longrightarrow> sublist keyword note)) \<and> search_note [97, 97, 97, 98] [97, 97, 98] = Some False"
proof -
  have "\<exists>r. search_note note keyword = Some r \<and> (r \<longrightarrow> sublist keyword note)"
    using search_note_ends [of "note" keyword] search_loop_sound [of keyword "note" 0] by (cases "keyword = []") (auto simp: search_note_def)
  moreover have "search_note [97, 97, 97, 98] [97, 97, 98] = Some False" by (simp add: search_note_def c_nth_def)
  ultimately show ?thesis by blast
qed

subsection \<open>The file\<close>

text \<open>A sequence of runs of \<^verbatim>\<open>notetaker\<close> in which no call of the system fails, and the file that it leaves.\<close>

definition working :: note_os where
  "working = \<lparr>memory_ok = True, open_ok = True, wrote = (\<lambda>_ n. int n), close_ok = True\<rparr>"

fun take_notes :: "(32 word \<times> bytes) list \<Rightarrow> bytes \<Rightarrow> bytes option" where
  "take_notes [] file = Some file"
| "take_notes ((uid, n) # rs) file = do {
     (r, file) \<leftarrow> notetaker working uid (Some n) file;
     c_assert (r = Saved);
     take_notes rs file
   }"

fun note_record :: "32 word \<times> bytes \<Rightarrow> bytes" where
  "note_record (uid, n) = int_octets uid @ [10] @ n @ [10]"

lemma take_notes_file: "\<forall>(u, n)\<in>set rs. length n \<le> 99 \<Longrightarrow> take_notes rs bs = Some (bs @ concat (map note_record rs))"
  by (induction rs arbitrary: bs) (auto simp: notetaker_def working_def append_octets_def int_octets_def Let_def)

lemma octets_int_octets [simp]: "octets_int (int_octets w) = w"
proof (rule bit_word_eqI)
  fix n :: nat
  assume "n < LENGTH(32)"
  then show "bit (octets_int (int_octets w)) n \<longleftrightarrow> bit w n"
    by (cases "n < 8"; cases "n < 16"; cases "n < 24") (auto simp: octets_int_def int_octets_def upt_rec [of _ 4] bit_or_iff bit_push_bit_iff bit_drop_bit_eq bit_ucast_iff)
qed

lemma length_int_octets [simp]: "length (int_octets w) = 4"
  by (simp add: int_octets_def)

lemma line_length_note [simp]: "10 \<notin> set n \<Longrightarrow> line_length (n @ 10 # rest) = Some (Suc (length n))"
  by (induction n) auto

lemma find_loop_record:
  assumes "10 \<notin> set n"
  shows "find_loop uid (note_record (u, n) @ rest) = (if u = uid then (int (Suc (length n)), n @ 10 # rest) else find_loop uid rest)"
  using assms by (subst find_loop.simps) (simp add: Let_def)

lemma find_loop_end [simp]: "find_loop uid [] = (-1, [])"
  by (simp add: find_loop.simps)

lemma printf_plain: "37 \<notin> set n \<Longrightarrow> printf_note n = Some n"
  by (induction n) auto

definition plain_note :: "bytes \<Rightarrow> bool" where
  "plain_note n \<longleftrightarrow> 0 \<notin> set n \<and> 10 \<notin> set n \<and> 37 \<notin> set n \<and> length n \<le> 98"

lemma print_notes_record:
  assumes "plain_note n" and "uid \<noteq> -1"
  shows "print_notes uid kw (note_record (uid, n) @ rest) =
    Some (Some (if search_note (n @ [10]) kw = Some True then n @ [10] else [], rest))"
proof -
  have nat: "nat (1 + int (length n)) = Suc (length n)" by (simp add: nat_add_distrib)
  have "c_str (n @ [10, 0]) = n @ [10]"
    using assms by (auto simp: c_str_def plain_note_def takeWhile_append)
  moreover have "printf_note (n @ [10]) = Some (n @ [10])" using assms by (intro printf_plain) (simp add: plain_note_def)
  moreover obtain r where "search_note (n @ [10]) kw = Some r" using search_note_ends by blast
  ultimately show ?thesis using assms find_loop_record [of n uid uid rest]
    by (simp add: print_notes_def find_user_note_def plain_note_def Let_def nat Suc_diff_le)
qed

lemma print_notes_other: "10 \<notin> set n \<Longrightarrow> u \<noteq> uid \<Longrightarrow> print_notes uid kw (note_record (u, n) @ rest) = print_notes uid kw rest"
  using find_loop_record [of n uid u rest] by (simp add: print_notes_def find_user_note_def)

text \<open>What a user sees of a sequence of notes: those of the user that the choice \<open>P\<close> accepts, each with its newline.\<close>

definition notes_seen :: "32 word \<Rightarrow> (bytes \<Rightarrow> bool) \<Rightarrow> (32 word \<times> bytes) list \<Rightarrow> bytes" where
  "notes_seen uid P rs = concat (map (\<lambda>(u, n). if u = uid \<and> P (n @ [10]) then n @ [10] else []) rs)"

lemma notes_loop_records:
  "\<forall>(u, n)\<in>set rs. plain_note n \<Longrightarrow> uid \<noteq> -1 \<Longrightarrow>
   notes_loop uid kw (concat (map note_record rs)) = Some (notes_seen uid (\<lambda>n. search_note n kw = Some True) rs)"
proof (induction rs)
  case Nil
  then show ?case by (simp add: notes_loop.simps print_notes_def find_user_note_def notes_seen_def)
next
  case (Cons r rs)
  obtain u n where r: "r = (u, n)" by force
  let ?rest = "concat (map note_record rs)" and ?seen = "notes_seen uid (\<lambda>n. search_note n kw = Some True)"
  have n: "plain_note n" and IH: "notes_loop uid kw ?rest = Some (?seen rs)" using Cons r by auto
  have split: "concat (map note_record (r # rs)) = note_record (u, n) @ ?rest" by (simp add: r)
  show ?case
  proof (cases "u = uid")
    case True
    then show ?thesis unfolding split using print_notes_record [OF n Cons.prems(2)] IH
      by (subst notes_loop.simps) (simp add: notes_seen_def r del: note_record.simps)
  next
    case False
    then have "notes_loop uid kw (note_record (u, n) @ ?rest) = notes_loop uid kw ?rest"
      using print_notes_other [of n u uid kw ?rest] n by (subst (1 2) notes_loop.simps) (simp add: plain_note_def del: note_record.simps)
    then show ?thesis unfolding split using IH False by (simp add: notes_seen_def r del: note_record.simps)
  qed
qed

text \<open>A keyword whose first octet does not occur in it again; the empty keyword is one.\<close>

definition simple_keyword :: "bytes \<Rightarrow> bool" where
  "simple_keyword kw \<longleftrightarrow> (kw \<noteq> [] \<longrightarrow> hd kw \<notin> set (tl kw))"

text \<open>Property C38: what \<^verbatim>\<open>notetaker\<close> writes, \<^verbatim>\<open>notesearch\<close> reads.  After any sequence of notes of any users, each of at most 98
  octets without newline, NUL and percent sign, written while no call of the system fails, and for a user other than -1, \<^verbatim>\<open>notesearch\<close> without an argument or
  with one of at most 99 octets ends without undefined behaviour.  It prints, in order, notes of the calling user that contain the keyword, and the closing line; nothing
  of a note of another user is printed.  If the first octet of the keyword does not occur in it again, and so also without a keyword, it prints all notes of the user that
  contain the keyword.\<close>

theorem notes_round_trip:
  assumes "\<forall>(u, n)\<in>set rs. plain_note n" and "uid \<noteq> -1" and "kw = (case arg of None \<Rightarrow> [] | Some a \<Rightarrow> a)" and "length kw \<le> 99"
  shows "\<exists>file P. take_notes rs [] = Some file \<and> notesearch uid arg (Some file) = Some (Some (notes_seen uid P rs @ end_line)) \<and>
    (\<forall>n. P n \<longrightarrow> sublist kw n) \<and> (simple_keyword kw \<longrightarrow> P = sublist kw)"
proof -
  let ?P = "\<lambda>n. search_note n kw = Some True"
  have "take_notes rs [] = Some (concat (map note_record rs))"
    using assms(1) by (subst take_notes_file) (auto simp: plain_note_def)
  moreover have "notesearch uid arg (Some (concat (map note_record rs))) = Some (Some (notes_seen uid ?P rs @ end_line))"
    using notes_loop_records [OF assms(1,2)] assms(4) by (simp add: notesearch_def assms(3) [symmetric])
  moreover have "?P n \<Longrightarrow> sublist kw n" for n
    using search_loop_sound [of kw n 0] by (cases "kw = []") (auto simp: search_note_def)
  moreover have "simple_keyword kw \<Longrightarrow> ?P = sublist kw"
    by (simp add: fun_eq_iff search_note_exact simple_keyword_def)
  ultimately show ?thesis by blast
qed

theorem notes_round_trip_witness:
  "\<exists>file. take_notes [(1000, [104, 105]), (1001, [110, 111]), (1000, [111, 107])] [] = Some file \<and>
     notesearch 1000 None (Some file) = Some (Some ([104, 105, 10, 111, 107, 10] @ end_line))"
proof -
  have "\<forall>(u, n)\<in>set [(1000 :: 32 word, [104, 105 :: byte]), (1001, [110, 111]), (1000, [111, 107])]. plain_note n" by (simp add: plain_note_def)
  from notes_round_trip [OF this, of 1000 "[]" None] show ?thesis by (auto simp: notes_seen_def simple_keyword_def)
qed

text \<open>The format does not protect its separators.  For every user id without a NUL octet and every two texts of
  together at most 93 octets there is an argument of \<^verbatim>\<open>notetaker\<close>, without NUL, with which a user leaves the same file as if
  the owner of that id had written the second text after the first one.\<close>

theorem note_forgery:
  assumes "length a + length b \<le> 93" and "0 \<notin> set (a @ b)" and "0 \<notin> set (int_octets victim)"
  shows "\<exists>arg file. 0 \<notin> set arg \<and> take_notes [(uid, arg)] [] = Some file \<and> take_notes [(uid, a), (victim, b)] [] = Some file"
proof -
  let ?arg = "a @ [10] @ int_octets victim @ [10] @ b"
  have "0 \<notin> set ?arg" using assms(2,3) by simp
  moreover have "take_notes [(uid, ?arg)] [] = take_notes [(uid, a), (victim, b)] []" "take_notes [(uid, a), (victim, b)] [] \<noteq> None"
    using assms(1) by (simp_all add: take_notes_file del: take_notes.simps)
  ultimately show ?thesis by (metis not_None_eq)
qed

theorem note_forgery_witness:
  "\<exists>arg file. 0 \<notin> set arg \<and> take_notes [(1000, arg)] [] = Some file \<and> take_notes [(1000, [104]), (0x01010101, [98])] [] = Some file"
proof -
  have "0 \<notin> set (int_octets 0x01010101)" by (simp add: int_octets_def upt_rec)
  from note_forgery [of "[104]" "[98]", OF _ _ this, of 1000] show ?thesis by simp
qed

end
