(* ===== verification/TinyWeb.thy ===== *)
theory TinyWeb
  imports Notes
begin

text \<open>
  The web server \<^verbatim>\<open>tinyweb.c\<close> with \<^verbatim>\<open>send_string\<close> and \<^verbatim>\<open>recv_line\<close> of \<^verbatim>\<open>hacking-network.h\<close>: one request of one connection.

  The octets that the client sends before it closes the connection are a list; the contents of the request buffer before it is filled
  are an argument, as the program does not set them.  The file system gives for a path that can be opened what \<^verbatim>\<open>fstat\<close> and \<^verbatim>\<open>read\<close> return; the
  octets of a new block of memory are a parameter too.  The results of \<^verbatim>\<open>send\<close> are a list, behind its end \<^verbatim>\<open>send\<close> takes all octets.  Undefined are writes
  behind the two buffers of 500 octets and the use of a buffer without terminator.
\<close>

definition octets :: "string \<Rightarrow> bytes" where
  "octets s = map of_char s"

subsection \<open>hacking-network.h\<close>

text \<open>The result, the octets sent and the results of \<^verbatim>\<open>send\<close> that are left.\<close>

fun send_string :: "int list \<Rightarrow> bytes \<Rightarrow> bool \<times> bytes \<times> int list" where
  "send_string ks [] = (True, [], ks)"
| "send_string [] (b # bs) = (True, b # bs, [])"
| "send_string (k # ks) (b # bs) =
     (if k = -1 then (False, [], ks)
      else let (r, out, ks) = send_string ks (drop (nat k) (b # bs)) in (r, take (nat k) (b # bs) @ out, ks))"

definition EOL :: bytes where "EOL = [13, 10]"

text \<open>The position, the number of octets of \<^verbatim>\<open>EOL\<close> that matched and the buffer; the result says whether the end of the line was found.\<close>

fun recv_loop :: "bytes \<Rightarrow> nat \<Rightarrow> nat \<Rightarrow> bytes \<Rightarrow> (bool \<times> bytes \<times> bytes) option" where
  "recv_loop [] i eol_matched buf = Some (False, buf, [])"
| "recv_loop (b # bs) i eol_matched buf = do {
     c_nth buf i;
     let buf = buf[i := b];
     e \<leftarrow> c_nth EOL eol_matched;
     if b = e then
       (if eol_matched + 1 = 2 then do {
          c_assert (1 \<le> i);
          Some (True, buf[i - 1 := 0], bs)
        } else recv_loop bs (i + 1) (eol_matched + 1) buf)
     else recv_loop bs (i + 1) 0 buf
   }"

text \<open>The string in a buffer, which has to have a terminator.\<close>

definition c_text :: "bytes \<Rightarrow> bytes option" where
  "c_text buf = (if 0 \<in> set buf then Some (c_str buf) else None)"

text \<open>The length, the buffer and the octets that are left.\<close>

definition recv_line :: "bytes \<Rightarrow> bytes \<Rightarrow> (nat \<times> bytes \<times> bytes) option" where
  "recv_line stream dest_buffer = do {
     (found, buf, rest) \<leftarrow> recv_loop stream 0 0 dest_buffer;
     if found then do { s \<leftarrow> c_text buf; Some (length s, buf, rest) } else Some (0, buf, rest)
   }"

subsection \<open>handle\_connection\<close>

definition WEBROOT :: bytes where "WEBROOT = octets ''./webroot''"

text \<open>\<^verbatim>\<open>strstr\<close>: the first position.\<close>

fun strstr :: "bytes \<Rightarrow> bytes \<Rightarrow> nat option" where
  "strstr [] needle = (if needle = [] then Some 0 else None)"
| "strstr (b # bs) needle = (if prefix needle (b # bs) then Some 0 else map_option Suc (strstr bs needle))"

definition not_found :: "bytes list" where
  "not_found = [octets ''HTTP/1.0 404 NOT FOUND'' @ EOL, octets ''Server: Tiny webserver'' @ EOL @ EOL,
     octets ''<html><head><title>404 Not Found</title></head>'', octets ''<body><h1>URL not found</h1></body></html>'' @ EOL]"

definition found_header :: "bytes list" where
  "found_header = [octets ''HTTP/1.0 200 OK'' @ EOL, octets ''Server: Tiny webserver'' @ EOL @ EOL]"

text \<open>Several strings; the results of \<^verbatim>\<open>send_string\<close> are ignored.\<close>

fun send_all :: "int list \<Rightarrow> bytes list \<Rightarrow> bytes \<times> int list" where
  "send_all ks [] = ([], ks)"
| "send_all ks (s # ss) = (let (r, out, ks) = send_string ks s; (out', ks) = send_all ks ss in (out @ out', ks))"

text \<open>One call of \<^verbatim>\<open>send\<close>, whose result is ignored.\<close>

definition send_once :: "int list \<Rightarrow> bytes \<Rightarrow> bytes" where
  "send_once ks buf = (case ks of [] \<Rightarrow> buf | k # _ \<Rightarrow> if k = -1 then [] else take (nat k) buf)"

text \<open>An open file: its size, if \<^verbatim>\<open>fstat\<close> succeeds, and the octets that \<^verbatim>\<open>read\<close> delivers when it is asked for a number of them, if it succeeds.\<close>

record web_file =
  fstat_size :: "nat option"
  read_octets :: "nat \<Rightarrow> bytes option"

text \<open>The memory: whether a block of a length can be had, and the octets in it.\<close>

record web_memory =
  malloc_ok :: "nat \<Rightarrow> bool"
  malloc_octets :: "nat \<Rightarrow> bytes"

definition get_file_size :: "web_file \<Rightarrow> int" where
  "get_file_size fd = (case fstat_size fd of None \<Rightarrow> -1 | Some n \<Rightarrow> sint (word_of_nat n :: 32 word))"

text \<open>\<^verbatim>\<open>read\<close> into a buffer; its result is ignored, so that after a failed or short \<^verbatim>\<open>read\<close> the other octets are those of the memory.\<close>

definition read_into :: "web_file \<Rightarrow> bytes \<Rightarrow> bytes" where
  "read_into fd buf =
     (case read_octets fd (length buf) of None \<Rightarrow> buf | Some bs \<Rightarrow> take (length buf) bs @ drop (length bs) buf)"

text \<open>The octets sent, and whether the program ended with a fatal error.  A negative length is an allocation larger than the memory.\<close>

definition serve_file :: "web_memory \<Rightarrow> int list \<Rightarrow> bool \<Rightarrow> web_file \<Rightarrow> bool \<times> bytes" where
  "serve_file M ks get fd =
     (let (out, ks) = send_all ks found_header in
      if \<not> get then (False, out)
      else let length = get_file_size fd in
        if length = -1 then (True, out)
        else if length < 0 \<or> \<not> malloc_ok M (nat length) then (True, out)
        else (False, out @ send_once ks (read_into fd (malloc_octets M (nat length)))))"

definition handle_connection :: "(bytes \<Rightarrow> web_file option) \<Rightarrow> web_memory \<Rightarrow> int list \<Rightarrow> bytes \<Rightarrow> bytes \<Rightarrow> (bool \<times> bytes) option" where
  "handle_connection open_file M ks request stream = do {
     (length', buf, rest) \<leftarrow> recv_line stream request;
     request \<leftarrow> c_text buf;
     (case strstr request (octets '' HTTP/'') of
        None \<Rightarrow> Some (False, [])
      | Some p \<Rightarrow> do {
          let request = take p request;
          let ptr = (if prefix (octets ''GET '') request then Some 4 else None);
          let ptr = (if prefix (octets ''HEAD '') request then Some 5 else ptr);
          (case ptr of
             None \<Rightarrow> Some (False, [])
           | Some off \<Rightarrow> do {
               let url = drop off request;
               c \<leftarrow> c_nth request (off + length url - 1);
               url \<leftarrow> (if c = of_char CHR ''/'' then do {
                          c_assert (off + length url + 10 + 1 \<le> 500);
                          Some (url @ octets ''index.html'')
                        } else Some url);
               c_assert (length WEBROOT + length url + 1 \<le> 500);
               let resource = WEBROOT @ url;
               (case open_file resource of
                  None \<Rightarrow> Some (False, fst (send_all ks not_found))
                | Some fd \<Rightarrow> Some (serve_file M ks (off = 4) fd))
             })
        })
   }"

subsection \<open>Sending and receiving\<close>

text \<open>\<^verbatim>\<open>send_string\<close> sends a prefix of the string, without a gap between the parts of which \<^verbatim>\<open>send\<close> takes only some octets,
  and if it reports success, the whole string.\<close>

lemma send_string_prefix:
  "case send_string ks buf of (r, out, ks') \<Rightarrow> prefix out buf \<and> (r \<longrightarrow> out = buf)"
proof (induction ks buf rule: send_string.induct)
  case (3 k ks b bs)
  show ?case
  proof (cases "k = -1")
    case False
    obtain r out ks' where r: "send_string ks (drop (nat k) (b # bs)) = (r, out, ks')" by (metis prod_cases3)
    then have "prefix out (drop (nat k) (b # bs))" "r \<Longrightarrow> out = drop (nat k) (b # bs)" using 3 False by auto
    moreover from this(1) have "prefix (take (nat k) (b # bs) @ out) (b # bs)"
      by (metis append_take_drop_id same_prefix_prefix)
    ultimately show ?thesis using False r by simp
  qed simp
qed simp_all

text \<open>Of every part of an answer a prefix is sent.\<close>

definition pieces :: "bytes \<Rightarrow> bytes list \<Rightarrow> bool" where
  "pieces sent parts \<longleftrightarrow> (\<exists>ps. sent = concat ps \<and> list_all2 prefix ps parts)"

lemma pieces_append:
  assumes "pieces a ss" and "prefix b t"
  shows "pieces (a @ b) (ss @ [t])"
proof -
  obtain ps where "a = concat ps" "list_all2 prefix ps ss" using assms(1) by (auto simp: pieces_def)
  then have "a @ b = concat (ps @ [b])" "list_all2 prefix (ps @ [b]) (ss @ [t])" using assms(2) by (simp_all add: list_all2_appendI)
  then show ?thesis unfolding pieces_def by blast
qed

lemma pieces_Cons:
  assumes "prefix b t" and "pieces a ss"
  shows "pieces (b @ a) (t # ss)"
proof -
  obtain ps where "a = concat ps" "list_all2 prefix ps ss" using assms(2) by (auto simp: pieces_def)
  then have "b @ a = concat (b # ps)" "list_all2 prefix (b # ps) (t # ss)" using assms(1) by simp_all
  then show ?thesis unfolding pieces_def by blast
qed

lemma send_all_pieces: "send_all ks ss = (out, ks') \<Longrightarrow> pieces out ss"
proof (induction ss arbitrary: ks out ks')
  case Nil
  then show ?case by (simp add: pieces_def)
next
  case (Cons s ss)
  obtain r o1 k1 where 1: "send_string ks s = (r, o1, k1)" by (metis prod_cases3)
  obtain o2 k2 where 2: "send_all k1 ss = (o2, k2)" by force
  have "prefix o1 s" using send_string_prefix [where ks = ks and buf = s] 1 by simp
  then show ?case using Cons.IH [OF 2] Cons.prems 1 2 by (auto intro: pieces_Cons)
qed

lemma send_once_prefix: "prefix (send_once ks buf) buf"
  by (auto simp: send_once_def take_is_prefix split: list.split)

lemma send_all_ready: "send_all [] ss = (concat ss, [])"
proof (induction ss)
  case (Cons s ss)
  then show ?case by (cases s) simp_all
qed simp

text \<open>A line without carriage return, followed by the end of line, in a buffer of sufficient size.\<close>

lemma recv_loop_line:
  "13 \<notin> set line \<Longrightarrow> i + length line + 2 \<le> length buf \<Longrightarrow>
   recv_loop (line @ EOL @ rest) i 0 buf = Some (True, take i buf @ line @ 0 # 10 # drop (i + length line + 2) buf, rest)"
proof (induction line arbitrary: i buf)
  case Nil
  then have "i < length buf" "Suc i < length buf" by simp_all
  moreover from this have "buf[i := 0, Suc i := 10] = take i buf @ 0 # 10 # drop (i + 2) buf"
    by (simp add: upd_conv_take_nth_drop)
  ultimately show ?case by (simp add: EOL_def list_update_swap)
next
  case (Cons b line)
  have "take (Suc i) (buf[i := b]) = take i buf @ [b]" using Cons.prems(2) by (simp add: take_Suc_conv_app_nth)
  moreover have "drop (Suc i + length line + 2) (buf[i := b]) = drop (i + length (b # line) + 2) buf" by simp
  ultimately show ?case using Cons.IH [of "Suc i" "buf[i := b]"] Cons.prems by (simp add: EOL_def)
qed

lemma recv_line_line:
  assumes "13 \<notin> set line" and "0 \<notin> set line" and "length line + 2 \<le> length buf"
  shows "\<exists>n buf'. recv_line (line @ EOL @ rest) buf = Some (n, buf', rest) \<and> c_text buf' = Some line"
  using assms recv_loop_line [of line 0 buf rest] by (auto simp: recv_line_def c_text_def c_str_def takeWhile_append)

text \<open>The request buffer can be overflown.  When a client sends more than 500 octets of which none is a carriage return,
  \<^verbatim>\<open>recv_line\<close> writes behind the buffer of \<^verbatim>\<open>handle_connection\<close>, whatever the buffer held.\<close>

theorem long_request_overflows:
  assumes "length stream > 500" and "13 \<notin> set (take 500 stream)" and "length request = 500"
  shows "handle_connection open_file M ks request stream = None"
proof -
  have "recv_loop bs i 0 buf = None" if "length bs + i > length buf" "13 \<notin> set (take (length buf - i) bs)" "i \<le> length buf" for bs i buf
    using that
  proof (induction bs arbitrary: i buf)
    case (Cons b bs)
    show ?case
    proof (cases "i < length buf")
      case True
      then have "length buf - i = Suc (length buf - Suc i)" by simp
      then have "b \<noteq> 13" "13 \<notin> set (take (length buf - Suc i) bs)" using Cons.prems(2) by auto
      then show ?thesis using Cons.IH [of "buf[i := b]" "Suc i"] Cons.prems True by (simp add: EOL_def c_nth_def)
    qed (use Cons.prems in \<open>simp add: c_nth_def\<close>)
  qed simp
  then have "recv_loop stream 0 0 request = None" using assms by simp
  then show ?thesis by (simp add: handle_connection_def recv_line_def)
qed

theorem long_request_overflows_witness:
  "handle_connection (\<lambda>_. None) \<lparr>malloc_ok = (\<lambda>_. True), malloc_octets = (\<lambda>n. replicate n 0)\<rparr> [] (replicate 500 0) (replicate 501 65) = None"
  using long_request_overflows [of "replicate 501 65" "replicate 500 0"] by simp

subsection \<open>Answers\<close>

definition page :: "bytes \<Rightarrow> bytes" where
  "page url = (if last url = 47 then url @ octets ''index.html'' else url)"

lemma strstr_space: "32 \<notin> set xs \<Longrightarrow> prefix (32 # n) ys \<Longrightarrow> strstr (xs @ ys) (32 # n) = Some (length xs)"
proof (induction xs)
  case Nil
  then show ?case by (cases ys) auto
qed auto

lemma octets_consts [simp]: "octets ''GET '' = [71, 69, 84, 32]" "octets ''HEAD '' = [72, 69, 65, 68, 32]" "octets '' HTTP/'' = [32, 72, 84, 84, 80, 47]"
    "length (octets ''index.html'') = 10" "length WEBROOT = 9"
  by (simp_all add: octets_def WEBROOT_def)

lemma file_size: "fstat_size fd = Some n \<Longrightarrow> n < 2 ^ 31 \<Longrightarrow> get_file_size fd = int n"
  by (simp add: get_file_size_def sint_uint unsigned_of_nat signed_take_bit_int_eq_self take_bit_nat_eq_self)

lemma read_into_length: "length (read_into fd buf) = length buf"
  by (auto simp: read_into_def split: option.split)

lemma read_into_prefix: "read_octets fd (length buf) = Some bs \<Longrightarrow> length bs \<le> length buf \<Longrightarrow> prefix bs (read_into fd buf)"
  by (simp add: read_into_def)

text \<open>What the client gets for an open file: the program ends when the size of the file or the memory for a GET is not to be had; otherwise the header is sent, and for a GET as many
  octets as the size says, which begin with what \<^verbatim>\<open>read\<close> delivers.\<close>

definition file_answer :: "web_memory \<Rightarrow> bool \<Rightarrow> bool \<Rightarrow> web_file \<Rightarrow> bool \<Rightarrow> bytes \<Rightarrow> bool" where
  "file_answer M complete get fd fatal sent \<longleftrightarrow>
     (fatal \<longleftrightarrow> get \<and> (case fstat_size fd of None \<Rightarrow> True | Some n \<Rightarrow> \<not> malloc_ok M n)) \<and>
     (if \<not> get \<or> fatal then pieces sent found_header \<and> (complete \<longrightarrow> sent = concat found_header)
      else \<exists>n body. fstat_size fd = Some n \<and> length body = n \<and>
        (\<forall>bs. read_octets fd n = Some bs \<and> length bs \<le> n \<longrightarrow> prefix bs body) \<and>
        pieces sent (found_header @ [body]) \<and> (complete \<longrightarrow> sent = concat found_header @ body))"

lemma serve_file_answer:
  assumes "\<And>n. fstat_size fd = Some n \<Longrightarrow> n < 2 ^ 31" and "\<And>n. length (malloc_octets M n) = n" and "serve_file M ks get fd = (fatal, sent)"
  shows "file_answer M (ks = []) get fd fatal sent"
proof -
  obtain out ks' where o: "send_all ks found_header = (out, ks')" by force
  have p: "pieces out found_header" "ks = [] \<Longrightarrow> out = concat found_header \<and> ks' = []"
    using send_all_pieces [OF o] o send_all_ready [of found_header] by auto
  show ?thesis
  proof (cases "get \<and> (\<exists>n. fstat_size fd = Some n \<and> malloc_ok M n)")
    case True
    then obtain n where n: "get" "fstat_size fd = Some n" "malloc_ok M n" by blast
    let ?body = "read_into fd (malloc_octets M n)"
    have r: "fatal = False" "sent = out @ send_once ks' ?body"
      using assms(3) o n file_size [OF n(2) assms(1) [OF n(2)]] by (auto simp: serve_file_def)
    have "length ?body = n" "\<forall>bs. read_octets fd n = Some bs \<and> length bs \<le> n \<longrightarrow> prefix bs ?body"
      using assms(2) read_into_length read_into_prefix [of fd "malloc_octets M n"] by auto
    moreover have "pieces sent (found_header @ [?body])" unfolding r(2) by (rule pieces_append [OF p(1) send_once_prefix])
    moreover have "ks = [] \<Longrightarrow> sent = concat found_header @ ?body" using p(2) r(2) by (simp add: send_once_def)
    ultimately show ?thesis using n r(1) unfolding file_answer_def by auto
  next
    case False
    have size: "get_file_size fd = (case fstat_size fd of None \<Rightarrow> -1 | Some n \<Rightarrow> int n)"
      using file_size assms(1) by (auto simp: get_file_size_def split: option.split)
    then have "fatal = get" "sent = out" using False assms(3) o by (auto simp: serve_file_def split: option.splits if_splits)
    then show ?thesis using False p by (auto simp: file_answer_def split: option.split)
  qed
qed

text \<open>The request of a path, with the method and the version of the client.\<close>

definition request_line :: "bool \<Rightarrow> bytes \<Rightarrow> bytes \<Rightarrow> bytes" where
  "request_line get url ver = octets (if get then ''GET '' else ''HEAD '') @ url @ octets '' HTTP/'' @ ver"

definition good_url :: "bytes \<Rightarrow> bool" where
  "good_url url \<longleftrightarrow> url \<noteq> [] \<and> hd url = 47 \<and> 0 \<notin> set url \<and> 13 \<notin> set url \<and> 32 \<notin> set url"

lemma strstr_request:
  assumes "good_url url"
  shows "strstr (request_line get url ver) (octets '' HTTP/'') = Some ((if get then 4 else 5) + length url)"
proof -
  obtain path where url: "url = 47 # path" "32 \<notin> set url" using assms by (cases url) (auto simp: good_url_def)
  have "strstr (url @ [32, 72, 84, 84, 80, 47] @ ver) [32, 72, 84, 84, 80, 47] = Some (length url)"
    using url(2) by (intro strstr_space) auto
  then show ?thesis by (simp add: request_line_def url(1))
qed

text \<open>Property C39: the answer to a request, whatever the calls of the system return.  For a GET or HEAD request of an absolute path without spaces whose line fits, the
  server reads the line and opens the path below its root directory, with \<^verbatim>\<open>index.html\<close> for a path that ends in a slash; no buffer is overrun, whatever the
  request buffer held before.  If the file cannot be opened, the 404 page is sent.  Otherwise the header is sent, and for GET as many octets as the size of the file
  (less than 2 GiB), which begin with the octets that \<^verbatim>\<open>read\<close> delivered: the file, when \<^verbatim>\<open>read\<close> delivers all of it.  The program ends with an error exactly
  when for GET the size or the memory cannot be had.  What arrives is a prefix of each part of the answer, and the whole answer when \<^verbatim>\<open>send\<close> takes all octets.\<close>

theorem web_server_answers:
  assumes "good_url url" and "0 \<notin> set ver" and "13 \<notin> set ver" and "length url + length ver \<le> 480" and "length request = 500"
    and "\<And>f fd n. open_file f = Some fd \<Longrightarrow> fstat_size fd = Some n \<Longrightarrow> n < 2 ^ 31" and "\<And>n. length (malloc_octets M n) = n"
  shows "\<exists>fatal sent. handle_connection open_file M ks request (request_line get url ver @ EOL @ rest) = Some (fatal, sent) \<and>
    (case open_file (WEBROOT @ page url) of
       None \<Rightarrow> \<not> fatal \<and> pieces sent not_found \<and> (ks = [] \<longrightarrow> sent = concat not_found)
     | Some fd \<Rightarrow> file_answer M (ks = []) get fd fatal sent)"
proof -
  let ?line = "request_line get url ver" and ?off = "if get then 4 else 5 :: nat"
  have line: "13 \<notin> set ?line" "0 \<notin> set ?line" "length ?line + 2 \<le> length request"
    using assms(1-5) by (auto simp: request_line_def good_url_def)
  obtain n buf where recv: "recv_line (?line @ EOL @ rest) request = Some (n, buf, rest)" "c_text buf = Some ?line"
    using recv_line_line [OF line] by blast
  have cut: "take (?off + length url) ?line = octets (if get then ''GET '' else ''HEAD '') @ url" by (simp add: request_line_def)
  have url: "url \<noteq> []" "last url = url ! (length url - 1)" using assms(1) by (auto simp: good_url_def last_conv_nth)
  have slash: "c_nth (octets (if get then ''GET '' else ''HEAD '') @ url) (?off + length url - 1) = Some (last url)"
    using url by (cases get) (auto simp: c_nth_def nth_append)
  have min: "min (length ?line) (?off + length url) = ?off + length url" by (simp add: request_line_def)
  have small: "length url \<le> 480" using assms(4) by simp
  have page: "length WEBROOT + length (page url) + 1 \<le> 500" using small by (simp add: page_def)
  have run: "handle_connection open_file M ks request (?line @ EOL @ rest) =
    (case open_file (WEBROOT @ page url) of None \<Rightarrow> Some (False, fst (send_all ks not_found)) | Some fd \<Rightarrow> Some (serve_file M ks get fd))"
    using recv strstr_request [OF assms(1), of get ver] cut min slash small page
    by (cases get; cases "last url = 47") (simp_all add: handle_connection_def page_def cong: option.case_cong)
  show ?thesis
  proof (cases "open_file (WEBROOT @ page url)")
    case None
    obtain out ks' where o: "send_all ks not_found = (out, ks')" by force
    then show ?thesis using None run send_all_pieces [OF o] send_all_ready [of not_found] by auto
  next
    case (Some fd)
    obtain fatal sent where f: "serve_file M ks get fd = (fatal, sent)" by force
    then show ?thesis using Some run serve_file_answer [OF _ assms(7) f] assms(6) [OF Some] by auto
  qed
qed

definition sample_page :: web_file where
  "sample_page = \<lparr>fstat_size = Some 2, read_octets = (\<lambda>_. Some [104, 105])\<rparr>"

definition sample_memory :: web_memory where
  "sample_memory = \<lparr>malloc_ok = (\<lambda>_. True), malloc_octets = (\<lambda>n. replicate n 7)\<rparr>"

theorem web_server_answers_witness:
  "handle_connection (\<lambda>f. if f = WEBROOT @ octets ''/index.html'' then Some sample_page else None) sample_memory [] (replicate 500 7)
     (request_line True (octets ''/'') (octets ''1.0'') @ EOL @ []) = Some (False, concat found_header @ [104, 105])"
proof -
  let ?fs = "\<lambda>f. if f = WEBROOT @ octets ''/index.html'' then Some sample_page else None"
  have page: "?fs (WEBROOT @ page (octets ''/'')) = Some sample_page" by (simp add: page_def octets_def)
  have "\<exists>fatal sent. handle_connection ?fs sample_memory [] (replicate 500 7) (request_line True (octets ''/'') (octets ''1.0'') @ EOL @ []) = Some (fatal, sent) \<and>
    (case ?fs (WEBROOT @ page (octets ''/'')) of
       None \<Rightarrow> \<not> fatal \<and> pieces sent not_found \<and> ([] = ([] :: int list) \<longrightarrow> sent = concat not_found)
     | Some fd \<Rightarrow> file_answer sample_memory ([] = ([] :: int list)) True fd fatal sent)"
    by (rule web_server_answers) (auto simp: good_url_def octets_def sample_page_def sample_memory_def split: if_splits)
  then obtain fatal sent where r: "handle_connection ?fs sample_memory [] (replicate 500 7) (request_line True (octets ''/'') (octets ''1.0'') @ EOL @ []) = Some (fatal, sent)"
      "file_answer sample_memory True True sample_page fatal sent" unfolding page by auto
  from r(2) have "fatal = False" "sent = concat found_header @ [104, 105]"
    by (auto simp: file_answer_def sample_page_def sample_memory_def prefix_def)
  then show ?thesis using r(1) by simp
qed

text \<open>A directory can be opened and has a size, but it cannot be read: what is sent are the octets of the memory.\<close>

lemma unreadable_file_sends_memory:
  assumes "fstat_size fd = Some n" and "n < 2 ^ 31" and "malloc_ok M n" and "length (malloc_octets M n) = n" and "read_octets fd n = None"
  shows "serve_file M [] True fd = (False, concat found_header @ malloc_octets M n)"
  using file_size [OF assms(1,2)] assms by (simp add: serve_file_def send_all_ready send_once_def read_into_def)

end
