(* ===== verification/PasswordMatrix.thy ===== *)
theory PasswordMatrix
  imports Prelude
begin

text \<open>
  The pair \<^verbatim>\<open>ppm_gen.c\<close> and \<^verbatim>\<open>ppm_crack.c\<close> of \<^verbatim>\<open>hacking_the_art_of_exploitation_booksrc\<close>: the first program records in a
  matrix of bits which pairs of characters occur with which parts of a hash, over all passwords of four printable characters;
  the second one reads eight rows of the matrix, intersects them and tries the pairs that remain.

  The hash function \<^verbatim>\<open>crypt\<close> with the salt of the programs is a parameter.  The matrix is a list of octets; its memory comes from
  \<^verbatim>\<open>malloc\<close> and is not cleared, so its first contents are an argument.  Undefined are accesses outside the matrix and the hash, a
  row that is not complete, and a hash character for which \<^verbatim>\<open>enum_hashbyte\<close> sets no value.
\<close>

subsection \<open>The functions of both programs\<close>

definition HEIGHT :: nat where "HEIGHT = 16384"
definition WIDTH :: nat where "WIDTH = 1129"
definition DEPTH :: nat where "DEPTH = 8"
definition SIZE :: nat where "SIZE = HEIGHT * WIDTH * DEPTH"
definition DCM :: nat where "DCM = HEIGHT * WIDTH"

definition enum_hashbyte :: "byte \<Rightarrow> nat option" where
  "enum_hashbyte a =
     (let i = unat a in
      if 46 \<le> i \<and> i \<le> 57 then Some (i - 46)
      else if 65 \<le> i \<and> i \<le> 90 then Some (i - 53)
      else if 97 \<le> i \<and> i \<le> 122 then Some (i - 59)
      else None)"

definition enum_hashtriplet :: "byte \<Rightarrow> byte \<Rightarrow> byte \<Rightarrow> nat option" where
  "enum_hashtriplet a b c = do {
     z \<leftarrow> enum_hashbyte c;
     x \<leftarrow> enum_hashbyte a;
     y \<leftarrow> enum_hashbyte b;
     Some ((z mod 4) * 4096 + x * 64 + y)
   }"

text \<open>The number of the part \<open>m\<close> of a hash: its octets \<open>2 m + 2\<close> to \<open>2 m + 4\<close>.\<close>

definition hash_part :: "bytes \<Rightarrow> nat \<Rightarrow> nat option" where
  "hash_part code m = do {
     a \<leftarrow> c_nth (code @ [0]) (2 * m + 2);
     b \<leftarrow> c_nth (code @ [0]) (2 * m + 3);
     c \<leftarrow> c_nth (code @ [0]) (2 * m + 4);
     enum_hashtriplet a b c
   }"

subsection \<open>ppm\_gen\<close>

definition mark :: "nat \<Rightarrow> nat \<Rightarrow> bytes \<Rightarrow> bytes option" where
  "mark val charval data = do {
     b \<leftarrow> c_nth data (val * WIDTH + charval div 8);
     Some (data[val * WIDTH + charval div 8 := b OR push_bit (charval mod 8) 1])
   }"

definition charval :: "nat \<Rightarrow> nat \<Rightarrow> nat" where
  "charval i j = (i - 32) * 95 + (j - 32)"

definition add_part :: "bytes \<Rightarrow> nat \<Rightarrow> nat \<Rightarrow> nat \<Rightarrow> bytes \<Rightarrow> bytes option" where
  "add_part code m first second data = do {
     t \<leftarrow> hash_part code m;
     let val = m * HEIGHT + t;
     data \<leftarrow> mark val first data;
     mark (val + HEIGHT * 4) second data
   }"

definition plain_text :: "nat \<times> nat \<times> nat \<times> nat \<Rightarrow> bytes" where
  "plain_text p = (case p of (i, j, k, l) \<Rightarrow> map of_nat [i, j, k, l])"

definition add_plain :: "(bytes \<Rightarrow> bytes) \<Rightarrow> nat \<times> nat \<times> nat \<times> nat \<Rightarrow> bytes \<Rightarrow> bytes option" where
  "add_plain crypt p data = (case p of (i, j, k, l) \<Rightarrow> do {
     let code = crypt (plain_text p);
     data \<leftarrow> add_part code 0 (charval i j) (charval k l) data;
     data \<leftarrow> add_part code 1 (charval i j) (charval k l) data;
     data \<leftarrow> add_part code 2 (charval i j) (charval k l) data;
     add_part code 3 (charval i j) (charval k l) data
   })"

fun gen_loop :: "(bytes \<Rightarrow> bytes) \<Rightarrow> (nat \<times> nat \<times> nat \<times> nat) list \<Rightarrow> bytes \<Rightarrow> bytes option" where
  "gen_loop crypt [] data = Some data"
| "gen_loop crypt (p # ps) data = do { data \<leftarrow> add_plain crypt p data; gen_loop crypt ps data }"

text \<open>The four nested loops.\<close>

definition all_plain :: "(nat \<times> nat \<times> nat \<times> nat) list" where
  "all_plain = List.product [32..<127] (List.product [32..<127] (List.product [32..<127] [32..<127]))"

definition ppm_gen :: "(bytes \<Rightarrow> bytes) \<Rightarrow> bytes \<Rightarrow> bytes option" where
  "ppm_gen crypt data = gen_loop crypt all_plain data"

subsection \<open>ppm\_crack\<close>

definition read_vector :: "bytes \<Rightarrow> nat \<Rightarrow> nat \<Rightarrow> bytes option" where
  "read_vector file m t = c_take WIDTH (drop (DCM * m + t * WIDTH) file)"

definition merge_vector :: "bytes \<Rightarrow> bytes \<Rightarrow> bytes" where
  "merge_vector v w = map2 (AND) v w"

definition get_vector_bit :: "bytes \<Rightarrow> nat \<Rightarrow> bool option" where
  "get_vector_bit v index = do { b \<leftarrow> c_nth v (index div 8); Some (bit b (index mod 8)) }"

text \<open>The rows of the four parts of the hash, from the row block \<open>base\<close> on.\<close>

definition bin_vector :: "bytes \<Rightarrow> bytes \<Rightarrow> nat \<Rightarrow> bytes option" where
  "bin_vector file pass base = do {
     t0 \<leftarrow> hash_part pass 0;
     v0 \<leftarrow> read_vector file base t0;
     t1 \<leftarrow> hash_part pass 1;
     v1 \<leftarrow> read_vector file (base + 1) t1;
     t2 \<leftarrow> hash_part pass 2;
     v2 \<leftarrow> read_vector file (base + 2) t2;
     t3 \<leftarrow> hash_part pass 3;
     v3 \<leftarrow> read_vector file (base + 3) t3;
     Some (merge_vector (merge_vector (merge_vector v0 v1) v2) v3)
   }"

fun prob_vector :: "bytes \<Rightarrow> nat list \<Rightarrow> (nat \<times> nat) list option" where
  "prob_vector v [] = Some []"
| "prob_vector v (i # is) = do {
     on \<leftarrow> get_vector_bit v i;
     ps \<leftarrow> prob_vector v is;
     Some (if on then (i div 95, i - (i div 95) * 95) # ps else ps)
   }"

text \<open>The reports on the way: the number of pairs that are left, and the pairs.\<close>

fun count_vector_bits :: "bytes \<Rightarrow> nat list \<Rightarrow> nat option" where
  "count_vector_bits v [] = Some 0"
| "count_vector_bits v (i # is) = do {
     on \<leftarrow> get_vector_bit v i;
     n \<leftarrow> count_vector_bits v is;
     Some (of_bool on + n)
   }"

fun print_vector :: "bytes \<Rightarrow> nat list \<Rightarrow> bytes option" where
  "print_vector v [] = Some [10]"
| "print_vector v (i # is) = do {
     on \<leftarrow> get_vector_bit v i;
     out \<leftarrow> print_vector v is;
     Some (if on then [of_nat (i div 95 + 32), of_nat (i - (i div 95) * 95 + 32), 32] @ out else out)
   }"

text \<open>The loops end at the first password with the hash.\<close>

definition try_pairs :: "(bytes \<Rightarrow> bytes) \<Rightarrow> bytes \<Rightarrow> (nat \<times> nat) list \<Rightarrow> (nat \<times> nat) list \<Rightarrow> bytes option" where
  "try_pairs crypt pass ps qs =
     find (\<lambda>plain. crypt plain = pass) (map (\<lambda>((a, b), (c, d)). map of_nat [a + 32, b + 32, c + 32, d + 32]) (List.product ps qs))"

definition ppm_crack :: "(bytes \<Rightarrow> bytes) \<Rightarrow> bytes \<Rightarrow> bytes \<Rightarrow> bytes option option" where
  "ppm_crack crypt file pass = do {
     v1 \<leftarrow> bin_vector file pass 0;
     v2 \<leftarrow> bin_vector file pass 4;
     ps \<leftarrow> prob_vector v1 [0..<9025];
     qs \<leftarrow> prob_vector v2 [0..<9025];
     Some (try_pairs crypt pass ps qs)
   }"

subsection \<open>Hash values\<close>

text \<open>The documented form of the result of \<^verbatim>\<open>crypt\<close>: 13 characters of the alphabet of 64.\<close>

definition hash_char :: "byte \<Rightarrow> bool" where
  "hash_char c \<longleftrightarrow> enum_hashbyte c \<noteq> None"

definition crypt_hash :: "bytes \<Rightarrow> bool" where
  "crypt_hash h \<longleftrightarrow> length h = 13 \<and> (\<forall>c\<in>set h. hash_char c)"

lemma enum_hashbyte_less: "enum_hashbyte a = Some x \<Longrightarrow> x < 64"
  by (auto simp: enum_hashbyte_def Let_def split: if_splits)

lemma hash_part_ok:
  assumes "crypt_hash h" and "m < 4"
  shows "\<exists>t. hash_part h m = Some t \<and> t < HEIGHT"
proof -
  have get: "\<exists>x. c_nth (h @ [0]) i = Some (h ! i) \<and> enum_hashbyte (h ! i) = Some x \<and> x < 64" if "i < 13" for i
  proof -
    have "h ! i \<in> set h" "length h = 13" using that assms(1) by (simp_all add: crypt_hash_def)
    moreover obtain x where "enum_hashbyte (h ! i) = Some x" using calculation(1) assms(1) by (auto simp: crypt_hash_def hash_char_def)
    ultimately show ?thesis using that enum_hashbyte_less by (auto simp: nth_append)
  qed
  obtain x y z where "c_nth (h @ [0]) (2 * m + 2) = Some (h ! (2 * m + 2))" "enum_hashbyte (h ! (2 * m + 2)) = Some x" "x < 64"
      "c_nth (h @ [0]) (2 * m + 3) = Some (h ! (2 * m + 3))" "enum_hashbyte (h ! (2 * m + 3)) = Some y" "y < 64"
      "c_nth (h @ [0]) (2 * m + 4) = Some (h ! (2 * m + 4))" "enum_hashbyte (h ! (2 * m + 4)) = Some z"
    using get [of "2 * m + 2"] get [of "2 * m + 3"] get [of "2 * m + 4"] assms(2) by auto
  moreover have "(z mod 4) * 4096 + x * 64 + y < HEIGHT" using \<open>x < 64\<close> \<open>y < 64\<close> by (simp add: HEIGHT_def) 
  ultimately show ?thesis by (simp add: hash_part_def enum_hashtriplet_def)
qed

subsection \<open>Bits of the matrix\<close>

definition marked :: "bytes \<Rightarrow> nat \<Rightarrow> nat \<Rightarrow> bool" where
  "marked data val c \<longleftrightarrow> bit (data ! (val * WIDTH + c div 8)) (c mod 8)"

definition extends :: "bytes \<Rightarrow> bytes \<Rightarrow> bool" where
  "extends data data' \<longleftrightarrow> length data = SIZE \<and> length data' = SIZE \<and> (\<forall>v d. marked data v d \<longrightarrow> marked data' v d)"

definition recorded :: "bytes \<Rightarrow> bytes \<Rightarrow> nat \<Rightarrow> nat \<Rightarrow> nat \<Rightarrow> bool" where
  "recorded data code m c d \<longleftrightarrow>
     (\<exists>t. hash_part code m = Some t \<and> t < HEIGHT \<and> marked data (m * HEIGHT + t) c \<and> marked data ((m + 4) * HEIGHT + t) d)"

lemma extends_refl: "length data = SIZE \<Longrightarrow> extends data data"
  by (simp add: extends_def)

lemma extends_trans: "extends a b \<Longrightarrow> extends b c \<Longrightarrow> extends a c"
  by (simp add: extends_def)

lemma recorded_mono: "recorded a code m c d \<Longrightarrow> extends a b \<Longrightarrow> recorded b code m c d"
  by (auto simp: recorded_def extends_def)

lemma row_inside:
  assumes "val < 8 * HEIGHT" and "c < WIDTH"
  shows "val * WIDTH + c < SIZE"
proof -
  have "Suc val * WIDTH \<le> 8 * HEIGHT * WIDTH" using assms(1) by (intro mult_le_mono1) simp
  then show ?thesis using assms(2) by (simp add: SIZE_def DEPTH_def mult_ac)
qed

lemma mark_spec:
  assumes "length data = SIZE" and "val < 8 * HEIGHT" and "c < 9025"
  shows "\<exists>data'. mark val c data = Some data' \<and> extends data data' \<and> marked data' val c"
proof -
  let ?i = "val * WIDTH + c div 8"
  have i: "?i < length data" using assms row_inside [of val "c div 8"] by (simp add: WIDTH_def)
  have "bit (push_bit (c mod 8) 1 :: byte) (c mod 8)" by (simp add: bit_exp_iff)
  then have "marked (data[?i := data ! ?i OR push_bit (c mod 8) 1]) val c" using i by (simp add: marked_def bit_or_iff)
  moreover have "marked (data[?i := data ! ?i OR push_bit (c mod 8) 1]) v d" if "marked data v d" for v d
    using that i by (cases "v * WIDTH + d div 8 = ?i") (auto simp: marked_def bit_or_iff)
  ultimately show ?thesis using i assms(1) by (simp add: mark_def extends_def)
qed

lemma add_part_spec:
  assumes "crypt_hash code" and "m < 4" and "c < 9025" and "d < 9025" and "length data = SIZE"
  shows "\<exists>data'. add_part code m c d data = Some data' \<and> extends data data' \<and> recorded data' code m c d"
proof -
  obtain t where t: "hash_part code m = Some t" "t < HEIGHT" using hash_part_ok [OF assms(1,2)] by blast
  have m: "m * HEIGHT \<le> 3 * HEIGHT" using assms(2) by (intro mult_le_mono1) simp
  obtain d1 where d1: "mark (m * HEIGHT + t) c data = Some d1" "extends data d1" "marked d1 (m * HEIGHT + t) c"
    using mark_spec [of data "m * HEIGHT + t" c] assms t m by auto
  obtain d2 where d2: "mark (m * HEIGHT + t + HEIGHT * 4) d d1 = Some d2" "extends d1 d2" "marked d2 (m * HEIGHT + t + HEIGHT * 4) d"
    using mark_spec [of d1 "m * HEIGHT + t + HEIGHT * 4" d] assms t m d1(2) by (auto simp: extends_def)
  have "recorded d2 code m c d" using t d1 d2 by (auto simp: recorded_def extends_def algebra_simps)
  then show ?thesis using t d1 d2 extends_trans by (auto simp: add_part_def)
qed

subsection \<open>The loops of ppm\_gen\<close>

definition printable_plain :: "nat \<times> nat \<times> nat \<times> nat \<Rightarrow> bool" where
  "printable_plain p = (case p of (i, j, k, l) \<Rightarrow> \<forall>c\<in>set [i, j, k, l]. 32 \<le> c \<and> c < 127)"

definition in_matrix :: "(bytes \<Rightarrow> bytes) \<Rightarrow> bytes \<Rightarrow> nat \<times> nat \<times> nat \<times> nat \<Rightarrow> bool" where
  "in_matrix crypt data p = (case p of (i, j, k, l) \<Rightarrow>
     \<forall>m<4. recorded data (crypt (plain_text p)) m (charval i j) (charval k l))"

lemma charval_less: "i < 127 \<Longrightarrow> j < 127 \<Longrightarrow> charval i j < 9025"
  by (simp add: charval_def)

lemma in_matrix_mono: "in_matrix crypt a p \<Longrightarrow> extends a b \<Longrightarrow> in_matrix crypt b p"
  by (auto simp: in_matrix_def intro: recorded_mono split: prod.splits)

lemma add_plain_spec:
  assumes "crypt_hash (crypt (plain_text p))" and "printable_plain p" and "length data = SIZE"
  shows "\<exists>data'. add_plain crypt p data = Some data' \<and> extends data data' \<and> in_matrix crypt data' p"
proof -
  obtain i j k l where p: "p = (i, j, k, l)" by (cases p)
  let ?h = "crypt (plain_text p)" and ?c = "charval i j" and ?d = "charval k l"
  have cd: "?c < 9025" "?d < 9025" using assms(2) by (auto simp: p printable_plain_def intro: charval_less)
  have part: "\<exists>b. add_part ?h m ?c ?d a = Some b \<and> extends a b \<and> recorded b ?h m ?c ?d" if "m < 4" "length a = SIZE" for m a
    using add_part_spec [OF assms(1) that(1) cd that(2)] .
  obtain d0 where 0: "add_part ?h 0 ?c ?d data = Some d0" "extends data d0" "recorded d0 ?h 0 ?c ?d"
    using part [of 0 data] assms(3) by auto
  obtain d1 where 1: "add_part ?h 1 ?c ?d d0 = Some d1" "extends d0 d1" "recorded d1 ?h 1 ?c ?d"
    using part [of 1 d0] 0(2) by (auto simp: extends_def)
  obtain d2 where 2: "add_part ?h 2 ?c ?d d1 = Some d2" "extends d1 d2" "recorded d2 ?h 2 ?c ?d"
    using part [of 2 d1] 1(2) by (auto simp: extends_def)
  obtain d3 where 3: "add_part ?h 3 ?c ?d d2 = Some d3" "extends d2 d3" "recorded d3 ?h 3 ?c ?d"
    using part [of 3 d2] 2(2) by (auto simp: extends_def)
  have ext: "extends d2 d3" "extends d1 d3" "extends d0 d3" "extends data d3" using 0(2) 1(2) 2(2) 3(2) extends_trans by blast+
  have "recorded d3 ?h m ?c ?d" if "m < 4" for m
  proof -
    have "m = 0 \<or> m = 1 \<or> m = 2 \<or> m = 3" using that by presburger
    then show ?thesis using 0(3) 1(3) 2(3) 3(3) ext recorded_mono by blast
  qed
  then show ?thesis using 0(1) 1(1) 2(1) 3(1) ext(4) by (simp add: add_plain_def p in_matrix_def)
qed

lemma gen_loop_spec:
  assumes "\<And>p. p \<in> set ps \<Longrightarrow> crypt_hash (crypt (plain_text p)) \<and> printable_plain p" and "length data = SIZE"
  shows "\<exists>data'. gen_loop crypt ps data = Some data' \<and> extends data data' \<and> (\<forall>p\<in>set ps. in_matrix crypt data' p)"
  using assms
proof (induction ps arbitrary: data)
  case Nil
  then show ?case by (simp add: extends_refl)
next
  case (Cons p ps)
  obtain d1 where d1: "add_plain crypt p data = Some d1" "extends data d1" "in_matrix crypt d1 p"
    using add_plain_spec [of crypt p data] Cons.prems by auto
  obtain d2 where d2: "gen_loop crypt ps d1 = Some d2" "extends d1 d2" "\<forall>p\<in>set ps. in_matrix crypt d2 p"
    using Cons.IH [of d1] Cons.prems(1) d1(2) by (auto simp: extends_def)
  then have "in_matrix crypt d2 p" "extends data d2" using d1 in_matrix_mono extends_trans by blast+
  then show ?case using d1(1) d2 by simp
qed

lemma all_plain_iff: "p \<in> set all_plain \<longleftrightarrow> printable_plain p"
  by (cases p) (simp add: all_plain_def printable_plain_def conj_ac del: upt_rec_numeral)

lemma ppm_gen_spec:
  assumes "\<And>p. crypt_hash (crypt p)" and "length data = SIZE"
  shows "\<exists>data'. ppm_gen crypt data = Some data' \<and> length data' = SIZE \<and> (\<forall>p. printable_plain p \<longrightarrow> in_matrix crypt data' p)"
  using gen_loop_spec [of all_plain crypt data] assms by (auto simp: ppm_gen_def all_plain_iff extends_def)

subsection \<open>The vectors of ppm\_crack\<close>

lemma read_vector_spec:
  assumes "length data = SIZE" and "m < 8" and "t < HEIGHT"
  shows "read_vector data m t = Some (map (\<lambda>i. data ! ((m * HEIGHT + t) * WIDTH + i)) [0..<WIDTH])"
proof -
  have off: "DCM * m + t * WIDTH = (m * HEIGHT + t) * WIDTH" by (simp add: DCM_def algebra_simps)
  have "m * HEIGHT \<le> 7 * HEIGHT" using assms(2) by (intro mult_le_mono1) simp
  then have "Suc (m * HEIGHT + t) \<le> 8 * HEIGHT" using assms(3) by linarith
  then have "Suc (m * HEIGHT + t) * WIDTH \<le> 8 * HEIGHT * WIDTH" by (rule mult_le_mono1)
  then have len: "(m * HEIGHT + t) * WIDTH + WIDTH \<le> length data" using assms(1) by (simp add: SIZE_def DEPTH_def mult_ac)
  then have "take WIDTH (drop ((m * HEIGHT + t) * WIDTH) data) = map (\<lambda>i. data ! ((m * HEIGHT + t) * WIDTH + i)) [0..<WIDTH]"
    by (intro nth_equalityI) auto
  then show ?thesis using len by (simp add: read_vector_def off)
qed

text \<open>After the merges the vector is the intersection of the four rows.\<close>

lemma bin_vector_spec:
  assumes "length data = SIZE" and "base \<le> 4" and "\<And>m. m < 4 \<Longrightarrow> hash_part pass m = Some (t m) \<and> t m < HEIGHT"
  shows "\<exists>v. bin_vector data pass base = Some v \<and>
    (\<forall>c<9025. get_vector_bit v c = Some (\<forall>m<4. marked data ((base + m) * HEIGHT + t m) c))"
proof -
  let ?row = "\<lambda>m. map (\<lambda>i. data ! (((base + m) * HEIGHT + t m) * WIDTH + i)) [0..<WIDTH]"
  have r: "read_vector data (base + m) (t m) = Some (?row m)" if "m < 4" for m
    using read_vector_spec [of data "base + m" "t m"] assms that by simp
  have all4: "(\<forall>m<(4::nat). P m) \<longleftrightarrow> P 0 \<and> P 1 \<and> P 2 \<and> P 3" for P
    by (auto simp: numeral_eq_Suc less_Suc_eq)
  have "bin_vector data pass base = Some (merge_vector (merge_vector (merge_vector (?row 0) (?row 1)) (?row 2)) (?row 3))"
    using assms(3) [of 0] assms(3) [of 1] assms(3) [of 2] assms(3) [of 3] r [of 0] r [of 1] r [of 2] r [of 3]
    by (simp add: bin_vector_def)
  moreover have "get_vector_bit (merge_vector (merge_vector (merge_vector (?row 0) (?row 1)) (?row 2)) (?row 3)) c
      = Some (\<forall>m<4. marked data ((base + m) * HEIGHT + t m) c)" if "c < 9025" for c
  proof -
    have "c div 8 < WIDTH" using that by (simp add: WIDTH_def)
    then show ?thesis by (simp add: get_vector_bit_def merge_vector_def marked_def bit_and_iff all4)
  qed
  ultimately show ?thesis by blast
qed

lemma prob_vector_spec:
  assumes "\<And>i. i \<in> set is \<Longrightarrow> get_vector_bit v i = Some (on i)"
  shows "prob_vector v is = Some (map (\<lambda>i. (i div 95, i mod 95)) (filter on is))"
  using assms by (induction "is") (auto simp: minus_div_mult_eq_mod)

text \<open>The reports name the pairs that the search takes.\<close>

lemma count_vector_bits_eq: "count_vector_bits v is = map_option length (prob_vector v is)"
  by (induction v "is" rule: prob_vector.induct) (auto simp: map_option_case split: option.splits bind_splits)

lemma print_vector_eq:
  "print_vector v is = map_option (\<lambda>ps. concat (map (\<lambda>(a, b). [of_nat (a + 32), of_nat (b + 32), 32]) ps) @ [10]) (prob_vector v is)"
  by (induction v "is" rule: prob_vector.induct) (auto simp: map_option_case split: option.splits bind_splits)

subsection \<open>The search\<close>

definition pairs_of :: "(nat \<Rightarrow> bool) \<Rightarrow> (nat \<times> nat) list" where
  "pairs_of on = map (\<lambda>i. (i div 95, i mod 95)) (filter on [0..<9025])"

lemma pairs_of_charval:
  assumes "32 \<le> i" "i < 127" "32 \<le> j" "j < 127"
  shows "on (charval i j) \<Longrightarrow> (i - 32, j - 32) \<in> set (pairs_of on)"
proof -
  assume on: "on (charval i j)"
  have "charval i j div 95 = i - 32" "charval i j mod 95 = j - 32" "charval i j < 9025"
    using assms charval_less unfolding charval_def by (simp_all del: Nat.add_diff_assoc)
  then show ?thesis using on by (auto simp: pairs_of_def image_iff simp del: upt_rec_numeral intro!: bexI [of _ "charval i j"])
qed

lemma pairs_of_less: "(a, b) \<in> set (pairs_of on) \<Longrightarrow> a < 95 \<and> b < 95"
  by (auto simp: pairs_of_def less_mult_imp_div_less simp del: upt_rec_numeral)

definition row_bits :: "bytes \<Rightarrow> bytes \<Rightarrow> nat \<Rightarrow> nat \<Rightarrow> bool" where
  "row_bits data pass base c \<longleftrightarrow>
     (\<forall>m<4. \<exists>t. hash_part pass m = Some t \<and> marked data ((base + m) * HEIGHT + t) c)"

lemma ppm_crack_eq:
  assumes "length data = SIZE" and "crypt_hash pass"
  shows "ppm_crack crypt data pass =
    Some (try_pairs crypt pass (pairs_of (row_bits data pass 0)) (pairs_of (row_bits data pass 4)))"
proof -
  obtain t where t: "\<And>m. m < 4 \<Longrightarrow> hash_part pass m = Some (t m) \<and> t m < HEIGHT"
    using hash_part_ok [OF assms(2)] by metis
  have rows: "(\<forall>m<4. marked data ((base + m) * HEIGHT + t m) c) \<longleftrightarrow> row_bits data pass base c" for base c
    using t by (auto simp: row_bits_def)
  have probs: "\<exists>v. bin_vector data pass base = Some v \<and> prob_vector v [0..<9025] = Some (pairs_of (row_bits data pass base))"
    if base: "base \<le> 4" for base
  proof -
    obtain v where "bin_vector data pass base = Some v" "\<forall>c<9025. get_vector_bit v c = Some (row_bits data pass base c)"
      using bin_vector_spec [OF assms(1) base t] unfolding rows by blast
    moreover from this(2) have "prob_vector v [0..<9025] = Some (pairs_of (row_bits data pass base))"
      unfolding pairs_of_def by (intro prob_vector_spec) (simp del: upt_rec_numeral)
    ultimately show ?thesis by blast
  qed
  show ?thesis using probs [of 0] probs [of 4] by (auto simp: ppm_crack_def simp del: upt_rec_numeral)
qed

lemma try_pairs_Some:
  assumes "try_pairs crypt pass (pairs_of f) (pairs_of g) = Some plain"
  shows "crypt plain = pass \<and> (\<exists>p. printable_plain p \<and> plain = plain_text p)"
proof -
  obtain a b c d where "crypt plain = pass" "(a, b) \<in> set (pairs_of f)" "(c, d) \<in> set (pairs_of g)"
      "plain = plain_text (a + 32, b + 32, c + 32, d + 32)"
    using assms unfolding try_pairs_def find_Some_iff
    by (auto simp del: length_map simp: plain_text_def dest!: nth_mem)
  moreover from this have "printable_plain (a + 32, b + 32, c + 32, d + 32)"
    by (auto simp: printable_plain_def dest!: pairs_of_less)
  ultimately show ?thesis by blast
qed

lemma in_matrix_candidate:
  assumes "in_matrix crypt data (i, j, k, l)" and "crypt (plain_text (i, j, k, l)) = pass"
  shows "row_bits data pass 0 (charval i j) \<and> row_bits data pass 4 (charval k l)"
  using assms by (auto simp: in_matrix_def row_bits_def recorded_def add.commute)

lemma try_pairs_None:
  assumes "try_pairs crypt pass (pairs_of f) (pairs_of g) = None" and "printable_plain (i, j, k, l)"
    and "f (charval i j)" and "g (charval k l)"
  shows "crypt (plain_text (i, j, k, l)) \<noteq> pass"
proof -
  have "(i - 32, j - 32) \<in> set (pairs_of f)" "(k - 32, l - 32) \<in> set (pairs_of g)"
    using assms(2-4) pairs_of_charval by (auto simp: printable_plain_def)
  then have "plain_text (i - 32 + 32, j - 32 + 32, k - 32 + 32, l - 32 + 32) \<in>
      set (map (\<lambda>((a, b), (c, d)). map of_nat [a + 32, b + 32, c + 32, d + 32]) (List.product (pairs_of f) (pairs_of g)))"
    by (force simp: plain_text_def)
  then have "crypt (plain_text (i - 32 + 32, j - 32 + 32, k - 32 + 32, l - 32 + 32)) \<noteq> pass"
    using assms(1) unfolding try_pairs_def find_None_iff by blast
  then show ?thesis using assms(2) by (simp add: printable_plain_def)
qed

text \<open>
  Property C33: let \<^verbatim>\<open>crypt\<close> always return 13 characters of its alphabet.  Whatever the memory of the matrix holds at the start,
  \<^verbatim>\<open>ppm_gen\<close> writes a file without leaving the matrix, and with this file \<^verbatim>\<open>ppm_crack\<close> decides every hash: it prints a password
  of four printable characters with this hash, or it prints that there is none, and then there is none.
\<close>

theorem ppm_decides_passwords:
  assumes "\<And>p. crypt_hash (crypt p)" and "length memory = SIZE"
  shows "\<exists>file. ppm_gen crypt memory = Some file \<and>
    (\<forall>pass. crypt_hash pass \<longrightarrow>
      (case ppm_crack crypt file pass of
         None \<Rightarrow> False
       | Some None \<Rightarrow> (\<forall>p. printable_plain p \<longrightarrow> crypt (plain_text p) \<noteq> pass)
       | Some (Some plain) \<Rightarrow> crypt plain = pass \<and> (\<exists>p. printable_plain p \<and> plain = plain_text p)))"
proof -
  obtain f where f: "ppm_gen crypt memory = Some f" "length f = SIZE" "\<And>p. printable_plain p \<Longrightarrow> in_matrix crypt f p"
    using ppm_gen_spec [of crypt memory] assms by blast
  have "crypt (plain_text p) \<noteq> pass"
    if "try_pairs crypt pass (pairs_of (row_bits f pass 0)) (pairs_of (row_bits f pass 4)) = None" "printable_plain p" for pass p
    using that f(3) [of p] try_pairs_None in_matrix_candidate by (cases p) metis
  then show ?thesis using f(1,2) try_pairs_Some
    by (intro exI [of _ f]) (auto simp: ppm_crack_eq split: option.split)
qed

theorem ppm_decides_passwords_witness:
  "\<exists>file. ppm_gen (\<lambda>_. replicate 13 46) (replicate SIZE 0) = Some file \<and>
    (\<exists>plain. ppm_crack (\<lambda>_. replicate 13 46) file (replicate 13 46) = Some (Some plain))"
proof -
  have h: "crypt_hash (replicate 13 46)" by (simp add: crypt_hash_def hash_char_def enum_hashbyte_def)
  have "printable_plain (97, 98, 99, 100)" by (simp add: printable_plain_def)
  then show ?thesis using ppm_decides_passwords [of "\<lambda>_. replicate 13 46" "replicate SIZE 0"] h
    by (fastforce split: option.splits)
qed

end
