(* ===== verification/AsRelations.thy ===== *)
theory AsRelations
  imports Prefix
begin

text \<open>
  The function \<^verbatim>\<open>check_AsRelationship\<close> of \<^verbatim>\<open>Util_Codes/fileOpenExample_with_strsep.c\<close>: it looks in a file of relations between
  autonomous systems for the first line about the two systems at the head of a path.

  A file is its text; a file that cannot be opened is \<open>None\<close>.  The array \<^verbatim>\<open>field\<close> has five entries; a write to a sixth one is undefined, as
  are a number read from the null pointer and closing a file that was not opened.
\<close>

subsection \<open>The code\<close>

datatype AS_REL_DIR = ASPA_UNKNOWNSTREAM | ASPA_UPSTREAM | ASPA_DOWNSTREAM

abbreviation nl :: char where
  "nl \<equiv> CHR 0x0A"

text \<open>\<^verbatim>\<open>fgets\<close> with room for \<open>n\<close> characters: up to and including a newline; the line and the rest of the file.\<close>

fun fgets :: "nat \<Rightarrow> string \<Rightarrow> string \<times> string" where
  "fgets 0 s = ([], s)"
| "fgets (Suc n) [] = ([], [])"
| "fgets (Suc n) (c # s) = (if c = nl then ([c], s) else (case fgets n s of (line, r) \<Rightarrow> (c # line, r)))"

definition delimiter :: "char \<Rightarrow> bool" where
  "delimiter c \<longleftrightarrow> c = CHR ''|'' \<or> c = nl"

text \<open>\<^verbatim>\<open>strsep\<close>: the next field and the new pointer, which is null behind the last field.\<close>

definition strsep :: "string option \<Rightarrow> (string \<times> string option) option" where
  "strsep s = (case s of
     None \<Rightarrow> None
   | Some s \<Rightarrow> Some (takeWhile (\<lambda>c. \<not> delimiter c) s,
       (case dropWhile (\<lambda>c. \<not> delimiter c) s of [] \<Rightarrow> None | _ # r \<Rightarrow> Some r)))"

definition NUM_FIELDS :: nat where "NUM_FIELDS = 5"

text \<open>The loop over the fields assigns \<^verbatim>\<open>field[i]\<close> before it tests \<^verbatim>\<open>i\<close>.  The result is what it stores, the null pointer last.\<close>

function sep_fields :: "nat \<Rightarrow> string option \<Rightarrow> string option list option" where
  "sep_fields i s =
     (if NUM_FIELDS \<le> i then None
      else (case strsep s of
              None \<Rightarrow> Some [None]
            | Some (f, s) \<Rightarrow> do { fs \<leftarrow> sep_fields (Suc i) s; Some (Some f # fs) }))"
  by pat_completeness auto
termination
  by (relation "measure (\<lambda>(i, s). NUM_FIELDS - i)") auto

declare sep_fields.simps [simp del]

text \<open>\<^verbatim>\<open>strtoul(s, NULL, 10)\<close> on a 64-bit system: the largest number when the text is out of range, and a sign negates the result.\<close>

definition ulong_digits :: "string \<Rightarrow> int" where
  "ulong_digits s = min (2 ^ 64 - 1) (atol_digits 0 s)"

definition strtoul :: "string \<Rightarrow> 64 word" where
  "strtoul s =
     (case dropWhile isspace s of
        [] \<Rightarrow> 0
      | c # cs \<Rightarrow>
          if c = CHR ''-'' then (if atol_digits 0 cs < 2 ^ 64 then - word_of_int (atol_digits 0 cs) else - 1)
          else if c = CHR ''+'' then word_of_int (ulong_digits cs)
          else word_of_int (ulong_digits (c # cs)))"

definition get_field :: "string option list \<Rightarrow> nat \<Rightarrow> string option" where
  "get_field fs i = do { f \<leftarrow> c_nth fs i; f }"

text \<open>One line: a result ends the search.  The third number, \<^verbatim>\<open>option\<close>, is read and not used.\<close>

definition check_line :: "32 word \<Rightarrow> 32 word \<Rightarrow> string \<Rightarrow> AS_REL_DIR option option" where
  "check_line as1 as2 buf =
     (if buf = [] \<or> \<not> isdigit (hd buf) then Some None
      else do {
        field \<leftarrow> sep_fields 0 (Some buf);
        f0 \<leftarrow> get_field field 0;
        f1 \<leftarrow> get_field field 1;
        f2 \<leftarrow> get_field field 2;
        let provider_as = (ucast (strtoul f0) :: 32 word);
        let customer_as = (ucast (strtoul f1) :: 32 word);
        Some (if provider_as = as1 \<and> customer_as = as2 then Some ASPA_UPSTREAM
              else if provider_as = as2 \<and> customer_as = as1 then Some ASPA_DOWNSTREAM
              else None)
      })"

lemma fgets_shorter: "fgets n s = (line, r) \<Longrightarrow> 0 < n \<Longrightarrow> s \<noteq> [] \<Longrightarrow> length r < length s"
proof -
  have le: "length (snd (fgets n s)) \<le> length s" for n s
    by (induction n s rule: fgets.induct) (auto split: prod.splits)
  show "fgets n s = (line, r) \<Longrightarrow> 0 < n \<Longrightarrow> s \<noteq> [] \<Longrightarrow> length r < length s"
  proof (induction n s rule: fgets.induct)
    case (3 n c s)
    then show ?case using le [of n s] by (auto split: if_splits prod.splits)
  qed auto
qed

text \<open>The loop over the file; a line is a C string and ends at its first NUL.\<close>

function check_lines :: "32 word \<Rightarrow> 32 word \<Rightarrow> string \<Rightarrow> AS_REL_DIR option" where
  "check_lines as1 as2 cs =
     (if cs = [] then Some ASPA_UNKNOWNSTREAM
      else (case fgets 1023 cs of
        (buf, rest) \<Rightarrow> do {
          found \<leftarrow> check_line as1 as2 (takeWhile (\<lambda>c. c \<noteq> NUL) buf);
          (case found of Some r \<Rightarrow> Some r | None \<Rightarrow> check_lines as1 as2 rest)
        }))"
  by pat_completeness auto
termination
  by (relation "measure (\<lambda>(as1, as2, cs). length cs)") (auto dest: fgets_shorter [OF sym])

declare check_lines.simps [simp del]

definition check_AsRelationship :: "string option \<Rightarrow> 32 word list \<Rightarrow> AS_REL_DIR option" where
  "check_AsRelationship file asPathList = do {
     as1 \<leftarrow> c_nth asPathList 0;
     as2 \<leftarrow> c_nth asPathList 1;
     fp \<leftarrow> file;
     check_lines as1 as2 fp
   }"

subsection \<open>Files of relations\<close>

text \<open>The lines that the comment in the source describes, and comment lines.\<close>

datatype rel_entry = Comment string | Customer nat nat | Peer nat nat string

fun entry_line :: "rel_entry \<Rightarrow> string" where
  "entry_line (Comment s) = CHR ''#'' # s @ [nl]"
| "entry_line (Customer p c) = dec p @ CHR ''|'' # dec c @ CHR ''|'' # ''-1'' @ [nl]"
| "entry_line (Peer a b s) = dec a @ CHR ''|'' # dec b @ CHR ''|'' # ''0'' @ CHR ''|'' # s @ [nl]"

definition plain_chars :: "string \<Rightarrow> bool" where
  "plain_chars s \<longleftrightarrow> list_all (\<lambda>c. c \<noteq> nl \<and> c \<noteq> NUL) s"

fun entry_ok :: "rel_entry \<Rightarrow> bool" where
  "entry_ok (Comment s) \<longleftrightarrow> plain_chars s \<and> length s < 1000"
| "entry_ok (Customer p c) \<longleftrightarrow> p < 2 ^ 32 \<and> c < 2 ^ 32"
| "entry_ok (Peer a b s) \<longleftrightarrow> a < 2 ^ 32 \<and> b < 2 ^ 32 \<and> plain_chars s \<and> length s < 900"

subsection \<open>Fields and numbers\<close>

lemma fgets_line: "nl \<notin> set l \<Longrightarrow> length l < n \<Longrightarrow> fgets n (l @ nl # r) = (l @ [nl], r)"
  by (induction n "l @ nl # r" arbitrary: l rule: fgets.induct) (auto simp: Cons_eq_append_conv)

lemma strsep_field:
  "list_all (\<lambda>c. \<not> delimiter c) f \<Longrightarrow> delimiter d \<Longrightarrow> strsep (Some (f @ d # r)) = Some (f, Some r)"
  by (auto simp: strsep_def list_all_iff takeWhile_append dropWhile_append)

lemma strsep_last: "list_all (\<lambda>c. \<not> delimiter c) f \<Longrightarrow> strsep (Some f) = Some (f, None)"
proof -
  assume f: "list_all (\<lambda>c. \<not> delimiter c) f"
  then have "dropWhile (\<lambda>c. \<not> delimiter c) f = []" by (simp add: dropWhile_eq_Nil_conv list_all_iff)
  then show ?thesis using f by (simp add: strsep_def list_all_iff takeWhile_eq_all_conv del: dropWhile_eq_Nil_conv)
qed

lemma strsep_delimited: "\<exists>f r. strsep (Some (s @ [nl])) = Some (f, Some r)"
  by (auto simp: strsep_def delimiter_def split: list.split)

lemma strsep_Some: "\<exists>f r. strsep (Some s) = Some (f, r)"
  by (simp add: strsep_def)

lemma digits_not_delimiter [simp]: "list_all (\<lambda>c. \<not> delimiter c) (dec n)"
  using dec_digits [of n] by (auto simp: list_all_iff isdigit_def delimiter_def)

lemma digits_plain [simp]: "list_all (\<lambda>c. c \<noteq> nl \<and> c \<noteq> NUL) (dec n)"
  using dec_digits [of n] by (auto simp: list_all_iff isdigit_def)

lemma length_dec_as: "n < 2 ^ 32 \<Longrightarrow> length (dec n) \<le> 10"
  by (rule length_dec_less) simp_all

lemma strtoul_dec: "n < 2 ^ 32 \<Longrightarrow> ucast (strtoul (dec n)) = (of_nat n :: 32 word)"
proof -
  assume n: "n < 2 ^ 32"
  obtain c cs where d: "dec n = c # cs" by (metis dec_Nil list.exhaust)
  have c: "isdigit c" using dec_digits [of n] d by simp
  then have "\<not> isspace c" "c \<noteq> CHR ''-''" "c \<noteq> CHR ''+''" by (auto simp: isdigit_def isspace_def)
  moreover have "atol_digits 0 (c # cs) = int n"
    using atol_digits_run [OF dec_digits, of "[]" 0 n] dval_dec [of n] by (simp add: d)
  moreover have "ulong_digits (c # cs) = int n" using calculation(4) n by (simp add: ulong_digits_def del: atol_digits.simps)
  ultimately have "strtoul (dec n) = of_nat n" by (simp add: strtoul_def d del: atol_digits.simps)
  moreover have "ucast (of_nat n :: 64 word) = (of_nat n :: 32 word)"
    by (rule word_unat_eq_iff [THEN iffD2]) (use n in \<open>simp add: unsigned_ucast_eq unsigned_of_nat take_bit_eq_mod\<close>)
  ultimately show ?thesis by simp
qed

lemma dec_first: "dec n @ r \<noteq> [] \<and> isdigit (hd (dec n @ r))"
proof -
  obtain c cs where d: "dec n = c # cs" by (metis dec_Nil list.exhaust)
  then show ?thesis using dec_digits [of n] by simp
qed

lemma delimiters [simp]: "delimiter CHR ''|''" "delimiter nl"
  by (simp_all add: delimiter_def)

lemma customer_fields:
  "sep_fields 0 (Some (entry_line (Customer p c))) = Some [Some (dec p), Some (dec c), Some ''-1'', Some [], None]"
proof -
  have "strsep (Some (''-1'' @ [nl])) = Some (''-1'', Some [])" by (rule strsep_field) (simp_all add: delimiter_def)
  moreover have "strsep (Some []) = Some ([], None)" by (rule strsep_last) simp
  moreover have "strsep None = None" by (simp add: strsep_def)
  ultimately show ?thesis by (simp add: sep_fields.simps NUM_FIELDS_def strsep_field)
qed

text \<open>A line for peers has five fields, the last one empty, and the loop writes the null pointer to a sixth entry.\<close>

lemma peer_fields: "sep_fields 0 (Some (entry_line (Peer a b s))) = None"
proof -
  have 2: "strsep (Some (''0'' @ CHR ''|'' # s @ [nl])) = Some (''0'', Some (s @ [nl]))"
    by (rule strsep_field) (simp_all add: delimiter_def)
  obtain f r where 3: "strsep (Some (s @ [nl])) = Some (f, Some r)" using strsep_delimited by blast
  obtain g q where 4: "strsep (Some r) = Some (g, q)" using strsep_Some by blast
  have "sep_fields 5 q = None" by (simp add: sep_fields.simps NUM_FIELDS_def)
  then show ?thesis using 2 3 4 by (simp add: sep_fields.simps NUM_FIELDS_def strsep_field eval_nat_numeral)
qed

subsection \<open>Lines and files\<close>

definition relation_dir :: "32 word \<Rightarrow> 32 word \<Rightarrow> rel_entry \<Rightarrow> AS_REL_DIR option" where
  "relation_dir as1 as2 e =
     (case e of
        Customer p c \<Rightarrow>
          if p = unat as1 \<and> c = unat as2 then Some ASPA_UPSTREAM
          else if p = unat as2 \<and> c = unat as1 then Some ASPA_DOWNSTREAM
          else None
      | _ \<Rightarrow> None)"

definition is_peer :: "rel_entry \<Rightarrow> bool" where
  "is_peer e \<longleftrightarrow> (case e of Peer _ _ _ \<Rightarrow> True | _ \<Rightarrow> False)"

lemma as_eq: "n < 2 ^ 32 \<Longrightarrow> (of_nat n :: 32 word) = a \<longleftrightarrow> n = unat a"
  by (auto simp: unat_of_nat_small)

lemma check_line_entry:
  assumes "entry_ok e"
  shows "check_line as1 as2 (entry_line e) = (if is_peer e then None else Some (relation_dir as1 as2 e))"
proof (cases e)
  case (Customer p c)
  have "entry_line e \<noteq> [] \<and> isdigit (hd (entry_line e))" using dec_first [of p] by (simp add: Customer)
  then show ?thesis using customer_fields [of p c] assms
    by (simp add: Customer check_line_def get_field_def strtoul_dec as_eq is_peer_def relation_dir_def del: entry_line.simps)
next
  case (Peer a b s)
  have "entry_line e \<noteq> [] \<and> isdigit (hd (entry_line e))" using dec_first [of a] by (simp add: Peer)
  then show ?thesis using peer_fields [of a b s] by (simp add: Peer check_line_def is_peer_def del: entry_line.simps)
qed (simp add: check_line_def isdigit_def is_peer_def relation_dir_def)

lemma entry_line_read:
  assumes "entry_ok e"
  shows "fgets 1023 (entry_line e @ r) = (entry_line e, r)" and "takeWhile (\<lambda>c. c \<noteq> NUL) (entry_line e) = entry_line e"
proof -
  obtain l where l: "entry_line e = l @ [nl]" "list_all (\<lambda>c. c \<noteq> nl \<and> c \<noteq> NUL) l" "length l < 1023"
  proof (cases e)
    case (Comment s)
    then show ?thesis using assms by (intro that [of "CHR ''#'' # s"]) (simp_all add: plain_chars_def)
  next
    case (Customer p c)
    then show ?thesis using assms length_dec_as [of p] length_dec_as [of c]
      by (intro that [of "dec p @ CHR ''|'' # dec c @ ''|-1''"]) simp_all
  next
    case (Peer a b s)
    then show ?thesis using assms length_dec_as [of a] length_dec_as [of b]
      by (intro that [of "dec a @ CHR ''|'' # dec b @ ''|0|'' @ s"]) (simp_all add: plain_chars_def)
  qed
  then show "fgets 1023 (entry_line e @ r) = (entry_line e, r)" using fgets_line [of l 1023 r] by (auto simp: list_all_iff)
  show "takeWhile (\<lambda>c. c \<noteq> NUL) (entry_line e) = entry_line e" using l by (auto simp: list_all_iff takeWhile_eq_all_conv)
qed

lemma check_lines_Cons:
  assumes "entry_ok e"
  shows "check_lines as1 as2 (entry_line e @ r) =
    (if is_peer e then None else (case relation_dir as1 as2 e of Some d \<Rightarrow> Some d | None \<Rightarrow> check_lines as1 as2 r))"
proof -
  have "entry_line e \<noteq> []" by (cases e) simp_all
  then show ?thesis by (subst check_lines.simps) (simp add: entry_line_read [OF assms] check_line_entry [OF assms])
qed

lemma check_lines_skip:
  assumes "list_all entry_ok es" and "\<And>e. e \<in> set es \<Longrightarrow> \<not> is_peer e \<and> relation_dir as1 as2 e = None"
  shows "check_lines as1 as2 (concat (map entry_line es) @ r) = check_lines as1 as2 r"
  using assms by (induction es) (simp_all add: check_lines_Cons)

text \<open>
  Property C34: in a file of comments, each of less than 1000 characters, and lines for customers the function finds the first line about the two systems at the head
  of the path, in either order, and its result is their direction; without such a line it is unknown.
\<close>

theorem as_relationship_correct:
  assumes "list_all entry_ok es" and "\<And>e. e \<in> set es \<Longrightarrow> \<not> is_peer e"
  shows "check_AsRelationship (Some (concat (map entry_line es))) (as1 # as2 # path) =
    Some (case find (\<lambda>e. relation_dir as1 as2 e \<noteq> None) es of
            None \<Rightarrow> ASPA_UNKNOWNSTREAM
          | Some (Customer p c) \<Rightarrow> if p = unat as1 \<and> c = unat as2 then ASPA_UPSTREAM else ASPA_DOWNSTREAM)"
proof -
  have "check_lines as1 as2 (concat (map entry_line es)) =
      Some (case find (\<lambda>e. relation_dir as1 as2 e \<noteq> None) es of None \<Rightarrow> ASPA_UNKNOWNSTREAM
            | Some (Customer p c) \<Rightarrow> if p = unat as1 \<and> c = unat as2 then ASPA_UPSTREAM else ASPA_DOWNSTREAM)"
    using assms
  proof (induction es)
    case Nil
    show ?case by (simp add: check_lines.simps)
  next
    case (Cons e es)
    then show ?case by (auto simp: check_lines_Cons relation_dir_def split: rel_entry.splits option.splits if_splits)
  qed
  then show ?thesis by (simp add: check_AsRelationship_def)
qed

theorem as_relationship_correct_witness:
  "check_AsRelationship (Some (concat (map entry_line [Comment ''x'', Customer 1 11537, Customer 11537 3]))) [3, 11537, 7] = Some ASPA_DOWNSTREAM"
proof -
  let ?es = "[Comment ''x'', Customer 1 11537, Customer 11537 3]"
  have "list_all entry_ok ?es" by (simp add: plain_chars_def)
  moreover have "\<not> is_peer e" if "e \<in> set ?es" for e using that by (auto simp: is_peer_def)
  ultimately have "check_AsRelationship (Some (concat (map entry_line ?es))) [3, 11537, 7] =
    Some (case find (\<lambda>e. relation_dir 3 11537 e \<noteq> None) ?es of None \<Rightarrow> ASPA_UNKNOWNSTREAM
      | Some (Customer p c) \<Rightarrow> if p = unat (3 :: 32 word) \<and> c = unat (11537 :: 32 word) then ASPA_UPSTREAM else ASPA_DOWNSTREAM)"
    by (rule as_relationship_correct)
  then show ?thesis by (simp add: relation_dir_def del: entry_line.simps)
qed

text \<open>
  A line for peers, of the form that the comment in the source gives, writes behind the array of fields; so does every line with
  four columns.
\<close>

theorem peer_line_overflows:
  assumes "list_all entry_ok es" and "\<And>e. e \<in> set es \<Longrightarrow> \<not> is_peer e \<and> relation_dir as1 as2 e = None" and "entry_ok (Peer a b s)"
  shows "check_AsRelationship (Some (concat (map entry_line es) @ entry_line (Peer a b s) @ r)) (as1 # as2 # path) = None"
proof -
  have "check_lines as1 as2 (concat (map entry_line es) @ entry_line (Peer a b s) @ r) = None"
    using check_lines_skip [OF assms(1,2)] check_lines_Cons [OF assms(3)] by (simp add: is_peer_def del: entry_line.simps)
  then show ?thesis by (simp add: check_AsRelationship_def del: entry_line.simps)
qed

end
