(* ===== verification/PacketDump.thy ===== *)
theory PacketDump
  imports Prelude
begin

text \<open>
  The decoder of captured packets \<^verbatim>\<open>decode_sniff.c\<close> with the headers of \<^verbatim>\<open>hacking-network.h\<close> and the functions of \<^verbatim>\<open>hacking.h\<close> in
  \<^verbatim>\<open>hacking_the_art_of_exploitation_booksrc\<close>.

  A packet is the list of the octets that were captured; a read behind them is undefined.  The headers are read on a little-endian machine
  and the decoders give the values that they print; the text of \<^verbatim>\<open>dump\<close> is kept.
\<close>

subsection \<open>hacking.h\<close>

text \<open>The text of \<^verbatim>\<open>error_message\<close>, which has room for 100 characters with the terminating NUL.\<close>

definition fatal :: "string \<Rightarrow> string option" where
  "fatal message = do {
     let text = ''[!!] Fatal Error '' @ take 83 message;
     c_assert (length text < 100);
     Some text
   }"

definition hex_nibble :: "nat \<Rightarrow> char" where
  "hex_nibble n = ''0123456789abcdef'' ! (n mod 16)"

definition hex_byte :: "byte \<Rightarrow> string" where
  "hex_byte b = [hex_nibble (unat b div 16), hex_nibble (unat b), CHR '' '']"

definition dump_char :: "byte \<Rightarrow> char" where
  "dump_char b = (if 31 < b \<and> b < 127 then char_of (unat b) else CHR ''.'')"

text \<open>What follows the last octet of a line: the padding, the line as characters and the newline.\<close>

definition dump_line_end :: "bytes \<Rightarrow> nat \<Rightarrow> string option" where
  "dump_line_end data_buffer i = do {
     line \<leftarrow> those (map (c_nth data_buffer) [i - i mod 16..<Suc i]);
     Some (concat (replicate (15 - i mod 16) ''   '') @ ''| '' @ map dump_char line @ [CHR 0x0A])
   }"

function dump_loop :: "bytes \<Rightarrow> nat \<Rightarrow> nat \<Rightarrow> string option" where
  "dump_loop data_buffer len i =
     (if i < len then do {
        byte \<leftarrow> c_nth data_buffer i;
        eol \<leftarrow> (if i mod 16 = 15 \<or> i = len - 1 then dump_line_end data_buffer i else Some []);
        out \<leftarrow> dump_loop data_buffer len (Suc i);
        Some (hex_byte byte @ eol @ out)
      }
      else Some [])"
  by pat_completeness auto
termination
  by (relation "measure (\<lambda>(_, len, i). len - i)") auto

declare dump_loop.simps [simp del]

definition dump :: "bytes \<Rightarrow> nat \<Rightarrow> string option" where
  "dump data_buffer len = dump_loop data_buffer len 0"

subsection \<open>Headers\<close>

definition ETHER_ADDR_LEN :: nat where "ETHER_ADDR_LEN = 6"
definition ETHER_HDR_LEN :: nat where "ETHER_HDR_LEN = 14"
definition IP_HDR_SIZE :: nat where "IP_HDR_SIZE = 20"

text \<open>The octets of a member of a header at an offset, and the numbers as they are in memory.\<close>

definition header_member :: "bytes \<Rightarrow> nat \<Rightarrow> nat \<Rightarrow> bytes option" where
  "header_member header off n = c_take n (drop off header)"

definition host_num :: "bytes \<Rightarrow> nat" where
  "host_num bs = foldr (\<lambda>b n. unat b + 256 * n) bs 0"

text \<open>\<^verbatim>\<open>ntohs\<close> and \<^verbatim>\<open>ntohl\<close> reverse the octets.\<close>

definition ntoh_num :: "bytes \<Rightarrow> nat" where
  "ntoh_num bs = host_num (List.rev bs)"

record ether_info =
  ether_src :: bytes
  ether_dest :: bytes
  ether_type :: nat

record ip_info =
  ip_src :: bytes
  ip_dest :: bytes
  ip_type :: nat
  ip_id :: nat
  ip_len :: nat

datatype tcp_flag = FIN | SYN | RST | PUSH | ACK | URG

record tcp_info =
  tcp_src_port :: nat
  tcp_dest_port :: nat
  tcp_seq :: nat
  tcp_ack :: nat
  tcp_header_size :: nat
  tcp_flags :: "tcp_flag list"

definition decode_ethernet :: "bytes \<Rightarrow> ether_info option" where
  "decode_ethernet header_start = do {
     src \<leftarrow> header_member header_start ETHER_ADDR_LEN ETHER_ADDR_LEN;
     dest \<leftarrow> header_member header_start 0 ETHER_ADDR_LEN;
     ty \<leftarrow> header_member header_start (2 * ETHER_ADDR_LEN) 2;
     Some \<lparr>ether_src = src, ether_dest = dest, ether_type = host_num ty\<rparr>
   }"

definition decode_ip :: "bytes \<Rightarrow> ip_info option" where
  "decode_ip header_start = do {
     src \<leftarrow> header_member header_start 12 4;
     dest \<leftarrow> header_member header_start 16 4;
     ty \<leftarrow> header_member header_start 9 1;
     ident \<leftarrow> header_member header_start 4 2;
     len \<leftarrow> header_member header_start 2 2;
     Some \<lparr>ip_src = src, ip_dest = dest, ip_type = host_num ty, ip_id = ntoh_num ident, ip_len = ntoh_num len\<rparr>
   }"

definition flag_list :: "nat \<Rightarrow> tcp_flag list" where
  "flag_list flags =
     map snd (filter (\<lambda>(m, _). flags AND m \<noteq> 0) [(1, FIN), (2, SYN), (4, RST), (8, PUSH), (16, ACK), (32, URG)])"

text \<open>The data offset is in the high half of its octet.\<close>

definition decode_tcp :: "bytes \<Rightarrow> tcp_info option" where
  "decode_tcp header_start = do {
     off \<leftarrow> header_member header_start 12 1;
     let header_size = 4 * (host_num off div 16);
     src \<leftarrow> header_member header_start 0 2;
     dest \<leftarrow> header_member header_start 2 2;
     seqn \<leftarrow> header_member header_start 4 4;
     ackn \<leftarrow> header_member header_start 8 4;
     flags \<leftarrow> header_member header_start 13 1;
     Some \<lparr>tcp_src_port = ntoh_num src, tcp_dest_port = ntoh_num dest, tcp_seq = ntoh_num seqn, tcp_ack = ntoh_num ackn,
       tcp_header_size = header_size, tcp_flags = flag_list (host_num flags)\<rparr>
   }"

subsection \<open>A caught packet\<close>

text \<open>\<open>len\<close> is \<^verbatim>\<open>cap_header->len\<close>, the length of the packet on the wire; the difference is taken in 32 bits and stored in an \<^verbatim>\<open>int\<close>.\<close>

definition caught_packet :: "32 word \<Rightarrow> bytes \<Rightarrow> (ether_info \<times> ip_info \<times> tcp_info \<times> string option) option" where
  "caught_packet len packet = do {
     eth \<leftarrow> decode_ethernet packet;
     ip \<leftarrow> decode_ip (drop ETHER_HDR_LEN packet);
     tcp \<leftarrow> decode_tcp (drop (ETHER_HDR_LEN + IP_HDR_SIZE) packet);
     let total_header_size = ETHER_HDR_LEN + IP_HDR_SIZE + tcp_header_size tcp;
     let pkt_data_len = sint (len - of_nat total_header_size);
     if pkt_data_len > 0 then do {
       out \<leftarrow> dump (drop total_header_size packet) (nat pkt_data_len);
       Some (eth, ip, tcp, Some out)
     }
     else Some (eth, ip, tcp, None)
   }"

subsection \<open>The lines of a dump\<close>

fun dump_row :: "bytes \<Rightarrow> string" where
  "dump_row row = concat (map hex_byte row) @ concat (replicate (16 - length row) ''   '') @ ''| '' @ map dump_char row @ [CHR 0x0A]"

function dump_lines :: "bytes \<Rightarrow> string" where
  "dump_lines bs = (if bs = [] then [] else dump_row (take 16 bs) @ dump_lines (drop 16 bs))"
  by pat_completeness auto
termination
  by (relation "measure length") auto

declare dump_lines.simps [simp del] dump_row.simps [simp del]

lemma those_c_nth: "b \<le> length xs \<Longrightarrow> those (map (c_nth xs) [a..<b]) = Some (map ((!) xs) [a..<b])"
proof (induction "b - a" arbitrary: a)
  case (Suc d)
  then have "[a..<b] = a # [Suc a..<b]" by (simp add: upt_conv_Cons)
  then show ?case using Suc by simp
qed simp

lemma map_nth_upt: "a \<le> b \<Longrightarrow> b \<le> length xs \<Longrightarrow> map ((!) xs) [a..<b] = take (b - a) (drop a xs)"
  by (intro nth_equalityI) auto

lemma dump_row_from:
  assumes "len \<le> length buf" and "i0 mod 16 = 0" and "n = min 16 (len - i0)" and "m < n"
  shows "dump_loop buf len (i0 + m) = do {
    out \<leftarrow> dump_loop buf len (i0 + n);
    Some (concat (map hex_byte (drop m (take n (drop i0 buf)))) @ concat (replicate (16 - n) ''   '') @ ''| '' @
      map dump_char (take n (drop i0 buf)) @ [CHR 0x0A] @ out)
  }"
  using assms(4)
proof (induction "n - m" arbitrary: m)
  case (Suc d)
  have i: "i0 + m < len" "i0 + m < length buf" using Suc.prems assms(1,3) by auto
  have m16: "(i0 + m) mod 16 = m" using Suc.prems assms(2,3) mod_add_left_eq [of i0 16 m] by simp
  have row: "drop m (take n (drop i0 buf)) = buf ! (i0 + m) # drop (Suc m) (take n (drop i0 buf))"
  proof -
    have "m < length (take n (drop i0 buf))" using Suc.prems i(2) assms(1,3) by auto
    from Cons_nth_drop_Suc [OF this] show ?thesis using Suc.prems i(2) by simp
  qed
  show ?case
  proof (cases "Suc m = n")
    case True
    then have "m = 15 \<or> i0 + m = len - 1" using assms(3) by auto
    then have "(i0 + m) mod 16 = 15 \<or> i0 + m = len - 1" using m16 by simp
    moreover have "dump_line_end buf (i0 + m) =
        Some (concat (replicate (16 - n) ''   '') @ ''| '' @ map dump_char (take n (drop i0 buf)) @ [CHR 0x0A])"
      using i m16 True map_nth_upt [of i0 "Suc (i0 + m)" buf] by (auto simp: dump_line_end_def those_c_nth simp del: upt_Suc)
    ultimately show ?thesis using i row True by (subst dump_loop.simps) auto
  next
    case False
    then have "m \<noteq> 15 \<and> i0 + m \<noteq> len - 1" using Suc.prems assms(3) i by auto
    then show ?thesis using Suc.hyps(1) [of "Suc m"] Suc.hyps(2) Suc.prems i row False m16
      by (subst dump_loop.simps) (auto split: bind_splits)
  qed
qed simp

lemma dump_loop_lines:
  "len \<le> length buf \<Longrightarrow> i \<le> len \<Longrightarrow> i mod 16 = 0 \<Longrightarrow> dump_loop buf len i = Some (dump_lines (drop i (take len buf)))"
proof (induction "len - i" arbitrary: i rule: less_induct)
  case less
  show ?case
  proof (cases "i = len")
    case False
    let ?n = "min 16 (len - i)"
    have n: "0 < ?n" "i + ?n \<le> len" using False less.prems by auto
    have rest: "dump_loop buf len (i + ?n) = Some (dump_lines (drop 16 (drop i (take len buf))))"
    proof (cases "i + 16 \<le> len")
      case True
      then show ?thesis using less.hyps [of "i + 16"] less.prems by (simp add: add.commute)
    next
      case False
      then show ?thesis using less.prems by (subst dump_loop.simps) (simp add: dump_lines.simps)
    qed
    have row: "take 16 (drop i (take len buf)) = take ?n (drop i buf)" by (simp add: drop_take)
    show ?thesis using dump_row_from [OF less.prems(1,3) refl n(1)] rest n less.prems
      by (subst dump_lines.simps) (simp add: dump_row.simps row)
  qed (simp add: dump_loop.simps dump_lines.simps)
qed

lemma dump_eq: "len \<le> length buf \<Longrightarrow> dump buf len = Some (dump_lines (take len buf))"
  using dump_loop_lines [of len buf 0] by (simp add: dump_def)

lemma dump_behind: "length buf < len \<Longrightarrow> i \<le> length buf \<Longrightarrow> dump_loop buf len i = None"
proof (induction "length buf - i" arbitrary: i)
  case 0
  then show ?case by (subst dump_loop.simps) (simp add: c_nth_def)
next
  case (Suc d)
  then show ?case by (subst dump_loop.simps) (auto split: bind_splits)
qed

subsection \<open>Packets on the wire\<close>

text \<open>A TCP packet over IP without options, field by field in network byte order; \<open>w_opts\<close> are the options of TCP.\<close>

fun hton_num :: "nat \<Rightarrow> nat \<Rightarrow> bytes" where
  "hton_num 0 n = []"
| "hton_num (Suc k) n = hton_num k (n div 256) @ [of_nat n]"

record wire =
  w_dest :: bytes
  w_src :: bytes
  w_type :: nat
  w_version_tos :: bytes
  w_len :: nat
  w_id :: nat
  w_frag_ttl :: bytes
  w_proto :: byte
  w_checksum :: bytes
  w_saddr :: bytes
  w_daddr :: bytes
  w_sport :: nat
  w_dport :: nat
  w_seq :: nat
  w_ack :: nat
  w_reserved :: nat
  w_flags :: byte
  w_window :: bytes
  w_opts :: bytes
  w_data :: bytes

definition wire_ether :: "wire \<Rightarrow> bytes" where
  "wire_ether w = w_dest w @ w_src w @ hton_num 2 (w_type w)"

definition wire_ip :: "wire \<Rightarrow> bytes" where
  "wire_ip w = w_version_tos w @ hton_num 2 (w_len w) @ hton_num 2 (w_id w) @ w_frag_ttl w @ [w_proto w] @ w_checksum w @ w_saddr w @ w_daddr w"

definition wire_tcp :: "wire \<Rightarrow> bytes" where
  "wire_tcp w = hton_num 2 (w_sport w) @ hton_num 2 (w_dport w) @ hton_num 4 (w_seq w) @ hton_num 4 (w_ack w) @
     [of_nat (16 * (5 + length (w_opts w) div 4) + w_reserved w), w_flags w] @ w_window w @ w_opts w"

definition wire_octets :: "wire \<Rightarrow> bytes" where
  "wire_octets w = wire_ether w @ wire_ip w @ wire_tcp w @ w_data w"

definition wire_ok :: "wire \<Rightarrow> bool" where
  "wire_ok w \<longleftrightarrow>
     length (w_dest w) = 6 \<and> length (w_src w) = 6 \<and> w_type w < 2 ^ 16 \<and>
     length (w_version_tos w) = 2 \<and> w_len w < 2 ^ 16 \<and> w_id w < 2 ^ 16 \<and> length (w_frag_ttl w) = 3 \<and> length (w_checksum w) = 2 \<and>
     length (w_saddr w) = 4 \<and> length (w_daddr w) = 4 \<and>
     w_sport w < 2 ^ 16 \<and> w_dport w < 2 ^ 16 \<and> w_seq w < 2 ^ 32 \<and> w_ack w < 2 ^ 32 \<and> w_reserved w < 16 \<and>
     length (w_window w) = 6 \<and> length (w_opts w) mod 4 = 0 \<and> length (w_opts w) \<le> 40 \<and> length (wire_octets w) < 2 ^ 31"

lemma length_hton [simp]: "length (hton_num k n) = k"
  by (induction k arbitrary: n) auto

lemma ntoh_hton [simp]: "n < 256 ^ k \<Longrightarrow> ntoh_num (hton_num k n) = n"
proof (induction k arbitrary: n)
  case (Suc k)
  have "n div 256 < 256 ^ k" using Suc.prems by (simp add: less_mult_imp_div_less mult.commute)
  then show ?case using Suc.IH by (simp add: ntoh_num_def host_num_def unat_of_nat take_bit_eq_mod)
qed (simp add: ntoh_num_def host_num_def)

lemma host_hton2: "n < 2 ^ 16 \<Longrightarrow> host_num (hton_num 2 n) = n div 256 + 256 * (n mod 256)"
proof -
  assume "n < 2 ^ 16"
  then have "n div 256 < 256" by (simp add: less_mult_imp_div_less)
  moreover have "hton_num 2 n = [of_nat (n div 256), of_nat n]" by (simp add: numeral_2_eq_2)
  ultimately show ?thesis by (simp add: host_num_def unat_of_nat take_bit_eq_mod)
qed

definition wire_ether_info :: "wire \<Rightarrow> ether_info" where
  "wire_ether_info w = \<lparr>ether_src = w_src w, ether_dest = w_dest w, ether_type = w_type w div 256 + 256 * (w_type w mod 256)\<rparr>"

definition wire_ip_info :: "wire \<Rightarrow> ip_info" where
  "wire_ip_info w = \<lparr>ip_src = w_saddr w, ip_dest = w_daddr w, ip_type = unat (w_proto w), ip_id = w_id w, ip_len = w_len w\<rparr>"

definition wire_tcp_info :: "wire \<Rightarrow> tcp_info" where
  "wire_tcp_info w = \<lparr>tcp_src_port = w_sport w, tcp_dest_port = w_dport w, tcp_seq = w_seq w, tcp_ack = w_ack w,
     tcp_header_size = 20 + length (w_opts w), tcp_flags = flag_list (unat (w_flags w))\<rparr>"

lemma decode_ethernet_wire: "wire_ok w \<Longrightarrow> decode_ethernet (wire_ether w @ r) = Some (wire_ether_info w)"
  by (simp add: decode_ethernet_def wire_ether_def wire_ok_def header_member_def ETHER_ADDR_LEN_def host_hton2 wire_ether_info_def)

lemma decode_ip_wire: "wire_ok w \<Longrightarrow> decode_ip (wire_ip w @ r) = Some (wire_ip_info w)"
  by (simp add: decode_ip_def wire_ip_def wire_ok_def header_member_def wire_ip_info_def host_num_def)

lemma decode_tcp_wire:
  assumes "wire_ok w"
  shows "decode_tcp (wire_tcp w @ r) = Some (wire_tcp_info w)"
proof -
  have o: "length (w_opts w) mod 4 = 0" "length (w_opts w) \<le> 40" "w_reserved w < 16" using assms by (auto simp: wire_ok_def)
  let ?n = "16 * (5 + length (w_opts w) div 4) + w_reserved w"
  have "length (w_opts w) div 4 \<le> 10" using div_le_mono [OF o(2), of 4] by simp
  then have "16 * (5 + length (w_opts w) div 4) \<le> 16 * 15" by (intro mult_le_mono2) simp
  then have "?n < 256" using o(3) by simp
  then have "unat (of_nat ?n :: byte) = ?n" by (intro unat_of_nat_small) simp
  moreover have "?n div 16 = 5 + length (w_opts w) div 4" using o(3) by simp
  moreover have "4 * (5 + length (w_opts w) div 4) = 20 + length (w_opts w)" using o(1) by presburger
  ultimately have "4 * (host_num [of_nat ?n] div 16) = 20 + length (w_opts w)" by (simp only: host_num_def foldr.simps comp_def id_def) simp
  then show ?thesis using assms
    by (simp add: decode_tcp_def wire_tcp_def wire_ok_def header_member_def wire_tcp_info_def host_num_def)
qed

lemma wire_lengths:
  assumes "wire_ok w"
  shows "length (wire_ether w) = 14" "length (wire_ip w) = 20" "length (wire_tcp w) = 20 + length (w_opts w)"
  using assms by (auto simp: wire_ok_def wire_ether_def wire_ip_def wire_tcp_def)

lemma data_length:
  assumes "wire_ok w"
  shows "sint (of_nat (length (wire_octets w)) - of_nat (54 + length (w_opts w)) :: 32 word) = int (length (w_data w))"
proof -
  have l: "length (wire_octets w) = 54 + length (w_opts w) + length (w_data w)"
    using wire_lengths [OF assms] by (simp add: wire_octets_def)
  then have "of_nat (length (wire_octets w)) - of_nat (54 + length (w_opts w)) = (of_nat (length (w_data w)) :: 32 word)"
    by (simp only: of_nat_add) simp
  moreover have "length (w_data w) < 2 ^ 31" using assms l by (simp add: wire_ok_def)
  ultimately show ?thesis by (simp add: signed_of_nat signed_take_bit_int_eq_self)
qed

lemma caught_wire:
  assumes "wire_ok w" and "length (w_opts w) + 54 \<le> n"
  shows "caught_packet (of_nat (length (wire_octets w))) (take n (wire_octets w)) =
    (if w_data w = [] then Some (wire_ether_info w, wire_ip_info w, wire_tcp_info w, None)
     else do {
       out \<leftarrow> dump (take (n - 54 - length (w_opts w)) (w_data w)) (length (w_data w));
       Some (wire_ether_info w, wire_ip_info w, wire_tcp_info w, Some out)
     })"
proof -
  note l = wire_lengths [OF assms(1)]
  let ?d = "take (n - 54 - length (w_opts w)) (w_data w)"
  have p: "take n (wire_octets w) = wire_ether w @ wire_ip w @ wire_tcp w @ ?d"
    using l assms(2) by (simp add: wire_octets_def)
  have "drop 14 (take n (wire_octets w)) = wire_ip w @ wire_tcp w @ ?d" unfolding p using l by simp
  moreover have "drop 34 (take n (wire_octets w)) = wire_tcp w @ ?d" unfolding p using l by simp
  moreover have "drop (54 + length (w_opts w)) (take n (wire_octets w)) = ?d" unfolding p using l by simp
  moreover have "decode_ethernet (take n (wire_octets w)) = Some (wire_ether_info w)" unfolding p by (rule decode_ethernet_wire [OF assms(1)])
  ultimately show ?thesis
    using decode_ip_wire [OF assms(1)] decode_tcp_wire [OF assms(1)] data_length [OF assms(1)]
    by (simp add: caught_packet_def ETHER_HDR_LEN_def IP_HDR_SIZE_def wire_tcp_info_def)
qed

text \<open>
  Property C35: a TCP packet over IP without options that was captured completely is decoded without a read behind it: the printed
  addresses, ports, numbers, lengths and flags are those of the packet, the type of the frame appears with its octets
  swapped, and the dump is that of the data behind the options of TCP, in lines of 16 octets.
\<close>

theorem packet_decoded:
  assumes "wire_ok w"
  shows "caught_packet (of_nat (length (wire_octets w))) (wire_octets w) =
    Some (wire_ether_info w, wire_ip_info w, wire_tcp_info w, if w_data w = [] then None else Some (dump_lines (w_data w)))"
proof -
  have "take (length (wire_octets w)) (wire_octets w) = wire_octets w" by simp
  moreover have "length (w_opts w) + 54 \<le> length (wire_octets w)" "length (wire_octets w) - 54 - length (w_opts w) = length (w_data w)"
    using wire_lengths [OF assms] by (simp_all add: wire_octets_def)
  ultimately show ?thesis using caught_wire [OF assms, of "length (wire_octets w)"] by (simp add: dump_eq)
qed

definition sample_wire :: wire where
  "sample_wire = \<lparr>w_dest = [1, 2, 3, 4, 5, 6], w_src = [7, 8, 9, 10, 11, 12], w_type = 0x800, w_version_tos = [0x45, 0], w_len = 43, w_id = 7,
     w_frag_ttl = [0, 0, 64], w_proto = 6, w_checksum = [0, 0], w_saddr = [10, 0, 0, 1], w_daddr = [10, 0, 0, 2], w_sport = 1024, w_dport = 80,
     w_seq = 1, w_ack = 2, w_reserved = 0, w_flags = 0x18, w_window = [1, 0, 0, 0, 0, 0], w_opts = [], w_data = [72, 105, 10]\<rparr>"

theorem packet_decoded_witness:
  "\<exists>eth ip tcp. caught_packet 57 (wire_octets sample_wire) = Some (eth, ip, tcp, Some (dump_lines [72, 105, 10])) \<and>
     ether_type eth = 8 \<and> tcp_dest_port tcp = 80 \<and> tcp_flags tcp = [PUSH, ACK]"
proof -
  have l: "length (wire_octets sample_wire) = 57"
    by (simp add: sample_wire_def wire_octets_def wire_ether_def wire_ip_def wire_tcp_def)
  then have "wire_ok sample_wire" unfolding wire_ok_def l by (simp add: sample_wire_def)
  from packet_decoded [OF this] show ?thesis unfolding l
    by (simp add: sample_wire_def wire_ether_info_def wire_tcp_info_def flag_list_def)
qed

text \<open>
  The length of the dump is the length on the wire and not that of the capture, which holds at most 4096 octets: a packet that was captured in
  part is read behind its end.
\<close>

theorem truncated_packet_overread:
  assumes "wire_ok w" and "length (w_opts w) + 54 \<le> n" and "n < length (wire_octets w)"
  shows "caught_packet (of_nat (length (wire_octets w))) (take n (wire_octets w)) = None"
proof -
  have d: "n - 54 - length (w_opts w) < length (w_data w)"
    using assms wire_lengths [OF assms(1)] by (simp add: wire_octets_def)
  then have "dump (take (n - 54 - length (w_opts w)) (w_data w)) (length (w_data w)) = None"
    unfolding dump_def by (intro dump_behind) simp_all
  then show ?thesis using caught_wire [OF assms(1,2)] d by auto
qed

lemma fatal_bound: "fatal message = None \<longleftrightarrow> 83 \<le> length message"
  by (auto simp: fatal_def)

end
