(* ===== verification/Money.thy ===== *)
theory Money
  imports Prelude
begin

text \<open>
  The function \<^verbatim>\<open>strmoney\<close> of \<^verbatim>\<open>Util_Codes/POSIX_printf_3digit_commas.c\<close>, which puts a space between groups of three digits of a number.  The text that
  \<^verbatim>\<open>snprintf\<close> makes of the number with \<^verbatim>\<open>%.2f\<close> is a parameter; the static buffer of 64 characters is a list, and a move that leaves it
  is undefined.
\<close>

subsection \<open>The code\<close>

definition RESULT_SIZE :: nat where "RESULT_SIZE = 64"

abbreviation end_of_string :: char where
  "end_of_string \<equiv> CHR 0x00"

text \<open>\<^verbatim>\<open>snprintf\<close> into the buffer, which keeps what is behind the text.\<close>

definition write_number :: "string \<Rightarrow> string \<Rightarrow> string" where
  "write_number number result = (let s = take (RESULT_SIZE - 1) number in s @ end_of_string # drop (Suc (length s)) result)"

text \<open>\<^verbatim>\<open>memmove(result_p + 1, result_p, tail)\<close>.\<close>

definition move_up :: "string \<Rightarrow> nat \<Rightarrow> nat \<Rightarrow> string option" where
  "move_up result p tail = do {
     c_assert (p + 1 + tail \<le> length result);
     Some (take (p + 1) result @ take tail (drop p result) @ drop (p + 1 + tail) result)
   }"

function group_loop :: "string \<Rightarrow> nat \<Rightarrow> nat \<Rightarrow> string option" where
  "group_loop result p tail =
     (if p > 3 then do {
        let p = p - 3;
        result \<leftarrow> move_up result p tail;
        group_loop (result[p := CHR '' '']) p (tail + 4)
      }
      else Some result)"
  by pat_completeness auto
termination
  by (relation "measure (\<lambda>(_, p, _). p)") auto

declare group_loop.simps [simp del]

definition c_string :: "string \<Rightarrow> string" where
  "c_string = takeWhile (\<lambda>c. c \<noteq> end_of_string)"

text \<open>The text that the caller finds in the buffer.\<close>

definition strmoney :: "string \<Rightarrow> string \<Rightarrow> string option" where
  "strmoney number result = do {
     let result = write_number number result;
     let p = length (takeWhile (\<lambda>c. c \<noteq> end_of_string \<and> c \<noteq> CHR ''.'') result);
     let tail = RESULT_SIZE - p;
     result \<leftarrow> group_loop result p tail;
     Some (c_string result)
   }"

subsection \<open>Groups of digits\<close>

function grouped :: "string \<Rightarrow> string" where
  "grouped ds =
     (if length ds \<le> 3 then ds
      else grouped (take (length ds - 3) ds) @ CHR '' '' # drop (length ds - 3) ds)"
  by pat_completeness auto
termination
  by (relation "measure length") auto

declare grouped.simps [simp del]

lemma move_up_length: "move_up result p tail = Some r \<Longrightarrow> length r = length result"
  by (auto simp: move_up_def split: if_splits)

lemma three: "length xs = 3 \<Longrightarrow> \<exists>x y z. xs = [x, y, z]"
  by (auto simp: length_Suc_conv numeral_3_eq_3)

lemma group_loop_outside:
  "length result = RESULT_SIZE \<Longrightarrow> 3 < p \<Longrightarrow> RESULT_SIZE + 3 < p + tail + (p - 1) div 3 \<Longrightarrow> group_loop result p tail = None"
proof (induction result p tail rule: group_loop.induct)
  case (1 result p tail)
  show ?case
  proof (cases "p - 3 + 1 + tail \<le> RESULT_SIZE")
    case True
    have d: "(p - 1) div 3 = Suc ((p - 3 - 1) div 3)" using "1.prems"(2) by (simp add: le_div_geq)
    then have "3 < p - 3" using True "1.prems" by (cases "p \<le> 6") (auto simp: div_less)
    moreover have "RESULT_SIZE + 3 < p - 3 + (tail + 4) + (p - 3 - 1) div 3" using "1.prems" d by linarith
    ultimately have "group_loop (r[p - 3 := CHR '' '']) (p - 3) (tail + 4) = None" if "move_up result (p - 3) tail = Some r" for r
      using "1.IH" [OF "1.prems"(2) refl that] move_up_length [OF that] "1.prems"(1) by simp
    then show ?thesis using "1.prems"(2) by (subst group_loop.simps) (auto simp: Let_def split: bind_splits)
  next
    case False
    then show ?thesis using "1.prems" by (subst group_loop.simps) (simp add: move_up_def)
  qed
qed

lemma group_loop_inside:
  "result = ds @ s @ end_of_string # junk \<Longrightarrow> length result = RESULT_SIZE \<Longrightarrow> p = length ds \<Longrightarrow> length s + 3 < tail \<Longrightarrow>
   p + tail + (p - 1) div 3 \<le> RESULT_SIZE + 3 \<Longrightarrow>
   \<exists>junk'. group_loop result p tail = Some (grouped ds @ s @ end_of_string # junk')"
proof (induction result p tail arbitrary: ds s junk rule: group_loop.induct)
  case (1 result p tail)
  show ?case
  proof (cases "3 < p")
    case True
    let ?p = "p - 3" and ?h = "take (p - 3) ds" and ?t = "drop (p - 3) ds"
    have d: "(p - 1) div 3 = Suc ((p - 3 - 1) div 3)" using True by (simp add: le_div_geq)
    have hl: "length ?h = ?p" "length ?t = 3" "ds = ?h @ ?t" using "1.prems"(3) True by auto
    obtain x y z where t: "?t = [x, y, z]" using three [OF hl(2)] by blast
    have fit: "?p + 1 + tail \<le> RESULT_SIZE" using "1.prems"(5) d True by linarith
    let ?r = "take (?p + 1) result @ take tail (drop ?p result) @ drop (?p + 1 + tail) result"
    have m: "move_up result ?p tail = Some ?r" using fit "1.prems"(2) by (simp add: move_up_def)
    have rest: "drop ?p result = ?t @ s @ end_of_string # junk" using "1.prems"(1,3) True by simp
    have "take tail (drop ?p result) = ?t @ s @ end_of_string # take (tail - length s - 4) junk"
      unfolding rest using "1.prems"(4) hl(2) by (simp add: take_Cons' Suc_diff_le add.commute)
    moreover have "take (?p + 1) result = ?h @ [x]"
    proof -
      have "result = ?h @ [x, y, z] @ s @ end_of_string # junk" using "1.prems"(1) hl(3) t by simp
      then show ?thesis using hl(1) by (metis append_Cons append_eq_conv_conj append_assoc append_Nil length_append_singleton Suc_eq_plus1)
    qed
    ultimately have r: "?r[?p := CHR '' ''] = ?h @ (CHR '' '' # ?t @ s) @ end_of_string # (take (tail - length s - 4) junk @ drop (?p + 1 + tail) result)"
      using hl by (simp add: list_update_append)
    have "length (?r[?p := CHR '' '']) = RESULT_SIZE" using fit "1.prems"(2) by simp
    moreover have "?p + (tail + 4) + (?p - 1) div 3 \<le> RESULT_SIZE + 3" using "1.prems"(5) d True by linarith
    ultimately obtain j where "group_loop (?r[?p := CHR '' '']) ?p (tail + 4) = Some (grouped ?h @ (CHR '' '' # ?t @ s) @ end_of_string # j)"
      using "1.IH" [OF True refl m r _ hl(1) [symmetric]] "1.prems"(4) hl(2) by auto
    then have "group_loop result p tail = Some (grouped ?h @ (CHR '' '' # ?t @ s) @ end_of_string # j)"
      using True m by (subst group_loop.simps) (simp add: Let_def)
    moreover have "grouped ds = grouped ?h @ CHR '' '' # ?t" using True "1.prems"(3) by (subst grouped.simps) simp
    ultimately show ?thesis by auto
  next
    case False
    then show ?thesis using "1.prems"(1,3) by (subst group_loop.simps, subst grouped.simps) auto
  qed
qed

definition digits_text :: "string \<Rightarrow> bool" where
  "digits_text ds \<longleftrightarrow> list_all (\<lambda>c. c \<noteq> end_of_string \<and> c \<noteq> CHR ''.'') ds"

text \<open>
  Property C36: for a number with two decimals and at most 50 characters before the decimal point, \<^verbatim>\<open>strmoney\<close> stays inside its buffer exactly when there are at most twelve of these
  characters, whatever the buffer held before; then the result is the number with its integer part in groups of three from the right.
\<close>

theorem strmoney_correct:
  assumes "digits_text ds" and "length ds \<le> 50" and "a \<noteq> end_of_string" and "b \<noteq> end_of_string" and "length result = RESULT_SIZE"
  shows "strmoney (ds @ [CHR ''.'', a, b]) result = (if length ds \<le> 12 then Some (grouped ds @ [CHR ''.'', a, b]) else None)"
proof -
  let ?s = "[CHR ''.'', a, b]" and ?junk = "drop (length ds + 4) result"
  have w: "write_number (ds @ ?s) result = ds @ ?s @ end_of_string # ?junk"
    using assms(2) by (simp add: write_number_def RESULT_SIZE_def eval_nat_numeral)
  have p: "takeWhile (\<lambda>c. c \<noteq> end_of_string \<and> c \<noteq> CHR ''.'') (ds @ ?s @ end_of_string # ?junk) = ds"
    using assms(1) by (auto simp: digits_text_def list_all_iff takeWhile_append)
  have l: "length (ds @ ?s @ end_of_string # ?junk) = RESULT_SIZE" using assms(2,5) by (simp add: RESULT_SIZE_def)
  show ?thesis
  proof (cases "length ds \<le> 12")
    case True
    then have "(length ds - 1) div 3 \<le> 11 div 3" by (intro div_le_mono) simp
    moreover have "length ?s + 3 < RESULT_SIZE - length ds" using True by (simp add: RESULT_SIZE_def)
    ultimately obtain junk where "group_loop (ds @ ?s @ end_of_string # ?junk) (length ds) (RESULT_SIZE - length ds) = Some (grouped ds @ ?s @ end_of_string # junk)"
      using group_loop_inside [OF refl l refl, of "RESULT_SIZE - length ds"] True by (auto simp: RESULT_SIZE_def)
    moreover have "list_all (\<lambda>c. c \<noteq> end_of_string) (grouped ds)" using assms(1) unfolding digits_text_def
      by (induction ds rule: grouped.induct) (subst grouped.simps, auto simp: list_all_iff dest: in_set_takeD in_set_dropD)
    ultimately show ?thesis using True assms(3,4) unfolding strmoney_def w Let_def p
      by (simp add: c_string_def list_all_iff takeWhile_append)
  next
    case False
    then have "12 div 3 \<le> (length ds - 1) div 3" by (intro div_le_mono) simp
    then have "group_loop (ds @ ?s @ end_of_string # ?junk) (length ds) (RESULT_SIZE - length ds) = None"
      using group_loop_outside [OF l, of "length ds" "RESULT_SIZE - length ds"] False assms(2) by (simp add: RESULT_SIZE_def)
    then show ?thesis using False unfolding strmoney_def w Let_def p by simp
  qed
qed

theorem strmoney_correct_witness:
  "strmoney ''1234567.89'' (replicate 64 (CHR 0x00)) = Some ''1 234 567.89'' \<and> strmoney ''1234567890123.00'' (replicate 64 (CHR 0x00)) = None"
  using strmoney_correct [of "''1234567''" "CHR ''8''" "CHR ''9''" "replicate 64 (CHR 0x00)"]
    strmoney_correct [of "''1234567890123''" "CHR ''0''" "CHR ''0''" "replicate 64 (CHR 0x00)"]
  by (simp add: digits_text_def RESULT_SIZE_def grouped.simps)

end
