(* ===== verification/DnsEcdsa.thy ===== *)
theory DnsEcdsa
  imports KeyParts
begin

text \<open>
  The file \<^verbatim>\<open>ecdsa_link.c\<close> of \<^verbatim>\<open>openssl_util_code\<close>: ECDSA keys of DNS over OpenSSL, with the operations that sign, verify, compare, generate
  and convert keys.

  The containers and the counted key objects are those of \<^verbatim>\<open>KeyParts\<close>.  What the code calls of OpenSSL and of the ISC libraries
  beyond them is the record \<open>dns_env\<close>, with the constants of the headers that are not part of the sources.  A failed \<^verbatim>\<open>REQUIRE\<close> ends the
  program and has the outcome \<open>None\<close>.  The region of a buffer that an operation writes is the list of its octets, and the number of octets that
  the operation adds to the buffer, or takes from it, is part of the result.
\<close>

subsection \<open>Parameters\<close>

datatype isc_result =
    ISC_R_SUCCESS | ISC_R_NOMEMORY | ISC_R_NOSPACE | ISC_R_FAILURE
  | DST_R_SIGNFAILURE | DST_R_VERIFYFAILURE | DST_R_OPENSSLFAILURE | DST_R_INVALIDPUBLICKEY | DST_R_INVALIDPRIVATEKEY | DST_R_NULLKEY
  | ISC_R_OTHER nat

datatype md_type = EVP_sha256 | EVP_sha384

text \<open>Big numbers are natural numbers.  \<open>toresult\<close> stands for \<^verbatim>\<open>dst__openssl_toresult\<close>, \<^verbatim>\<open>dst__openssl_toresult2\<close> and \<^verbatim>\<open>dst__openssl_toresult3\<close>, which replace the result
  that they are given when OpenSSL ran out of memory.  \<open>privstruct_writefile\<close> has the elements of the private key file as argument.\<close>

record dns_env =
  EVP_MD_CTX_create_ok :: bool
  EVP_DigestInit_ok :: bool
  EVP_DigestUpdate_ok :: bool
  EVP_DigestFinal :: "md_type \<Rightarrow> bytes \<Rightarrow> bytes option"
  ECDSA_do_sign :: "bytes \<Rightarrow> EC_KEY \<Rightarrow> (nat \<times> nat) option"
  ECDSA_do_verify :: "bytes \<Rightarrow> nat option \<times> nat option \<Rightarrow> EC_KEY \<Rightarrow> int"
  ECDSA_SIG_new_ok :: bool
  BN_num_bytes :: "nat \<Rightarrow> nat"
  BN_bn2bin :: "nat \<Rightarrow> bytes"
  bin2bn :: "bytes \<Rightarrow> nat option"
  EVP_PKEY_cmp :: "EC_KEY \<Rightarrow> EC_KEY \<Rightarrow> int"
  EC_KEY_generate_key :: "EC_KEY \<Rightarrow> EC_KEY option"
  EC_KEY_get0_private_key :: "EC_KEY \<Rightarrow> nat option"
  EC_KEY_get0_public_key :: "EC_KEY \<Rightarrow> EC_POINT option"
  set_private :: "EC_KEY \<Rightarrow> nat \<Rightarrow> EC_KEY option"
  i2o_ECPublicKey :: "EC_KEY \<Rightarrow> bytes option"
  o2i_ECPublicKey :: "EC_KEY \<Rightarrow> bytes \<Rightarrow> EC_KEY option"
  isc_mem_get_ok :: bool
  toresult :: "isc_result \<Rightarrow> isc_result"
  privstruct_writefile :: "bytes list \<Rightarrow> isc_result"
  DNS_SIG_ECDSA256SIZE :: nat
  DNS_SIG_ECDSA384SIZE :: nat
  DNS_KEY_ECDSA256SIZE :: nat
  DNS_KEY_ECDSA384SIZE :: nat
  NID_X9_62_prime256v1 :: int
  NID_secp384r1 :: int

datatype dst_alg = DST_ALG_ECDSA256 | DST_ALG_ECDSA384 | DST_ALG_OTHER nat

record dst_key =
  key_alg :: dst_alg
  pkey :: ptr
  external :: bool

text \<open>The digest context: the function and the data added so far.\<close>

record dst_context =
  ctx_key :: dst_key
  evp_md_ctx :: "(md_type \<times> bytes) option"

definition ecdsa_alg :: "dst_key \<Rightarrow> bool" where
  "ecdsa_alg key \<longleftrightarrow> key_alg key = DST_ALG_ECDSA256 \<or> key_alg key = DST_ALG_ECDSA384"

subsection \<open>Digests\<close>

definition opensslecdsa_createctx :: "dns_env \<Rightarrow> dst_context \<Rightarrow> (isc_result \<times> dst_context) option" where
  "opensslecdsa_createctx D dctx = do {
     c_assert (ecdsa_alg (ctx_key dctx));
     let type = (if key_alg (ctx_key dctx) = DST_ALG_ECDSA256 then EVP_sha256 else EVP_sha384);
     Some (if \<not> EVP_MD_CTX_create_ok D then (ISC_R_NOMEMORY, dctx)
           else if \<not> EVP_DigestInit_ok D then (toresult D ISC_R_FAILURE, dctx)
           else (ISC_R_SUCCESS, dctx\<lparr>evp_md_ctx := Some (type, [])\<rparr>))
   }"

definition opensslecdsa_destroyctx :: "dst_context \<Rightarrow> dst_context option" where
  "opensslecdsa_destroyctx dctx = do {
     c_assert (ecdsa_alg (ctx_key dctx));
     Some (dctx\<lparr>evp_md_ctx := None\<rparr>)
   }"

definition opensslecdsa_adddata :: "dns_env \<Rightarrow> bytes \<Rightarrow> dst_context \<Rightarrow> (isc_result \<times> dst_context) option" where
  "opensslecdsa_adddata D data dctx = do {
     c_assert (ecdsa_alg (ctx_key dctx));
     (type, old) \<leftarrow> evp_md_ctx dctx;
     Some (if \<not> EVP_DigestUpdate_ok D then (toresult D ISC_R_FAILURE, dctx)
           else (ISC_R_SUCCESS, dctx\<lparr>evp_md_ctx := Some (type, old @ data)\<rparr>))
   }"

definition final_digest :: "dns_env \<Rightarrow> dst_context \<Rightarrow> bytes option option" where
  "final_digest D dctx = do {
     (type, data) \<leftarrow> evp_md_ctx dctx;
     Some (EVP_DigestFinal D type data)
   }"

subsection \<open>Signatures\<close>

text \<open>Octets written into a region; a write that leaves the region is undefined.\<close>

definition write_at :: "bytes \<Rightarrow> nat \<Rightarrow> bytes \<Rightarrow> bytes option" where
  "write_at region off bs = do {
     c_assert (off + length bs \<le> length region);
     Some (take off region @ bs @ drop (off + length bs) region)
   }"

text \<open>The number with leading zeros; a number that is too long is written in full.\<close>

definition BN_bn2bin_fixed :: "dns_env \<Rightarrow> nat \<Rightarrow> nat \<Rightarrow> bytes" where
  "BN_bn2bin_fixed D bn n = replicate (n - BN_num_bytes D bn) 0 @ BN_bn2bin D bn"

definition siglen :: "dns_env \<Rightarrow> dst_key \<Rightarrow> nat" where
  "siglen D key = (if key_alg key = DST_ALG_ECDSA256 then DNS_SIG_ECDSA256SIZE D else DNS_SIG_ECDSA384SIZE D)"

definition ec_val :: "ptr \<Rightarrow> pk_heap \<Rightarrow> EC_KEY option" where
  "ec_val p h = do { a \<leftarrow> p; ko \<leftarrow> ekeys h a; Some (eck ko) }"

text \<open>The result, the region, the number of octets added and the heap.  The key is taken before the algorithm is checked.\<close>

definition opensslecdsa_sign :: "dns_env \<Rightarrow> dst_context \<Rightarrow> bytes \<Rightarrow> pk_heap \<Rightarrow> (isc_result \<times> bytes \<times> nat \<times> pk_heap) option" where
  "opensslecdsa_sign D dctx region h = do {
     let key = ctx_key dctx;
     q \<leftarrow> pkey key;
     (eckey, h) \<leftarrow> get1_EC_KEY q h;
     c_assert (ecdsa_alg key);
     if eckey = NULL then Some (ISC_R_FAILURE, region, 0, h)
     else do {
       k \<leftarrow> ec_val eckey h;
       (ret, region, n) \<leftarrow>
         (if length region < siglen D key then Some (ISC_R_NOSPACE, region, 0)
          else do {
            dg \<leftarrow> final_digest D dctx;
            (case dg of
               None \<Rightarrow> Some (toresult D ISC_R_FAILURE, region, 0)
             | Some digest \<Rightarrow>
                 (case ECDSA_do_sign D digest k of
                    None \<Rightarrow> Some (toresult D DST_R_SIGNFAILURE, region, 0)
                  | Some (r, s) \<Rightarrow> do {
                      region \<leftarrow> write_at region 0 (BN_bn2bin_fixed D r (siglen D key div 2));
                      region \<leftarrow> write_at region (siglen D key div 2) (BN_bn2bin_fixed D s (siglen D key div 2));
                      Some (ISC_R_SUCCESS, region, siglen D key)
                    }))
          });
       h \<leftarrow> ec_free eckey h;
       Some (ret, region, n, h)
     }
   }"

text \<open>A signature of the wrong length is refused before the common exit, so the reference to the key is kept.\<close>

definition opensslecdsa_verify :: "dns_env \<Rightarrow> dst_context \<Rightarrow> bytes \<Rightarrow> pk_heap \<Rightarrow> (isc_result \<times> pk_heap) option" where
  "opensslecdsa_verify D dctx sig h = do {
     let key = ctx_key dctx;
     q \<leftarrow> pkey key;
     (eckey, h) \<leftarrow> get1_EC_KEY q h;
     c_assert (ecdsa_alg key);
     if eckey = NULL then Some (ISC_R_FAILURE, h)
     else if length sig \<noteq> siglen D key then Some (DST_R_VERIFYFAILURE, h)
     else do {
       k \<leftarrow> ec_val eckey h;
       dg \<leftarrow> final_digest D dctx;
       let ret =
         (case dg of
            None \<Rightarrow> toresult D ISC_R_FAILURE
          | Some digest \<Rightarrow>
              if \<not> ECDSA_SIG_new_ok D then ISC_R_NOMEMORY
              else
                let r = bin2bn D (take (siglen D key div 2) sig);
                    s = bin2bn D (take (siglen D key div 2) (drop (siglen D key div 2) sig));
                    status = ECDSA_do_verify D digest (r, s) k
                in if status = 1 then ISC_R_SUCCESS
                   else toresult D DST_R_VERIFYFAILURE);
       h \<leftarrow> ec_free eckey h;
       Some (ret, h)
     }
   }"

subsection \<open>Keys\<close>

definition opensslecdsa_compare :: "dns_env \<Rightarrow> dst_key \<Rightarrow> dst_key \<Rightarrow> pk_heap \<Rightarrow> (bool \<times> pk_heap) option" where
  "opensslecdsa_compare D key1 key2 h =
     (case (pkey key1, pkey key2) of
        (None, None) \<Rightarrow> Some (True, h)
      | (Some q1, Some q2) \<Rightarrow> do {
          (eckey1, h) \<leftarrow> get1_EC_KEY q1 h;
          (eckey2, h) \<leftarrow> get1_EC_KEY q2 h;
          ret \<leftarrow>
            (if eckey1 = NULL \<and> eckey2 = NULL then Some True
             else if eckey1 = NULL \<or> eckey2 = NULL then Some False
             else do {
               k1 \<leftarrow> ec_val eckey1 h;
               k2 \<leftarrow> ec_val eckey2 h;
               Some (if EVP_PKEY_cmp D k1 k2 \<noteq> 1 then False
                     else (case (EC_KEY_get0_private_key D k1, EC_KEY_get0_private_key D k2) of
                             (None, None) \<Rightarrow> True
                           | (Some priv1, Some priv2) \<Rightarrow> priv1 = priv2
                           | _ \<Rightarrow> False))
             });
          h \<leftarrow> ec_free eckey1 h;
          h \<leftarrow> ec_free eckey2 h;
          Some (ret, h)
        }
      | _ \<Rightarrow> Some (False, h))"

definition group_nid :: "dns_env \<Rightarrow> dst_key \<Rightarrow> int" where
  "group_nid D key = (if key_alg key = DST_ALG_ECDSA256 then NID_X9_62_prime256v1 D else NID_secp384r1 D)"

definition new_ec :: "EC_KEY \<Rightarrow> pk_heap \<Rightarrow> ptr \<times> pk_heap" where
  "new_ec k h = (Some (brk h), (put_ec (brk h) \<lparr>eck = k, cnt = 1\<rparr> h)\<lparr>brk := brk h + 1\<rparr>)"

definition pkey_free :: "ptr \<Rightarrow> pk_heap \<Rightarrow> pk_heap option" where
  "pkey_free p h =
     (case p of
        None \<Rightarrow> Some h
      | Some q \<Rightarrow> do {
          po \<leftarrow> pkeys h q;
          h \<leftarrow> ec_free (pec po) h;
          Some (h\<lparr>pkeys := (pkeys h)(q := None)\<rparr>)
        })"

text \<open>The last part of three functions: the key object goes into a new container, which becomes that of the key.  \<open>err\<close> is the result
  when the container does not take it; the first component says whether the key has the container.\<close>

definition store_pkey :: "pk_env \<Rightarrow> isc_result \<Rightarrow> ptr \<Rightarrow> dst_key \<Rightarrow> pk_heap \<Rightarrow> (bool \<times> isc_result \<times> dst_key \<times> pk_heap) option" where
  "store_pkey X err eckey key h =
     (if \<not> pkey_new_ok X then Some (False, ISC_R_NOMEMORY, key, h)
      else do {
        let q = brk h;
        let h = h\<lparr>pkeys := (pkeys h)(q \<mapsto> \<lparr>ptype = EVP_PKEY_NONE, pec = NULL\<rparr>), brk := brk h + 1\<rparr>;
        (ok, h) \<leftarrow> set1_EC_KEY X q eckey h;
        if \<not> ok then do { h \<leftarrow> pkey_free (Some q) h; Some (False, err, key, h) }
        else Some (True, ISC_R_SUCCESS, key\<lparr>pkey := Some q\<rparr>, h)
      })"

definition opensslecdsa_generate :: "openssl \<Rightarrow> pk_env \<Rightarrow> dns_env \<Rightarrow> dst_key \<Rightarrow> pk_heap \<Rightarrow> (isc_result \<times> dst_key \<times> pk_heap) option" where
  "opensslecdsa_generate E X D key h = do {
     c_assert (ecdsa_alg key);
     (case EC_KEY_new_by_curve_name E (group_nid D key) of
        None \<Rightarrow> Some (toresult D DST_R_OPENSSLFAILURE, key, h)
      | Some k \<Rightarrow> do {
          let (eckey, h) = new_ec k h;
          (ok, h) \<leftarrow> upd_ec (EC_KEY_generate_key D) eckey h;
          (_, ret, key, h) \<leftarrow> (if \<not> ok then Some (False, toresult D DST_R_OPENSSLFAILURE, key, h) else store_pkey X ISC_R_FAILURE eckey key h);
          h \<leftarrow> ec_free eckey h;
          Some (ret, key, h)
        })
   }"

definition opensslecdsa_isprivate :: "dns_env \<Rightarrow> dst_key \<Rightarrow> pk_heap \<Rightarrow> (bool \<times> pk_heap) option" where
  "opensslecdsa_isprivate D key h = do {
     q \<leftarrow> pkey key;
     (eckey, h) \<leftarrow> get1_EC_KEY q h;
     if eckey = NULL then Some (False, h)
     else do {
       k \<leftarrow> ec_val eckey h;
       h \<leftarrow> ec_free eckey h;
       Some (EC_KEY_get0_private_key D k \<noteq> None, h)
     }
   }"

definition opensslecdsa_destroy :: "dst_key \<Rightarrow> pk_heap \<Rightarrow> (dst_key \<times> pk_heap) option" where
  "opensslecdsa_destroy key h = do {
     h \<leftarrow> pkey_free (pkey key) h;
     Some (key\<lparr>pkey := NULL\<rparr>, h)
   }"

subsection \<open>Public keys in DNS\<close>

text \<open>The length is an \<^verbatim>\<open>int\<close> that is compared as an unsigned number, so -1, the length without the octet of the form of a key that has no
  encoding, is larger than every region.\<close>

definition opensslecdsa_todns :: "dns_env \<Rightarrow> dst_key \<Rightarrow> bytes \<Rightarrow> pk_heap \<Rightarrow> (isc_result \<times> bytes \<times> nat \<times> pk_heap) option" where
  "opensslecdsa_todns D key region h = do {
     q \<leftarrow> pkey key;
     (eckey, h) \<leftarrow> get1_EC_KEY q h;
     if eckey = NULL then Some (toresult D ISC_R_FAILURE, region, 0, h)
     else do {
       k \<leftarrow> ec_val eckey h;
       (ret, region, n) \<leftarrow>
         (case i2o_ECPublicKey D k of
            None \<Rightarrow> Some (ISC_R_NOSPACE, region, 0)
          | Some octets \<Rightarrow>
              if length region < length octets - 1 then Some (ISC_R_NOSPACE, region, 0)
              else do {
                c_assert (length octets \<le> DNS_KEY_ECDSA384SIZE D + 1);
                region \<leftarrow> write_at region 0 (drop 1 octets);
                Some (ISC_R_SUCCESS, region, length octets - 1)
              });
       h \<leftarrow> ec_free eckey h;
       Some (ret, region, n, h)
     }
   }"

definition POINT_CONVERSION_UNCOMPRESSED :: byte where "POINT_CONVERSION_UNCOMPRESSED = 4"

definition key_len :: "dns_env \<Rightarrow> dst_key \<Rightarrow> nat" where
  "key_len D key = (if key_alg key = DST_ALG_ECDSA256 then DNS_KEY_ECDSA256SIZE D else DNS_KEY_ECDSA384SIZE D)"

text \<open>\<open>region\<close> is what remains of the buffer; the number of octets by which the buffer is moved forward is part of the result.\<close>

definition opensslecdsa_fromdns ::
  "openssl \<Rightarrow> pk_env \<Rightarrow> dns_env \<Rightarrow> dst_key \<Rightarrow> bytes \<Rightarrow> pk_heap \<Rightarrow> (isc_result \<times> dst_key \<times> nat \<times> pk_heap) option" where
  "opensslecdsa_fromdns E X D key region h = do {
     c_assert (ecdsa_alg key);
     if region = [] then Some (ISC_R_SUCCESS, key, 0, h)
     else if length region < key_len D key then Some (DST_R_INVALIDPUBLICKEY, key, 0, h)
     else (case EC_KEY_new_by_curve_name E (group_nid D key) of
        None \<Rightarrow> Some (toresult D DST_R_OPENSSLFAILURE, key, 0, h)
      | Some k \<Rightarrow> do {
          let (eckey, h) = new_ec k h;
          c_assert (key_len D key \<le> DNS_KEY_ECDSA384SIZE D);
          let buf = POINT_CONVERSION_UNCOMPRESSED # take (key_len D key) region;
          (ok, h) \<leftarrow> upd_ec (\<lambda>k. o2i_ECPublicKey D k buf) eckey h;
          k \<leftarrow> ec_val eckey h;
          (stored, ret, key, h) \<leftarrow>
            (if \<not> ok \<or> \<not> EC_KEY_check_key E k then Some (False, toresult D DST_R_INVALIDPUBLICKEY, key, h)
             else store_pkey X (toresult D ISC_R_FAILURE) eckey key h);
          h \<leftarrow> ec_free eckey h;
          Some (ret, key, if stored then key_len D key else 0, h)
        })
   }"

subsection \<open>Private keys in files\<close>

text \<open>\<open>privstruct_writefile\<close> is called with no element for an external key and with the private key otherwise; the elements are part of
  the result.\<close>

definition opensslecdsa_tofile :: "dns_env \<Rightarrow> dst_key \<Rightarrow> pk_heap \<Rightarrow> (isc_result \<times> bytes list option \<times> pk_heap) option" where
  "opensslecdsa_tofile D key h =
     (case pkey key of
        None \<Rightarrow> Some (DST_R_NULLKEY, None, h)
      | Some q \<Rightarrow>
          if external key then Some (privstruct_writefile D [], Some [], h)
          else do {
            (eckey, h) \<leftarrow> get1_EC_KEY q h;
            if eckey = NULL then Some (toresult D DST_R_OPENSSLFAILURE, None, h)
            else do {
              k \<leftarrow> ec_val eckey h;
              let (ret, written) =
                (case EC_KEY_get0_private_key D k of
                   None \<Rightarrow> (ISC_R_FAILURE, None)
                 | Some privkey \<Rightarrow>
                     if \<not> isc_mem_get_ok D then (ISC_R_NOMEMORY, None)
                     else (privstruct_writefile D [BN_bn2bin D privkey], Some [BN_bn2bin D privkey]));
              h \<leftarrow> ec_free eckey h;
              Some (ret, written, h)
            }
          })"

definition ecdsa_check :: "openssl \<Rightarrow> dns_env \<Rightarrow> ptr \<Rightarrow> dst_key option \<Rightarrow> pk_heap \<Rightarrow> (isc_result \<times> pk_heap) option" where
  "ecdsa_check E D eckey pub h =
     (case pub of
        None \<Rightarrow> Some (ISC_R_SUCCESS, h)
      | Some pubk \<Rightarrow>
          (case pkey pubk of
             None \<Rightarrow> Some (ISC_R_SUCCESS, h)
           | Some q \<Rightarrow> do {
               (pubeckey, h) \<leftarrow> get1_EC_KEY q h;
               if pubeckey = NULL then Some (ISC_R_SUCCESS, h)
               else do {
                 pk \<leftarrow> ec_val pubeckey h;
                 (ret, h) \<leftarrow>
                   (case EC_KEY_get0_public_key D pk of
                      None \<Rightarrow> Some (ISC_R_SUCCESS, h)
                    | Some pubkey \<Rightarrow> do {
                        (ok, h) \<leftarrow> upd_ec (\<lambda>k. EC_KEY_set_public_key E k pubkey) eckey h;
                        k \<leftarrow> ec_val eckey h;
                        Some (if \<not> ok \<or> EC_KEY_check_key E k then ISC_R_SUCCESS else ISC_R_FAILURE, h)
                      });
                 h \<leftarrow> ec_free pubeckey h;
                 Some (ret, h)
               }
             }))"

text \<open>The public key of an external key is copied from \<open>pub\<close>.  \<open>parsed\<close> is the result of \<^verbatim>\<open>dst__privstruct_parse\<close> with the elements that it read.\<close>

definition copy_public :: "openssl \<Rightarrow> dns_env \<Rightarrow> ptr \<Rightarrow> dst_key option \<Rightarrow> pk_heap \<Rightarrow> (isc_result \<times> ptr \<times> pk_heap) option" where
  "copy_public E D eckey pub h =
     (case pub of
        None \<Rightarrow> Some (DST_R_INVALIDPRIVATEKEY, NULL, h)
      | Some pubk \<Rightarrow> do {
          q \<leftarrow> pkey pubk;
          (pubeckey, h) \<leftarrow> get1_EC_KEY q h;
          if pubeckey = NULL then Some (DST_R_INVALIDPRIVATEKEY, NULL, h)
          else do {
            pk \<leftarrow> ec_val pubeckey h;
            (case EC_KEY_get0_public_key D pk of
               None \<Rightarrow> Some (DST_R_INVALIDPRIVATEKEY, pubeckey, h)
             | Some pubkey \<Rightarrow> do {
                 (ok, h) \<leftarrow> upd_ec (\<lambda>k. EC_KEY_set_public_key E k pubkey) eckey h;
                 k \<leftarrow> ec_val eckey h;
                 Some (if \<not> ok \<or> \<not> EC_KEY_check_key E k then DST_R_INVALIDPRIVATEKEY else ISC_R_SUCCESS, pubeckey, h)
               })
          }
        })"

definition read_private :: "openssl \<Rightarrow> dns_env \<Rightarrow> ptr \<Rightarrow> bytes list \<Rightarrow> dst_key option \<Rightarrow> pk_heap \<Rightarrow> (isc_result \<times> pk_heap) option" where
  "read_private E D eckey elements pub h = do {
     octets \<leftarrow> c_nth elements 0;
     (case bin2bn D octets of
        None \<Rightarrow> Some (ISC_R_NOMEMORY, h)
      | Some privkey \<Rightarrow> do {
          (ok, h) \<leftarrow> upd_ec (\<lambda>k. set_private D k privkey) eckey h;
          if \<not> ok then Some (ISC_R_NOMEMORY, h)
          else do {
            (r, h) \<leftarrow> ecdsa_check E D eckey pub h;
            Some (if r \<noteq> ISC_R_SUCCESS then DST_R_INVALIDPRIVATEKEY else ISC_R_SUCCESS, h)
          }
        })
   }"

definition opensslecdsa_parse ::
  "openssl \<Rightarrow> pk_env \<Rightarrow> dns_env \<Rightarrow> dst_key \<Rightarrow> isc_result \<times> bytes list \<Rightarrow> dst_key option \<Rightarrow> pk_heap \<Rightarrow> (isc_result \<times> dst_key \<times> pk_heap) option" where
  "opensslecdsa_parse E X D key parsed pub h = do {
     c_assert (ecdsa_alg key);
     (case EC_KEY_new_by_curve_name E (group_nid D key) of
        None \<Rightarrow> Some (toresult D DST_R_OPENSSLFAILURE, key, h)
      | Some k \<Rightarrow> do {
          let (eckey, h) = new_ec k h;
          (ret, pubeckey, h) \<leftarrow>
            (if fst parsed \<noteq> ISC_R_SUCCESS then Some (fst parsed, NULL, h)
             else if external key then copy_public E D eckey pub h
             else do { (ret, h) \<leftarrow> read_private E D eckey (snd parsed) pub h; Some (ret, NULL, h) });
          (_, ret, key, h) \<leftarrow>
            (if ret \<noteq> ISC_R_SUCCESS then Some (False, ret, key, h) else store_pkey X (toresult D DST_R_OPENSSLFAILURE) eckey key h);
          h \<leftarrow> ec_free eckey h;
          h \<leftarrow> ec_free pubeckey h;
          Some (ret, key, h)
        })
   }"

subsection \<open>Borrowed references\<close>

text \<open>An operation that takes the key object of a container and gives it back leaves the heap as it was.\<close>

lemma put_ec_same: "has_ec h q a k n \<Longrightarrow> put_ec a \<lparr>eck = k, cnt = n\<rparr> h = h"
  by (auto simp: has_ec_def put_ec_def fun_upd_idem_iff)

lemma ec_val_put [simp]: "ec_val (Some a) (put_ec a ko h) = Some (eck ko)"
  by (simp add: ec_val_def)

lemma free_borrowed: "has_ec h q a k n \<Longrightarrow> ec_free (Some a) (put_ec a \<lparr>eck = k, cnt = n + 1\<rparr> h) = Some h"
  using free_put_ec [of n a k h] put_ec_same [of h q a k n] by (simp add: has_ec_def)

lemmas borrow = get1_has_ec free_borrowed [simplified]

lemma isprivate_eq:
  "has_ec h q a k n \<Longrightarrow> pkey key = Some q \<Longrightarrow> opensslecdsa_isprivate D key h = Some (EC_KEY_get0_private_key D k \<noteq> None, h)"
  by (simp add: opensslecdsa_isprivate_def borrow)

lemma tofile_eq:
  assumes "has_ec h q a k n" and "pkey key = Some q" and "\<not> external key"
  shows "opensslecdsa_tofile D key h =
    Some (case EC_KEY_get0_private_key D k of
            None \<Rightarrow> (ISC_R_FAILURE, None, h)
          | Some d \<Rightarrow> if isc_mem_get_ok D then (privstruct_writefile D [BN_bn2bin D d], Some [BN_bn2bin D d], h) else (ISC_R_NOMEMORY, None, h))"
  using assms by (simp add: opensslecdsa_tofile_def borrow split: option.split)

lemma todns_eq:
  assumes "has_ec h q a k n" and "pkey key = Some q" and "i2o_ECPublicKey D k = Some (c # octets)"
    and "length octets \<le> DNS_KEY_ECDSA384SIZE D"
  shows "opensslecdsa_todns D key region h =
    Some (if length region < length octets then (ISC_R_NOSPACE, region, 0, h)
          else (ISC_R_SUCCESS, octets @ drop (length octets) region, length octets, h))"
  using assms by (simp add: opensslecdsa_todns_def borrow write_at_def)

lemma todns_no_public:
  assumes "has_ec h q a k n" and "pkey key = Some q" and "i2o_ECPublicKey D k = None"
  shows "opensslecdsa_todns D key region h = Some (ISC_R_NOSPACE, region, 0, h)"
  using assms by (simp add: opensslecdsa_todns_def borrow)

lemma compare_eq:
  assumes "has_ec h q1 a1 k1 n1" and "has_ec h q2 a2 k2 n2" and "a1 \<noteq> a2" and "pkey key1 = Some q1" and "pkey key2 = Some q2"
  shows "opensslecdsa_compare D key1 key2 h =
    Some (EVP_PKEY_cmp D k1 k2 = 1 \<and> EC_KEY_get0_private_key D k1 = EC_KEY_get0_private_key D k2, h)"
proof -
  let ?h1 = "put_ec a1 \<lparr>eck = k1, cnt = n1 + 1\<rparr> h"
  have 2: "has_ec ?h1 q2 a2 k2 n2" using assms(2,3) by (simp add: has_ec_def)
  let ?h2 = "put_ec a2 \<lparr>eck = k2, cnt = n2 + 1\<rparr> ?h1"
  let ?h3 = "put_ec a2 \<lparr>eck = k2, cnt = n2 + 1\<rparr> h"
  have "ec_val (Some a1) ?h2 = Some k1" using assms(3) by (simp add: ec_val_def)
  moreover have "ec_free (Some a1) ?h2 = Some ?h3"
  proof -
    have "?h2 = put_ec a1 \<lparr>eck = k1, cnt = n1 + 1\<rparr> ?h3" using assms(3) by (simp add: put_ec_def fun_upd_twist)
    moreover have "has_ec ?h3 q1 a1 k1 n1" using assms(1,3) by (simp add: has_ec_def)
    ultimately show ?thesis using free_borrowed by metis
  qed
  moreover have "ec_free (Some a2) ?h3 = Some h" using free_borrowed [OF assms(2)] .
  moreover have "get1_EC_KEY q1 h = Some (Some a1, ?h1)" using get1_has_ec [OF assms(1)] .
  moreover have "get1_EC_KEY q2 ?h1 = Some (Some a2, ?h2)" using get1_has_ec [OF 2] .
  ultimately show ?thesis using assms(4,5)
    by (auto simp: opensslecdsa_compare_def split: option.split)
qed

subsection \<open>Signatures as two numbers of fixed width\<close>

text \<open>Documented behaviour of the big numbers of OpenSSL: the encoding has \<^verbatim>\<open>BN_num_bytes\<close> octets, decoding inverts it and ignores leading zeros.\<close>

definition bn_laws :: "dns_env \<Rightarrow> bool" where
  "bn_laws D \<longleftrightarrow> (\<forall>n. length (BN_bn2bin D n) = BN_num_bytes D n) \<and> (\<forall>n. bin2bn D (BN_bn2bin D n) = Some n) \<and>
     (\<forall>bs. bin2bn D (0 # bs) = bin2bn D bs)"

text \<open>The two numbers of a signature with the key \<open>k\<close> fit into half of a signature each, and the signature verifies.\<close>

definition sign_laws :: "dns_env \<Rightarrow> dst_key \<Rightarrow> EC_KEY \<Rightarrow> bool" where
  "sign_laws D key k \<longleftrightarrow> (\<forall>dg r s. ECDSA_do_sign D dg k = Some (r, s) \<longrightarrow>
     BN_num_bytes D r \<le> siglen D key div 2 \<and> BN_num_bytes D s \<le> siglen D key div 2 \<and> ECDSA_do_verify D dg (Some r, Some s) k = 1)"

lemma bin2bn_zeros: "bn_laws D \<Longrightarrow> bin2bn D (replicate m 0 @ bs) = bin2bn D bs"
  by (induction m) (simp_all add: bn_laws_def)

lemma fixed_roundtrip: "bn_laws D \<Longrightarrow> bin2bn D (BN_bn2bin_fixed D n w) = Some n"
  using bin2bn_zeros [of D] by (simp add: BN_bn2bin_fixed_def bn_laws_def)

lemma fixed_length: "bn_laws D \<Longrightarrow> BN_num_bytes D n \<le> w \<Longrightarrow> length (BN_bn2bin_fixed D n w) = w"
  by (simp add: BN_bn2bin_fixed_def bn_laws_def)

definition dns_sig_octets :: "dns_env \<Rightarrow> dst_key \<Rightarrow> nat \<Rightarrow> nat \<Rightarrow> bytes" where
  "dns_sig_octets D key r s = BN_bn2bin_fixed D r (siglen D key div 2) @ BN_bn2bin_fixed D s (siglen D key div 2)"

lemma write_halves:
  assumes "length as = m" and "length bs = m" and "2 * m \<le> length region"
  shows "(write_at region 0 as \<bind> (\<lambda>region. write_at region m bs)) = Some (as @ bs @ drop (2 * m) region)"
  using assms by (simp add: write_at_def mult_2)

lemma sign_eq:
  assumes "has_ec h q a k n" and "pkey (ctx_key dctx) = Some q" and "ecdsa_alg (ctx_key dctx)" and "evp_md_ctx dctx = Some (ty, data)"
    and "bn_laws D" and "sign_laws D (ctx_key dctx) k" and "even (siglen D (ctx_key dctx))"
  shows "opensslecdsa_sign D dctx region h =
    Some (if length region < siglen D (ctx_key dctx) then (ISC_R_NOSPACE, region, 0, h)
          else (case EVP_DigestFinal D ty data of
                  None \<Rightarrow> (toresult D ISC_R_FAILURE, region, 0, h)
                | Some dg \<Rightarrow>
                    (case ECDSA_do_sign D dg k of
                       None \<Rightarrow> (toresult D DST_R_SIGNFAILURE, region, 0, h)
                     | Some (r, s) \<Rightarrow>
                         (ISC_R_SUCCESS, dns_sig_octets D (ctx_key dctx) r s @ drop (siglen D (ctx_key dctx)) region, siglen D (ctx_key dctx), h))))"
proof -
  let ?l = "siglen D (ctx_key dctx)"
  have two: "2 * (?l div 2) = ?l" using assms(7) by simp
  have "(write_at region 0 (BN_bn2bin_fixed D r (?l div 2)) \<bind> (\<lambda>region. write_at region (?l div 2) (BN_bn2bin_fixed D s (?l div 2)))) =
      Some (dns_sig_octets D (ctx_key dctx) r s @ drop ?l region)"
    if "ECDSA_do_sign D dg k = Some (r, s)" "\<not> length region < ?l" for dg r s
    using write_halves [of "BN_bn2bin_fixed D r (?l div 2)" "?l div 2" "BN_bn2bin_fixed D s (?l div 2)" region] that assms(5,6) two
    by (simp add: sign_laws_def fixed_length dns_sig_octets_def)
  then have w: "(write_at region 0 (BN_bn2bin_fixed D r (?l div 2)) \<bind>
      (\<lambda>region. write_at region (?l div 2) (BN_bn2bin_fixed D s (?l div 2)) \<bind> (\<lambda>region. Some (f region)))) =
      Some (f (dns_sig_octets D (ctx_key dctx) r s @ drop ?l region))"
    if "ECDSA_do_sign D dg k = Some (r, s)" "\<not> length region < ?l" for dg r s and f :: "bytes \<Rightarrow> isc_result \<times> bytes \<times> nat"
    using that by (simp flip: Option.bind_assoc)
  show ?thesis
    using assms(1-4) w by (auto simp: opensslecdsa_sign_def borrow final_digest_def Let_def split: option.split)
qed

lemma verify_eq:
  assumes "has_ec h q a k n" and "pkey (ctx_key dctx) = Some q" and "ecdsa_alg (ctx_key dctx)" and "evp_md_ctx dctx = Some (ty, data)"
    and "length sig = siglen D (ctx_key dctx)"
  shows "opensslecdsa_verify D dctx sig h =
    Some (case EVP_DigestFinal D ty data of
            None \<Rightarrow> toresult D ISC_R_FAILURE
          | Some dg \<Rightarrow>
              if \<not> ECDSA_SIG_new_ok D then ISC_R_NOMEMORY
              else if ECDSA_do_verify D dg (bin2bn D (take (length sig div 2) sig),
                        bin2bn D (take (length sig div 2) (drop (length sig div 2) sig))) k = 1
                   then ISC_R_SUCCESS else toresult D DST_R_VERIFYFAILURE, h)"
  using assms by (auto simp: opensslecdsa_verify_def borrow final_digest_def Let_def split: option.split)

text \<open>A new context that is fed with octets in pieces.\<close>

fun add_all :: "dns_env \<Rightarrow> bytes list \<Rightarrow> dst_context \<Rightarrow> dst_context option" where
  "add_all D [] dctx = Some dctx"
| "add_all D (c # cs) dctx = do { (_, dctx) \<leftarrow> opensslecdsa_adddata D c dctx; add_all D cs dctx }"

definition fed_context :: "dns_env \<Rightarrow> bytes list \<Rightarrow> dst_context \<Rightarrow> dst_context option" where
  "fed_context D cs dctx = do { (_, dctx) \<leftarrow> opensslecdsa_createctx D dctx; add_all D cs dctx }"

lemma add_all_eq:
  "ecdsa_alg (ctx_key dctx) \<Longrightarrow> EVP_DigestUpdate_ok D \<Longrightarrow> evp_md_ctx dctx = Some (ty, data) \<Longrightarrow>
   add_all D cs dctx = Some (dctx\<lparr>evp_md_ctx := Some (ty, data @ concat cs)\<rparr>)"
  by (induction cs arbitrary: dctx data) (simp_all add: opensslecdsa_adddata_def)

definition md_ok :: "dns_env \<Rightarrow> bool" where
  "md_ok D \<longleftrightarrow> EVP_MD_CTX_create_ok D \<and> EVP_DigestInit_ok D \<and> EVP_DigestUpdate_ok D"

definition md_of :: "dst_key \<Rightarrow> md_type" where
  "md_of key = (if key_alg key = DST_ALG_ECDSA256 then EVP_sha256 else EVP_sha384)"

lemma fed_context_eq:
  assumes "ecdsa_alg (ctx_key dctx)" and "md_ok D"
  shows "fed_context D cs dctx = Some (dctx\<lparr>evp_md_ctx := Some (md_of (ctx_key dctx), concat cs)\<rparr>)"
  using assms add_all_eq [of "dctx\<lparr>evp_md_ctx := Some (md_of (ctx_key dctx), [])\<rparr>" D "md_of (ctx_key dctx)" "[]" cs]
  by (simp add: fed_context_def opensslecdsa_createctx_def md_ok_def md_of_def)

definition fresh_heap :: "pk_heap \<Rightarrow> bool" where
  "fresh_heap h \<longleftrightarrow> (\<forall>x\<ge>brk h. ekeys h x = None \<and> pkeys h x = None)"

subsection \<open>An instance of the parameters\<close>

text \<open>Numbers in network byte order; a key is the octet of its private part, with 0 for none, and the octets of its public part.\<close>

fun be_octets :: "nat \<Rightarrow> bytes" where
  "be_octets n = (if n = 0 then [] else be_octets (n div 256) @ [of_nat n])"

declare be_octets.simps [simp del]

definition be_number :: "bytes \<Rightarrow> nat" where
  "be_number bs = foldl (\<lambda>v b. v * 256 + unat b) 0 bs"

lemma be_number_octets: "be_number (be_octets n) = n"
proof (induction n rule: be_octets.induct)
  case (1 n)
  then show ?case by (subst be_octets.simps) (simp add: be_number_def unat_of_nat take_bit_eq_mod)
qed

definition sample_dns :: dns_env where
  "sample_dns = \<lparr>EVP_MD_CTX_create_ok = True, EVP_DigestInit_ok = True, EVP_DigestUpdate_ok = True,
     EVP_DigestFinal = (\<lambda>ty data. Some (take 32 data)), ECDSA_do_sign = (\<lambda>dg k. Some (5, 300)),
     ECDSA_do_verify = (\<lambda>dg rs k. if rs = (Some 5, Some 300) then 1 else 0), ECDSA_SIG_new_ok = True,
     BN_num_bytes = (\<lambda>n. length (be_octets n)), BN_bn2bin = be_octets, bin2bn = (\<lambda>bs. Some (be_number bs)),
     EVP_PKEY_cmp = (\<lambda>k k'. if tl k = tl k' then 1 else 0), EC_KEY_generate_key = (\<lambda>k. Some (3 # replicate 64 2)),
     EC_KEY_get0_private_key = (\<lambda>k. if k = [] \<or> hd k = 0 then None else Some (unat (hd k))),
     EC_KEY_get0_public_key = (\<lambda>k. if k = [] then None else Some (tl k)),
     set_private = (\<lambda>k d. if 0 < d \<and> d < 256 then Some (of_nat d # tl k) else None),
     i2o_ECPublicKey = (\<lambda>k. if length k = 65 then Some (4 # tl k) else None),
     o2i_ECPublicKey = (\<lambda>k bs. if k = [] then None else Some (hd k # tl bs)),
     isc_mem_get_ok = True, toresult = id, privstruct_writefile = (\<lambda>_. ISC_R_SUCCESS),
     DNS_SIG_ECDSA256SIZE = 64, DNS_SIG_ECDSA384SIZE = 96, DNS_KEY_ECDSA256SIZE = 64, DNS_KEY_ECDSA384SIZE = 96,
     NID_X9_62_prime256v1 = 415, NID_secp384r1 = 715\<rparr>"

definition sample_ec_ssl :: openssl where
  "sample_ec_ssl = sample_ssl\<lparr>EC_KEY_new_by_curve_name := (\<lambda>_. Some [0]), EC_KEY_check_key := (\<lambda>_. True),
     EC_KEY_set_public_key := (\<lambda>k p. if k = [] then None else Some (hd k # p))\<rparr>"

definition sample_dns_heap :: pk_heap where
  "sample_dns_heap = \<lparr>ekeys = [1 \<mapsto> \<lparr>eck = 7 # replicate 64 9, cnt = 1\<rparr>], pkeys = [0 \<mapsto> \<lparr>ptype = EVP_PKEY_EC, pec = Some 1\<rparr>], brk = 2\<rparr>"

definition sample_dns_key :: dst_key where
  "sample_dns_key = \<lparr>key_alg = DST_ALG_ECDSA256, pkey = Some 0, external = False\<rparr>"

lemma sample_dns_key_ok:
  "has_ec sample_dns_heap 0 1 (7 # replicate 64 9) 1" "fresh_heap sample_dns_heap" "pkey sample_dns_key = Some 0" "ecdsa_alg sample_dns_key"
  "\<not> external sample_dns_key"
  by (simp_all add: has_ec_def sample_dns_heap_def fresh_heap_def sample_dns_key_def ecdsa_alg_def)

lemma sample_bn: "bn_laws sample_dns"
  by (simp add: bn_laws_def sample_dns_def be_number_octets) (simp add: be_number_def)

lemma sample_sizes: "siglen sample_dns sample_dns_key = 64" "key_len sample_dns sample_dns_key = 64" "even (siglen sample_dns sample_dns_key)"
  by (simp_all add: siglen_def key_len_def sample_dns_def sample_dns_key_def)

lemma sample_sign: "sign_laws sample_dns sample_dns_key k"
proof -
  have "length (be_octets 5) = 1" "length (be_octets 300) = 2" by (simp_all add: be_octets.simps)
  then show ?thesis by (simp add: sign_laws_def sample_sizes(1)) (simp add: sample_dns_def)
qed

text \<open>
  Property C12: what \<^verbatim>\<open>opensslecdsa_sign\<close> writes, \<^verbatim>\<open>opensslecdsa_verify\<close> accepts.  The signature has the fixed length of the algorithm, whatever
  the size of its two numbers, the octets behind it stay as they were, and it verifies in every context that was fed with the same octets, in
  whatever pieces; no reference to the key is lost.
\<close>

theorem dns_signature_roundtrip:
  assumes "has_ec h q a k n" and "pkey key = Some q" and "ecdsa_alg key" and "bn_laws D" and "sign_laws D key k" and "even (siglen D key)"
    and "md_ok D" and "ECDSA_SIG_new_ok D" and "siglen D key \<le> length region" and "concat cs' = concat cs"
    and "EVP_DigestFinal D (md_of key) (concat cs) = Some dg" and "ECDSA_do_sign D dg k \<noteq> None"
  shows "\<exists>sctx vctx sig.
    fed_context D cs \<lparr>ctx_key = key, evp_md_ctx = c\<rparr> = Some sctx \<and> fed_context D cs' \<lparr>ctx_key = key, evp_md_ctx = c'\<rparr> = Some vctx \<and>
    opensslecdsa_sign D sctx region h = Some (ISC_R_SUCCESS, sig @ drop (siglen D key) region, siglen D key, h) \<and>
    length sig = siglen D key \<and> opensslecdsa_verify D vctx sig h = Some (ISC_R_SUCCESS, h)"
proof -
  let ?sctx = "\<lparr>ctx_key = key, evp_md_ctx = Some (md_of key, concat cs)\<rparr>"
  obtain r s where rs: "ECDSA_do_sign D dg k = Some (r, s)" using assms(12) by auto
  let ?m = "siglen D key div 2" and ?sig = "dns_sig_octets D key r s"
  have two: "2 * ?m = siglen D key" using assms(6) by simp
  have len: "length (BN_bn2bin_fixed D r ?m) = ?m" "length (BN_bn2bin_fixed D s ?m) = ?m"
    using rs assms(4,5) by (auto simp: sign_laws_def fixed_length)
  then have l: "length ?sig = siglen D key" using two by (simp add: dns_sig_octets_def)
  have "take ?m ?sig = BN_bn2bin_fixed D r ?m" "take ?m (drop ?m ?sig) = BN_bn2bin_fixed D s ?m" using len by (simp_all add: dns_sig_octets_def)
  moreover have "ECDSA_do_verify D dg (Some r, Some s) k = 1" using rs assms(5) by (auto simp: sign_laws_def)
  ultimately have "opensslecdsa_verify D ?sctx ?sig h = Some (ISC_R_SUCCESS, h)"
    using verify_eq [of h q a k n ?sctx "md_of key" "concat cs" ?sig D] assms(1-4,8,11) l by (simp add: fixed_roundtrip)
  moreover have "opensslecdsa_sign D ?sctx region h = Some (ISC_R_SUCCESS, ?sig @ drop (siglen D key) region, siglen D key, h)"
    using sign_eq [of h q a k n ?sctx "md_of key" "concat cs" D region] assms(1-6,9,11) rs by simp
  moreover have "fed_context D cs \<lparr>ctx_key = key, evp_md_ctx = c\<rparr> = Some ?sctx" "fed_context D cs' \<lparr>ctx_key = key, evp_md_ctx = c'\<rparr> = Some ?sctx"
    using assms(3,7,10) by (simp_all add: fed_context_eq)
  ultimately show ?thesis using l by blast
qed

theorem dns_signature_roundtrip_witness:
  "\<exists>sctx vctx sig.
    fed_context sample_dns [[1, 2], [3]] \<lparr>ctx_key = sample_dns_key, evp_md_ctx = None\<rparr> = Some sctx \<and>
    fed_context sample_dns [[1], [2, 3]] \<lparr>ctx_key = sample_dns_key, evp_md_ctx = None\<rparr> = Some vctx \<and>
    opensslecdsa_sign sample_dns sctx (replicate 70 0) sample_dns_heap = Some (ISC_R_SUCCESS, sig @ replicate 6 0, 64, sample_dns_heap) \<and>
    opensslecdsa_verify sample_dns vctx sig sample_dns_heap = Some (ISC_R_SUCCESS, sample_dns_heap)"
proof -
  have "md_ok sample_dns" "ECDSA_SIG_new_ok sample_dns" "EVP_DigestFinal sample_dns (md_of sample_dns_key) (concat [[1, 2], [3]]) = Some [1, 2, 3]"
      "ECDSA_do_sign sample_dns [1, 2, 3] (7 # replicate 64 9) \<noteq> None"
    by (simp_all add: md_ok_def sample_dns_def)
  with dns_signature_roundtrip [OF sample_dns_key_ok(1,3,4) sample_bn sample_sign, of "replicate 70 0" "[[1], [2, 3]]" "[[1, 2], [3]]" "[1, 2, 3]" None None]
  show ?thesis unfolding sample_sizes(1,2) by auto
qed

subsection \<open>New keys\<close>

text \<open>The heap with a new container that holds the only reference to a new key object.\<close>

definition with_key :: "EC_KEY \<Rightarrow> pk_heap \<Rightarrow> pk_heap" where
  "with_key k h = h\<lparr>ekeys := (ekeys h)(brk h \<mapsto> \<lparr>eck = k, cnt = 1\<rparr>),
     pkeys := (pkeys h)(brk h + 1 \<mapsto> \<lparr>ptype = EVP_PKEY_EC, pec = Some (brk h)\<rparr>), brk := brk h + 2\<rparr>"

definition with_ec :: "EC_KEY \<Rightarrow> nat \<Rightarrow> pk_heap \<Rightarrow> pk_heap" where
  "with_ec k m h = h\<lparr>ekeys := (ekeys h)(brk h \<mapsto> \<lparr>eck = k, cnt = m\<rparr>), brk := brk h + 1\<rparr>"

lemma with_key_has: "has_ec (with_key k h) (brk h + 1) (brk h) k 1"
  by (simp add: has_ec_def with_key_def)

lemma with_key_keeps:
  assumes "fresh_heap h" and "has_ec h q a k n"
  shows "has_ec (with_key k' h) q a k n" and "a \<noteq> brk h" and "q \<noteq> brk h + 1"
proof -
  have lt: "q < brk h" "a < brk h" using assms unfolding has_ec_def fresh_heap_def by (metis not_le option.distinct(1))+
  then show "has_ec (with_key k' h) q a k n" "a \<noteq> brk h" "q \<noteq> brk h + 1" using assms(2) by (auto simp: has_ec_def with_key_def)
qed

lemma with_ec_keeps:
  assumes "fresh_heap h" and "has_ec h q a k n"
  shows "has_ec (with_ec k' m h) q a k n" and "a \<noteq> brk h"
proof -
  have "a < brk h" using assms unfolding has_ec_def fresh_heap_def by (metis not_le option.distinct(1))
  then show "has_ec (with_ec k' m h) q a k n" "a \<noteq> brk h" using assms(2) by (auto simp: has_ec_def with_ec_def)
qed

lemma new_ec_eq: "new_ec k h = (Some (brk h), with_ec k 1 h)"
  by (simp add: new_ec_def with_ec_def put_ec_def)

lemma upd_with_ec: "upd_ec f (Some (brk h)) (with_ec k m h) = Some (case f k of None \<Rightarrow> (False, with_ec k m h) | Some k' \<Rightarrow> (True, with_ec k' m h))"
  by (simp add: upd_ec_def with_ec_def put_ec_def split: option.split)

lemma val_with_ec: "ec_val (Some (brk h)) (with_ec k m h) = Some k"
  by (simp add: ec_val_def with_ec_def)

lemma free_with_ec: "fresh_heap h \<Longrightarrow> ec_free (Some (brk h)) (with_ec k 1 h) = Some (h\<lparr>brk := brk h + 1\<rparr>)"
  by (simp add: ec_free_def with_ec_def fresh_heap_def fun_upd_idem)

lemma store_with_ec:
  assumes "pkey_new_ok X" and "set_type_ok X"
  shows "\<exists>h1. store_pkey X err (Some (brk h)) key (with_ec k 1 h) = Some (True, ISC_R_SUCCESS, key\<lparr>pkey := Some (brk h + 1)\<rparr>, h1) \<and>
    ec_free (Some (brk h)) h1 = Some (with_key k h)"
  using assms
  by (simp add: store_pkey_def with_ec_def with_key_def set1_EC_KEY_def ec_free_def ec_up_ref_def put_ec_def)

lemmas ec_simps = new_ec_eq upd_with_ec val_with_ec

lemma key_len_pkey: "key_len D (key\<lparr>pkey := p\<rparr>) = key_len D key"
  by (simp add: key_len_def)

lemma fromdns_eq:
  assumes "ecdsa_alg key" and "length octets = key_len D key" and "0 < key_len D key" and "key_len D key \<le> DNS_KEY_ECDSA384SIZE D"
    and "EC_KEY_new_by_curve_name E (group_nid D key) = Some k0" and "o2i_ECPublicKey D k0 (4 # octets) = Some k1" and "EC_KEY_check_key E k1"
    and "pkey_new_ok X" and "set_type_ok X"
  shows "opensslecdsa_fromdns E X D key (octets @ r) h = Some (ISC_R_SUCCESS, key\<lparr>pkey := Some (brk h + 1)\<rparr>, key_len D key, with_key k1 h)"
proof -
  have "octets @ r \<noteq> []" using assms(2,3) by auto
  then show ?thesis using assms store_with_ec [OF assms(8,9), of "toresult D ISC_R_FAILURE" h key k1]
    by (auto simp: opensslecdsa_fromdns_def ec_simps key_len_pkey POINT_CONVERSION_UNCOMPRESSED_def)
qed

text \<open>Documented behaviour of the conversion of public keys: the uncompressed form of a key of a curve decodes, in a new key of the curve, to a valid
  key with the same form.\<close>

definition point_laws :: "openssl \<Rightarrow> dns_env \<Rightarrow> dst_key \<Rightarrow> EC_KEY \<Rightarrow> bool" where
  "point_laws E D key k \<longleftrightarrow> (\<exists>octets. i2o_ECPublicKey D k = Some (4 # octets) \<and> length octets = key_len D key \<and>
     (\<exists>k0 k1. EC_KEY_new_by_curve_name E (group_nid D key) = Some k0 \<and> o2i_ECPublicKey D k0 (4 # octets) = Some k1 \<and>
        EC_KEY_check_key E k1 \<and> i2o_ECPublicKey D k1 = Some (4 # octets)))"

text \<open>
  Property C13: a public key survives its way through DNS.  \<^verbatim>\<open>opensslecdsa_todns\<close> writes the coordinates of the key, \<^verbatim>\<open>opensslecdsa_fromdns\<close> takes
  as many octets from a buffer that starts with them and makes a key of its own that \<^verbatim>\<open>opensslecdsa_todns\<close> writes in the same way; the first
  key and its count stay as they were.
\<close>

theorem dns_key_roundtrip:
  assumes "has_ec h q a k n" and "fresh_heap h" and "pkey key = Some q" and "ecdsa_alg key" and "point_laws E D key k"
    and "0 < key_len D key" and "key_len D key \<le> DNS_KEY_ECDSA384SIZE D" and "key_len D key \<le> length region"
    and "pkey_new_ok X" and "set_type_ok X" and "key_alg new = key_alg key"
  shows "\<exists>octets new' h'. opensslecdsa_todns D key region h = Some (ISC_R_SUCCESS, octets @ drop (key_len D key) region, key_len D key, h) \<and>
    opensslecdsa_fromdns E X D new (octets @ r) h = Some (ISC_R_SUCCESS, new', key_len D key, h') \<and> has_ec h' q a k n \<and>
    opensslecdsa_todns D new' region h' = Some (ISC_R_SUCCESS, octets @ drop (key_len D key) region, key_len D key, h')"
proof -
  obtain octets k0 k1 where o: "i2o_ECPublicKey D k = Some (4 # octets)" "length octets = key_len D key"
      "EC_KEY_new_by_curve_name E (group_nid D key) = Some k0" "o2i_ECPublicKey D k0 (4 # octets) = Some k1"
      "EC_KEY_check_key E k1" "i2o_ECPublicKey D k1 = Some (4 # octets)"
    using assms(5) by (auto simp: point_laws_def)
  have same: "key_len D new = key_len D key" "group_nid D new = group_nid D key" "ecdsa_alg new" using assms(4,11) by (simp_all add: key_len_def group_nid_def ecdsa_alg_def)
  let ?new = "new\<lparr>pkey := Some (brk h + 1)\<rparr>" and ?h = "with_key k1 h"
  have "opensslecdsa_fromdns E X D new (octets @ r) h = Some (ISC_R_SUCCESS, ?new, key_len D key, ?h)"
    using fromdns_eq [of new octets D E k0 k1 X r h] o same assms(6,7,9,10) by simp
  moreover have "opensslecdsa_todns D key region h = Some (ISC_R_SUCCESS, octets @ drop (key_len D key) region, key_len D key, h)"
    using todns_eq [OF assms(1,3) o(1)] o(2) assms(7,8) by simp
  moreover have "opensslecdsa_todns D ?new region ?h = Some (ISC_R_SUCCESS, octets @ drop (key_len D key) region, key_len D key, ?h)"
    using todns_eq [OF with_key_has, of ?new h D k1 4 octets region] o assms(7,8) by simp
  ultimately show ?thesis using with_key_keeps(1) [OF assms(2,1)] by blast
qed

theorem dns_key_roundtrip_witness:
  "\<exists>octets new' h'. opensslecdsa_todns sample_dns sample_dns_key (replicate 64 0) sample_dns_heap = Some (ISC_R_SUCCESS, octets, 64, sample_dns_heap) \<and>
    opensslecdsa_fromdns sample_ec_ssl sample_pk sample_dns (sample_dns_key\<lparr>pkey := NULL\<rparr>) (octets @ [1]) sample_dns_heap = Some (ISC_R_SUCCESS, new', 64, h') \<and>
    opensslecdsa_todns sample_dns new' (replicate 64 0) h' = Some (ISC_R_SUCCESS, octets, 64, h')"
proof -
  have "point_laws sample_ec_ssl sample_dns sample_dns_key (7 # replicate 64 9)" unfolding point_laws_def sample_sizes
    by (intro exI [of _ "replicate 64 9"]) (simp add: sample_dns_def sample_ec_ssl_def)
  moreover have "64 \<le> DNS_KEY_ECDSA384SIZE sample_dns" "pkey_new_ok sample_pk" "set_type_ok sample_pk" by (simp_all add: sample_dns_def sample_pk_def)
  ultimately show ?thesis
    using dns_key_roundtrip [OF sample_dns_key_ok(1,2,3,4), of sample_ec_ssl sample_dns "replicate 64 0" sample_pk "sample_dns_key\<lparr>pkey := NULL\<rparr>" "[1]"]
    unfolding sample_sizes(1,2) by auto
qed

text \<open>Documented behaviour of the setters: the parts of a key are what was set last, and keys with the same public part compare equal.\<close>

definition setter_laws :: "openssl \<Rightarrow> dns_env \<Rightarrow> bool" where
  "setter_laws E D \<longleftrightarrow>
     (\<forall>k d k'. set_private D k d = Some k' \<longrightarrow> EC_KEY_get0_private_key D k' = Some d) \<and>
     (\<forall>k p k'. EC_KEY_set_public_key E k p = Some k' \<longrightarrow>
        EC_KEY_get0_public_key D k' = Some p \<and> EC_KEY_get0_private_key D k' = EC_KEY_get0_private_key D k) \<and>
     (\<forall>k k'. EC_KEY_get0_public_key D k \<noteq> None \<longrightarrow> EC_KEY_get0_public_key D k' = EC_KEY_get0_public_key D k \<longrightarrow> EVP_PKEY_cmp D k k' = 1)"

lemma ecdsa_check_eq:
  assumes "fresh_heap h" and "has_ec h q a k n" and "pkey pub = Some q" and "EC_KEY_get0_public_key D k = Some pt"
    and "EC_KEY_set_public_key E k1 pt = Some k2"
  shows "ecdsa_check E D (Some (brk h)) (Some pub) (with_ec k1 1 h) =
    Some (if EC_KEY_check_key E k2 then ISC_R_SUCCESS else ISC_R_FAILURE, with_ec k2 1 h)"
proof -
  note w = with_ec_keeps [OF assms(1,2)]
  let ?up = "\<lambda>h. put_ec a \<lparr>eck = k, cnt = n + 1\<rparr> h"
  have "upd_ec (\<lambda>k. EC_KEY_set_public_key E k pt) (Some (brk h)) (?up (with_ec k1 1 h)) = Some (True, ?up (with_ec k2 1 h))"
    using w(2) assms(5) by (simp add: upd_ec_def with_ec_def put_ec_def fun_upd_twist)
  moreover have "ec_val (Some (brk h)) (?up (with_ec k2 1 h)) = Some k2" using w(2) by (simp add: ec_val_def with_ec_def put_ec_def)
  moreover have "ec_free (Some a) (?up (with_ec k2 1 h)) = Some (with_ec k2 1 h)" using free_borrowed [OF w(1)] .
  moreover have "get1_EC_KEY q (with_ec k1 1 h) = Some (Some a, ?up (with_ec k1 1 h))" using get1_has_ec [OF w(1)] .
  ultimately show ?thesis using assms(3,4) by (simp add: ecdsa_check_def)
qed

lemma parse_private_eq:
  assumes "fresh_heap h" and "has_ec h q a k n" and "pkey pub = Some q" and "EC_KEY_get0_public_key D k = Some pt"
    and "ecdsa_alg key" and "\<not> external key" and "EC_KEY_new_by_curve_name E (group_nid D key) = Some k0"
    and "bin2bn D octets = Some d" and "set_private D k0 d = Some k1" and "EC_KEY_set_public_key E k1 pt = Some k2" and "EC_KEY_check_key E k2"
    and "pkey_new_ok X" and "set_type_ok X"
  shows "opensslecdsa_parse E X D key (ISC_R_SUCCESS, [octets]) (Some pub) h =
    Some (ISC_R_SUCCESS, key\<lparr>pkey := Some (brk h + 1)\<rparr>, with_key k2 h)"
proof -
  have "read_private E D (Some (brk h)) [octets] (Some pub) (with_ec k0 1 h) = Some (ISC_R_SUCCESS, with_ec k2 1 h)"
    using ecdsa_check_eq [OF assms(1-4) assms(10)] assms(8,9,11) by (simp add: read_private_def upd_with_ec)
  moreover obtain h1 where "store_pkey X (toresult D DST_R_OPENSSLFAILURE) (Some (brk h)) key (with_ec k2 1 h) =
      Some (True, ISC_R_SUCCESS, key\<lparr>pkey := Some (brk h + 1)\<rparr>, h1)" "ec_free (Some (brk h)) h1 = Some (with_key k2 h)"
    using store_with_ec [OF assms(12,13)] by blast
  moreover have "ec_free NULL h' = Some h'" for h' by (simp add: ec_free_def)
  ultimately show ?thesis using assms(5-7) by (simp add: opensslecdsa_parse_def new_ec_eq)
qed

text \<open>
  A private key survives its way through the key file.  From the elements that \<^verbatim>\<open>opensslecdsa_tofile\<close> writes for a key, and with that key as
  the public one, \<^verbatim>\<open>opensslecdsa_parse\<close> makes a key that \<^verbatim>\<open>opensslecdsa_compare\<close> finds equal to it and that is private; the new key has one
  reference and the references to the first one stay as they were.
\<close>

theorem dns_private_roundtrip:
  assumes "fresh_heap h" and "has_ec h q a k n" and "pkey key = Some q" and "\<not> external key" and "ecdsa_alg key"
    and "EC_KEY_get0_private_key D k = Some d" and "EC_KEY_get0_public_key D k = Some pt" and "isc_mem_get_ok D"
    and "bn_laws D" and "setter_laws E D"
    and "EC_KEY_new_by_curve_name E (group_nid D key) = Some k0" and "set_private D k0 d = Some k1" and "EC_KEY_set_public_key E k1 pt = Some k2"
    and "EC_KEY_check_key E k2" and "pkey_new_ok X" and "set_type_ok X"
  shows "\<exists>elements key' h'. opensslecdsa_tofile D key h = Some (privstruct_writefile D elements, Some elements, h) \<and>
    opensslecdsa_parse E X D key (ISC_R_SUCCESS, elements) (Some key) h = Some (ISC_R_SUCCESS, key', h') \<and>
    opensslecdsa_compare D key key' h' = Some (True, h') \<and> opensslecdsa_isprivate D key' h' = Some (True, h') \<and>
    has_ec h' q a k n \<and> (\<exists>q' a'. pkey key' = Some q' \<and> has_ec h' q' a' k2 1)"
proof -
  let ?key = "key\<lparr>pkey := Some (brk h + 1)\<rparr>" and ?h = "with_key k2 h"
  have laws: "EC_KEY_get0_private_key D k2 = Some d" "EC_KEY_get0_public_key D k2 = Some pt" "EVP_PKEY_cmp D k k2 = 1"
    using assms(6,7,10,12,13) unfolding setter_laws_def by (metis option.distinct(1))+
  note w = with_key_keeps(1) [OF assms(1,2), of k2] with_key_keeps(2) [OF assms(1,2)] with_key_has [of k2 h]
  have "opensslecdsa_tofile D key h = Some (privstruct_writefile D [BN_bn2bin D d], Some [BN_bn2bin D d], h)"
    using tofile_eq [OF assms(2-4)] assms(6,8) by simp
  moreover have "opensslecdsa_parse E X D key (ISC_R_SUCCESS, [BN_bn2bin D d]) (Some key) h = Some (ISC_R_SUCCESS, ?key, ?h)"
    using parse_private_eq [OF assms(1-3,7,5,4,11) _ assms(12-16)] assms(9) by (simp add: bn_laws_def)
  moreover have "opensslecdsa_compare D key ?key ?h = Some (True, ?h)"
    using compare_eq [OF w(1,3,2) assms(3), of ?key D] laws assms(6) by simp
  moreover have "opensslecdsa_isprivate D ?key ?h = Some (True, ?h)" using isprivate_eq [OF w(3), of ?key D] laws by simp
  ultimately show ?thesis using w(1,3) by (intro exI conjI) auto
qed

theorem dns_private_roundtrip_witness:
  "\<exists>elements key' h'. opensslecdsa_tofile sample_dns sample_dns_key sample_dns_heap = Some (ISC_R_SUCCESS, Some elements, sample_dns_heap) \<and>
    opensslecdsa_parse sample_ec_ssl sample_pk sample_dns sample_dns_key (ISC_R_SUCCESS, elements) (Some sample_dns_key) sample_dns_heap = Some (ISC_R_SUCCESS, key', h') \<and>
    opensslecdsa_compare sample_dns sample_dns_key key' h' = Some (True, h')"
proof -
  have "setter_laws sample_ec_ssl sample_dns" by (auto simp: setter_laws_def sample_ec_ssl_def sample_dns_def unat_of_nat take_bit_eq_mod word_of_nat_eq_0_iff dest: nat_dvd_not_less split: if_splits)
  moreover have "EC_KEY_get0_private_key sample_dns (7 # replicate 64 9) = Some 7" "EC_KEY_get0_public_key sample_dns (7 # replicate 64 9) = Some (replicate 64 9)"
      "isc_mem_get_ok sample_dns" "EC_KEY_new_by_curve_name sample_ec_ssl (group_nid sample_dns sample_dns_key) = Some [0]" "set_private sample_dns [0] 7 = Some [7]"
      "EC_KEY_set_public_key sample_ec_ssl [7] (replicate 64 9) = Some (7 # replicate 64 9)" "EC_KEY_check_key sample_ec_ssl (7 # replicate 64 9)"
      "pkey_new_ok sample_pk" "set_type_ok sample_pk" "\<And>es. privstruct_writefile sample_dns es = ISC_R_SUCCESS"
    by (simp_all add: sample_dns_def sample_ec_ssl_def sample_pk_def)
  ultimately show ?thesis
    using dns_private_roundtrip [OF sample_dns_key_ok(2,1,3,5,4) _ _ _ sample_bn, of 7 "replicate 64 9" sample_ec_ssl "[0]" "[7]" "7 # replicate 64 9" sample_pk]
    by (simp only:) blast
qed

subsection \<open>References on every path\<close>

lemma generate_eq:
  assumes "fresh_heap h" and "ecdsa_alg key"
  shows "\<exists>r key' h'. opensslecdsa_generate E X D key h = Some (r, key', h') \<and> (pkey key' = pkey key \<or> r = ISC_R_SUCCESS) \<and>
    (ekeys h' = ekeys h \<and> pkeys h' = pkeys h \<or> (\<exists>k. key' = key\<lparr>pkey := Some (brk h + 1)\<rparr> \<and> h' = with_key k h))"
proof (cases "EC_KEY_new_by_curve_name E (group_nid D key)")
  case None
  then show ?thesis using assms by (simp add: opensslecdsa_generate_def)
next
  case (Some k0)
  have free: "\<exists>h'. ec_free (Some (brk h)) (with_ec k 1 h) = Some h' \<and> ekeys h' = ekeys h \<and> pkeys h' = pkeys h" for k
    using free_with_ec [OF assms(1)] by simp
  show ?thesis
  proof (cases "EC_KEY_generate_key D k0")
    case None
    then show ?thesis using Some assms(2) free [of k0] by (auto simp: opensslecdsa_generate_def ec_simps)
  next
    case k1: (Some k1)
    show ?thesis
    proof (cases "pkey_new_ok X \<and> set_type_ok X")
      case True
      then show ?thesis using Some k1 assms(2) store_with_ec [of X ISC_R_FAILURE h key k1] by (auto simp: opensslecdsa_generate_def ec_simps)
    next
      case False
      have "\<exists>e h1 h'. store_pkey X ISC_R_FAILURE (Some (brk h)) key (with_ec k1 1 h) = Some (False, e, key, h1) \<and>
          ec_free (Some (brk h)) h1 = Some h' \<and> ekeys h' = ekeys h \<and> pkeys h' = pkeys h"
        using False assms(1) free [of k1]
        by (auto simp: store_pkey_def set1_EC_KEY_def pkey_free_def ec_free_def with_ec_def fresh_heap_def fun_upd_idem)
      then show ?thesis using Some k1 assms(2) by (auto simp: opensslecdsa_generate_def ec_simps)
    qed
  qed
qed

text \<open>
  Property C14: the operations on a key give back every reference that they take, on success and on every error: the heap after them is the heap
  before.  The exception is a signature of the wrong length, which \<^verbatim>\<open>opensslecdsa_verify\<close> refuses with the key still counted once more.
\<close>

theorem dns_references_balanced:
  assumes "has_ec h q a k n" and "pkey key = Some q" and "ecdsa_alg key" and "bn_laws D" and "sign_laws D key k" and "even (siglen D key)"
    and "\<And>octets. i2o_ECPublicKey D k = Some octets \<Longrightarrow> octets \<noteq> [] \<and> length octets \<le> DNS_KEY_ECDSA384SIZE D + 1"
  shows "(\<exists>r region' m. opensslecdsa_sign D \<lparr>ctx_key = key, evp_md_ctx = Some c\<rparr> region h = Some (r, region', m, h)) \<and>
    (\<exists>r. opensslecdsa_verify D \<lparr>ctx_key = key, evp_md_ctx = Some c\<rparr> sig h =
       Some (r, if length sig = siglen D key then h else put_ec a \<lparr>eck = k, cnt = n + 1\<rparr> h)) \<and>
    (\<exists>r. opensslecdsa_isprivate D key h = Some (r, h)) \<and>
    (\<exists>r region' m. opensslecdsa_todns D key region h = Some (r, region', m, h)) \<and>
    (\<exists>r elements. opensslecdsa_tofile D key h = Some (r, elements, h))"
proof (intro conjI)
  obtain ty data where c: "c = (ty, data)" by (cases c)
  let ?dctx = "\<lparr>ctx_key = key, evp_md_ctx = Some c\<rparr>"
  show "\<exists>r region' m. opensslecdsa_sign D ?dctx region h = Some (r, region', m, h)"
    using sign_eq [of h q a k n ?dctx ty data D region] assms(1-6) c by (auto split: option.split)
  show "\<exists>r. opensslecdsa_verify D ?dctx sig h = Some (r, if length sig = siglen D key then h else put_ec a \<lparr>eck = k, cnt = n + 1\<rparr> h)"
  proof (cases "length sig = siglen D key")
    case True
    then show ?thesis using verify_eq [of h q a k n ?dctx ty data sig D] assms(1-3) c by simp
  next
    case False
    then show ?thesis using assms(1-3) by (simp add: opensslecdsa_verify_def get1_has_ec)
  qed
  show "\<exists>r. opensslecdsa_isprivate D key h = Some (r, h)" using isprivate_eq [OF assms(1,2)] by blast
  show "\<exists>r region' m. opensslecdsa_todns D key region h = Some (r, region', m, h)"
  proof (cases "i2o_ECPublicKey D k")
    case None
    then show ?thesis using todns_no_public [OF assms(1,2)] by blast
  next
    case (Some bs)
    then obtain b octets where "bs = b # octets" using assms(7) by (cases bs) auto
    then show ?thesis using todns_eq [OF assms(1,2), of D b octets region] Some assms(7) by auto
  qed
  show "\<exists>r elements. opensslecdsa_tofile D key h = Some (r, elements, h)"
  proof (cases "external key")
    case True
    then show ?thesis using assms(2) by (simp add: opensslecdsa_tofile_def)
  next
    case False
    then show ?thesis using tofile_eq [OF assms(1,2)] by (auto split: option.split)
  qed
qed

theorem dns_references_balanced_witness:
  "\<exists>r. opensslecdsa_verify sample_dns \<lparr>ctx_key = sample_dns_key, evp_md_ctx = Some (EVP_sha256, [])\<rparr> [1] sample_dns_heap =
     Some (r, put_ec 1 \<lparr>eck = 7 # replicate 64 9, cnt = 2\<rparr> sample_dns_heap)"
proof -
  have "octets \<noteq> [] \<and> length octets \<le> DNS_KEY_ECDSA384SIZE sample_dns + 1"
    if "i2o_ECPublicKey sample_dns (7 # replicate 64 9) = Some octets" for octets using that by (auto simp: sample_dns_def)
  from dns_references_balanced [OF sample_dns_key_ok(1,3,4) sample_bn sample_sign sample_sizes(3) this, of "(EVP_sha256, [])" "[]" "[1]"]
  show ?thesis unfolding sample_sizes(1,2) by (simp add: numeral_2_eq_2)
qed

end
