(* ===== verification/SemChildren.thy ===== *)
theory SemChildren
  imports Prelude
begin

text \<open>
  Children that enter a critical section under a semaphore: the library \<^verbatim>\<open>lib_sysv_sem.c\<close> with its program \<^verbatim>\<open>sysv_sem.c\<close>, and the same program over a POSIX
  semaphore, \<^verbatim>\<open>posix_nameless_sem.c\<close>, all in \<^verbatim>\<open>alsp/src/5.ipc\<close>.

  The state of the kernel is explicit: the sets of semaphores, and for each semaphore and process the adjustment that \<^verbatim>\<open>SEM_UNDO\<close> makes when the process ends.
  A call returns, fails or blocks.  A run of a program is a sequence of steps of the parent and its children in any order.  In both programs the
  child with the number 2 aborts inside the section.  The locales state what a semaphore promises; a semaphore that takes back the count of a dead process
  is robust.
\<close>

subsection \<open>Semaphores of the kernel\<close>

datatype 'a outcome = Blocks | Fails | Done 'a

record ksem =
  semval :: nat
  semadj :: "nat \<Rightarrow> int"

record kern =
  sets :: "int \<rightharpoonup> ksem list"
  ids :: "int \<rightharpoonup> int"
  next_id :: int

definition SEMVMX :: nat where "SEMVMX = 32767"

text \<open>\<^verbatim>\<open>semop\<close> with one operation; the flag says whether \<^verbatim>\<open>SEM_UNDO\<close> is set.\<close>

definition semop :: "nat \<Rightarrow> int \<Rightarrow> nat \<Rightarrow> int \<Rightarrow> bool \<Rightarrow> kern \<Rightarrow> kern outcome" where
  "semop pid sem_id sem_num sem_op sem_undo K =
     (case sets K sem_id of
        None \<Rightarrow> Fails
      | Some ss \<Rightarrow>
          if length ss \<le> sem_num then Fails
          else let s = ss ! sem_num; v = int (semval s) + sem_op in
            if sem_op = 0 \<and> semval s \<noteq> 0 \<or> v < 0 then Blocks
            else if int SEMVMX < v then Fails
            else Done (K\<lparr>sets := (sets K)(sem_id \<mapsto>
              ss[sem_num := \<lparr>semval = nat v, semadj = (if sem_undo then (semadj s)(pid := semadj s pid - sem_op) else semadj s)\<rparr>])\<rparr>))"

text \<open>The end of a process: its adjustments are added, but no value becomes negative or larger than \<^verbatim>\<open>SEMVMX\<close>.\<close>

definition undo :: "nat \<Rightarrow> ksem \<Rightarrow> ksem" where
  "undo pid s = \<lparr>semval = min SEMVMX (nat (int (semval s) + semadj s pid)), semadj = (semadj s)(pid := 0)\<rparr>"

definition exit_process :: "nat \<Rightarrow> kern \<Rightarrow> kern" where
  "exit_process pid K = K\<lparr>sets := (\<lambda>i. map_option (map (undo pid)) (sets K i))\<rparr>"

subsection \<open>The library\<close>

text \<open>\<open>ftok\<close> is the result of \<^verbatim>\<open>ftok\<close> for the path, -1 for its failure; \<open>create_ok\<close> and \<open>malloc_ok\<close> say whether a new set can be made and the array of values
  allocated.  The values are stored in an \<^verbatim>\<open>unsigned short\<close>.  The private key never finds a set.\<close>

definition IPC_PRIVATE :: int where "IPC_PRIVATE = 0"

definition sysv_semget :: "int option \<Rightarrow> int \<Rightarrow> nat \<Rightarrow> nat \<Rightarrow> bool \<Rightarrow> bool \<Rightarrow> kern \<Rightarrow> int \<times> kern" where
  "sysv_semget ftok sem_fixkey n_sem sem_value create_ok malloc_ok K =
     (if ftok = Some (-1) then (-1, K)
      else let sem_key = (case ftok of Some k \<Rightarrow> k | None \<Rightarrow> sem_fixkey) in
        (case (if sem_key = IPC_PRIVATE then None else ids K sem_key) of
           Some i \<Rightarrow> (if (case sets K i of None \<Rightarrow> True | Some ss \<Rightarrow> length ss < n_sem) then -1 else i, K)
         | None \<Rightarrow>
             if \<not> create_ok \<or> n_sem = 0 then (-1, K)
             else
               let sem_id = next_id K;
                   K = K\<lparr>sets := (sets K)(sem_id \<mapsto> replicate n_sem \<lparr>semval = 0, semadj = (\<lambda>_. 0)\<rparr>),
                         ids := (if sem_key = IPC_PRIVATE then ids K else (ids K)(sem_key \<mapsto> sem_id)), next_id := next_id K + 1\<rparr>
               in if \<not> malloc_ok then (-1, K)
                  else if SEMVMX < sem_value mod 65536 then (-1, K)
                  else (sem_id, K\<lparr>sets := (sets K)(sem_id \<mapsto> replicate n_sem \<lparr>semval = sem_value mod 65536, semadj = (\<lambda>_. 0)\<rparr>)\<rparr>)))"

definition sysv_semrm :: "int \<Rightarrow> kern \<Rightarrow> int \<times> kern" where
  "sysv_semrm sem_id K =
     (case sets K sem_id of
        None \<Rightarrow> (-1, K)
      | Some _ \<Rightarrow> (0, K\<lparr>sets := (sets K)(sem_id := None), ids := (\<lambda>k. if ids K k = Some sem_id then None else ids K k)\<rparr>))"

definition sysv_semzwait :: "nat \<Rightarrow> int \<Rightarrow> nat \<Rightarrow> kern \<Rightarrow> kern outcome" where
  "sysv_semzwait pid sem_id sem_idx K = semop pid sem_id sem_idx 0 True K"

definition sysv_semwait :: "nat \<Rightarrow> int \<Rightarrow> nat \<Rightarrow> kern \<Rightarrow> kern outcome" where
  "sysv_semwait pid sem_id sem_idx K = semop pid sem_id sem_idx (-1) True K"

definition sysv_sempost :: "nat \<Rightarrow> int \<Rightarrow> nat \<Rightarrow> kern \<Rightarrow> kern outcome" where
  "sysv_sempost pid sem_id sem_idx K = semop pid sem_id sem_idx 1 True K"

definition sysv_semval :: "int \<Rightarrow> nat \<Rightarrow> kern \<Rightarrow> int" where
  "sysv_semval sem_id sem_idx K =
     (case sets K sem_id of None \<Rightarrow> -1 | Some ss \<Rightarrow> if sem_idx < length ss then int (semval (ss ! sem_idx)) else -1)"

subsection \<open>The programs\<close>

text \<open>What a program does with its semaphore: the child waits and posts, a process ends, and the parent removes the semaphore.\<close>

record 'k sem_ops =
  op_wait :: "nat \<Rightarrow> 'k \<Rightarrow> 'k outcome"
  op_post :: "nat \<Rightarrow> 'k \<Rightarrow> 'k outcome"
  op_exit :: "nat \<Rightarrow> 'k \<Rightarrow> 'k"
  op_remove :: "'k \<Rightarrow> 'k"

definition sysv_ops :: "int \<Rightarrow> kern sem_ops" where
  "sysv_ops sem_id = \<lparr>op_wait = (\<lambda>i. sysv_semwait i sem_id 0), op_post = (\<lambda>i. sysv_sempost i sem_id 0),
     op_exit = exit_process, op_remove = (\<lambda>K. snd (sysv_semrm sem_id K))\<rparr>"

text \<open>A POSIX semaphore is its value; it does not know who waits on it.\<close>

definition sem_wait :: "nat \<Rightarrow> nat \<Rightarrow> nat outcome" where
  "sem_wait i v = (if v = 0 then Blocks else Done (v - 1))"

definition sem_post :: "nat \<Rightarrow> nat \<Rightarrow> nat outcome" where
  "sem_post i v = Done (v + 1)"

definition posix_ops :: "nat sem_ops" where
  "posix_ops = \<lparr>op_wait = sem_wait, op_post = sem_post, op_exit = (\<lambda>_ v. v), op_remove = (\<lambda>v. v)\<rparr>"

datatype child_state = Unborn | Waiting | Critical | Ended | Reaped

datatype parent = Forking nat | Joining nat | Removed | Exited

record 'k sys =
  sem :: 'k
  par :: parent
  child :: "nat \<Rightarrow> child_state"

text \<open>The result of a wait or a post is not tested: a child goes on when the call fails.  When a fork fails the parent exits at once.\<close>

inductive step :: "'k sem_ops \<Rightarrow> nat \<Rightarrow> 'k sys \<Rightarrow> 'k sys \<Rightarrow> bool" for O' n where
  fork: "par s = Forking i \<Longrightarrow> i < n \<Longrightarrow> step O' n s (s\<lparr>par := Forking (Suc i), child := (child s)(i := Waiting)\<rparr>)"
| fork_failed: "par s = Forking i \<Longrightarrow> i < n \<Longrightarrow> step O' n s (s\<lparr>par := Exited\<rparr>)"
| forked: "par s = Forking n \<Longrightarrow> step O' n s (s\<lparr>par := Joining 0\<rparr>)"
| enter: "child s i = Waiting \<Longrightarrow> op_wait O' i (sem s) = Done k \<Longrightarrow> step O' n s (s\<lparr>sem := k, child := (child s)(i := Critical)\<rparr>)"
| enter_failed: "child s i = Waiting \<Longrightarrow> op_wait O' i (sem s) = Fails \<Longrightarrow> step O' n s (s\<lparr>child := (child s)(i := Critical)\<rparr>)"
| abort: "child s 2 = Critical \<Longrightarrow> step O' n s (s\<lparr>sem := op_exit O' 2 (sem s), child := (child s)(2 := Ended)\<rparr>)"
| leave: "child s i = Critical \<Longrightarrow> i \<noteq> 2 \<Longrightarrow> op_post O' i (sem s) = Done k \<Longrightarrow>
    step O' n s (s\<lparr>sem := op_exit O' i k, child := (child s)(i := Ended)\<rparr>)"
| leave_failed: "child s i = Critical \<Longrightarrow> i \<noteq> 2 \<Longrightarrow> op_post O' i (sem s) = Fails \<Longrightarrow>
    step O' n s (s\<lparr>sem := op_exit O' i (sem s), child := (child s)(i := Ended)\<rparr>)"
| reap: "par s = Joining m \<Longrightarrow> m < n \<Longrightarrow> child s i = Ended \<Longrightarrow> step O' n s (s\<lparr>par := Joining (Suc m), child := (child s)(i := Reaped)\<rparr>)"
| remove: "par s = Joining n \<Longrightarrow> step O' n s (s\<lparr>par := Removed, sem := op_remove O' (sem s)\<rparr>)"

inductive reach :: "'k sem_ops \<Rightarrow> nat \<Rightarrow> 'k \<Rightarrow> 'k sys \<Rightarrow> bool" for O' n k0 where
  start: "reach O' n k0 \<lparr>sem = k0, par = Forking 0, child = (\<lambda>_. Unborn)\<rparr>"
| more: "reach O' n k0 s \<Longrightarrow> step O' n s s' \<Longrightarrow> reach O' n k0 s'"

subsection \<open>Parents and children\<close>

text \<open>The children are born in order, and the parent counts those that it has joined.\<close>

definition shape :: "nat \<Rightarrow> 'k sys \<Rightarrow> bool" where
  "shape n s \<longleftrightarrow> (\<forall>i\<ge>n. child s i = Unborn) \<and>
     (case par s of
        Forking m \<Rightarrow> m \<le> n \<and> (\<forall>i<n. child s i = Unborn \<longleftrightarrow> m \<le> i) \<and> (\<forall>i. child s i \<noteq> Reaped)
      | Joining m \<Rightarrow> m \<le> n \<and> (\<forall>i<n. child s i \<noteq> Unborn) \<and> card {i. child s i = Reaped} = m
      | Removed \<Rightarrow> \<forall>i<n. child s i = Reaped
      | Exited \<Rightarrow> \<forall>i. child s i \<noteq> Reaped)"

lemma reaped_upd: "c i \<noteq> Reaped \<Longrightarrow> x \<noteq> Reaped \<Longrightarrow> {j. (c(i := x)) j = Reaped} = {j. c j = Reaped}"
  by auto

lemma shape_child:
  assumes "shape n s" and "child s i \<notin> {Unborn, Reaped}" and "x \<notin> {Unborn, Reaped}"
  shows "shape n (s\<lparr>child := (child s)(i := x)\<rparr>)" and "shape n (s\<lparr>sem := k, child := (child s)(i := x)\<rparr>)"
  using assms reaped_upd [of "child s" i x] by (cases "par s"; auto simp: shape_def)+

lemma all_reaped:
  assumes "shape n s" and "par s = Joining n"
  shows "\<forall>i<n. child s i = Reaped"
proof -
  have "{i. child s i = Reaped} \<subseteq> {..<n}" using assms(1) by (force simp: shape_def not_less [symmetric])
  moreover have "card {i. child s i = Reaped} = card {..<n}" using assms by (simp add: shape_def)
  ultimately have "{i. child s i = Reaped} = {..<n}" by (intro card_subset_eq) simp_all
  then show ?thesis by auto
qed

lemma some_not_reaped:
  assumes "shape n s" and "par s = Joining m" and "m < n"
  shows "\<exists>i<n. child s i \<notin> {Unborn, Reaped}"
proof (rule ccontr)
  assume "\<not> (\<exists>i<n. child s i \<notin> {Unborn, Reaped})"
  then have "{i. child s i = Reaped} = {..<n}" using assms(1,2) by (force simp: shape_def not_less [symmetric])
  then show False using assms by (simp add: shape_def)
qed

lemma shape_step: "step O' n s s' \<Longrightarrow> shape n s \<Longrightarrow> shape n s'"
proof (induction rule: step.induct)
  case (reap s m i)
  have sub: "{i. child s i = Reaped} \<subseteq> {..<n}" using reap.prems by (force simp: shape_def not_less [symmetric])
  then have "finite {i. child s i = Reaped}" using finite_subset by blast
  moreover have "{j. ((child s)(i := Reaped)) j = Reaped} = insert i {i. child s i = Reaped}" by auto
  ultimately have "card {j. ((child s)(i := Reaped)) j = Reaped} = Suc m" using reap by (simp add: shape_def)
  moreover have "i < n" using reap by (auto simp: shape_def not_less [symmetric])
  ultimately show ?case using reap by (auto simp: shape_def)
next
  case (remove s)
  have "\<forall>i\<ge>n. child s i = Unborn" using remove.prems by (simp add: shape_def)
  with all_reaped [OF remove.prems remove.hyps] show ?case by (simp add: shape_def)
next
  case (fork s i)
  then show ?case by (auto simp: shape_def not_less_eq_eq)
next
  case (fork_failed s i)
  then show ?case by (auto simp: shape_def)
next
  case (forked s)
  then show ?case by (auto simp: shape_def)
qed (auto intro: shape_child)

lemma reach_shape: "reach O' n k0 s \<Longrightarrow> shape n s"
proof (induction rule: reach.induct)
  case start
  then show ?case by (simp add: shape_def)
qed (rule shape_step)

text \<open>Every step uses up a bounded stock, so no run goes on forever.\<close>

fun child_left :: "child_state \<Rightarrow> nat" where
  "child_left Unborn = 3" | "child_left Waiting = 3" | "child_left Critical = 2" | "child_left Ended = 1" | "child_left Reaped = 0"

fun parent_left :: "nat \<Rightarrow> parent \<Rightarrow> nat" where
  "parent_left n (Forking i) = 2 * n + 2 - i" | "parent_left n (Joining m) = n + 1 - m" | "parent_left n Removed = 0" | "parent_left n Exited = 0"

definition steps_left :: "nat \<Rightarrow> 'k sys \<Rightarrow> nat" where
  "steps_left n s = parent_left n (par s) + (\<Sum>i<n. child_left (child s i))"

lemma sum_child_upd:
  assumes "i < (n::nat)"
  shows "(\<Sum>j<n. child_left ((c(i := x)) j)) + child_left (c i) = (\<Sum>j<n. child_left (c j)) + child_left x"
proof -
  have "(\<Sum>j\<in>{..<n} - {i}. child_left ((c(i := x)) j)) = (\<Sum>j\<in>{..<n} - {i}. child_left (c j))" by (rule sum.cong) auto
  then show ?thesis using assms sum.remove [of "{..<n}" i "\<lambda>j. child_left ((c(i := x)) j)"] sum.remove [of "{..<n}" i "\<lambda>j. child_left (c j)"] by simp
qed

lemma step_uses: "step O' n s s' \<Longrightarrow> shape n s \<Longrightarrow> steps_left n s' < steps_left n s"
proof -
  assume st: "step O' n s s'" and sh: "shape n s"
  have bound: "i < n" if "child s i \<noteq> Unborn" for i using that sh by (auto simp: shape_def not_less [symmetric])
  show ?thesis using st
  proof cases
    case (fork i)
    then have "child s i = Unborn" using sh by (simp add: shape_def)
    then show ?thesis using fork sum_child_upd [of i n "child s" Waiting] by (simp add: steps_left_def)
  next
    case (reap m i)
    then show ?thesis using sum_child_upd [of i n "child s" Reaped] bound [of i] by (simp add: steps_left_def)
  next
    case (enter i k)
    then show ?thesis using sum_child_upd [of i n "child s" Critical] bound [of i] by (simp add: steps_left_def)
  next
    case (enter_failed i)
    then show ?thesis using sum_child_upd [of i n "child s" Critical] bound [of i] by (simp add: steps_left_def)
  next
    case abort
    then show ?thesis using sum_child_upd [of 2 n "child s" Ended] bound [of 2] by (simp add: steps_left_def)
  next
    case (leave i k)
    then show ?thesis using sum_child_upd [of i n "child s" Ended] bound [of i] by (simp add: steps_left_def)
  next
    case (leave_failed i)
    then show ?thesis using sum_child_upd [of i n "child s" Ended] bound [of i] by (simp add: steps_left_def)
  qed (simp_all add: steps_left_def)
qed

subsection \<open>What a semaphore promises\<close>

text \<open>\<open>tokens\<close> is the count of a semaphore, \<open>held\<close> says who may post, and \<open>returned\<close> is what the end of a process gives back.\<close>

locale semaphore =
  fixes ops :: "'k sem_ops" and valid :: "'k \<Rightarrow> bool" and tokens :: "'k \<Rightarrow> nat" and held :: "'k \<Rightarrow> nat \<Rightarrow> bool" and returned :: "'k \<Rightarrow> nat \<Rightarrow> nat"
  assumes wait_zero: "valid k \<Longrightarrow> tokens k = 0 \<Longrightarrow> op_wait ops i k = Blocks"
    and wait_some: "valid k \<Longrightarrow> 0 < tokens k \<Longrightarrow> \<exists>k'. op_wait ops i k = Done k' \<and> valid k' \<and> tokens k' = tokens k - 1 \<and>
      held k' i \<and> returned k' i \<le> returned k i + 1 \<and> (\<forall>j. j \<noteq> i \<longrightarrow> returned k' j = returned k j)"
    and post_held: "valid k \<Longrightarrow> tokens k = 0 \<Longrightarrow> held k i \<Longrightarrow> \<exists>k'. op_post ops i k = Done k' \<and> valid k' \<and> tokens k' = 1 \<and>
      returned k' i = returned k i - 1 \<and> (\<forall>j. j \<noteq> i \<longrightarrow> returned k' j = returned k j)"
    and exit_back: "valid k \<Longrightarrow> tokens k + returned k i \<le> 1 \<Longrightarrow> valid (op_exit ops i k) \<and> tokens (op_exit ops i k) = tokens k + returned k i \<and>
      returned (op_exit ops i k) i = 0 \<and> (\<forall>j. j \<noteq> i \<longrightarrow> returned (op_exit ops i k) j = returned k j)"
begin

text \<open>The section is free or has one owner, which the semaphore knows.\<close>

definition owned :: "nat option \<Rightarrow> 'k sys \<Rightarrow> bool" where
  "owned owner s \<longleftrightarrow> valid (sem s) \<and> (\<forall>i. child s i = Critical \<longleftrightarrow> owner = Some i) \<and>
     (\<forall>i. returned (sem s) i \<le> 1) \<and> (\<forall>i. owner \<noteq> Some i \<longrightarrow> returned (sem s) i = 0) \<and>
     (case owner of None \<Rightarrow> tokens (sem s) \<le> 1 | Some i \<Rightarrow> tokens (sem s) = 0 \<and> held (sem s) i)"

definition inv :: "'k sys \<Rightarrow> bool" where
  "inv s \<longleftrightarrow> par s = Removed \<or> (\<exists>owner. owned owner s)"

lemma owned_enter:
  assumes "owned owner s" and "child s i = Waiting" and "op_wait ops i (sem s) = Done k"
  shows "owner = None \<and> owned (Some i) (s\<lparr>sem := k, child := (child s)(i := Critical)\<rparr>)"
proof -
  have v: "valid (sem s)" using assms(1) by (simp add: owned_def)
  have pos: "0 < tokens (sem s)" using wait_zero [OF v, of i] assms(3) by (cases "tokens (sem s)") auto
  then have "owner = None" using assms(1) by (cases owner) (auto simp: owned_def)
  moreover have "valid k \<and> tokens k = tokens (sem s) - 1 \<and> held k i \<and> returned k i \<le> returned (sem s) i + 1 \<and>
      (\<forall>j. j \<noteq> i \<longrightarrow> returned k j = returned (sem s) j)"
    using wait_some [OF v pos, of i] assms(3) by auto
  moreover have "returned k j \<le> 1" for j using calculation assms(1) by (cases "j = i") (simp_all add: owned_def)
  ultimately show ?thesis using assms(1) by (auto simp: owned_def)
qed

lemma owned_leave:
  assumes "owned (Some i) s" and "valid k" and "tokens k + returned k i \<le> 1" and "\<And>j. j \<noteq> i \<Longrightarrow> returned k j = returned (sem s) j"
  shows "owned None (s\<lparr>sem := op_exit ops i k, child := (child s)(i := Ended)\<rparr>)"
proof -
  note e = exit_back [OF assms(2,3)]
  have "returned (op_exit ops i k) j = 0" for j
    using e assms(1,4) by (cases "j = i") (auto simp: owned_def)
  then show ?thesis using e assms(1,3) by (auto simp: owned_def)
qed

lemma owned_post:
  assumes "owned (Some i) s"
  shows "\<exists>k. op_post ops i (sem s) = Done k \<and> owned None (s\<lparr>sem := op_exit ops i k, child := (child s)(i := Ended)\<rparr>)"
proof -
  have v: "valid (sem s)" "tokens (sem s) = 0" "held (sem s) i" "returned (sem s) i \<le> 1" using assms by (simp_all add: owned_def)
  obtain k where k: "op_post ops i (sem s) = Done k" "valid k" "tokens k = 1" "returned k i = returned (sem s) i - 1"
      "\<And>j. j \<noteq> i \<Longrightarrow> returned k j = returned (sem s) j"
    using post_held [OF v(1-3)] by blast
  then show ?thesis using owned_leave [OF assms k(2)] v(4) by simp
qed

lemma owned_abort: "owned (Some i) s \<Longrightarrow> owned None (s\<lparr>sem := op_exit ops i (sem s), child := (child s)(i := Ended)\<rparr>)"
  by (rule owned_leave) (simp_all add: owned_def)

lemma owned_other:
  assumes "owned owner s" and "child s i \<noteq> Critical" and "x \<noteq> Critical"
  shows "owned owner (s\<lparr>par := p, child := (child s)(i := x)\<rparr>)"
proof -
  have "((child s)(i := x)) j = Critical \<longleftrightarrow> child s j = Critical" for j using assms(2,3) by simp
  then show ?thesis using assms(1) by (cases owner) (simp_all add: owned_def del: fun_upd_apply)
qed

lemma owned_par: "owned owner s \<Longrightarrow> owned owner (s\<lparr>par := p\<rparr>)"
  by (cases owner) (simp_all add: owned_def)

lemma wait_not_fails: "valid k \<Longrightarrow> op_wait ops i k \<noteq> Fails"
  using wait_zero [of k i] wait_some [of k i] by (cases "tokens k") auto

lemma inv_step:
  assumes "step ops n s s'" and "shape n s" and "inv s"
  shows "inv s'"
proof -
  have "\<exists>owner. owned owner s" if "par s \<noteq> Removed" using that assms(3) by (simp add: inv_def)
  moreover have "par s \<noteq> Removed" if "child s i \<notin> {Unborn, Reaped}" for i
    using that assms(2) by (cases "i < n") (auto simp: shape_def)
  ultimately have own: "\<exists>owner. owned owner s" if "child s i \<notin> {Unborn, Reaped} \<or> par s \<noteq> Removed" for i using that by blast
  have crit: "owned (Some i) s" if "child s i = Critical" for i
  proof -
    have "child s i \<notin> {Unborn, Reaped}" using that by simp
    then obtain owner where "owned owner s" using own by blast
    then show ?thesis using that by (simp add: owned_def)
  qed
  show ?thesis using assms(1)
  proof cases
    case (fork i)
    then have "child s i = Unborn" using assms(2) by (simp add: shape_def)
    then have "child s i \<noteq> Critical" by simp
    then show ?thesis using own fork owned_other [of _ s i Waiting] by (auto simp: inv_def)
  next
    case (fork_failed i)
    then show ?thesis using own owned_par [of _ s Exited] by (auto simp: inv_def)
  next
    case forked
    then show ?thesis using own owned_par [of _ s "Joining 0"] by (auto simp: inv_def)
  next
    case (enter i k)
    then show ?thesis using own [of i] owned_enter [of _ s i k] by (auto simp: inv_def)
  next
    case (enter_failed i)
    then show ?thesis using own [of i] wait_not_fails by (auto simp: owned_def)
  next
    case abort
    then show ?thesis using owned_abort [OF crit] by (auto simp: inv_def)
  next
    case (leave i k)
    then show ?thesis using owned_post [OF crit, of i] by (auto simp: inv_def)
  next
    case (leave_failed i)
    then show ?thesis using owned_post [OF crit, of i] by auto
  next
    case (reap m i)
    then show ?thesis using own owned_other [of _ s i Reaped] by (auto simp: inv_def)
  next
    case remove
    then show ?thesis by (simp add: inv_def)
  qed
qed

lemma reach_inv:
  assumes "valid k0" and "tokens k0 \<le> 1" and "\<And>i. returned k0 i = 0"
  shows "reach ops n k0 s \<Longrightarrow> inv s"
proof (induction rule: reach.induct)
  case start
  have "owned None \<lparr>sem = k0, par = Forking 0, child = (\<lambda>_. Unborn)\<rparr>" using assms by (simp add: owned_def)
  then show ?case by (auto simp: inv_def)
next
  case (more s s')
  show ?case by (rule inv_step [OF more.hyps(2) reach_shape [OF more.hyps(1)] more.IH])
qed

lemma mutual_exclusion:
  assumes "valid k0" and "tokens k0 \<le> 1" and "\<And>i. returned k0 i = 0" and "reach ops n k0 s" and "child s i = Critical" and "child s j = Critical"
  shows "i = j"
proof -
  have "par s \<noteq> Removed" using reach_shape [OF assms(4)] assms(5) by (cases "i < n") (auto simp: shape_def)
  then obtain owner where "owned owner s" using reach_inv [OF assms(1-4)] by (auto simp: inv_def)
  then show ?thesis using assms(5,6) by (auto simp: owned_def)
qed

end

text \<open>A robust semaphore gives back what a dead process has taken, so a free section always has its token.\<close>

locale robust_semaphore = semaphore +
  assumes wait_owes: "valid k \<Longrightarrow> op_wait ops i k = Done k' \<Longrightarrow> returned k i = 0 \<Longrightarrow> returned k' i = 1"
begin

definition robust :: "'a sys \<Rightarrow> bool" where
  "robust s \<longleftrightarrow> par s = Removed \<or> (\<forall>i. child s i = Critical \<longrightarrow> returned (sem s) i = 1) \<and> ((\<forall>i. child s i \<noteq> Critical) \<longrightarrow> tokens (sem s) = 1)"

lemma robust_step:
  assumes "step ops n s s'" and "shape n s" and "inv s" and "robust s"
  shows "robust s'"
proof -
  have alive: "par s \<noteq> Removed" if "child s i \<notin> {Unborn, Reaped}" for i
    using that assms(2) by (cases "i < n") (auto simp: shape_def)
  have crit: "owned (Some i) s \<and> returned (sem s) i = 1" if "child s i = Critical" for i
  proof -
    have p: "par s \<noteq> Removed" using alive [of i] that by simp
    then obtain owner where "owned owner s" using assms(3) by (auto simp: inv_def)
    then show ?thesis using that p assms(4) by (simp add: owned_def robust_def)
  qed
  have gone: "robust (s\<lparr>sem := op_exit ops i k, child := (child s)(i := Ended)\<rparr>)"
    if "child s i = Critical" "valid k" "tokens k + returned k i = 1" for i k
    using that crit [OF that(1)] exit_back [OF that(2), of i] by (auto simp: robust_def owned_def)
  show ?thesis using assms(1)
  proof cases
    case (enter i k)
    have p: "par s \<noteq> Removed" using alive [of i] enter by simp
    then obtain owner where o: "owned owner s" using assms(3) by (auto simp: inv_def)
    then have n: "owner = None" using owned_enter [OF o] enter by simp
    then have "returned k i = 1" using wait_owes [of "sem s" i k] o enter by (simp add: owned_def)
    moreover have "child s j \<noteq> Critical" for j using o n by (simp add: owned_def)
    ultimately show ?thesis using enter by (auto simp: robust_def)
  next
    case (enter_failed i)
    then show ?thesis using alive [of i] assms(3) wait_not_fails by (auto simp: inv_def owned_def)
  next
    case abort
    then show ?thesis using gone [of 2 "sem s"] crit [of 2] by (simp add: owned_def)
  next
    case (leave i k)
    note c = crit [OF leave(2)]
    have "valid k \<and> tokens k = 1 \<and> returned k i = 0"
      using c leave(4) post_held [of "sem s" i] by (auto simp: owned_def)
    then show ?thesis using gone [of i k] leave by simp
  next
    case (leave_failed i)
    then show ?thesis using owned_post [of i s] crit [of i] by auto
  next
    case (fork i)
    then have "child s i = Unborn" using assms(2) by (simp add: shape_def)
    then have "((child s)(i := Waiting)) j = Critical \<longleftrightarrow> child s j = Critical" for j by simp
    then show ?thesis using fork assms(4) by (simp add: robust_def del: fun_upd_apply)
  next
    case (reap m i)
    then have "((child s)(i := Reaped)) j = Critical \<longleftrightarrow> child s j = Critical" for j by simp
    then show ?thesis using reap assms(4) by (simp add: robust_def del: fun_upd_apply)
  qed (use assms(4) in \<open>auto simp: robust_def\<close>)
qed

lemma reach_robust:
  assumes "valid k0" and "tokens k0 = 1" and "\<And>i. returned k0 i = 0"
  shows "reach ops n k0 s \<Longrightarrow> robust s"
proof (induction rule: reach.induct)
  case start
  show ?case using assms by (simp add: robust_def)
next
  case (more s s')
  have "inv s" using reach_inv [OF assms(1) _ assms(3) more.hyps(1)] assms(2) by simp
  then show ?case using robust_step [OF more.hyps(2) reach_shape [OF more.hyps(1)]] more.IH by simp
qed

lemma never_stuck:
  assumes "valid k0" and "tokens k0 = 1" and "\<And>i. returned k0 i = 0" and "reach ops n k0 s" and "par s \<noteq> Removed"
  shows "(\<exists>s'. step ops n s s') \<or> par s = Exited \<and> (\<forall>i. child s i \<in> {Unborn, Ended})"
proof -
  have sh: "shape n s" by (rule reach_shape [OF assms(4)])
  obtain owner where o: "owned owner s" using reach_inv [OF assms(1) _ assms(3,4)] assms(2,5) by (auto simp: inv_def)
  have r: "robust s" by (rule reach_robust [OF assms(1-4)])
  show ?thesis
  proof (cases owner)
    case (Some i)
    then have c: "child s i = Critical" using o by (simp add: owned_def)
    then show ?thesis using owned_post [of i s] o Some step.abort [of s ops n] step.leave [of s i ops _ n] by (cases "i = 2") auto
  next
    case None
    then have free: "child s i \<noteq> Critical" for i using o by (simp add: owned_def)
    then have t: "tokens (sem s) = 1" using r assms(5) by (simp add: robust_def)
    have v: "valid (sem s)" using o by (simp add: owned_def)
    show ?thesis
    proof (cases "\<exists>i. child s i = Waiting")
      case True
      then obtain i where "child s i = Waiting" by blast
      then show ?thesis using wait_some [OF v, of i] t step.enter [of s i ops _ n] by fastforce
    next
      case False
      show ?thesis
      proof (cases "par s")
        case (Forking m)
        then have "m \<le> n" using sh by (simp add: shape_def)
        then show ?thesis using Forking step.fork [of s m n ops] step.forked [of s n ops] by (cases "m = n") auto
      next
        case (Joining m)
        show ?thesis
        proof (cases "m = n")
          case True
          then show ?thesis using Joining step.remove [of s n ops] by auto
        next
          case f: False
          then have m: "m < n" using sh Joining by (simp add: shape_def)
          then obtain i where i: "i < n" "child s i \<notin> {Unborn, Reaped}" using some_not_reaped [OF sh Joining] by blast
          then have "child s i = Ended" using False free [of i] by (cases "child s i") auto
          then show ?thesis using Joining m step.reap [of s m n i ops] by auto
        qed
      next
        case Exited
        then have "child s i \<noteq> Reaped" for i using sh by (simp add: shape_def)
        then have "child s i \<in> {Unborn, Ended}" for i using False free [of i] by (cases "child s i") auto
        then show ?thesis using Exited by blast
      qed (use assms(5) in simp)
    qed
  qed
qed

end

subsection \<open>The two semaphores\<close>

definition sysv_valid :: "int \<Rightarrow> kern \<Rightarrow> bool" where
  "sysv_valid sem_id K \<longleftrightarrow> (\<exists>s. sets K sem_id = Some [s] \<and> semval s \<le> SEMVMX \<and> (\<forall>i. 0 \<le> semadj s i))"

definition the_sem :: "int \<Rightarrow> kern \<Rightarrow> ksem" where
  "the_sem sem_id K = hd (the (sets K sem_id))"

lemma sysv_sem:
  "sysv_valid i K \<Longrightarrow> sets K i = Some [the_sem i K] \<and> semval (the_sem i K) \<le> SEMVMX \<and> (\<forall>p. 0 \<le> semadj (the_sem i K) p)"
  by (auto simp: sysv_valid_def the_sem_def)

definition set_sem :: "int \<Rightarrow> ksem \<Rightarrow> kern \<Rightarrow> kern" where
  "set_sem i s K = K\<lparr>sets := (sets K)(i \<mapsto> [s])\<rparr>"

lemma set_sem_simps [simp]:
  "the_sem i (set_sem i s K) = s"
  "sysv_valid i (set_sem i s K) \<longleftrightarrow> semval s \<le> SEMVMX \<and> (\<forall>p. 0 \<le> semadj s p)"
  by (simp_all add: set_sem_def the_sem_def sysv_valid_def)

lemma semop_one:
  assumes "sysv_valid i K" and "d \<noteq> 0"
  shows "semop p i 0 d True K =
    (if int (semval (the_sem i K)) + d < 0 then Blocks else if int SEMVMX < int (semval (the_sem i K)) + d then Fails
     else Done (set_sem i \<lparr>semval = nat (int (semval (the_sem i K)) + d),
       semadj = (semadj (the_sem i K))(p := semadj (the_sem i K) p - d)\<rparr> K))"
  using sysv_sem [OF assms(1)] assms(2) by (simp add: semop_def Let_def set_sem_def)

lemma wait_one: "sysv_valid i K \<Longrightarrow> op_wait (sysv_ops i) p K =
    (if semval (the_sem i K) = 0 then Blocks
     else Done (set_sem i \<lparr>semval = semval (the_sem i K) - 1, semadj = (semadj (the_sem i K))(p := semadj (the_sem i K) p + 1)\<rparr> K))"
  using semop_one [of i K "-1" p] sysv_sem [of i K] by (auto simp: sysv_ops_def sysv_semwait_def nat_diff_distrib)

lemma post_one: "sysv_valid i K \<Longrightarrow> semval (the_sem i K) < SEMVMX \<Longrightarrow> op_post (sysv_ops i) p K =
    Done (set_sem i \<lparr>semval = semval (the_sem i K) + 1, semadj = (semadj (the_sem i K))(p := semadj (the_sem i K) p - 1)\<rparr> K)"
  using semop_one [of i K 1 p] by (simp add: sysv_ops_def sysv_sempost_def nat_add_distrib)

lemma exit_one: "sysv_valid i K \<Longrightarrow> sets (op_exit (sysv_ops i) p K) i = Some [undo p (the_sem i K)]"
  using sysv_sem [of i K] by (simp add: sysv_ops_def exit_process_def)

interpretation sysv: robust_semaphore "sysv_ops i" "sysv_valid i" "\<lambda>K. semval (the_sem i K)" "\<lambda>K p. 1 \<le> semadj (the_sem i K) p"
  "\<lambda>K p. nat (semadj (the_sem i K) p)" for i
proof
  fix K p
  assume v: "sysv_valid i K"
  note s = sysv_sem [OF v]
  show "op_wait (sysv_ops i) p K = Blocks" if "semval (the_sem i K) = 0"
    using that wait_one [OF v] by simp
  show "\<exists>k'. op_wait (sysv_ops i) p K = Done k' \<and> sysv_valid i k' \<and> semval (the_sem i k') = semval (the_sem i K) - 1 \<and>
      1 \<le> semadj (the_sem i k') p \<and> nat (semadj (the_sem i k') p) \<le> nat (semadj (the_sem i K) p) + 1 \<and>
      (\<forall>j. j \<noteq> p \<longrightarrow> nat (semadj (the_sem i k') j) = nat (semadj (the_sem i K) j))" if "0 < semval (the_sem i K)"
    using that s wait_one [OF v] by (auto simp: nat_add_distrib)
  show "\<exists>k'. op_post (sysv_ops i) p K = Done k' \<and> sysv_valid i k' \<and> semval (the_sem i k') = 1 \<and>
      nat (semadj (the_sem i k') p) = nat (semadj (the_sem i K) p) - 1 \<and>
      (\<forall>j. j \<noteq> p \<longrightarrow> nat (semadj (the_sem i k') j) = nat (semadj (the_sem i K) j))"
    if "semval (the_sem i K) = 0" "1 \<le> semadj (the_sem i K) p"
    using that s post_one [OF v] by (simp add: SEMVMX_def nat_diff_distrib)
  show "sysv_valid i (op_exit (sysv_ops i) p K) \<and>
      semval (the_sem i (op_exit (sysv_ops i) p K)) = semval (the_sem i K) + nat (semadj (the_sem i K) p) \<and>
      nat (semadj (the_sem i (op_exit (sysv_ops i) p K)) p) = 0 \<and>
      (\<forall>j. j \<noteq> p \<longrightarrow> nat (semadj (the_sem i (op_exit (sysv_ops i) p K)) j) = nat (semadj (the_sem i K) j))"
    if "semval (the_sem i K) + nat (semadj (the_sem i K) p) \<le> 1"
  proof -
    have u: "the_sem i (op_exit (sysv_ops i) p K) = undo p (the_sem i K)" using exit_one [OF v] by (simp add: the_sem_def)
    have "min SEMVMX (nat (int (semval (the_sem i K)) + semadj (the_sem i K) p)) = semval (the_sem i K) + nat (semadj (the_sem i K) p)"
      using that s by (auto simp: SEMVMX_def nat_add_distrib)
    then show ?thesis unfolding u using s exit_one [OF v] by (simp add: sysv_valid_def undo_def)
  qed
  show "nat (semadj (the_sem i k') p) = 1" if "op_wait (sysv_ops i) p K = Done k'" "nat (semadj (the_sem i K) p) = 0" for k'
  proof -
    have "semadj (the_sem i K) p = 0" using that(2) s by (simp add: antisym)
    then show ?thesis using that(1) wait_one [OF v, of p] by (auto split: if_splits)
  qed
qed

interpretation posix: semaphore posix_ops "\<lambda>_. True" "\<lambda>v. v" "\<lambda>_ _. True" "\<lambda>_ _. 0"
  by unfold_locales (simp_all add: posix_ops_def sem_wait_def sem_post_def)

subsection \<open>Runs of the programs\<close>

lemma removed_gone:
  assumes "reach (sysv_ops i) n k0 s"
  shows "par s = Removed \<Longrightarrow> sets (sem s) i = None"
  using assms
proof (induction rule: reach.induct)
  case (more s s')
  have "par s \<noteq> Removed"
  proof
    assume "par s = Removed"
    then have "child s j \<notin> {Waiting, Critical}" for j using reach_shape [OF more.hyps(1)] by (cases "j < n") (auto simp: shape_def)
    then have "child s j \<noteq> Waiting" "child s j \<noteq> Critical" for j by blast+
    with more.hyps(2) \<open>par s = Removed\<close> show False by cases auto
  qed
  from more.hyps(2) this more.prems show ?case by cases (auto simp: sysv_ops_def sysv_semrm_def split: option.splits)
qed simp

definition SEM_KEY :: int where "SEM_KEY = 0x12340001"

text \<open>
  Property C24: the program \<^verbatim>\<open>sysv_sem.c\<close>, with any number of children in any order, when its semaphore is new.  At most one child is in the
  section; every step uses up a bounded stock, so every run ends; and a run can only end when the parent has joined all children and the semaphore is removed from
  the kernel, or when a fork has failed: then all children that exist come to their end as well, but the semaphore stays in the kernel.  This holds although the child with the number 2 dies inside the section, because its count is taken back.
\<close>

theorem sysv_sem_program:
  assumes "ids K SEM_KEY = None" and "sysv_semget None SEM_KEY 1 1 True True K = (sem_id, K')" and "reach (sysv_ops sem_id) n K' s"
  shows "(\<forall>i j. child s i = Critical \<and> child s j = Critical \<longrightarrow> i = j) \<and>
    (\<forall>s'. step (sysv_ops sem_id) n s s' \<longrightarrow> steps_left n s' < steps_left n s) \<and>
    ((\<exists>s'. step (sysv_ops sem_id) n s s') \<or> par s = Removed \<and> (\<forall>i<n. child s i = Reaped) \<and> sets (sem s) sem_id = None \<or>
     par s = Exited \<and> (\<forall>i. child s i \<in> {Unborn, Ended}) \<and> sets (sem s) sem_id \<noteq> None)"
proof -
  have k: "sets K' sem_id = Some [\<lparr>semval = 1, semadj = (\<lambda>_. 0)\<rparr>]" using assms(1,2) by (auto simp: sysv_semget_def Let_def SEMVMX_def SEM_KEY_def IPC_PRIVATE_def)
  then have v: "sysv_valid sem_id K'" "semval (the_sem sem_id K') = 1" "\<And>p. nat (semadj (the_sem sem_id K') p) = 0"
    by (auto simp: sysv_valid_def the_sem_def SEMVMX_def)
  have sh: "shape n s" by (rule reach_shape [OF assms(3)])
  have "i = j" if "child s i = Critical" "child s j = Critical" for i j
    using sysv.mutual_exclusion [OF v(1) _ v(3) assms(3) that] v(2) by simp
  moreover have "\<forall>i<n. child s i = Reaped" "sets (sem s) sem_id = None" if "par s = Removed"
    using sh removed_gone [OF assms(3) that] that by (auto simp: shape_def)
  moreover have "sets (sem s) sem_id \<noteq> None" if "par s = Exited"
    using sysv.reach_inv [OF v(1) _ v(3) assms(3)] v(2) that by (auto simp: sysv.inv_def sysv.owned_def sysv_valid_def)
  ultimately show ?thesis using step_uses [OF _ sh] sysv.never_stuck [OF v assms(3)] by blast
qed

theorem sysv_sem_program_witness:
  "\<exists>s sem_id K'. reach (sysv_ops sem_id) 3 K' s \<and> par s = Forking 0 \<and> (\<exists>s'. step (sysv_ops sem_id) 3 s s')"
proof -
  let ?K = "\<lparr>sets = Map.empty, ids = Map.empty, next_id = 7\<rparr>"
  obtain sem_id K' where k: "sysv_semget None SEM_KEY 1 1 True True ?K = (sem_id, K')" by fastforce
  have r: "reach (sysv_ops sem_id) 3 K' \<lparr>sem = K', par = Forking 0, child = (\<lambda>_. Unborn)\<rparr>" by (rule reach.start)
  then show ?thesis using sysv_sem_program [OF _ k r] by fastforce
qed

lemma reach_forked: "m \<le> n \<Longrightarrow> reach O' n k0 \<lparr>sem = k0, par = Forking m, child = (\<lambda>i. if i < m then Waiting else Unborn)\<rparr>"
proof (induction m)
  case 0
  show ?case using reach.start by simp
next
  case (Suc m)
  let ?s = "\<lparr>sem = k0, par = Forking m, child = (\<lambda>i. if i < m then Waiting else Unborn)\<rparr>"
  have "step O' n ?s (?s\<lparr>par := Forking (Suc m), child := (child ?s)(m := Waiting)\<rparr>)" using Suc.prems by (intro step.fork) simp_all
  moreover have "(\<lambda>i. if i < m then Waiting else Unborn)(m := Waiting) = (\<lambda>i. if i < Suc m then Waiting else Unborn)" by (auto simp: less_Suc_eq)
  ultimately show ?case using reach.more [OF Suc.IH] Suc.prems by simp
qed

lemma reach_joining: "reach O' n k0 \<lparr>sem = k0, par = Joining 0, child = (\<lambda>i. if i < n then Waiting else Unborn)\<rparr>"
  using reach.more [OF reach_forked [of n n O' k0] step.forked] by simp

text \<open>
  The same program over a POSIX semaphore keeps the children apart as well, but with three children or more it can come to a stop: once the child with
  the number 2 has died inside the section, no other child can enter it and the parent waits forever.
\<close>

theorem posix_abort_deadlock:
  "(\<forall>s i j. reach posix_ops n 1 s \<and> child s i = Critical \<and> child s j = Critical \<longrightarrow> i = j) \<and>
   (3 \<le> n \<longrightarrow> (\<exists>s. reach posix_ops n 1 s \<and> par s = Joining 1 \<and> (\<forall>s'. \<not> step posix_ops n s s')))"
proof (intro conjI impI allI)
  show "i = j" if "reach posix_ops n 1 s \<and> child s i = Critical \<and> child s j = Critical" for s i j
    using posix.mutual_exclusion [of 1 n s i j] that by simp
next
  assume n: "3 \<le> n"
  let ?c = "\<lambda>i. if i < n then Waiting else Unborn"
  let ?s0 = "\<lparr>sem = 1, par = Joining 0, child = ?c\<rparr>"
  let ?s1 = "\<lparr>sem = 0, par = Joining 0, child = ?c(2 := Critical)\<rparr>"
  let ?s2 = "\<lparr>sem = 0, par = Joining 0, child = ?c(2 := Ended)\<rparr>"
  let ?s3 = "\<lparr>sem = 0, par = Joining 1, child = ?c(2 := Reaped)\<rparr>"
  have 1: "step posix_ops n ?s0 ?s1" using step.enter [of ?s0 2 posix_ops 0 n] n by (simp add: posix_ops_def sem_wait_def)
  have 2: "step posix_ops n ?s1 ?s2" using step.abort [of ?s1 posix_ops n] by (simp add: posix_ops_def)
  have 3: "step posix_ops n ?s2 ?s3" using step.reap [of ?s2 0 n 2 posix_ops] n by simp
  have "reach posix_ops n 1 ?s3" using reach_joining [of posix_ops n 1] 1 2 3 by (meson reach.more)
  moreover have "\<not> step posix_ops n ?s3 s'" for s'
  proof
    assume "step posix_ops n ?s3 s'"
    then show False using n by cases (auto simp: posix_ops_def sem_wait_def sem_post_def split: if_splits)
  qed
  ultimately show "\<exists>s. reach posix_ops n 1 s \<and> par s = Joining 1 \<and> (\<forall>s'. \<not> step posix_ops n s s')" by (intro exI [of _ ?s3]) simp
qed

theorem posix_abort_deadlock_witness: "\<exists>s. reach posix_ops 3 1 s \<and> par s = Joining 1 \<and> (\<forall>s'. \<not> step posix_ops 3 s s')"
  using posix_abort_deadlock [of 3] by simp

text \<open>The result of \<^verbatim>\<open>sysv_semget\<close> is not tested.  Without a semaphore every wait fails at once, and children are in the section together.\<close>

lemma unchecked_semget:
  assumes "sets K (-1) = None" and "2 \<le> n"
  shows "\<exists>s. reach (sysv_ops (-1)) n K s \<and> child s 0 = Critical \<and> child s 1 = Critical"
proof -
  let ?O = "sysv_ops (-1)" and ?c = "\<lambda>i. if i < n then Waiting else Unborn"
  let ?s0 = "\<lparr>sem = K, par = Joining 0, child = ?c\<rparr>"
  have fails: "op_wait ?O i K = Fails" for i using assms(1) by (simp add: sysv_ops_def sysv_semwait_def semop_def)
  have 1: "step ?O n ?s0 (?s0\<lparr>child := ?c(0 := Critical)\<rparr>)" using step.enter_failed [of ?s0 0 ?O n] fails assms(2) by simp
  have 2: "step ?O n (?s0\<lparr>child := ?c(0 := Critical)\<rparr>) (?s0\<lparr>child := (?c(0 := Critical))(1 := Critical)\<rparr>)"
    using step.enter_failed [of "?s0\<lparr>child := ?c(0 := Critical)\<rparr>" 1 ?O n] fails assms(2) by simp
  have "reach ?O n K (?s0\<lparr>child := (?c(0 := Critical))(1 := Critical)\<rparr>)" using reach_joining [of ?O n K] 1 2 by (meson reach.more)
  then show ?thesis by (intro exI conjI) auto
qed

text \<open>A creation that fails after \<^verbatim>\<open>semget\<close> leaves a set with the value 0; the next call takes it for a ready one, and nobody can enter.\<close>

lemma half_made_set:
  assumes "ids K key = None" and "key \<noteq> IPC_PRIVATE" and "0 < n_sem"
  shows "\<exists>K'. sysv_semget None key n_sem v True False K = (-1, K') \<and>
    sysv_semget None key n_sem v create_ok malloc_ok K' = (next_id K, K') \<and> (\<forall>p. sysv_semwait p (next_id K) 0 K' = Blocks)"
  using assms by (simp add: sysv_semget_def Let_def sysv_semwait_def semop_def)

end
