(* ===== verification/SemLedger.thy ===== *)
theory SemLedger
  imports SemChildren
begin

text \<open>
  The library \<^verbatim>\<open>lib_sysv_sem.c\<close> as counting semaphores.  The specification is a ledger that says how many tokens of each semaphore every process holds; a wait
  takes a token, a post gives one back, and the end of a process gives back all that it holds.  The library implements the ledger for every sequence of
  calls of any number of processes that give back only what they have taken.
\<close>

subsection \<open>Calls and what they do to the kernel\<close>

datatype sem_call = Wait nat nat | Post nat nat | Zwait nat nat | Exit nat

text \<open>The result of a call and the kernel after it; a call that fails or blocks leaves the kernel as it is.\<close>

fun done_with :: "kern \<Rightarrow> kern outcome \<Rightarrow> unit outcome \<times> kern" where
  "done_with K (Done K') = (Done (), K')"
| "done_with K Fails = (Fails, K)"
| "done_with K Blocks = (Blocks, K)"

fun lib_call :: "int \<Rightarrow> sem_call \<Rightarrow> kern \<Rightarrow> unit outcome \<times> kern" where
  "lib_call sem_id (Wait p j) K = done_with K (sysv_semwait p sem_id j K)"
| "lib_call sem_id (Post p j) K = done_with K (sysv_sempost p sem_id j K)"
| "lib_call sem_id (Zwait p j) K = done_with K (sysv_semzwait p sem_id j K)"
| "lib_call sem_id (Exit p) K = (Done (), exit_process p K)"

subsection \<open>The ledger\<close>

type_synonym ledger = "nat \<Rightarrow> nat \<Rightarrow> nat"

definition taken :: "nat \<Rightarrow> ledger \<Rightarrow> nat \<Rightarrow> nat" where
  "taken np h j = (\<Sum>p<np. h j p)"

text \<open>\<open>n\<close> semaphores of \<open>v\<close> tokens each, and processes with numbers below \<open>np\<close>.\<close>

fun ledger_call :: "nat \<Rightarrow> nat \<Rightarrow> nat \<Rightarrow> sem_call \<Rightarrow> ledger \<Rightarrow> unit outcome \<times> ledger" where
  "ledger_call np n v (Wait p j) h =
     (if n \<le> j then (Fails, h) else if taken np h j = v then (Blocks, h) else (Done (), h(j := (h j)(p := h j p + 1))))"
| "ledger_call np n v (Post p j) h = (if n \<le> j then (Fails, h) else (Done (), h(j := (h j)(p := h j p - 1))))"
| "ledger_call np n v (Zwait p j) h = (if n \<le> j then (Fails, h) else if taken np h j = v then (Done (), h) else (Blocks, h))"
| "ledger_call np n v (Exit p) h = (Done (), \<lambda>j. (h j)(p := 0))"

fun caller :: "sem_call \<Rightarrow> nat" where
  "caller (Wait p j) = p" | "caller (Post p j) = p" | "caller (Zwait p j) = p" | "caller (Exit p) = p"

text \<open>A process posts only what it holds.\<close>

fun gives_back :: "nat \<Rightarrow> sem_call \<Rightarrow> ledger \<Rightarrow> bool" where
  "gives_back n (Post p j) h \<longleftrightarrow> (j < n \<longrightarrow> 0 < h j p)"
| "gives_back n c h \<longleftrightarrow> True"

fun honest :: "nat \<Rightarrow> nat \<Rightarrow> nat \<Rightarrow> sem_call list \<Rightarrow> ledger \<Rightarrow> bool" where
  "honest np n v [] h \<longleftrightarrow> True"
| "honest np n v (c # cs) h \<longleftrightarrow> caller c < np \<and> gives_back n c h \<and> honest np n v cs (snd (ledger_call np n v c h))"

text \<open>A sequence of calls: the results and the last state.\<close>

fun run :: "('c \<Rightarrow> 's \<Rightarrow> 'r \<times> 's) \<Rightarrow> 'c list \<Rightarrow> 's \<Rightarrow> 'r list \<times> 's" where
  "run f [] s = ([], s)"
| "run f (c # cs) s = (case f c s of (r, s) \<Rightarrow> case run f cs s of (rs, s) \<Rightarrow> (r # rs, s))"

subsection \<open>The kernel keeps the ledger\<close>

definition keeps :: "nat \<Rightarrow> nat \<Rightarrow> nat \<Rightarrow> int \<Rightarrow> kern \<Rightarrow> ledger \<Rightarrow> bool" where
  "keeps np n v sem_id K h \<longleftrightarrow> v \<le> SEMVMX \<and> (\<forall>j p. np \<le> p \<longrightarrow> h j p = 0) \<and>
     (\<exists>ss. sets K sem_id = Some ss \<and> length ss = n \<and>
        (\<forall>j<n. semval (ss ! j) + taken np h j = v \<and> (\<forall>p. semadj (ss ! j) p = int (h j p))))"

lemma taken_other: "j \<noteq> i \<Longrightarrow> taken np (h(i := f)) j = taken np h j"
  by (simp add: taken_def)

lemma taken_upd:
  assumes "p < np"
  shows "taken np (h(j := (h j)(p := x))) j + h j p = taken np h j + x"
proof -
  have "(\<Sum>q\<in>{..<np} - {p}. ((h j)(p := x)) q) = (\<Sum>q\<in>{..<np} - {p}. h j q)" by (rule sum.cong) auto
  then show ?thesis using assms sum.remove [of "{..<np}" p "(h j)(p := x)"] sum.remove [of "{..<np}" p "h j"] by (simp add: taken_def)
qed

lemma held_taken: "p < np \<Longrightarrow> h j p \<le> taken np h j"
  unfolding taken_def by (rule member_le_sum) auto

text \<open>One operation that changes the value by \<open>d\<close> and the holding of the process by \<open>- d\<close>.\<close>

lemma keeps_change:
  assumes "keeps np n v i K h" and "p < np" and "j < n" and "sets K i = Some ss"
    and "int (semval (ss ! j)) + d = int w" and "int (h j p) - d = int x"
  shows "keeps np n v i (K\<lparr>sets := (sets K)(i \<mapsto> ss[j := \<lparr>semval = w, semadj = (semadj (ss ! j))(p := semadj (ss ! j) p - d)\<rparr>])\<rparr>)
    (h(j := (h j)(p := x)))"
proof -
  have k: "length ss = n" "\<And>j. j < n \<Longrightarrow> semval (ss ! j) + taken np h j = v" "\<And>j p. j < n \<Longrightarrow> semadj (ss ! j) p = int (h j p)"
    using assms(1,4) by (auto simp: keeps_def)
  have "w + taken np (h(j := (h j)(p := x))) j = v"
    using taken_upd [OF assms(2), of h j x] k(2) [OF assms(3)] assms(5,6) by linarith
  then show ?thesis using assms k by (auto simp: keeps_def nth_list_update taken_other)
qed

lemma wait_keeps:
  assumes "keeps np n v i K h" and "p < np"
  shows "fst (lib_call i (Wait p j) K) = fst (ledger_call np n v (Wait p j) h) \<and>
    keeps np n v i (snd (lib_call i (Wait p j) K)) (snd (ledger_call np n v (Wait p j) h))"
proof (cases "j < n")
  case True
  obtain ss where ss: "sets K i = Some ss" "length ss = n" "semval (ss ! j) + taken np h j = v" "v \<le> SEMVMX"
    using assms(1) True by (auto simp: keeps_def)
  show ?thesis
  proof (cases "taken np h j = v")
    case f: True
    then show ?thesis using ss True assms(1) by (simp add: sysv_semwait_def semop_def Let_def)
  next
    case False
    then have v: "0 < semval (ss ! j)" using ss(3) by simp
    then have "keeps np n v i (K\<lparr>sets := (sets K)(i \<mapsto> ss[j := \<lparr>semval = semval (ss ! j) - 1, semadj = (semadj (ss ! j))(p := semadj (ss ! j) p - (-1))\<rparr>])\<rparr>)
        (h(j := (h j)(p := h j p + 1)))"
      by (intro keeps_change [OF assms True ss(1)]) auto
    moreover have "nat (int (semval (ss ! j)) - 1) = semval (ss ! j) - 1" by simp
    ultimately show ?thesis using ss True False v by (simp add: sysv_semwait_def semop_def Let_def)
  qed
next
  case False
  then show ?thesis using assms(1) by (auto simp: keeps_def sysv_semwait_def semop_def)
qed

lemma post_keeps:
  assumes "keeps np n v i K h" and "p < np" and "gives_back n (Post p j) h"
  shows "fst (lib_call i (Post p j) K) = fst (ledger_call np n v (Post p j) h) \<and>
    keeps np n v i (snd (lib_call i (Post p j) K)) (snd (ledger_call np n v (Post p j) h))"
proof (cases "j < n")
  case True
  obtain ss where ss: "sets K i = Some ss" "length ss = n" "semval (ss ! j) + taken np h j = v" "v \<le> SEMVMX"
    using assms(1) True by (auto simp: keeps_def)
  have pos: "0 < h j p" using assms(3) True by simp
  have "int (semval (ss ! j)) + 1 \<le> int SEMVMX" using held_taken [OF assms(2), of h j] pos ss(3,4) by linarith
  moreover have "keeps np n v i (K\<lparr>sets := (sets K)(i \<mapsto> ss[j := \<lparr>semval = semval (ss ! j) + 1, semadj = (semadj (ss ! j))(p := semadj (ss ! j) p - 1)\<rparr>])\<rparr>)
      (h(j := (h j)(p := h j p - 1)))"
    using pos by (intro keeps_change [OF assms(1,2) True ss(1)]) auto
  moreover have "nat (int (semval (ss ! j)) + 1) = semval (ss ! j) + 1" by simp
  ultimately show ?thesis using ss True by (simp add: sysv_sempost_def semop_def Let_def)
next
  case False
  then show ?thesis using assms(1) by (auto simp: keeps_def sysv_sempost_def semop_def)
qed

lemma zwait_keeps:
  assumes "keeps np n v i K h"
  shows "fst (lib_call i (Zwait p j) K) = fst (ledger_call np n v (Zwait p j) h) \<and>
    keeps np n v i (snd (lib_call i (Zwait p j) K)) (snd (ledger_call np n v (Zwait p j) h))"
proof (cases "j < n")
  case True
  obtain ss where ss: "sets K i = Some ss" "length ss = n" "semval (ss ! j) + taken np h j = v" "v \<le> SEMVMX"
    using assms True by (auto simp: keeps_def)
  have eta: "\<lparr>semval = semval r, semadj = semadj r\<rparr> = r" for r :: ksem by (cases r) simp
  have same: "K\<lparr>sets := (sets K)(i \<mapsto> ss[j := \<lparr>semval = semval (ss ! j), semadj = semadj (ss ! j)\<rparr>])\<rparr> = K"
    unfolding eta list_update_id using ss(1) by (simp add: fun_upd_idem)
  show ?thesis using ss True assms same
    by (cases "taken np h j = v") (auto simp: sysv_semzwait_def semop_def Let_def)
next
  case False
  then show ?thesis using assms by (auto simp: keeps_def sysv_semzwait_def semop_def)
qed

lemma exit_keeps:
  assumes "keeps np n v i K h" and "p < np"
  shows "keeps np n v i (exit_process p K) (\<lambda>j. (h j)(p := 0))"
proof -
  obtain ss where ss: "sets K i = Some ss" "length ss = n" "v \<le> SEMVMX"
    and k: "\<And>j. j < n \<Longrightarrow> semval (ss ! j) + taken np h j = v" "\<And>j p. j < n \<Longrightarrow> semadj (ss ! j) p = int (h j p)"
    using assms(1) by (auto simp: keeps_def)
  have t: "taken np (\<lambda>j. (h j)(p := 0)) j + h j p = taken np h j" for j
    using taken_upd [OF assms(2), of h j 0] by (simp add: taken_def)
  have "semval (undo p (ss ! j)) + taken np (\<lambda>j. (h j)(p := 0)) j = v" if "j < n" for j
    using k(1) [OF that] k(2) [OF that, of p] t [of j] ss(3) by (simp add: undo_def nat_int_add)
  moreover have "semadj (undo p (ss ! j)) q = int (((h j)(p := 0)) q)" if "j < n" for j q
    using k(2) [OF that] by (simp add: undo_def)
  ultimately show ?thesis using assms(1) ss by (auto simp: keeps_def exit_process_def)
qed

lemma call_keeps:
  assumes "keeps np n v i K h" and "caller c < np" and "gives_back n c h"
  shows "fst (lib_call i c K) = fst (ledger_call np n v c h) \<and> keeps np n v i (snd (lib_call i c K)) (snd (ledger_call np n v c h))"
  using assms wait_keeps post_keeps zwait_keeps exit_keeps by (cases c) (simp_all del: lib_call.simps(1-3) ledger_call.simps(1-3))

lemma run_keeps:
  "keeps np n v i K h \<Longrightarrow> honest np n v cs h \<Longrightarrow>
   fst (run (lib_call i) cs K) = fst (run (ledger_call np n v) cs h) \<and> keeps np n v i (snd (run (lib_call i) cs K)) (snd (run (ledger_call np n v) cs h))"
proof (induction cs arbitrary: K h)
  case (Cons c cs)
  have "fst (lib_call i c K) = fst (ledger_call np n v c h)" "keeps np n v i (snd (lib_call i c K)) (snd (ledger_call np n v c h))"
    using call_keeps [OF Cons.prems(1), of c] Cons.prems(2) by auto
  then show ?case using Cons.IH [of "snd (lib_call i c K)" "snd (ledger_call np n v c h)"] Cons.prems(2) by (simp add: split_beta)
qed simp

lemma semget_keeps:
  assumes "key \<noteq> IPC_PRIVATE \<Longrightarrow> ids K key = None" and "0 < n" and "v \<le> SEMVMX" and "sysv_semget None key n v True True K = (i, K')"
  shows "keeps np n v i K' (\<lambda>_ _. 0)"
proof -
  have "v mod 65536 = v" using assms(3) by (simp add: SEMVMX_def)
  moreover have "(if key = IPC_PRIVATE then None else ids K key) = None" using assms(1) by simp
  ultimately have "sets K' i = Some (replicate n \<lparr>semval = v, semadj = (\<lambda>_. 0)\<rparr>)"
    using assms(2,3,4) by (auto simp: sysv_semget_def Let_def not_less)
  then show ?thesis using assms(3) by (simp add: keeps_def taken_def)
qed

text \<open>
  Property C27: a new set of semaphores with the value \<open>v\<close> implements the ledger.  For every sequence of calls of any number of processes that post only what they
  hold, and that may end at any moment, every call of the library returns, blocks or fails exactly when the ledger says so, in particular a wait blocks exactly when all
  \<open>v\<close> tokens are held; and after it the value of every semaphore, as \<^verbatim>\<open>sysv_semval\<close> returns it, is \<open>v\<close> less the tokens that living processes hold.
\<close>

theorem library_keeps_ledger:
  assumes "key \<noteq> IPC_PRIVATE \<Longrightarrow> ids K key = None" and "0 < n" and "v \<le> SEMVMX"
    and "sysv_semget None key n v True True K = (sem_id, K')" and "honest np n v cs (\<lambda>_ _. 0)"
  shows "\<exists>rs K'' h. run (lib_call sem_id) cs K' = (rs, K'') \<and> run (ledger_call np n v) cs (\<lambda>_ _. 0) = (rs, h) \<and>
    (\<forall>j<n. taken np h j \<le> v \<and> sysv_semval sem_id j K'' = int (v - taken np h j))"
proof -
  obtain rs K'' rs' h where r: "run (lib_call sem_id) cs K' = (rs, K'')" "run (ledger_call np n v) cs (\<lambda>_ _. 0) = (rs', h)" by fastforce
  then have "rs = rs'" "keeps np n v sem_id K'' h" using run_keeps [OF semget_keeps [OF assms(1-4)] assms(5)] by simp_all
  moreover from this(2) have "taken np h j \<le> v \<and> sysv_semval sem_id j K'' = int (v - taken np h j)" if "j < n" for j
    using that by (auto simp: keeps_def sysv_semval_def)
  ultimately show ?thesis using r by blast
qed

theorem library_keeps_ledger_witness:
  "\<exists>K'' sem_id. run (lib_call sem_id) [Wait 0 0, Wait 1 0, Wait 1 0, Post 0 0, Wait 1 0, Exit 1] (snd (sysv_semget None 7 1 2 True True \<lparr>sets = Map.empty, ids = Map.empty, next_id = 3\<rparr>)) =
     ([Done (), Done (), Blocks, Done (), Done (), Done ()], K'') \<and> sysv_semval sem_id 0 K'' = 2"
proof -
  let ?K = "\<lparr>sets = Map.empty, ids = Map.empty, next_id = 3\<rparr>" and ?cs = "[Wait 0 0, Wait 1 0, Wait 1 0, Post 0 0, Wait 1 0, Exit 1]"
  obtain sem_id K' where k: "sysv_semget None 7 1 2 True True ?K = (sem_id, K')" by fastforce
  have "honest 2 1 2 ?cs (\<lambda>_ _. 0)" by (simp add: taken_def numeral_2_eq_2)
  from library_keeps_ledger [OF _ _ _ k this] show ?thesis using k by (auto simp: SEMVMX_def taken_def numeral_2_eq_2)
qed

end
