(* ===== verification/MsgQueue.thy ===== *)
theory MsgQueue
  imports AsRelations SemChildren
begin

text \<open>
  The message queue of \<^verbatim>\<open>sysv_msg.c\<close> with its library \<^verbatim>\<open>lib_sysv_msg.c\<close> in \<^verbatim>\<open>alsp/src/5.ipc/sysv\<close>: a sender that puts the lines of a file into a queue of the
  kernel, and a receiver that takes the messages of one type.

  A queue is the list of its messages, oldest first; the limits of the kernel, the largest message and the octets in a queue, are parameters.  A copy with a negative
  length is undefined.
\<close>

subsection \<open>The library\<close>

type_synonym msg = "int \<times> string"

record msg_kern =
  queues :: "int \<rightharpoonup> msg list"
  msg_ids :: "int \<rightharpoonup> int"
  next_msg :: int

text \<open>
  \<open>ftok\<close> is the result of \<^verbatim>\<open>ftok\<close> for the path, -1 for its failure; without a path the key is given.  The private key never finds a queue.
\<close>

definition sysv_msgget :: "int option \<Rightarrow> int \<Rightarrow> bool \<Rightarrow> msg_kern \<Rightarrow> int \<times> msg_kern" where
  "sysv_msgget ftok msg_fixkey create_ok K =
     (if ftok = Some (-1) then (-1, K)
      else let msg_key = (case ftok of Some k \<Rightarrow> k | None \<Rightarrow> msg_fixkey) in
        (case (if msg_key = IPC_PRIVATE then None else msg_ids K msg_key) of
           Some i \<Rightarrow> (i, K)
         | None \<Rightarrow>
             if \<not> create_ok then (-1, K)
             else (next_msg K, K\<lparr>queues := (queues K)(next_msg K \<mapsto> []),
               msg_ids := (if msg_key = IPC_PRIVATE then msg_ids K else (msg_ids K)(msg_key \<mapsto> next_msg K)), next_msg := next_msg K + 1\<rparr>)))"

definition sysv_msgrm :: "int \<Rightarrow> msg_kern \<Rightarrow> int \<times> msg_kern" where
  "sysv_msgrm msg_id K =
     (case queues K msg_id of
        None \<Rightarrow> (-1, K)
      | Some _ \<Rightarrow> (0, K\<lparr>queues := (queues K)(msg_id := None), msg_ids := (\<lambda>k. if msg_ids K k = Some msg_id then None else msg_ids K k)\<rparr>))"

subsection \<open>Sender and receiver\<close>

definition SZ_QUEUE :: nat where "SZ_QUEUE = 16384"

record limits =
  msgmax :: nat
  msgmnb :: nat

definition queued :: "msg list \<Rightarrow> nat" where
  "queued q = sum_list (map (length \<circ> snd) q)"

text \<open>\<^verbatim>\<open>msgsnd\<close> with \<^verbatim>\<open>IPC_NOWAIT\<close>: \<open>None\<close> is its failure.\<close>

definition msgsnd :: "limits \<Rightarrow> msg \<Rightarrow> msg list \<Rightarrow> msg list option" where
  "msgsnd L m q =
     (if fst m < 1 \<or> msgmax L < length (snd m) \<or> msgmnb L < queued q + length (snd m) \<or> msgmnb L \<le> length q then None else Some (q @ [m]))"

text \<open>The octets of a character as a signed number.\<close>

definition signed_char :: "char \<Rightarrow> int" where
  "signed_char c = (if of_char c < (128::int) then of_char c else of_char c - 256)"

text \<open>A line: its first character is the type, the text begins two characters later and ends before the newline.\<close>

definition line_message :: "string \<Rightarrow> msg option" where
  "line_message rbuf = do {
     let len_mtext = int (length rbuf) - 3;
     c_assert (0 \<le> len_mtext);
     Some (signed_char (hd rbuf) - 48, take (nat len_mtext) (drop 2 rbuf))
   }"

function sender_loop :: "limits \<Rightarrow> string \<Rightarrow> msg list \<Rightarrow> msg list option" where
  "sender_loop L cs q =
     (if cs = [] then Some q
      else (case fgets (SZ_QUEUE - 1) cs of
        (rbuf, rest) \<Rightarrow> do {
          m \<leftarrow> line_message (takeWhile (\<lambda>c. c \<noteq> NUL) rbuf);
          (case msgsnd L m q of None \<Rightarrow> Some q | Some q \<Rightarrow> sender_loop L rest q)
        }))"
  by pat_completeness auto
termination
  by (relation "measure (\<lambda>(L, cs, q). length cs)") (auto simp: SZ_QUEUE_def dest: fgets_shorter [OF sym])

declare sender_loop.simps [simp del]

text \<open>A file that cannot be opened gives -1.\<close>

definition start_msq_sender :: "limits \<Rightarrow> string option \<Rightarrow> msg list \<Rightarrow> (int \<times> msg list) option" where
  "start_msq_sender L srcfile q =
     (case srcfile of
        None \<Rightarrow> Some (-1, q)
      | Some cs \<Rightarrow> do { q \<leftarrow> sender_loop L cs q; Some (0, q) })"

text \<open>\<^verbatim>\<open>msgrcv\<close>: the oldest message, the oldest of the type, or for a negative number the oldest of the smallest type up to its absolute value; \<open>None\<close> is waiting.\<close>

definition wanted :: "int \<Rightarrow> msg list \<Rightarrow> msg \<Rightarrow> bool" where
  "wanted mtype q m \<longleftrightarrow> mtype = 0 \<or> 0 < mtype \<and> fst m = mtype \<or>
     mtype < 0 \<and> fst m \<le> - mtype \<and> (\<forall>m'\<in>set q. fst m' \<le> - mtype \<longrightarrow> fst m \<le> fst m')"

fun take_first :: "(msg \<Rightarrow> bool) \<Rightarrow> msg list \<Rightarrow> (msg \<times> msg list) option" where
  "take_first P [] = None"
| "take_first P (m # q) = (if P m then Some (m, q) else map_option (\<lambda>(x, q). (x, m # q)) (take_first P q))"

definition msgrcv :: "int \<Rightarrow> msg list \<Rightarrow> (msg \<times> msg list) option" where
  "msgrcv mtype q = take_first (wanted mtype q) q"

lemma take_first_length: "take_first P q = Some (m, r) \<Longrightarrow> length r < length q"
  by (induction q arbitrary: m r) (auto split: if_splits)

text \<open>What the receiver prints until it has to wait, and what is left in the queue.\<close>

function receiver_loop :: "int \<Rightarrow> msg list \<Rightarrow> string list \<times> msg list" where
  "receiver_loop mtype q =
     (case msgrcv mtype q of
        None \<Rightarrow> ([], q)
      | Some (m, q) \<Rightarrow> (case receiver_loop mtype q of (out, q) \<Rightarrow> (snd m # out, q)))"
  by pat_completeness auto
termination
  by (relation "measure (\<lambda>(_, q). length q)") (auto simp: msgrcv_def dest: take_first_length)

declare receiver_loop.simps [simp del]

definition start_msq_receiver :: "char \<Rightarrow> msg list \<Rightarrow> string list \<times> msg list" where
  "start_msq_receiver c q = receiver_loop (signed_char c - 48) q"

text \<open>
  The program as sender: the kernel while it waits for a key at its end and the kernel when it has removed the queue.  A queue that was removed by another process fails
  the first \<^verbatim>\<open>msgsnd\<close>, like one that does not exist.
\<close>

definition sender_main :: "limits \<Rightarrow> int \<Rightarrow> bool \<Rightarrow> string option \<Rightarrow> msg_kern \<Rightarrow> (int \<times> msg_kern \<times> msg_kern) option" where
  "sender_main L ftok create_ok srcfile K =
     (case sysv_msgget (Some ftok) 0 create_ok K of
        (msg_id, K) \<Rightarrow>
          if msg_id < 0 then Some (1, K, K)
          else (case queues K msg_id of
             None \<Rightarrow> Some (0, K, K)
           | Some q \<Rightarrow> do {
               (_, q) \<leftarrow> start_msq_sender L srcfile q;
               let K = K\<lparr>queues := (queues K)(msg_id \<mapsto> q)\<rparr>;
               Some (0, K, snd (sysv_msgrm msg_id K))
             }))"

subsection \<open>Files of messages\<close>

definition message_line :: "nat \<times> string \<Rightarrow> string" where
  "message_line m = digit_char (fst m) # CHR '','' # snd m @ [nl]"

definition message_ok :: "limits \<Rightarrow> nat \<times> string \<Rightarrow> bool" where
  "message_ok L m \<longleftrightarrow> 0 < fst m \<and> fst m < 10 \<and> plain_chars (snd m) \<and> length (snd m) \<le> msgmax L \<and> length (snd m) < SZ_QUEUE - 3"

definition as_msg :: "nat \<times> string \<Rightarrow> msg" where
  "as_msg m = (int (fst m), snd m)"

lemma digit_code: "d < 10 \<Longrightarrow> signed_char (digit_char d) = 48 + int d" "d < 10 \<Longrightarrow> digit_char d \<noteq> nl" "d < 10 \<Longrightarrow> digit_char d \<noteq> NUL"
proof -
  assume d: "d < 10"
  then have c: "of_char (digit_char d) = (48 + int d)" by simp
  then show "signed_char (digit_char d) = 48 + int d" using d by (simp add: signed_char_def)
  show "digit_char d \<noteq> nl" "digit_char d \<noteq> NUL" using c by (auto dest!: arg_cong [where f = "of_char :: char \<Rightarrow> int"])
qed

lemma line_message_eq: "fst m < 10 \<Longrightarrow> line_message (message_line m) = Some (as_msg m)"
  by (simp add: line_message_def message_line_def as_msg_def digit_code)

lemma message_line_read:
  assumes "message_ok L m"
  shows "fgets (SZ_QUEUE - 1) (message_line m @ r) = (message_line m, r)" and "takeWhile (\<lambda>c. c \<noteq> NUL) (message_line m) = message_line m"
proof -
  let ?l = "digit_char (fst m) # CHR '','' # snd m"
  have l: "message_line m = ?l @ [nl]" by (simp add: message_line_def)
  have "digit_char (fst m) \<noteq> nl \<and> digit_char (fst m) \<noteq> NUL" using assms digit_code(2,3) unfolding message_ok_def by blast
  then have p1: "\<forall>c\<in>set ?l. c \<noteq> nl \<and> c \<noteq> NUL"
    using assms by (simp add: message_ok_def plain_chars_def list_all_iff)
  have "length (snd m) < SZ_QUEUE - 3" using assms unfolding message_ok_def by blast
  then have p2: "length ?l < SZ_QUEUE - 1" unfolding list.size by linarith
  from p1 have "nl \<notin> set ?l" by blast
  from fgets_line [OF this p2, of r] show "fgets (SZ_QUEUE - 1) (message_line m @ r) = (message_line m, r)" unfolding l by simp
  show "takeWhile (\<lambda>c. c \<noteq> NUL) (message_line m) = message_line m"
    unfolding l takeWhile_eq_all_conv set_append Ball_def using p1 by fastforce
qed

lemma queued_append [simp]: "queued (q @ r) = queued q + queued r"
  by (simp add: queued_def)

lemma sender_lines:
  "list_all (message_ok L) ms \<Longrightarrow> queued (q @ map as_msg ms) \<le> msgmnb L \<Longrightarrow> length q + length ms \<le> msgmnb L \<Longrightarrow>
   sender_loop L (concat (map message_line ms)) q = Some (q @ map as_msg ms)"
proof (induction ms arbitrary: q)
  case Nil
  show ?case by (simp add: sender_loop.simps)
next
  case (Cons m ms)
  have m: "message_ok L m" using Cons.prems(1) by simp
  have "msgsnd L (as_msg m) q = Some (q @ [as_msg m])"
    using m Cons.prems(2,3) by (simp add: msgsnd_def message_ok_def as_msg_def queued_def)
  moreover have "sender_loop L (concat (map message_line ms)) (q @ [as_msg m]) = Some (q @ map as_msg (m # ms))"
    using Cons.IH [of "q @ [as_msg m]"] Cons.prems by simp
  moreover have "message_line m \<noteq> []" by (simp add: message_line_def)
  moreover have "line_message (message_line m) = Some (as_msg m)" using m by (simp add: line_message_eq message_ok_def)
  ultimately show ?case
    by (subst sender_loop.simps) (simp add: message_line_read [OF m] del: One_nat_def)
qed

lemma receive_type:
  assumes "0 < t"
  shows "receiver_loop t q = (map snd (filter (\<lambda>m. fst m = t) q), filter (\<lambda>m. fst m \<noteq> t) q)"
proof (induction "length q" arbitrary: q rule: less_induct)
  case less
  have w: "wanted t q = (\<lambda>m. fst m = t)" for q using assms by (auto simp: wanted_def)
  have first: "case take_first P q of None \<Rightarrow> filter P q = [] \<and> filter (\<lambda>x. \<not> P x) q = q
      | Some (m, r) \<Rightarrow> P m \<and> filter P q = m # filter P r \<and> filter (\<lambda>x. \<not> P x) q = filter (\<lambda>x. \<not> P x) r" for P and q :: "msg list"
    by (induction q) (auto split: option.splits)
  show ?case
  proof (cases "take_first (\<lambda>m. fst m = t) q")
    case None
    then show ?thesis using first [of "\<lambda>m. fst m = t" q] by (subst receiver_loop.simps) (simp add: msgrcv_def w)
  next
    case (Some mr)
    obtain m r where mr: "mr = (m, r)" by (cases mr)
    then have "length r < length q" using take_first_length Some by blast
    then show ?thesis using less.hyps [of r] first [of "\<lambda>m. fst m = t" q] Some mr by (subst receiver_loop.simps) (simp add: msgrcv_def w)
  qed
qed

text \<open>
  Property C37: what the sender reads, the receivers print.  From a file with one message a line, of the types 1 to 9 and within the limits of the kernel, the sender
  leaves all messages in the queue in their order; then a receiver prints exactly the texts of its type, in the order of the file, and leaves the messages of all other
  types for the other receivers.
\<close>

theorem messages_delivered:
  assumes "list_all (message_ok L) ms" and "queued (map as_msg ms) \<le> msgmnb L" and "length ms \<le> msgmnb L" and "0 < t" and "t < 10"
  shows "\<exists>q. start_msq_sender L (Some (concat (map message_line ms))) [] = Some (0, q) \<and>
    start_msq_receiver (digit_char t) q =
      (map snd (filter (\<lambda>m. fst m = t) ms), map as_msg (filter (\<lambda>m. fst m \<noteq> t) ms))"
proof -
  have "start_msq_sender L (Some (concat (map message_line ms))) [] = Some (0, map as_msg ms)"
    using sender_lines [OF assms(1), of "[]"] assms(2,3) by (simp add: start_msq_sender_def)
  moreover have "receiver_loop (int t) (map as_msg ms) = (map snd (filter (\<lambda>m. fst m = t) ms), map as_msg (filter (\<lambda>m. fst m \<noteq> t) ms))"
    using assms(4) by (simp add: receive_type filter_map comp_def as_msg_def)
  ultimately show ?thesis using assms(5) by (simp add: start_msq_receiver_def digit_code)
qed

theorem messages_delivered_witness:
  "\<exists>q. start_msq_sender \<lparr>msgmax = 8192, msgmnb = 16384\<rparr> (Some (concat (map message_line [(3, ''ab''), (1, ''c''), (3, ''d'')]))) [] = Some (0, q) \<and>
    start_msq_receiver (digit_char 3) q = ([''ab'', ''d''], [(1, ''c'')])"
  using messages_delivered [of "\<lparr>msgmax = 8192, msgmnb = 16384\<rparr>" "[(3, ''ab''), (1, ''c''), (3, ''d'')]" 3]
  by (simp add: message_ok_def plain_chars_def SZ_QUEUE_def queued_def as_msg_def)

text \<open>
  At its end the sender removes the queue with every message that no receiver has taken.
\<close>

lemma sender_discards_queue:
  assumes "sender_main L ftok True srcfile K = Some (r, K1, K2)" and "0 \<le> next_msg K" and "\<forall>k i. msg_ids K k = Some i \<longrightarrow> 0 \<le> i \<and> queues K i \<noteq> None"
    and "ftok \<noteq> -1" and "ftok \<noteq> IPC_PRIVATE"
  shows "\<exists>i. msg_ids K1 ftok = Some i \<and> queues K1 i \<noteq> None \<and> queues K2 i = None \<and> msg_ids K2 ftok = None"
proof -
  obtain i J where g: "sysv_msgget (Some ftok) 0 True K = (i, J)" by fastforce
  then have i: "0 \<le> i" "msg_ids J ftok = Some i" "queues J i \<noteq> None"
    using assms(2-5) by (auto simp: sysv_msgget_def split: option.splits)
  then show ?thesis using assms(1) g
    by (auto simp: sender_main_def sysv_msgrm_def Let_def split: bind_splits option.splits intro!: exI [of _ i])
qed

text \<open>A last line without newline loses its last character, and a line of less than three characters makes the length of the copy negative.\<close>

lemma last_line_cut: "fst m < 10 \<Longrightarrow> line_message (butlast (message_line (fst m, snd m @ [c]))) = Some (int (fst m), snd m)"
  by (simp add: line_message_def message_line_def digit_code butlast_append)

lemma short_line: "length rbuf < 3 \<Longrightarrow> line_message rbuf = None"
  by (simp add: line_message_def)

end
