(* ===== verification/LockThreads.thy ===== *)
theory LockThreads
  imports SemChildren
begin

text \<open>
  Threads that share a number under a lock: \<^verbatim>\<open>pthread_rwlock.c\<close>, with one writer and four readers, and \<^verbatim>\<open>pthread_spinlock.c\<close>, with five writers, both in
  \<^verbatim>\<open>alsp/src/8.pthread\<close>.

  The two programs have the same structure, so there is one step relation, whose parameter says what a thread does with the lock and with the number.  An addition to the number is
  a load and a store, between which other threads can run.  A call of the lock returns, fails or blocks.  The locale \<open>data_lock\<close> states what a lock promises.
\<close>

subsection \<open>The threads\<close>

definition MAX_THREAD :: nat where "MAX_THREAD = 5"

text \<open>
  The state of a thread in its round \<open>k\<close>: before the lock, with the lock before the addition, between load and store, before the output, before the release.
\<close>

datatype tstate = New | Try nat | Held nat | Loaded nat int | Ready nat | Leaving nat | Returned

datatype mstate = Creating nat | Joins nat | Finished | Failed

record 'l prog =
  acquire :: "nat \<Rightarrow> 'l \<Rightarrow> 'l outcome"
  release :: "nat \<Rightarrow> 'l \<Rightarrow> 'l outcome"
  writes :: "nat \<Rightarrow> bool"
  amount :: "nat \<Rightarrow> nat \<Rightarrow> int"
  prints :: "nat \<Rightarrow> bool"

record 'l tsys =
  lock :: 'l
  i_data :: int
  thr :: "nat \<Rightarrow> tstate"
  mainst :: mstate
  out :: "(nat \<times> int) list"

text \<open>The main thread ends the process when a thread cannot be created, and after it has joined all threads in the order of their numbers.\<close>

definition alive :: "'l tsys \<Rightarrow> bool" where
  "alive s \<longleftrightarrow> mainst s \<noteq> Finished \<and> mainst s \<noteq> Failed"

inductive tstep :: "'l prog \<Rightarrow> 'l tsys \<Rightarrow> 'l tsys \<Rightarrow> bool" for P where
  create: "mainst s = Creating m \<Longrightarrow> m < MAX_THREAD \<Longrightarrow> tstep P s (s\<lparr>mainst := Creating (Suc m), thr := (thr s)(m := Try 0)\<rparr>)"
| create_failed: "mainst s = Creating m \<Longrightarrow> m < MAX_THREAD \<Longrightarrow> tstep P s (s\<lparr>mainst := Failed\<rparr>)"
| created: "mainst s = Creating MAX_THREAD \<Longrightarrow> tstep P s (s\<lparr>mainst := Joins 0\<rparr>)"
| lock: "alive s \<Longrightarrow> thr s i = Try k \<Longrightarrow> acquire P i (lock s) = Done l \<Longrightarrow>
    tstep P s (s\<lparr>lock := l, thr := (thr s)(i := if writes P i then Held k else Ready k)\<rparr>)"
| lock_failed: "alive s \<Longrightarrow> thr s i = Try k \<Longrightarrow> acquire P i (lock s) = Fails \<Longrightarrow> tstep P s (s\<lparr>thr := (thr s)(i := Returned)\<rparr>)"
| load: "alive s \<Longrightarrow> thr s i = Held k \<Longrightarrow> tstep P s (s\<lparr>thr := (thr s)(i := Loaded k (i_data s))\<rparr>)"
| store: "alive s \<Longrightarrow> thr s i = Loaded k v \<Longrightarrow> tstep P s (s\<lparr>i_data := v + amount P i k, thr := (thr s)(i := Ready k)\<rparr>)"
| print: "alive s \<Longrightarrow> thr s i = Ready k \<Longrightarrow>
    tstep P s (s\<lparr>out := (if prints P i then out s @ [(i, i_data s)] else out s), thr := (thr s)(i := Leaving k)\<rparr>)"
| unlock: "alive s \<Longrightarrow> thr s i = Leaving k \<Longrightarrow> release P i (lock s) = Done l \<Longrightarrow>
    tstep P s (s\<lparr>lock := l, thr := (thr s)(i := if Suc k < 2 then Try (Suc k) else Returned)\<rparr>)"
| unlock_failed: "alive s \<Longrightarrow> thr s i = Leaving k \<Longrightarrow> release P i (lock s) = Fails \<Longrightarrow> tstep P s (s\<lparr>thr := (thr s)(i := Returned)\<rparr>)"
| join: "mainst s = Joins m \<Longrightarrow> m < MAX_THREAD \<Longrightarrow> thr s m = Returned \<Longrightarrow> tstep P s (s\<lparr>mainst := Joins (Suc m)\<rparr>)"
| finish: "mainst s = Joins MAX_THREAD \<Longrightarrow> tstep P s (s\<lparr>mainst := Finished\<rparr>)"

inductive treach :: "'l prog \<Rightarrow> 'l \<Rightarrow> 'l tsys \<Rightarrow> bool" for P l0 where
  start: "treach P l0 \<lparr>lock = l0, i_data = 0, thr = (\<lambda>_. New), mainst = Creating 0, out = []\<rparr>"
| more: "treach P l0 s \<Longrightarrow> tstep P s s' \<Longrightarrow> treach P l0 s'"

subsection \<open>The locks and the programs\<close>

record rwlock =
  wr :: "nat option"
  rd :: "nat set"

definition pthread_rwlock_wrlock :: "nat \<Rightarrow> rwlock \<Rightarrow> rwlock outcome" where
  "pthread_rwlock_wrlock i L =
     (if wr L = Some i then Fails else if wr L \<noteq> None \<or> rd L \<noteq> {} then Blocks else Done (L\<lparr>wr := Some i\<rparr>))"

text \<open>The kind \<^verbatim>\<open>PTHREAD_RWLOCK_PREFER_WRITER_NP\<close> is documented to behave like the preference of readers: a reader waits for a writer only while it has the lock.\<close>

definition pthread_rwlock_rdlock :: "nat \<Rightarrow> rwlock \<Rightarrow> rwlock outcome" where
  "pthread_rwlock_rdlock i L =
     (if wr L = Some i then Fails else if wr L \<noteq> None then Blocks else Done (L\<lparr>rd := insert i (rd L)\<rparr>))"

definition pthread_rwlock_unlock :: "nat \<Rightarrow> rwlock \<Rightarrow> rwlock outcome" where
  "pthread_rwlock_unlock i L =
     (if wr L = Some i then Done (L\<lparr>wr := None\<rparr>) else if i \<in> rd L then Done (L\<lparr>rd := rd L - {i}\<rparr>) else Fails)"

text \<open>The thread 0 of \<^verbatim>\<open>pthread_rwlock.c\<close> adds 1, the others print the number.\<close>

definition rw_prog :: "rwlock prog" where
  "rw_prog = \<lparr>acquire = (\<lambda>i. if i = 0 then pthread_rwlock_wrlock i else pthread_rwlock_rdlock i), release = pthread_rwlock_unlock,
     writes = (\<lambda>i. i = 0), amount = (\<lambda>_ _. 1), prints = (\<lambda>i. i \<noteq> 0)\<rparr>"

definition rw_init :: rwlock where
  "rw_init = \<lparr>wr = None, rd = {}\<rparr>"

text \<open>A spin lock does not look whether its owner asks again.\<close>

definition pthread_spin_lock :: "nat \<Rightarrow> nat option \<Rightarrow> nat option outcome" where
  "pthread_spin_lock i L = (if L \<noteq> None then Blocks else Done (Some i))"

definition pthread_spin_unlock :: "nat \<Rightarrow> nat option \<Rightarrow> nat option outcome" where
  "pthread_spin_unlock i L = Done None"

text \<open>Every thread of \<^verbatim>\<open>pthread_spinlock.c\<close> adds the last two bits of its clock in each round, and prints the number.\<close>

definition spin_prog :: "(nat \<Rightarrow> nat \<Rightarrow> nat) \<Rightarrow> nat option prog" where
  "spin_prog tv_usec = \<lparr>acquire = pthread_spin_lock, release = pthread_spin_unlock,
     writes = (\<lambda>_. True), amount = (\<lambda>i k. int (tv_usec i k mod 4)), prints = (\<lambda>_. True)\<rparr>"

subsection \<open>The order of the threads and the end of every run\<close>

fun round_ok :: "tstate \<Rightarrow> bool" where
  "round_ok (Try k) \<longleftrightarrow> k < 2" | "round_ok (Held k) \<longleftrightarrow> k < 2" | "round_ok (Loaded k v) \<longleftrightarrow> k < 2"
| "round_ok (Ready k) \<longleftrightarrow> k < 2" | "round_ok (Leaving k) \<longleftrightarrow> k < 2" | "round_ok _ \<longleftrightarrow> True"

definition tshape :: "'l tsys \<Rightarrow> bool" where
  "tshape s \<longleftrightarrow> (\<forall>i\<ge>MAX_THREAD. thr s i = New) \<and> (\<forall>i. round_ok (thr s i)) \<and>
     (case mainst s of
        Creating m \<Rightarrow> m \<le> MAX_THREAD \<and> (\<forall>i<MAX_THREAD. thr s i = New \<longleftrightarrow> m \<le> i)
      | Joins m \<Rightarrow> m \<le> MAX_THREAD \<and> (\<forall>i<MAX_THREAD. thr s i \<noteq> New) \<and> (\<forall>i<m. thr s i = Returned)
      | Finished \<Rightarrow> \<forall>i<MAX_THREAD. thr s i = Returned
      | Failed \<Rightarrow> True)"

lemma tshape_bound: "tshape s \<Longrightarrow> thr s i \<noteq> New \<Longrightarrow> i < MAX_THREAD"
  by (auto simp: tshape_def not_less [symmetric])

lemma tshape_round: "tshape s \<Longrightarrow> round_ok (thr s i)"
  by (simp add: tshape_def)

lemma tshape_thread:
  assumes "tshape s" and "thr s i \<noteq> New" and "thr s i \<noteq> Returned" and "x \<noteq> New" and "round_ok x"
    and "thr s' = (thr s)(i := x)" and "mainst s' = mainst s"
  shows "tshape s'"
proof (cases "mainst s")
  case Finished
  then show ?thesis using assms tshape_bound [OF assms(1,2)] by (auto simp: tshape_def)
qed (use assms tshape_bound [OF assms(1,2)] in \<open>auto simp: tshape_def\<close>)

text \<open>Every step uses up a bounded stock.\<close>

fun thread_left :: "tstate \<Rightarrow> nat" where
  "thread_left New = 11" | "thread_left (Try k) = 5 * (2 - k)" | "thread_left (Held k) = 5 * (2 - k) - 1" | "thread_left (Loaded k v) = 5 * (2 - k) - 2"
| "thread_left (Ready k) = 5 * (2 - k) - 3" | "thread_left (Leaving k) = 5 * (2 - k) - 4" | "thread_left Returned = 0"

fun main_left :: "mstate \<Rightarrow> nat" where
  "main_left (Creating m) = 2 * MAX_THREAD + 2 - m" | "main_left (Joins m) = MAX_THREAD + 1 - m" | "main_left Finished = 0" | "main_left Failed = 0"

definition work_left :: "'l tsys \<Rightarrow> nat" where
  "work_left s = main_left (mainst s) + (\<Sum>i<MAX_THREAD. thread_left (thr s i))"

lemma sum_thread:
  fixes f :: "nat \<Rightarrow> tstate \<Rightarrow> 'b::ab_group_add"
  assumes "i < n"
  shows "(\<Sum>j<n. f j ((c(i := x)) j)) = (\<Sum>j<n. f j (c j)) - f i (c i) + f i x"
proof -
  have "(\<Sum>j\<in>{..<n} - {i}. f j ((c(i := x)) j)) = (\<Sum>j\<in>{..<n} - {i}. f j (c j))" by (rule sum.cong) auto
  then show ?thesis using assms sum.remove [of "{..<n}" i "\<lambda>j. f j ((c(i := x)) j)"] sum.remove [of "{..<n}" i "\<lambda>j. f j (c j)"] by simp
qed

lemma work_thread:
  assumes "thr s' = (thr s)(i := x)" and "mainst s' = mainst s" and "i < MAX_THREAD" and "thread_left x < thread_left (thr s i)"
  shows "work_left s' < work_left s"
  using assms sum_thread [of i MAX_THREAD "\<lambda>_ t. int (thread_left t)" "thr s" x]
  by (simp add: work_left_def flip: of_nat_sum)

text \<open>A step changes the state of the main thread or that of one other thread.\<close>

lemma thread_step:
  assumes "tstep P s s'" and "mainst s' = mainst s" and "tshape s"
  shows "\<exists>i x. i < MAX_THREAD \<and> thr s i \<noteq> New \<and> thr s i \<noteq> Returned \<and> x \<noteq> New \<and> thr s' = (thr s)(i := x) \<and>
    round_ok x \<and> thread_left x < thread_left (thr s i)"
proof -
  have here: ?thesis if "thr s i \<noteq> New" "thr s i \<noteq> Returned" "thr s' = (thr s)(i := x)" "x \<noteq> New" "round_ok x" "thread_left x < thread_left (thr s i)" for i x
    using that tshape_bound [OF assms(3)] by blast
  note r = tshape_round [OF assms(3)]
  show ?thesis using assms(1)
  proof cases
    case (lock i k l)
    then show ?thesis using r [of i] by (intro here [of i "if writes P i then Held k else Ready k"]) auto
  next
    case (lock_failed i k)
    then show ?thesis using r [of i] by (intro here [of i Returned]) auto
  next
    case (load i k)
    then show ?thesis using r [of i] by (intro here [of i "Loaded k (i_data s)"]) auto
  next
    case (store i k v)
    then show ?thesis using r [of i] by (intro here [of i "Ready k"]) auto
  next
    case (print i k)
    then show ?thesis using r [of i] by (intro here [of i "Leaving k"]) auto
  next
    case (unlock i k l)
    then show ?thesis using r [of i] by (intro here [of i "if Suc k < 2 then Try (Suc k) else Returned"]) auto
  next
    case (unlock_failed i k)
    then show ?thesis using r [of i] by (intro here [of i Returned]) auto
  qed (use assms(2) in auto)
qed

lemma tshape_step:
  assumes "tstep P s s'" and "tshape s"
  shows "tshape s'"
proof (cases "mainst s' = mainst s")
  case True
  then show ?thesis using thread_step [OF assms(1) True assms(2)] tshape_thread [OF assms(2)] by metis
next
  case False
  from assms(1) show ?thesis
  proof cases
    case (create m)
    then show ?thesis using assms(2) by (auto simp: tshape_def not_less_eq_eq)
  next
    case (join m)
    then show ?thesis using assms(2) by (auto simp: tshape_def less_Suc_eq)
  qed (use assms(2) False in \<open>auto simp: tshape_def\<close>)
qed

lemma tstep_uses:
  assumes "tstep P s s'" and "tshape s"
  shows "work_left s' < work_left s"
proof (cases "mainst s' = mainst s")
  case True
  then show ?thesis using thread_step [OF assms(1) True assms(2)] work_thread by metis
next
  case False
  from assms(1) show ?thesis
  proof cases
    case (create m)
    then have "thr s m = New" using assms(2) by (simp add: tshape_def)
    then show ?thesis using create sum_thread [of m MAX_THREAD "\<lambda>_ t. int (thread_left t)" "thr s" "Try 0"]
      by (simp add: work_left_def flip: of_nat_sum)
  qed (use False in \<open>auto simp: work_left_def\<close>)
qed

lemma treach_shape: "treach P l0 s \<Longrightarrow> tshape s"
proof (induction rule: treach.induct)
  case start
  then show ?case by (simp add: tshape_def)
qed (rule tshape_step)

subsection \<open>What a lock promises\<close>

fun inside :: "tstate \<Rightarrow> bool" where
  "inside (Held k) \<longleftrightarrow> True" | "inside (Loaded k v) \<longleftrightarrow> True" | "inside (Ready k) \<longleftrightarrow> True" | "inside (Leaving k) \<longleftrightarrow> True" | "inside _ \<longleftrightarrow> False"

fun adding :: "tstate \<Rightarrow> bool" where
  "adding (Held k) \<longleftrightarrow> True" | "adding (Loaded k v) \<longleftrightarrow> True" | "adding _ \<longleftrightarrow> False"

text \<open>The rounds in which a thread has stored and those in which it has printed.\<close>

fun stored :: "tstate \<Rightarrow> nat" where
  "stored New = 0" | "stored (Try k) = k" | "stored (Held k) = k" | "stored (Loaded k v) = k" | "stored (Ready k) = Suc k" | "stored (Leaving k) = Suc k" | "stored Returned = 2"

fun printed :: "tstate \<Rightarrow> nat" where
  "printed New = 0" | "printed (Try k) = k" | "printed (Held k) = k" | "printed (Loaded k v) = k" | "printed (Ready k) = k" | "printed (Leaving k) = Suc k" | "printed Returned = 2"

locale data_lock =
  fixes P :: "'l prog" and valid :: "'l \<Rightarrow> bool" and holders :: "'l \<Rightarrow> nat set"
  assumes acquire_free: "valid l \<Longrightarrow> holders l = {} \<Longrightarrow> \<exists>l'. acquire P i l = Done l'"
    and acquire_ok: "valid l \<Longrightarrow> i \<notin> holders l \<Longrightarrow> acquire P i l \<noteq> Fails"
    and acquire_done: "valid l \<Longrightarrow> i \<notin> holders l \<Longrightarrow> acquire P i l = Done l' \<Longrightarrow>
      valid l' \<and> holders l' = insert i (holders l) \<and> (\<forall>j\<in>holders l. \<not> writes P i \<and> \<not> writes P j)"
    and release_done: "valid l \<Longrightarrow> i \<in> holders l \<Longrightarrow> \<exists>l'. release P i l = Done l' \<and> valid l' \<and> holders l' = holders l - {i}"
    and amount_pos: "0 \<le> amount P i k"
begin

definition locks_ok :: "'l tsys \<Rightarrow> bool" where
  "locks_ok s \<longleftrightarrow> valid (lock s) \<and> holders (lock s) = {i. inside (thr s i)} \<and>
     (\<forall>i j. inside (thr s i) \<longrightarrow> inside (thr s j) \<longrightarrow> writes P i \<longrightarrow> i = j) \<and> (\<forall>i. adding (thr s i) \<longrightarrow> writes P i)"

definition added :: "nat \<Rightarrow> tstate \<Rightarrow> int" where
  "added i t = (if writes P i then sum (amount P i) {..<stored t} else 0)"

definition total :: "(nat \<Rightarrow> tstate) \<Rightarrow> int" where
  "total c = (\<Sum>i<MAX_THREAD. added i (c i))"

definition data_ok :: "'l tsys \<Rightarrow> bool" where
  "data_ok s \<longleftrightarrow> (\<forall>i k v. thr s i = Loaded k v \<longrightarrow> v = i_data s) \<and> i_data s = total (thr s) \<and>
     sorted (map snd (out s)) \<and> (\<forall>x\<in>set (out s). 0 \<le> snd x \<and> snd x \<le> i_data s) \<and>
     (\<forall>i. length (filter (\<lambda>x. fst x = i) (out s)) = (if prints P i then printed (thr s i) else 0))"

lemma locks_same:
  assumes "locks_ok s" and "lock s' = lock s" and "thr s' = (thr s)(i := x)" and "inside x = inside (thr s i)" and "adding x \<Longrightarrow> writes P i"
  shows "locks_ok s'"
proof -
  have "inside (thr s' j) = inside (thr s j)" for j using assms(3,4) by simp
  moreover have "adding (thr s' j) \<Longrightarrow> writes P j" for j using assms(1,3,5) by (auto simp: locks_ok_def split: if_splits)
  ultimately show ?thesis using assms(1,2) by (simp add: locks_ok_def)
qed

lemma locks_enter:
  assumes "locks_ok s" and "\<not> inside (thr s i)" and "acquire P i (lock s) = Done l" and "lock s' = l" and "thr s' = (thr s)(i := x)"
    and "inside x" and "adding x \<Longrightarrow> writes P i"
  shows "locks_ok s'"
proof -
  have a: "valid l \<and> holders l = insert i (holders (lock s)) \<and> (\<forall>j\<in>holders (lock s). \<not> writes P i \<and> \<not> writes P j)"
    using acquire_done [of "lock s" i l] assms(1-3) by (simp add: locks_ok_def)
  have "inside (thr s' j) \<longleftrightarrow> j = i \<or> inside (thr s j)" for j using assms(2,5,6) by simp
  moreover have "adding (thr s' j) \<Longrightarrow> writes P j" for j using assms(1,5,7) by (auto simp: locks_ok_def split: if_splits)
  ultimately show ?thesis using a assms(1,4) by (auto simp: locks_ok_def)
qed

lemma locks_leave:
  assumes "locks_ok s" and "inside (thr s i)" and "release P i (lock s) = Done l" and "lock s' = l" and "thr s' = (thr s)(i := x)" and "\<not> inside x"
  shows "locks_ok s'"
proof -
  have a: "valid l \<and> holders l = holders (lock s) - {i}"
    using release_done [of "lock s" i] assms(1-3) by (auto simp: locks_ok_def)
  have "inside (thr s' j) \<longleftrightarrow> j \<noteq> i \<and> inside (thr s j)" for j using assms(5,6) by simp
  moreover have "adding (thr s' j) \<Longrightarrow> writes P j" for j using assms(1,5,6) by (cases x) (auto simp: locks_ok_def split: if_splits)
  ultimately show ?thesis using a assms(1,4) by (auto simp: locks_ok_def)
qed

lemma locks_step:
  assumes "tstep P s s'" and "tshape s" and "locks_ok s"
  shows "locks_ok s'"
  using assms(1)
proof cases
  case (create m)
  then have "thr s m = New" using assms(2) by (simp add: tshape_def)
  then show ?thesis using create by (intro locks_same [OF assms(3), of _ m "Try 0"]) simp_all
next
  case (lock i k l)
  then show ?thesis by (intro locks_enter [OF assms(3), of i l _ "if writes P i then Held k else Ready k"]) (auto split: if_splits)
next
  case (lock_failed i k)
  then show ?thesis using acquire_ok [of "lock s" i] assms(3) by (auto simp: locks_ok_def)
next
  case (load i k)
  then have "writes P i" using assms(3) by (auto simp: locks_ok_def dest!: spec [of "\<lambda>i. adding (thr s i) \<longrightarrow> writes P i" i])
  then show ?thesis using load by (intro locks_same [OF assms(3), of _ i "Loaded k (i_data s)"]) simp_all
next
  case (store i k v)
  then show ?thesis by (intro locks_same [OF assms(3), of _ i "Ready k"]) simp_all
next
  case (print i k)
  then show ?thesis by (intro locks_same [OF assms(3), of _ i "Leaving k"]) simp_all
next
  case (unlock i k l)
  then show ?thesis by (intro locks_leave [OF assms(3), of i l _ "if Suc k < 2 then Try (Suc k) else Returned"]) auto
next
  case (unlock_failed i k)
  then show ?thesis using release_done [of "lock s" i] assms(3) by (auto simp: locks_ok_def)
qed (use assms(3) in \<open>simp_all add: locks_ok_def\<close>)

lemma total_upd: "i < MAX_THREAD \<Longrightarrow> total (c(i := x)) = total c - added i (c i) + added i x"
  unfolding total_def by (rule sum_thread)

lemma added_pos: "0 \<le> added i t"
  by (simp add: added_def sum_nonneg amount_pos)

lemma total_pos: "0 \<le> total c"
  by (simp add: total_def sum_nonneg added_pos)

lemma data_same:
  assumes "data_ok s" and "i < MAX_THREAD" and "thr s' = (thr s)(i := x)" and "i_data s' = i_data s" and "out s' = out s"
    and "writes P i \<Longrightarrow> stored x = stored (thr s i)" and "prints P i \<Longrightarrow> printed x = printed (thr s i)" and "\<And>k v. x = Loaded k v \<Longrightarrow> v = i_data s"
  shows "data_ok s'"
proof -
  have "added i x = added i (thr s i)" using assms(6) by (simp add: added_def)
  then have "total (thr s') = total (thr s)" unfolding assms(3) using total_upd [OF assms(2), of "thr s" x] by simp
  moreover have "thr s' j = Loaded k v \<Longrightarrow> v = i_data s" for j k v using assms(1,3,8) by (auto simp: data_ok_def split: if_splits)
  moreover have "prints P j \<Longrightarrow> printed (thr s' j) = printed (thr s j)" for j using assms(3,7) by auto
  ultimately show ?thesis using assms(1,4,5) by (auto simp: data_ok_def)
qed

lemma data_store:
  assumes "data_ok s" and "locks_ok s" and "tshape s" and "thr s i = Loaded k v"
  shows "data_ok (s\<lparr>i_data := v + amount P i k, thr := (thr s)(i := Ready k)\<rparr>)" (is "data_ok ?s")
proof -
  have i: "i < MAX_THREAD" using tshape_bound [OF assms(3)] assms(4) by simp
  have w: "writes P i" using assms(2,4) by (auto simp: locks_ok_def dest!: spec [of "\<lambda>i. adding (thr s i) \<longrightarrow> writes P i" i])
  have v: "v = i_data s" using assms(1,4) by (auto simp: data_ok_def)
  have "added i (Ready k) = added i (thr s i) + amount P i k" using w assms(4) by (simp add: added_def)
  then have "i_data ?s = total (thr ?s)"
    using total_upd [OF i, of "thr s" "Ready k"] v assms(1) by (simp add: data_ok_def)
  moreover have "thr ?s j \<noteq> Loaded k' v'" for j k' v'
  proof
    assume that: "thr ?s j = Loaded k' v'"
    then have "j \<noteq> i" "inside (thr s j)" "inside (thr s i)" using that assms(4) by (auto split: if_splits)
    then show False using assms(2) w by (auto simp: locks_ok_def)
  qed
  moreover have "printed (thr ?s j) = printed (thr s j)" for j using assms(4) by simp
  moreover have "snd x \<le> i_data ?s" if "x \<in> set (out s)" for x
    using that assms(1) v amount_pos [of i k] by (fastforce simp: data_ok_def)
  ultimately show ?thesis using assms(1) unfolding data_ok_def by (auto simp del: fun_upd_apply)
qed

lemma data_print:
  assumes "data_ok s" and "i < MAX_THREAD" and "thr s i = Ready k"
  shows "data_ok (s\<lparr>out := (if prints P i then out s @ [(i, i_data s)] else out s), thr := (thr s)(i := Leaving k)\<rparr>)" (is "data_ok ?s")
proof -
  have "added i (Leaving k) = added i (thr s i)" using assms(3) by (simp add: added_def)
  then have "total (thr ?s) = total (thr s)" using total_upd [OF assms(2), of "thr s" "Leaving k"] by simp
  then show ?thesis using assms(1,3) total_pos [of "thr s"] unfolding data_ok_def by (auto simp: sorted_append)
qed

lemma data_step:
  assumes "tstep P s s'" and "tshape s" and "locks_ok s" and "data_ok s"
  shows "data_ok s'"
proof -
  note r = tshape_round [OF assms(2)] and b = tshape_bound [OF assms(2)]
  show ?thesis using assms(1)
  proof cases
    case (create m)
    then have "thr s m = New" using assms(2) by (simp add: tshape_def)
    then show ?thesis using create by (intro data_same [OF assms(4), of m _ "Try 0"]) auto
  next
    case (lock i k l)
    then show ?thesis using b [of i] by (intro data_same [OF assms(4), of i _ "if writes P i then Held k else Ready k"]) (auto split: if_splits)
  next
    case (lock_failed i k)
    then show ?thesis using acquire_ok [of "lock s" i] assms(3) by (auto simp: locks_ok_def)
  next
    case (load i k)
    then show ?thesis using b [of i] by (intro data_same [OF assms(4), of i _ "Loaded k (i_data s)"]) auto
  next
    case (store i k v)
    then show ?thesis using data_store [OF assms(4,3,2)] by simp
  next
    case (print i k)
    then show ?thesis using data_print [OF assms(4), of i k] b [of i] by simp
  next
    case (unlock i k l)
    then show ?thesis using r [of i] b [of i] by (intro data_same [OF assms(4), of i _ "if Suc k < 2 then Try (Suc k) else Returned"]) (auto split: if_splits)
  next
    case (unlock_failed i k)
    then show ?thesis using release_done [of "lock s" i] assms(3) by (auto simp: locks_ok_def)
  qed (use assms(4) in \<open>auto simp: data_ok_def\<close>)
qed

lemma treach_inv:
  assumes "valid l0" and "holders l0 = {}"
  shows "treach P l0 s \<Longrightarrow> locks_ok s \<and> data_ok s"
proof (induction rule: treach.induct)
  case start
  have "added i New = 0" for i by (auto simp: added_def)
  then show ?case using assms by (simp add: locks_ok_def data_ok_def total_def)
next
  case (more s s')
  then show ?case using locks_step data_step treach_shape [OF more.hyps(1)] by blast
qed

text \<open>A live program can always take a step: a thread with the lock goes on, and a free lock can be had.\<close>

lemma live_step:
  assumes "locks_ok s" and "tshape s" and "alive s"
  shows "\<exists>s'. tstep P s s'"
proof (cases "\<exists>i. inside (thr s i)")
  case True
  then obtain i where i: "inside (thr s i)" by blast
  then obtain l where "release P i (lock s) = Done l" using release_done [of "lock s" i] assms(1) by (auto simp: locks_ok_def)
  then show ?thesis using i tstep.load [OF assms(3), of i] tstep.store [OF assms(3), of i] tstep.print [OF assms(3), of i]
      tstep.unlock [OF assms(3), of i] by (cases "thr s i") auto
next
  case False
  then have free: "acquire P i (lock s) \<noteq> Blocks \<and> acquire P i (lock s) \<noteq> Fails" for i
    using acquire_free [of "lock s" i] assms(1) by (auto simp: locks_ok_def)
  show ?thesis
  proof (cases "\<exists>i k. thr s i = Try k")
    case True
    then obtain i k where "thr s i = Try k" by blast
    then show ?thesis using free [of i] tstep.lock [OF assms(3), of i k P] by (cases "acquire P i (lock s)") auto
  next
    case f: False
    have rest: "thr s i = New \<or> thr s i = Returned" for i using False f by (cases "thr s i") (auto dest: spec [of _ i])
    show ?thesis
    proof (cases "mainst s")
      case (Creating m)
      then have "m \<le> MAX_THREAD" using assms(2) by (simp add: tshape_def)
      then show ?thesis using Creating tstep.create [of s m P] tstep.created [of s P] by (cases "m = MAX_THREAD") auto
    next
      case (Joins m)
      then have "m \<le> MAX_THREAD" "m < MAX_THREAD \<Longrightarrow> thr s m = Returned" using assms(2) rest [of m] by (auto simp: tshape_def)
      then show ?thesis using Joins tstep.join [of s m P] tstep.finish [of s P] by (cases "m = MAX_THREAD") auto
    qed (use assms(3) in \<open>simp_all add: alive_def\<close>)
  qed
qed

lemma finished_data:
  assumes "data_ok s" and "tshape s" and "mainst s = Finished"
  shows "i_data s = (\<Sum>i<MAX_THREAD. if writes P i then amount P i 0 + amount P i 1 else 0)"
    and "i < MAX_THREAD \<Longrightarrow> prints P i \<Longrightarrow> length (filter (\<lambda>x. fst x = i) (out s)) = 2"
proof -
  have ret: "thr s i = Returned" if "i < MAX_THREAD" for i using assms(2,3) that by (simp add: tshape_def)
  have "i_data s = total (thr s)" using assms(1) by (simp add: data_ok_def)
  also have "\<dots> = (\<Sum>i<MAX_THREAD. if writes P i then amount P i 0 + amount P i 1 else 0)"
    unfolding total_def by (rule sum.cong) (auto simp: ret added_def numeral_2_eq_2)
  finally show "i_data s = (\<Sum>i<MAX_THREAD. if writes P i then amount P i 0 + amount P i 1 else 0)" .
  show "length (filter (\<lambda>x. fst x = i) (out s)) = 2" if "i < MAX_THREAD" "prints P i"
    using assms(1) that ret [of i] by (auto simp: data_ok_def)
qed

definition result :: int where
  "result = (\<Sum>i<MAX_THREAD. if writes P i then amount P i 0 + amount P i 1 else 0)"

lemma total_bound:
  assumes "tshape s"
  shows "total (thr s) \<le> result"
  unfolding total_def result_def
proof (rule sum_mono)
  fix i
  have "stored (thr s i) \<le> 2" using tshape_round [OF assms, of i] by (cases "thr s i") auto
  then have "sum (amount P i) {..<stored (thr s i)} \<le> sum (amount P i) {..<2}" by (intro sum_mono2) (auto simp: amount_pos)
  then show "added i (thr s i) \<le> (if writes P i then amount P i 0 + amount P i 1 else 0)" by (simp add: added_def numeral_2_eq_2)
qed

text \<open>What holds in every reachable state of a program with such a lock.\<close>

lemma program_safe:
  assumes "valid l0" and "holders l0 = {}" and "treach P l0 s"
  shows "inside (thr s i) \<Longrightarrow> inside (thr s j) \<Longrightarrow> writes P i \<Longrightarrow> i = j"
    and "sorted (map snd (out s))" and "x \<in> set (out s) \<Longrightarrow> 0 \<le> snd x \<and> snd x \<le> result"
    and "tstep P s s' \<Longrightarrow> work_left s' < work_left s"
proof -
  note sh = treach_shape [OF assms(3)] and inv = treach_inv [OF assms]
  show "i = j" if "inside (thr s i)" "inside (thr s j)" "writes P i" using inv that by (auto simp: locks_ok_def)
  show "sorted (map snd (out s))" using inv by (simp add: data_ok_def)
  show "0 \<le> snd x \<and> snd x \<le> result" if "x \<in> set (out s)" using that inv total_bound [OF sh] by (fastforce simp: data_ok_def)
  show "work_left s' < work_left s" if "tstep P s s'" by (rule tstep_uses [OF that sh])
qed

lemma program_ends:
  assumes "valid l0" and "holders l0 = {}" and "treach P l0 s"
  shows "(\<exists>s'. tstep P s s') \<or> mainst s = Failed \<or>
    mainst s = Finished \<and> i_data s = result \<and> valid (lock s) \<and> holders (lock s) = {} \<and>
    (\<forall>i. i < MAX_THREAD \<and> prints P i \<longrightarrow> length (filter (\<lambda>x. fst x = i) (out s)) = 2)"
proof (cases "alive s")
  case True
  then show ?thesis using live_step treach_inv [OF assms] treach_shape [OF assms(3)] by blast
next
  case False
  note sh = treach_shape [OF assms(3)] and inv = treach_inv [OF assms]
  have "holders (lock s) = {}" if f: "mainst s = Finished"
  proof -
    have "\<not> inside (thr s i)" for i using sh f by (cases "i < MAX_THREAD") (simp_all add: tshape_def)
    then show ?thesis using inv by (simp add: locks_ok_def)
  qed
  then show ?thesis using False inv finished_data [OF _ sh] by (auto simp: alive_def locks_ok_def result_def)
qed

end

subsection \<open>The reader-writer lock\<close>

definition rw_valid :: "rwlock \<Rightarrow> bool" where
  "rw_valid L \<longleftrightarrow> 0 \<notin> rd L \<and> (wr L = None \<or> wr L = Some 0 \<and> rd L = {})"

definition rw_holders :: "rwlock \<Rightarrow> nat set" where
  "rw_holders L = rd L \<union> set_option (wr L)"

lemmas rw_defs = rw_prog_def pthread_rwlock_wrlock_def pthread_rwlock_rdlock_def pthread_rwlock_unlock_def rw_valid_def rw_holders_def

interpretation rw: data_lock rw_prog rw_valid rw_holders
  by unfold_locales (auto simp: rw_defs split: if_splits intro!: gr0I)

text \<open>
  Property C26: the program \<^verbatim>\<open>pthread_rwlock.c\<close>, in every interleaving.  While the writer has the lock no reader has it; the numbers that the readers print never fall and lie
  between 0 and 2; every step uses up a bounded stock, so every run ends; and a run ends only when a thread could not be created, or with all threads joined,
  the number 2, two outputs of each reader and a free lock.
\<close>

theorem rwlock_program:
  assumes "treach rw_prog rw_init s"
  shows "(\<forall>i. inside (thr s 0) \<and> inside (thr s i) \<longrightarrow> i = 0) \<and>
    sorted (map snd (out s)) \<and> (\<forall>x\<in>set (out s). 0 \<le> snd x \<and> snd x \<le> 2) \<and>
    (\<forall>s'. tstep rw_prog s s' \<longrightarrow> work_left s' < work_left s) \<and>
    ((\<exists>s'. tstep rw_prog s s') \<or> mainst s = Failed \<or>
     mainst s = Finished \<and> i_data s = 2 \<and> lock s = rw_init \<and> (\<forall>i\<in>{1,2,3,4}. length (filter (\<lambda>x. fst x = i) (out s)) = 2))"
proof -
  have i: "rw_valid rw_init" "rw_holders rw_init = {}" by (simp_all add: rw_init_def rw_valid_def rw_holders_def)
  have two: "rw.result = 2" unfolding rw.result_def by (simp add: rw_prog_def MAX_THREAD_def)
  have free: "L = rw_init" if "rw_valid L" "rw_holders L = {}" for L using that by (cases L) (simp add: rw_init_def rw_holders_def)
  have w: "writes rw_prog 0" "\<And>i. prints rw_prog i \<longleftrightarrow> i \<noteq> 0" by (simp_all add: rw_prog_def)
  note safe = rw.program_safe [OF i assms]
  have "i = 0" if "inside (thr s 0)" "inside (thr s i)" for i using safe(1) [OF that w(1)] by simp
  moreover note safe(2)
  moreover have "0 \<le> snd x \<and> snd x \<le> 2" if "x \<in> set (out s)" for x using safe(3) [OF that] two by simp
  moreover note safe(4)
  moreover have "(\<exists>s'. tstep rw_prog s s') \<or> mainst s = Failed \<or>
     mainst s = Finished \<and> i_data s = 2 \<and> lock s = rw_init \<and> (\<forall>i\<in>{1,2,3,4}. length (filter (\<lambda>x. fst x = i) (out s)) = 2)"
    using rw.program_ends [OF i assms] free two by (auto simp: w MAX_THREAD_def)
  ultimately show ?thesis by blast
qed

theorem rwlock_program_witness:
  "\<exists>s. treach rw_prog rw_init s \<and> thr s 0 = Try 0 \<and> (\<exists>s'. tstep rw_prog s s')"
proof -
  let ?s = "\<lparr>lock = rw_init, i_data = 0, thr = (\<lambda>_. New), mainst = Creating 0, out = []\<rparr>"
  let ?t = "?s\<lparr>mainst := Creating (Suc 0), thr := (thr ?s)(0 := Try 0)\<rparr>"
  have "tstep rw_prog ?s ?t" by (rule tstep.create) (simp_all add: MAX_THREAD_def)
  then have r: "treach rw_prog rw_init ?t" using treach.more [OF treach.start] by simp
  then show ?thesis using rwlock_program [OF r] by (intro exI [of _ ?t]) auto
qed

subsection \<open>The spin lock\<close>

interpretation spin: data_lock "spin_prog tv_usec" "\<lambda>_. True" set_option for tv_usec
  by unfold_locales (auto simp: spin_prog_def pthread_spin_lock_def pthread_spin_unlock_def split: if_splits)

definition seed_sum :: "(nat \<Rightarrow> nat \<Rightarrow> nat) \<Rightarrow> int" where
  "seed_sum tv_usec = (\<Sum>i<MAX_THREAD. int (tv_usec i 0 mod 4) + int (tv_usec i 1 mod 4))"

text \<open>
  Property C25: the program \<^verbatim>\<open>pthread_spinlock.c\<close>, in every interleaving and for all clocks.  At most one thread has the lock, although an addition is a load and a store no addition is lost:
  at the end the number is the sum of all amounts of all threads; the printed numbers never fall and are at most that sum; every run ends, and ends only when a
  thread could not be created, or with all threads joined and two outputs of each thread.
\<close>

theorem spinlock_program:
  assumes "treach (spin_prog tv_usec) None s"
  shows "(\<forall>i j. inside (thr s i) \<and> inside (thr s j) \<longrightarrow> i = j) \<and>
    sorted (map snd (out s)) \<and> (\<forall>x\<in>set (out s). 0 \<le> snd x \<and> snd x \<le> seed_sum tv_usec) \<and>
    (\<forall>s'. tstep (spin_prog tv_usec) s s' \<longrightarrow> work_left s' < work_left s) \<and>
    ((\<exists>s'. tstep (spin_prog tv_usec) s s') \<or> mainst s = Failed \<or>
     mainst s = Finished \<and> i_data s = seed_sum tv_usec \<and> lock s = None \<and> (\<forall>i<MAX_THREAD. length (filter (\<lambda>x. fst x = i) (out s)) = 2))"
proof -
  have res: "spin.result tv_usec = seed_sum tv_usec" unfolding spin.result_def seed_sum_def by (simp add: spin_prog_def)
  have w: "\<And>i. writes (spin_prog tv_usec) i" "\<And>i. prints (spin_prog tv_usec) i" by (simp_all add: spin_prog_def)
  note safe = spin.program_safe [OF TrueI _ assms, simplified]
  have "i = j" if "inside (thr s i)" "inside (thr s j)" for i j using safe(1) [OF that w(1)] .
  moreover note safe(2)
  moreover have "0 \<le> snd x \<and> snd x \<le> seed_sum tv_usec" if "x \<in> set (out s)" for x using safe(3) [OF that] res by simp
  moreover note safe(4)
  moreover have "(\<exists>s'. tstep (spin_prog tv_usec) s s') \<or> mainst s = Failed \<or>
     mainst s = Finished \<and> i_data s = seed_sum tv_usec \<and> lock s = None \<and> (\<forall>i<MAX_THREAD. length (filter (\<lambda>x. fst x = i) (out s)) = 2)"
    using spin.program_ends [OF TrueI _ assms] res by (auto simp: w)
  ultimately show ?thesis by blast
qed

theorem spinlock_program_witness:
  "\<exists>s. treach (spin_prog (\<lambda>i k. i + k)) None s \<and> thr s 0 = Held 0 \<and> lock s = Some 0 \<and> (\<exists>s'. tstep (spin_prog (\<lambda>i k. i + k)) s s')"
proof -
  let ?P = "spin_prog (\<lambda>i k. i + k)"
  let ?s = "\<lparr>lock = (None :: nat option), i_data = 0, thr = (\<lambda>_. New), mainst = Creating 0, out = []\<rparr>"
  let ?t = "?s\<lparr>mainst := Creating (Suc 0), thr := (thr ?s)(0 := Try 0)\<rparr>"
  let ?u = "?t\<lparr>lock := Some 0, thr := (thr ?t)(0 := Held 0)\<rparr>"
  have "tstep ?P ?s ?t" by (rule tstep.create) (simp_all add: MAX_THREAD_def)
  moreover have "tstep ?P ?t ?u"
    using tstep.lock [of ?t 0 0 ?P "Some 0"] by (simp add: alive_def spin_prog_def pthread_spin_lock_def)
  ultimately have r: "treach ?P None ?u" by (rule treach.more [OF treach.more [OF treach.start]])
  then show ?thesis using spinlock_program [OF r] by (intro exI [of _ ?u]) auto
qed

end
