(* ===== verification/Spec2Isabelle.thy ===== *)
theory Spec2Isabelle
  imports RouteFile DigitTrie ArraySearch KeyUtils KeyParts CryptoApi GameOfChance EventPool SelectServer JobQueue TinyWeb
    PasswordMatrix AsRelations PacketDump Money DnsEcdsa SemLedger MsgQueue LockThreads
begin

text \<open>
  A verification library for C programs of the repository: a patricia trie for address prefixes and the databases
  compared with it, the BGPsec crypto library with its loader, the elliptic-curve keys of a name server, servers with threads, poll and
  select, a job queue of threads, processes with semaphores and a message queue, and programs of a book: a game, a note file, a web server, a
  password matrix and a packet decoder; and utility code.

  \<^bold>\<open>Conventions.\<close>  The model follows the source function by function and keeps its names.  Memory is explicit where
  the code shares or frees it: stores map addresses to objects, a pointer is an \<open>option\<close> of an address with
  \<open>NULL\<close> for the null pointer, and an operation that the C language leaves undefined (a null or freed pointer, an
  index outside an array, a second free) or that never returns has the outcome \<open>None\<close>.  A theorem that an operation
  gives \<open>Some\<close> therefore says that it is memory safe and returns.  Errors of the program are the result
  codes of the source.  Fixed-width integers are words where the code depends on their width.  Printed and logged
  text is not kept, apart from the text of a prefix and a log line.

  \<^bold>\<open>Prelude.\<close>  The option monad with its splitting rules, stores, bounded copies, octets and numbers in network byte
  order, and the lemma collections of the components.

  \<^bold>\<open>The trie\<close> (\<^verbatim>\<open>src/Programming/Database_perf_test\<close>: \<^verbatim>\<open>patricia.c\<close>, \<^verbatim>\<open>patricia.h\<close>, \<^verbatim>\<open>demo.c\<close>).
  \<^item> \<open>Prefix\<close>: addresses and prefixes, their parser and printer, reference counts, and the masked comparison,
    which is shown equivalent to the comparison of the leading bits; printing and parsing are inverse.
  \<^item> \<open>Patricia\<close>: the state (nodes, tree headers and prefixes in stores) and all operations on trees.
  \<^item> \<open>PatriciaTree\<close>: the abstraction of the linked nodes to a binary tree, and its invariant (parent pointers,
    rising bit positions, bits of the entries, no glue node with fewer than two children).
  \<^item> \<open>PatriciaSearch\<close>, \<open>PatriciaInsert\<close>, \<open>PatriciaRemove\<close>, \<open>PatriciaWalk\<close>: what the loops of each operation do
    to the abstract tree, and that they end.
  \<^item> \<open>PatriciaDb\<close>: the locale of a prefix database, its interpretation on the code, and the main properties: best
    search is longest-prefix match, insertion and removal keep the invariant and change exactly one entry.
  \<^item> \<open>PatriciaUse\<close>: compositions of the operations, the walk, the release of a tree and the demonstration program.
  \<^item> \<open>RouteFile\<close> (\<^verbatim>\<open>perf_test.c\<close>): a file of routes becomes a routing table with longest-prefix match.

  \<^bold>\<open>The other databases\<close> (the same directory).
  \<^item> \<open>DigitTrie\<close> (\<^verbatim>\<open>trie_test.c\<close>): a trie over digits in a store.  The locale \<open>word_set\<close> is the contract of a set of
    words; the trie finds exactly what was inserted, and its release frees every node.
  \<^item> \<open>ArraySearch\<close> (\<^verbatim>\<open>array_test.c\<close>): binary search in a sorted array.

  \<^bold>\<open>The crypto library\<close> (\<^verbatim>\<open>src/Programming/openssl_util_code\<close>: \<^verbatim>\<open>bgpsec_openssl-VariousKeyManipulation.c\<close>,
  \<^verbatim>\<open>srxcryptoapi-VariousKeyManipulation.c\<close>, \<^verbatim>\<open>crypto_utils.c\<close>).  OpenSSL, uthash, libconfig, the dynamic linker and the file system are not
  part of the repository; they are records of functions that the definitions take as an argument.
  \<^item> \<open>DerKey\<close>, \<open>SkiPath\<close>: the classification of keys in DER, key file names, the log line.
  \<^item> \<open>BgpsecLib\<close>: the state of the library and the parameter \<open>openssl\<close>.
  \<^item> \<open>BgpsecVerify\<close>, \<open>BgpsecSign\<close>: validation of a path, exact for well-formed updates, and the three signing
    requests; what is signed is accepted.  The length field, the list of segments and the signature length come from
    outside, and the theorems show what goes wrong with them.
  \<^item> \<open>KeyStore\<close>: registration, search and release of keys.
  \<^item> \<open>KeyLoad\<close>: \<^verbatim>\<open>sca_loadKey\<close> and its helpers, a refinement of a short specification of the files of a key; a loaded
    key can be registered and signs.
  \<^item> \<open>KeyUtils\<close> (\<^verbatim>\<open>crypto_utils.c\<close>): a later version of the same loader, a refinement of its own specification at every level of
    the log; without a certificate it returns a key that is known to everybody.
  \<^item> \<open>KeyParts\<close>: key containers with reference counts, and the parameters of a key as an ASN.1 value.
  \<^item> \<open>CryptoApi\<close>: the loader that binds the methods of a configured library, and its life cycle.
  \<^item> \<open>DnsEcdsa\<close> (\<^verbatim>\<open>ecdsa_link.c\<close>): the keys of a name server, over the containers of \<open>KeyParts\<close>.  Signatures, public keys in DNS and private keys
    in files survive the way out and back; the references of a key are given back on every path but one.

  \<^bold>\<open>The servers\<close> (\<^verbatim>\<open>alsp\<close> under \<^verbatim>\<open>src/Programming/Advanced Linux System & Network Programming Examples\<close>; the kernel is a
  parameter: what \<^verbatim>\<open>accept\<close>, \<^verbatim>\<open>poll\<close>, \<^verbatim>\<open>select\<close> and \<^verbatim>\<open>recv\<close> return).
  \<^item> \<open>EventQueue\<close> (\<^verbatim>\<open>src/appendix/io_epoll\<close>, \<^verbatim>\<open>include\<close>): the queue of a worker.  The locale \<open>fifo_queue\<close> is the contract of a
    queue; its interpretation has the bound of 200 events taken, because the code never sets the start index back.
  \<^item> \<open>EventPool\<close>: the connections, the scheduler, and the threads as interleaved steps.  Invariants hold in all
    reachable states; two reachable states show races.
  \<^item> \<open>SocketList\<close>: the loop that removes a socket from an array, and the locale \<open>socket_list\<close>, the contract of the lists of
    sockets: a bounded set whose removal moves the last element.
  \<^item> \<open>PollServer\<close> (\<^verbatim>\<open>src/7.io_multiplexing/io_poll.c\<close>), \<open>SelectServer\<close> (\<^verbatim>\<open>io_select.c\<close>, \<^verbatim>\<open>io_select2.c\<close>): interpretations of the locale
    on both lists, the rounds of the main loops, and the reachable states of the poll server.  A round of the poll server
    reads every readable socket once; the select servers can pass over one socket for each one that they remove.
  \<^item> \<open>JobQueue\<close> (\<^verbatim>\<open>src/10.realtime/pthread_cond_rts.c\<close>): a producer and consumers with a mutex and a condition
    variable as interleaved steps: mutual exclusion, counting, order, and that no wake-up is lost.
  \<^item> \<open>LockThreads\<close> (\<^verbatim>\<open>src/8.pthread/pthread_rwlock.c\<close>, \<^verbatim>\<open>pthread_spinlock.c\<close>): threads that share a number.  The locale \<open>data_lock\<close> is the contract of a
    lock with readers and writers; both programs exclude, lose no addition and come to an end.

  \<^bold>\<open>Processes\<close> (\<^verbatim>\<open>src/5.ipc\<close> in the same directory; the kernel is an explicit state).
  \<^item> \<open>SemChildren\<close> (\<^verbatim>\<open>sysv/lib_sysv_sem.c\<close>, \<^verbatim>\<open>sysv/sysv_sem.c\<close>, \<^verbatim>\<open>posix/posix_nameless_sem.c\<close>): children in a critical section as interleaved
    steps.  The locale \<open>semaphore\<close> gives mutual exclusion and is interpreted on both semaphores; \<open>robust_semaphore\<close>, which gives back the count
    of a dead process and therefore never gets stuck, holds for the System V semaphore, and the other program has a reachable deadlock.
  \<^item> \<open>SemLedger\<close>: the library implements a ledger of the tokens that processes hold, for all sequences of calls and ends of processes.
  \<^item> \<open>MsgQueue\<close> (\<^verbatim>\<open>sysv/lib_sysv_msg.c\<close>, \<^verbatim>\<open>sysv/sysv_msg.c\<close>): the lines of a file through a queue to the receivers of their types.

  \<^bold>\<open>Programs of a book\<close> (\<^verbatim>\<open>src/Programming/hacking_the_art_of_exploitation_booksrc\<close>).
  \<^item> \<open>GameOfChance\<close> (\<^verbatim>\<open>game_of_chance.c\<close>): the menu, three games, the accounts in the data file; the input is a list of characters and
    the random numbers are a parameter.
  \<^item> \<open>Notes\<close> (\<^verbatim>\<open>notetaker.c\<close>, \<^verbatim>\<open>notesearch.c\<close>): the note file; what is written for a user and contains the keyword is what the user finds, and how
    a note is forged.
  \<^item> \<open>TinyWeb\<close> (\<^verbatim>\<open>tinyweb.c\<close>, \<^verbatim>\<open>hacking-network.h\<close>): one request and its answer, whatever the calls of the system
    return, and the overflow of the request buffer.
  \<^item> \<open>PasswordMatrix\<close> (\<^verbatim>\<open>ppm_gen.c\<close>, \<^verbatim>\<open>ppm_crack.c\<close>): the matrix of bits over all passwords of four characters, and that the
    search with it is complete.
  \<^item> \<open>PacketDump\<close> (\<^verbatim>\<open>decode_sniff.c\<close>, \<^verbatim>\<open>hacking.h\<close>): the headers of a captured packet and the hexadecimal dump of its data; what is sent is
    what is printed, and the read behind a packet that was captured in part.

  \<^bold>\<open>Utility code\<close> (\<^verbatim>\<open>src/Programming/Util_Codes\<close>).
  \<^item> \<open>AsRelations\<close> (\<^verbatim>\<open>fileOpenExample_with_strsep.c\<close>): the search in a file of relations between autonomous systems, from text to result, and
    the line that writes behind the array of fields.
  \<^item> \<open>Money\<close> (\<^verbatim>\<open>POSIX_printf_3digit_commas.c\<close>): \<^verbatim>\<open>strmoney\<close>, with the exact bound up to which it stays inside its buffer.

  \<^bold>\<open>Loops.\<close>  No definition uses fuel.  Loops over pointers, and the menu of the game, which end only on well-formed
  structures or input, are \<^theory_text>\<open>partial_function\<close>s, so that not returning is \<open>None\<close>; the properties show that
  they give a result.  All other loops are structural or have a termination proof; the prompts of the game end because
  each try consumes input, and input that ends inside a prompt has the outcome \<open>None\<close>.

  \<^bold>\<open>Not modelled.\<close>  The branches of the preprocessor that are switched off in the source, among them the libltdl
  build of the loader and the receipt of out-of-band data in the poll server; \<^verbatim>\<open>getEcKeyFromHex\<close>, which ignores its arguments; the other
  OpenSSL test programs, which call the library in a fixed order; the table of functions at the end of \<^verbatim>\<open>ecdsa_link.c\<close>; the test of the hash
  table, whose macros are not in the repository; the attack tools of the book; the other lecture examples, which are thin layers over
  system calls, and the older copy of them; the set-up of the listening sockets; time measurement, back traces and build tests.  The C
  locale, signals and the failure of the mutex functions are left out.
\<close>

end
